(* ===== verification/Prelude.thy ===== *)
theory Prelude
  imports Main "HOL-Library.Monad_Syntax" "HOL-Library.Word"
begin

text \<open>
  Shared vocabulary of the development: the C++ integer conversions the sources rely on
  (\<^verbatim>\<open>size_t\<close> arithmetic modulo \<open>2 ^ 64\<close>, the narrowing of a \<^verbatim>\<open>size_t\<close> to an
  \<^verbatim>\<open>int\<close>, truncating division), the pieces of the standard library they call
  (\<^verbatim>\<open>std::find\<close>, \<^verbatim>\<open>std::search\<close> for a two-byte needle, \<^verbatim>\<open>isspace\<close>,
  \<^verbatim>\<open>%d\<close> formatting), monadic iteration over an option-valued operation, and the list
  lemmas the components share. A result \<open>None\<close> of a partial operation stands for a call that
  does not return normally: undefined behaviour, an exception, an abort or a loop that never
  ends; each theory says which.
\<close>

named_theorems buf_defs \<open>definitions of the operations on the network buffer\<close>
named_theorems http_defs \<open>definitions of the HTTP components\<close>
named_theorems poll_defs \<open>definitions of the channel and poller operations\<close>
named_theorems conn_defs \<open>definitions of the connection handlers\<close>
named_theorems log_defs \<open>definitions of the logging components\<close>

section \<open>Integer conversions\<close>

type_synonym size_t = nat

definition usub :: "size_t \<Rightarrow> size_t \<Rightarrow> size_t" where
  "usub a b = (if b \<le> a then a - b else 2 ^ 64 + a - b)"

definition uadd :: "size_t \<Rightarrow> size_t \<Rightarrow> size_t" where
  "uadd a b = (a + b) mod 2 ^ 64"

definition int_of_size :: "size_t \<Rightarrow> int" where
  "int_of_size n =
     (let m = int n mod 2 ^ 32 in if m < 2 ^ 31 then m else m - 2 ^ 32)"

definition size_of_int :: "int \<Rightarrow> size_t" where
  "size_of_int i = nat (i mod 2 ^ 64)"

definition c_div :: "int \<Rightarrow> int \<Rightarrow> int" where
  "c_div a b = sgn a * sgn b * (\<bar>a\<bar> div \<bar>b\<bar>)"

definition c_mod :: "int \<Rightarrow> int \<Rightarrow> int" where
  "c_mod a b = a - b * c_div a b"

text \<open>The value of an \<^verbatim>\<open>int\<close> after an operation that wraps around.\<close>

definition int32 :: "int \<Rightarrow> int" where "int32 i = signed_take_bit 31 i"

lemma int32_id [simp]: "- (2 ^ 31) \<le> i \<Longrightarrow> i < 2 ^ 31 \<Longrightarrow> int32 i = i"
  unfolding int32_def by (rule signed_take_bit_int_eq_self) simp_all

lemma usub_le [simp]: "b \<le> a \<Longrightarrow> usub a b = a - b"
  by (simp add: usub_def)

lemma uadd_small [simp]: "a + b < 2 ^ 64 \<Longrightarrow> uadd a b = a + b"
  by (simp add: uadd_def)

lemma int_of_size_small [simp]: "n < 2 ^ 31 \<Longrightarrow> int_of_size n = int n"
  by (simp add: int_of_size_def Let_def)

lemma size_of_int_small [simp]: "0 \<le> i \<Longrightarrow> i < 2 ^ 64 \<Longrightarrow> size_of_int i = nat i"
  by (simp add: size_of_int_def)

lemma size_of_int_of_size [simp]: "n < 2 ^ 31 \<Longrightarrow> size_of_int (int_of_size n) = n"
  by simp

lemma c_div_cmod: "b * c_div a b + c_mod a b = a"
  by (simp add: c_mod_def)

lemma c_div_nonneg [simp]: "0 \<le> a \<Longrightarrow> 0 < b \<Longrightarrow> c_div a b = a div b"
  by (cases "a = 0") (simp_all add: c_div_def sgn_if)

lemma c_mod_nonneg [simp]: "0 \<le> a \<Longrightarrow> 0 < b \<Longrightarrow> c_mod a b = a mod b"
  by (simp add: c_mod_def minus_mult_div_eq_mod)

lemma c_div_neg [simp]: "a < 0 \<Longrightarrow> 0 < b \<Longrightarrow> c_div a b = - ((- a) div b)"
  by (simp add: c_div_def sgn_if)

lemma c_mod_neg [simp]: "a < 0 \<Longrightarrow> 0 < b \<Longrightarrow> c_mod a b = - ((- a) mod b)"
  by (simp add: c_mod_def minus_div_mult_eq_mod [symmetric] algebra_simps)

section \<open>Searching in byte ranges\<close>

definition CR :: char where "CR = CHR 0x0D"
definition LF :: char where "LF = CHR 0x0A"

abbreviation CRLF :: string where "CRLF \<equiv> [CR, LF]"

definition find_char :: "char \<Rightarrow> string \<Rightarrow> nat" where
  "find_char c s = length (takeWhile (\<lambda>x. x \<noteq> c) s)"

fun search2 :: "char \<Rightarrow> char \<Rightarrow> string \<Rightarrow> nat" where
  "search2 a b (x # y # s) = (if x = a \<and> y = b then 0 else Suc (search2 a b (y # s)))"
| "search2 a b [x] = 1"
| "search2 a b [] = 0"

definition isspace :: "char \<Rightarrow> bool" where
  "isspace c \<longleftrightarrow> c \<in> {CHR '' '', CHR 0x09, CHR 0x0A, CHR 0x0B, CHR 0x0C, CHR 0x0D}"

lemma CR_neq_LF [simp]: "CR \<noteq> LF" "LF \<noteq> CR"
  by (simp_all add: CR_def LF_def)

lemma find_char_le: "find_char c s \<le> length s"
  by (simp add: find_char_def length_takeWhile_le)

lemma find_char_notin [simp]: "c \<notin> set s \<Longrightarrow> find_char c s = length s"
  unfolding find_char_def by (subst takeWhile_eq_all_conv [THEN iffD2]) auto

lemma find_char_append [simp]: "c \<notin> set s \<Longrightarrow> find_char c (s @ c # t) = length s"
  unfolding find_char_def by (induction s) auto

lemma find_char_eq_length: "find_char c s = length s \<longleftrightarrow> c \<notin> set s"
proof
  assume "find_char c s = length s"
  then have "takeWhile (\<lambda>x. x \<noteq> c) s = s"
    by (metis append_eq_conv_conj find_char_def takeWhile_dropWhile_id take_all order_refl)
  then show "c \<notin> set s"
    by (metis (mono_tags, lifting) takeWhile_eq_all_conv)
qed simp

lemma find_char_split:
  assumes "find_char c s \<noteq> length s"
  shows "s = take (find_char c s) s @ c # drop (Suc (find_char c s)) s"
    and "c \<notin> set (take (find_char c s) s)"
proof -
  have "c \<in> set s" using assms by (metis find_char_notin)
  then obtain u v where s: "s = u @ c # v" and "c \<notin> set u"
    by (meson split_list_first)
  then show "s = take (find_char c s) s @ c # drop (Suc (find_char c s)) s"
    and "c \<notin> set (take (find_char c s) s)"
    by simp_all
qed

text \<open>No occurrence of the pair \<open>a b\<close>: what a failed two-byte search establishes.\<close>

definition no_pair :: "char \<Rightarrow> char \<Rightarrow> string \<Rightarrow> bool" where
  "no_pair a b s \<longleftrightarrow> (\<forall>u v. s \<noteq> u @ a # b # v)"

lemma search2_le: "search2 a b s \<le> length s"
  by (induction a b s rule: search2.induct) auto

lemma search2_found:
  "search2 a b s < length s \<Longrightarrow>
     Suc (search2 a b s) < length s \<and> s ! search2 a b s = a \<and> s ! Suc (search2 a b s) = b"
  by (induction a b s rule: search2.induct) (auto split: if_splits)

lemma search2_split:
  assumes "search2 a b s < length s"
  shows "s = take (search2 a b s) s @ a # b # drop (search2 a b s + 2) s"
  using search2_found [OF assms]
  by (metis Cons_nth_drop_Suc Suc_lessD add_2_eq_Suc' append_take_drop_id)

lemma search2_append:
  assumes "a \<noteq> b" and "no_pair a b (u @ [a])"
  shows "search2 a b (u @ a # b # v) = length u"
  using assms(2)
proof (induction u)
  case Nil
  then show ?case by simp
next
  case (Cons x u)
  have IH: "search2 a b (u @ a # b # v) = length u"
    using Cons unfolding no_pair_def by (metis append_Cons)
  have "\<not> (x = a \<and> hd (u @ [a]) = b)"
    using Cons.prems unfolding no_pair_def
    by (metis append_Cons append_Nil hd_Cons_tl snoc_eq_iff_butlast)
  then show ?case using IH assms(1) by (cases u) auto
qed

lemma search2_before: "search2 a b (u @ a # b # v) \<le> length u"
proof (induction u)
  case (Cons x u)
  then show ?case by (cases u) auto
qed simp

lemma search2_none: "search2 a b s = length s \<longleftrightarrow> no_pair a b s"
proof
  assume len: "search2 a b s = length s"
  show "no_pair a b s"
    unfolding no_pair_def
  proof (intro allI notI)
    fix u v assume "s = u @ a # b # v"
    with len search2_before [of a b u v] show False by simp
  qed
next
  assume "no_pair a b s"
  then have "\<not> search2 a b s < length s"
    unfolding no_pair_def using search2_split by metis
  then show "search2 a b s = length s"
    using search2_le [of a b s] by simp
qed

lemma no_pair_notin: "b \<notin> set s \<Longrightarrow> no_pair a b s"
  by (auto simp: no_pair_def)

lemma take_drop_append [simp]: "take n xs @ drop n xs @ ys = xs @ ys"
  by (metis append_assoc append_take_drop_id)

lemma drop_suffix: "drop n xs = u @ ys \<Longrightarrow> \<exists>u. xs = u @ ys"
  by (metis append_assoc append_take_drop_id)

lemma take_snoc: "length xs = Suc n \<Longrightarrow> xs = take n xs @ [xs ! n]"
  by (metis lessI order_refl take_Suc_conv_app_nth take_all)

section \<open>Iterating a partial operation\<close>

primrec foldM :: "('a \<Rightarrow> 's \<Rightarrow> 's option) \<Rightarrow> 'a list \<Rightarrow> 's \<Rightarrow> 's option" where
  "foldM f [] s = Some s"
| "foldM f (x # xs) s = do { s' \<leftarrow> f x s; foldM f xs s' }"

lemma foldM_append: "foldM f (xs @ ys) s = Option.bind (foldM f xs s) (foldM f ys)"
  by (induction xs arbitrary: s) (auto simp: bind_eq_Some_conv split: Option.bind_splits)

lemma foldM_invariant:
  assumes "foldM f xs s = Some t" and "P s"
    and "\<And>x s s'. x \<in> set xs \<Longrightarrow> f x s = Some s' \<Longrightarrow> P s \<Longrightarrow> P s'"
  shows "P t"
  using assms
proof (induction xs arbitrary: s)
  case (Cons x xs)
  then obtain s' where "f x s = Some s'" and "foldM f xs s' = Some t"
    by (auto simp: bind_eq_Some_conv)
  with Cons show ?case by (metis list.set_intros)
qed simp

text \<open>A sum over the threads of a program after one of them has moved.\<close>

lemma sum_list_map_update:
  fixes f :: "'a \<Rightarrow> nat"
  assumes "t < length xs"
  shows "sum_list (map f (xs[t := x])) + f (xs ! t) = sum_list (map f xs) + f x"
  using assms elem_le_sum_list [of t "map f xs"] by (simp add: map_update sum_list_update)

lemma sum_list_map_ge: "t < length xs \<Longrightarrow> f (xs ! t) \<le> sum_list (map f xs)" for f :: "'a \<Rightarrow> nat"
  using elem_le_sum_list [of t "map f xs"] by simp

lemma rtranclp_invariant: "r\<^sup>*\<^sup>* a b \<Longrightarrow> P a \<Longrightarrow> (\<And>x y. r x y \<Longrightarrow> P x \<Longrightarrow> P y) \<Longrightarrow> P b"
  by (induction rule: rtranclp_induct) auto

section \<open>Decimal output\<close>

text \<open>The conversions \<^verbatim>\<open>%d\<close>, \<^verbatim>\<open>%zd\<close> and \<^verbatim>\<open>%u\<close> of \<^verbatim>\<open>printf\<close>.\<close>

definition digit :: "nat \<Rightarrow> char" where
  "digit d = char_of (48 + d)"

fun dec_nat :: "nat \<Rightarrow> string" where
  "dec_nat n = (if n < 10 then [digit n] else dec_nat (n div 10) @ [digit (n mod 10)])"

declare dec_nat.simps [simp del]

definition fmt_d :: "int \<Rightarrow> string" where
  "fmt_d i = (if i < 0 then CHR ''-'' # dec_nat (nat (- i)) else dec_nat (nat i))"

definition undigit :: "char \<Rightarrow> nat" where
  "undigit c = of_char c - 48"

definition undec :: "string \<Rightarrow> nat" where
  "undec s = foldl (\<lambda>n c. 10 * n + undigit c) 0 s"

lemma undigit_digit [simp]: "d < 10 \<Longrightarrow> undigit (digit d) = d"
  by (simp add: undigit_def digit_def)

lemma undec_dec_nat [simp]: "undec (dec_nat n) = n"
proof (induction n rule: dec_nat.induct)
  case (1 n)
  then show ?case
    by (cases "n < 10") (auto simp: undec_def dec_nat.simps [of n])
qed

lemma dec_nat_inj: "dec_nat m = dec_nat n \<Longrightarrow> m = n"
  by (metis undec_dec_nat)

lemma dec_nat_nonempty [simp]: "dec_nat n \<noteq> []"
  by (subst dec_nat.simps) simp

lemma dec_nat_digits: "c \<in> set (dec_nat n) \<Longrightarrow> \<exists>d<10. c = digit d"
proof (induction n rule: dec_nat.induct)
  case (1 n)
  then show ?case
    by (cases "n < 10") (auto simp: dec_nat.simps [of n] intro: exI [of _ n] exI [of _ "n mod 10"])
qed

lemma length_dec_nat: "0 < k \<Longrightarrow> n < 10 ^ k \<Longrightarrow> length (dec_nat n) \<le> k"
proof (induction k arbitrary: n)
  case 0
  then show ?case by simp
next
  case (Suc k)
  show ?case
  proof (cases "n < 10")
    case True
    then show ?thesis by (subst dec_nat.simps) simp
  next
    case False
    with Suc.prems have "k > 0" by (cases k) auto
    moreover have "n div 10 < 10 ^ k" using Suc.prems by (simp add: less_mult_imp_div_less mult.commute)
    ultimately have "length (dec_nat (n div 10)) \<le> k" by (rule Suc.IH)
    then show ?thesis using False by (subst dec_nat.simps) simp
  qed
qed

lemma dec_nat_small: "n < 10 \<Longrightarrow> dec_nat n = [digit n]"
  by (subst dec_nat.simps) simp

text \<open>A conversion with a minimal field width, as in \<^verbatim>\<open>%02d\<close>.\<close>

definition pad_left :: "char \<Rightarrow> nat \<Rightarrow> string \<Rightarrow> string" where
  "pad_left c w s = replicate (w - length s) c @ s"

lemma length_pad_left [simp]: "length (pad_left c w s) = max w (length s)"
  by (simp add: pad_left_def)

section \<open>Copying into a byte array\<close>

definition copy_in :: "string \<Rightarrow> size_t \<Rightarrow> string \<Rightarrow> string option" where
  "copy_in src d v =
     (if d + length src \<le> length v
      then Some (take d v @ src @ drop (d + length src) v) else None)"

lemma length_copy_in: "copy_in src d v = Some v' \<Longrightarrow> length v' = length v"
  by (auto simp: copy_in_def split: if_splits)

text \<open>
  A machine that runs a schedule of steps, each of which may fail. The provider gives an invariant and the one kind of step that can
  fail; a run then keeps the invariant or meets such a step.
\<close>

locale machine =
  fixes next_state :: "'x \<Rightarrow> 's \<Rightarrow> 's option"
    and start :: 's
    and ok :: "'s \<Rightarrow> bool"
    and bad :: "'x \<Rightarrow> 's \<Rightarrow> bool"
  assumes start: "ok start"
    and step: "ok s \<Longrightarrow> \<not> bad x s \<Longrightarrow> \<exists>s'. next_state x s = Some s' \<and> ok s'"
    and fails: "bad x s \<Longrightarrow> next_state x s = None"
begin

lemma run_from: "ok s \<Longrightarrow>
    (\<exists>s'. foldM next_state xs s = Some s' \<and> ok s') \<or>
    (\<exists>ys x zs s'. xs = ys @ x # zs \<and> foldM next_state ys s = Some s' \<and> ok s' \<and> bad x s')"
proof (induction xs arbitrary: s)
  case (Cons x xs)
  show ?case
  proof (cases "bad x s")
    case True
    then show ?thesis using Cons.prems by (intro disjI2 exI [of _ "[]"]) auto
  next
    case False
    then obtain s1 where 1: "next_state x s = Some s1" "ok s1" using step Cons.prems by blast
    from Cons.IH [OF 1(2)] show ?thesis
    proof
      assume "\<exists>ys y zs s'. xs = ys @ y # zs \<and> foldM next_state ys s1 = Some s' \<and> ok s' \<and> bad y s'"
      then obtain ys y zs s' where "xs = ys @ y # zs" "foldM next_state ys s1 = Some s'" "ok s'" "bad y s'" by blast
      then have "x # xs = (x # ys) @ y # zs \<and> foldM next_state (x # ys) s = Some s' \<and> ok s' \<and> bad y s'" using 1 by simp
      then show ?thesis by blast
    qed (use 1 in simp)
  qed
qed simp

lemmas run_or_bad = run_from [OF start]

lemma run_ok: "foldM next_state xs start = Some s \<Longrightarrow> ok s"
  using run_or_bad [of xs] fails by (auto simp: foldM_append)

lemma runs: "(\<And>x s. \<not> bad x s) \<Longrightarrow> \<exists>s. foldM next_state xs start = Some s \<and> ok s"
  using run_or_bad [of xs] by blast

end

end
