(* ===== verification/Net_Buffer.thy ===== *)
theory Net_Buffer
  imports Prelude
begin

text \<open>
  The network buffer of the server (\<^verbatim>\<open>myserver/include/buffer.h\<close> and
  \<^verbatim>\<open>myserver/common/buffer.cpp\<close>): a byte vector with a reader and a writer
  index. Operations that the C++ code may leave with undefined behaviour (an access outside the
  vector, a \<^verbatim>\<open>std::copy\<close> into its own range) or with
  \<^verbatim>\<open>std::length_error\<close> are option-valued; the lemmas show that under the class
  invariant, and below the sizes at which the \<^verbatim>\<open>int\<close> parameter of
  \<^verbatim>\<open>makeSpace\<close> overflows, they always succeed and act on the readable bytes as the
  operations of a byte queue. The system calls \<^verbatim>\<open>readv\<close> and
  \<^verbatim>\<open>write\<close> are parameters.
\<close>

section \<open>State\<close>

record Buffer =
  m_buffer :: string
  m_readerIndex :: size_t
  m_writerIndex :: size_t

definition kCheapPrepend :: size_t where "kCheapPrepend = 8"
definition kInitialSize :: size_t where "kInitialSize = 1024"

definition vector_max_size :: size_t where "vector_max_size = 2 ^ 63 - 1"

definition Buffer_new :: "size_t \<Rightarrow> Buffer" where
  "Buffer_new initSize =
     \<lparr>m_buffer = replicate (kCheapPrepend + initSize) (CHR 0x00),
      m_readerIndex = kCheapPrepend, m_writerIndex = kCheapPrepend\<rparr>"

definition readableBytes :: "Buffer \<Rightarrow> size_t" where
  [buf_defs]: "readableBytes b = usub (m_writerIndex b) (m_readerIndex b)"

definition writableBytes :: "Buffer \<Rightarrow> size_t" where
  [buf_defs]: "writableBytes b = usub (length (m_buffer b)) (m_writerIndex b)"

definition prependableBytes :: "Buffer \<Rightarrow> size_t" where
  [buf_defs]: "prependableBytes b = m_readerIndex b"

text \<open>The bytes \<open>[peek(), beginWrite())\<close>.\<close>

definition content :: "Buffer \<Rightarrow> string" where
  "content b = take (readableBytes b) (drop (m_readerIndex b) (m_buffer b))"

section \<open>Consuming\<close>

definition retrieveAll :: "Buffer \<Rightarrow> Buffer" where
  [buf_defs]: "retrieveAll b = b\<lparr>m_readerIndex := kCheapPrepend, m_writerIndex := kCheapPrepend\<rparr>"

definition retrieve :: "size_t \<Rightarrow> Buffer \<Rightarrow> Buffer" where
  [buf_defs]: "retrieve len b =
     (if len < readableBytes b then b\<lparr>m_readerIndex := m_readerIndex b + len\<rparr>
      else retrieveAll b)"

text \<open>A pointer into the readable bytes is its offset from \<^verbatim>\<open>peek()\<close>.\<close>

definition retrieveUntil :: "size_t \<Rightarrow> Buffer \<Rightarrow> Buffer" where
  [buf_defs]: "retrieveUntil off b = retrieve off b"

definition getBufferAsString :: "Buffer \<Rightarrow> string option" where
  "getBufferAsString b =
     (let len = readableBytes b in
      if m_readerIndex b + len \<le> length (m_buffer b)
      then Some (take len (drop (m_readerIndex b) (m_buffer b))) else None)"

definition retrieveAsString :: "size_t \<Rightarrow> Buffer \<Rightarrow> (string \<times> Buffer) option" where
  "retrieveAsString len b =
     (if m_readerIndex b + len \<le> length (m_buffer b)
      then Some (take len (drop (m_readerIndex b) (m_buffer b)), retrieve len b)
      else None)"

definition retrieveAllAsString :: "Buffer \<Rightarrow> (string \<times> Buffer) option" where
  "retrieveAllAsString b = retrieveAsString (readableBytes b) b"

definition findCRLF :: "Buffer \<Rightarrow> size_t option" where
  "findCRLF b =
     (let crlf = search2 CR LF (content b) in
      if crlf = length (content b) then None else Some crlf)"

section \<open>Growing and appending\<close>

definition vector_resize :: "size_t \<Rightarrow> string \<Rightarrow> string option" where
  "vector_resize n v =
     (if n > vector_max_size then None
      else Some (take n v @ replicate (n - length v) (CHR 0x00)))"

definition copy_within :: "size_t \<Rightarrow> size_t \<Rightarrow> size_t \<Rightarrow> string \<Rightarrow> string option" where
  "copy_within first lst d v =
     (if first \<le> lst \<and> lst \<le> length v \<and> d + (lst - first) \<le> length v \<and>
         \<not> (first \<le> d \<and> d < lst)
      then Some (take d v @ take (lst - first) (drop first v) @ drop (d + (lst - first)) v)
      else None)"

definition makeSpace :: "int \<Rightarrow> Buffer \<Rightarrow> Buffer option" where
  "makeSpace len b =
     (if uadd (writableBytes b) (prependableBytes b) < uadd (size_of_int len) kCheapPrepend
      then do {
        v \<leftarrow> vector_resize (uadd (m_writerIndex b) (size_of_int len)) (m_buffer b);
        Some (b\<lparr>m_buffer := v\<rparr>) }
      else do {
        let readable = readableBytes b;
        v \<leftarrow> copy_within (m_readerIndex b) (m_writerIndex b) kCheapPrepend (m_buffer b);
        Some \<lparr>m_buffer = v, m_readerIndex = kCheapPrepend,
              m_writerIndex = kCheapPrepend + readable\<rparr> })"

definition ensureWritableBytes :: "size_t \<Rightarrow> Buffer \<Rightarrow> Buffer option" where
  "ensureWritableBytes len b =
     (if writableBytes b < len then makeSpace (int_of_size len) b else Some b)"

definition append_bytes :: "string \<Rightarrow> Buffer \<Rightarrow> Buffer option" where
  "append_bytes data b = do {
     b' \<leftarrow> ensureWritableBytes (length data) b;
     v \<leftarrow> copy_in data (m_writerIndex b') (m_buffer b');
     Some (b'\<lparr>m_buffer := v, m_writerIndex := m_writerIndex b' + length data\<rparr>) }"

section \<open>Reading from and writing to a descriptor\<close>

text \<open>
  The result of a transfer: the error number, or the bytes moved. \<open>readv\<close> is a function of the
  capacities of the segments it may fill; \<open>wr\<close> of the bytes offered.
\<close>

datatype 'a io_result = Io_err int | Io_ok 'a

definition extrabuf_size :: size_t where "extrabuf_size = 65536"

definition readFd ::
    "(size_t list \<Rightarrow> string io_result) \<Rightarrow> Buffer \<Rightarrow> (int \<times> int option \<times> Buffer) option" where
  "readFd readv b =
     (let writable = writableBytes b;
          caps = (if writable < extrabuf_size then [writable, extrabuf_size] else [writable]) in
      case readv caps of
        Io_err e \<Rightarrow> Some (- 1, Some e, b)
      | Io_ok bs \<Rightarrow> do {
          v \<leftarrow> copy_in (take writable bs) (m_writerIndex b) (m_buffer b);
          let extrabuf = drop writable bs;
          let n = length bs;
          let b1 = b\<lparr>m_buffer := v\<rparr>;
          if n \<le> writable then
            Some (int n, None, b1\<lparr>m_writerIndex := m_writerIndex b + n\<rparr>)
          else do {
            b2 \<leftarrow> append_bytes extrabuf (b1\<lparr>m_writerIndex := length v\<rparr>);
            Some (int n, None, b2) } })"

definition writeFd :: "(string \<Rightarrow> size_t io_result) \<Rightarrow> Buffer \<Rightarrow> int \<times> int option" where
  "writeFd wr b =
     (case wr (content b) of Io_err e \<Rightarrow> (- 1, Some e) | Io_ok n \<Rightarrow> (int n, None))"

section \<open>Invariant\<close>

text \<open>The picture at the head of \<^verbatim>\<open>buffer.h\<close>, with the prepend area kept free.\<close>

definition buffer_inv :: "Buffer \<Rightarrow> bool" where
  "buffer_inv b \<longleftrightarrow>
     kCheapPrepend \<le> m_readerIndex b \<and> m_readerIndex b \<le> m_writerIndex b \<and>
     m_writerIndex b \<le> length (m_buffer b) \<and> length (m_buffer b) < 2 ^ 63"

lemma buffer_invD:
  assumes "buffer_inv b"
  shows "kCheapPrepend \<le> m_readerIndex b" "m_readerIndex b \<le> m_writerIndex b"
    "m_writerIndex b \<le> length (m_buffer b)" "length (m_buffer b) < 2 ^ 63"
  using assms by (simp_all add: buffer_inv_def)

lemma buffer_inv_readable [simp]:
  "buffer_inv b \<Longrightarrow> readableBytes b = m_writerIndex b - m_readerIndex b"
  by (simp add: readableBytes_def buffer_inv_def)

lemma buffer_inv_writable [simp]:
  "buffer_inv b \<Longrightarrow> writableBytes b = length (m_buffer b) - m_writerIndex b"
  by (simp add: writableBytes_def buffer_inv_def)

lemma length_content: "buffer_inv b \<Longrightarrow> length (content b) = readableBytes b"
  by (auto simp: content_def buffer_inv_def)

lemma content_layout:
  "length p = r \<Longrightarrow> w = r + length s \<Longrightarrow>
     content \<lparr>m_buffer = p @ s @ q, m_readerIndex = r, m_writerIndex = w\<rparr> = s"
  by (simp add: content_def readableBytes_def)

lemma buffer_inv_new: "initSize < 2 ^ 62 \<Longrightarrow> buffer_inv (Buffer_new initSize)"
  by (simp add: buffer_inv_def Buffer_new_def kCheapPrepend_def)

lemma content_new [simp]: "content (Buffer_new n) = []"
  by (simp add: content_def Buffer_new_def readableBytes_def)

lemma buffer_inv_retrieveAll: "buffer_inv b \<Longrightarrow> buffer_inv (retrieveAll b)"
  by (auto simp: buffer_inv_def retrieveAll_def)

lemma content_retrieveAll [simp]: "content (retrieveAll b) = []"
  by (simp add: content_def retrieveAll_def readableBytes_def)

lemma buffer_inv_retrieve: "buffer_inv b \<Longrightarrow> buffer_inv (retrieve n b)"
  by (auto simp: retrieve_def buffer_inv_retrieveAll) (auto simp: buffer_inv_def)

lemma content_retrieve:
  assumes "buffer_inv b"
  shows "content (retrieve n b) = drop n (content b)"
proof (cases "n < readableBytes b")
  case True
  let ?b = "b\<lparr>m_readerIndex := m_readerIndex b + n\<rparr>"
  have "readableBytes ?b = readableBytes b - n"
    using True assms by (simp add: readableBytes_def buffer_inv_def)
  then show ?thesis
    using True by (simp add: retrieve_def content_def drop_take add.commute)
next
  case False
  then show ?thesis
    using assms by (simp add: retrieve_def length_content)
qed

lemma retrieve_cap [simp]: "length (m_buffer (retrieve n b)) = length (m_buffer b)"
  by (simp add: retrieve_def retrieveAll_def)

section \<open>Appending\<close>

lemma content_writer:
  assumes "buffer_inv b"
  shows "take (m_writerIndex b) (m_buffer b) = take (m_readerIndex b) (m_buffer b) @ content b"
proof -
  have "m_writerIndex b = m_readerIndex b + readableBytes b"
    using assms by (simp add: buffer_inv_def)
  then show ?thesis
    by (metis content_def take_add)
qed

lemma makeSpace_resize:
  assumes inv: "buffer_inv b" and small: "m_writerIndex b + len < 2 ^ 63" "len < 2 ^ 31"
    and less: "writableBytes b < len"
    and tight: "writableBytes b + prependableBytes b < len + kCheapPrepend"
  obtains v where "makeSpace (int_of_size len) b = Some (b\<lparr>m_buffer := v\<rparr>)"
    and "length v = m_writerIndex b + len"
    and "take (m_writerIndex b) v = take (m_writerIndex b) (m_buffer b)"
proof -
  let ?n = "m_writerIndex b + len"
  let ?v = "take ?n (m_buffer b) @ replicate (?n - length (m_buffer b)) (CHR 0x00)"
  have sums: "writableBytes b + prependableBytes b < 2 ^ 64" "len + kCheapPrepend < 2 ^ 64"
      "?n < 2 ^ 64" "?n \<le> vector_max_size"
    using inv small less by (auto simp: buffer_inv_def prependableBytes_def kCheapPrepend_def
        vector_max_size_def)
  have "makeSpace (int_of_size len) b = Some (b\<lparr>m_buffer := ?v\<rparr>)"
    using tight sums small by (simp add: makeSpace_def vector_resize_def)
  moreover have "length ?v = ?n" using inv less by (simp add: buffer_inv_def)
  moreover have "take (m_writerIndex b) ?v = take (m_writerIndex b) (m_buffer b)"
    using inv by (simp add: buffer_inv_def)
  ultimately show thesis by (rule that)
qed

lemma makeSpace_compact:
  assumes inv: "buffer_inv b" and small: "len < 2 ^ 31"
    and less: "writableBytes b < len"
    and room: "\<not> writableBytes b + prependableBytes b < len + kCheapPrepend"
  shows "makeSpace (int_of_size len) b =
    Some \<lparr>m_buffer = take kCheapPrepend (m_buffer b) @ content b @
             drop (kCheapPrepend + readableBytes b) (m_buffer b),
          m_readerIndex = kCheapPrepend, m_writerIndex = kCheapPrepend + readableBytes b\<rparr>"
proof -
  have sums: "writableBytes b + prependableBytes b < 2 ^ 64" "len + kCheapPrepend < 2 ^ 64"
    using inv small by (auto simp: buffer_inv_def prependableBytes_def kCheapPrepend_def)
  have "kCheapPrepend < m_readerIndex b"
    using room less by (simp add: prependableBytes_def)
  then show ?thesis
    using room sums small inv
    by (simp add: makeSpace_def copy_within_def content_def Let_def) (auto simp: buffer_inv_def)
qed

lemma ensureWritableBytes_ok:
  assumes inv: "buffer_inv b" and small: "length (m_buffer b) + len < 2 ^ 63" "len < 2 ^ 31"
  obtains b' where "ensureWritableBytes len b = Some b'" and "buffer_inv b'"
    and "content b' = content b" and "m_writerIndex b' + len \<le> length (m_buffer b')"
    and "length (m_buffer b') \<le> length (m_buffer b) + len"
proof (cases "writableBytes b < len")
  case False
  with inv that [of b] show thesis by (auto simp: ensureWritableBytes_def buffer_inv_def)
next
  case less: True
  show thesis
  proof (cases "writableBytes b + prependableBytes b < len + kCheapPrepend")
    case True
    have fit: "m_writerIndex b + len < 2 ^ 63" using small(1) inv by (simp add: buffer_inv_def)
    obtain v where v: "makeSpace (int_of_size len) b = Some (b\<lparr>m_buffer := v\<rparr>)"
        "length v = m_writerIndex b + len"
        "take (m_writerIndex b) v = take (m_writerIndex b) (m_buffer b)"
      using makeSpace_resize [OF inv fit small(2) less True] .
    have "content (b\<lparr>m_buffer := v\<rparr>) = content b"
      using v(3) inv unfolding content_def readableBytes_def
      by (simp add: buffer_inv_def) (metis take_drop le_add_diff_inverse2)
    then show thesis
      using that [of "b\<lparr>m_buffer := v\<rparr>"] v inv less fit
      by (auto simp: ensureWritableBytes_def buffer_inv_def)
  next
    case False
    let ?v = "take kCheapPrepend (m_buffer b) @ content b @
             drop (kCheapPrepend + readableBytes b) (m_buffer b)"
    let ?b = "\<lparr>m_buffer = ?v, m_readerIndex = kCheapPrepend,
               m_writerIndex = kCheapPrepend + readableBytes b\<rparr>"
    have len_v: "length ?v = length (m_buffer b)"
      using inv length_content [OF inv] by (auto simp: buffer_inv_def)
    have "content ?b = content b"
      using inv length_content [OF inv] by (intro content_layout) (auto simp: buffer_inv_def)
    moreover have "buffer_inv ?b"
      unfolding buffer_inv_def using inv len_v by (auto simp: buffer_inv_def)
    moreover have "kCheapPrepend + readableBytes b + len \<le> length (m_buffer b)"
      using False inv by (auto simp: buffer_inv_def prependableBytes_def)
    ultimately show thesis
      using that [of ?b] makeSpace_compact [OF inv small(2) less False] less len_v
      by (simp add: ensureWritableBytes_def)
  qed
qed

lemma content_copy_in:
  assumes inv: "buffer_inv b" and fits: "m_writerIndex b + length s \<le> length (m_buffer b)"
  obtains v where "copy_in s (m_writerIndex b) (m_buffer b) = Some v"
    and "length v = length (m_buffer b)"
    and "buffer_inv (b\<lparr>m_buffer := v, m_writerIndex := m_writerIndex b + length s\<rparr>)"
    and "content (b\<lparr>m_buffer := v, m_writerIndex := m_writerIndex b + length s\<rparr>) = content b @ s"
proof -
  let ?v = "take (m_writerIndex b) (m_buffer b) @ s @ drop (m_writerIndex b + length s) (m_buffer b)"
  have "copy_in s (m_writerIndex b) (m_buffer b) = Some ?v"
    using fits by (simp add: copy_in_def)
  moreover have "drop (m_readerIndex b) (take (m_writerIndex b) (m_buffer b)) = content b"
    using inv by (simp add: content_def drop_take)
  then have "content (b\<lparr>m_buffer := ?v, m_writerIndex := m_writerIndex b + length s\<rparr>) = content b @ s"
    using inv fits length_content [OF inv]
    by (simp add: content_def readableBytes_def buffer_inv_def)
  moreover have "buffer_inv (b\<lparr>m_buffer := ?v, m_writerIndex := m_writerIndex b + length s\<rparr>)"
    using inv fits by (auto simp: buffer_inv_def)
  ultimately show thesis using that [of ?v] fits by simp
qed

lemma append_bytes_ok:
  assumes inv: "buffer_inv b"
    and small: "length (m_buffer b) + length s < 2 ^ 63" "length s < 2 ^ 31"
  obtains b' where "append_bytes s b = Some b'" and "buffer_inv b'"
    and "content b' = content b @ s" and "length (m_buffer b') \<le> length (m_buffer b) + length s"
proof -
  obtain b1 where b1: "ensureWritableBytes (length s) b = Some b1" "buffer_inv b1"
      "content b1 = content b" "m_writerIndex b1 + length s \<le> length (m_buffer b1)"
      "length (m_buffer b1) \<le> length (m_buffer b) + length s"
    using ensureWritableBytes_ok [OF inv small] .
  obtain v where v: "copy_in s (m_writerIndex b1) (m_buffer b1) = Some v"
      "length v = length (m_buffer b1)"
      "buffer_inv (b1\<lparr>m_buffer := v, m_writerIndex := m_writerIndex b1 + length s\<rparr>)"
      "content (b1\<lparr>m_buffer := v, m_writerIndex := m_writerIndex b1 + length s\<rparr>) = content b1 @ s"
    using content_copy_in [OF b1(2,4)] .
  show thesis
    using that v b1 by (simp add: append_bytes_def)
qed

text \<open>An append that returns has done the right thing, however full the buffer was.\<close>

lemma makeSpace_Some:
  assumes inv: "buffer_inv b" and run: "makeSpace len b = Some b'" and fits: "m_writerIndex b' \<le> length (m_buffer b')"
  shows "buffer_inv b' \<and> content b' = content b"
proof -
  let ?n = "uadd (m_writerIndex b) (size_of_int len)"
  consider (grow) v where "vector_resize ?n (m_buffer b) = Some v" "b' = b\<lparr>m_buffer := v\<rparr>"
    | (compact) v where "copy_within (m_readerIndex b) (m_writerIndex b) kCheapPrepend (m_buffer b) = Some v"
        "b' = \<lparr>m_buffer = v, m_readerIndex = kCheapPrepend, m_writerIndex = kCheapPrepend + readableBytes b\<rparr>"
    using run by (auto simp: makeSpace_def Let_def bind_eq_Some_conv split: if_splits)
  then show ?thesis
  proof cases
    case grow
    then have v: "v = take ?n (m_buffer b) @ replicate (?n - length (m_buffer b)) (CHR 0x00)" "?n \<le> vector_max_size"
      by (auto simp: vector_resize_def split: if_splits)
    then have "length v < 2 ^ 63" "m_writerIndex b \<le> length v" "m_writerIndex b \<le> ?n"
      using inv fits grow(2) by (auto simp: buffer_inv_def vector_max_size_def)
    then have "take (m_writerIndex b) v = take (m_writerIndex b) (m_buffer b)"
      using v inv by (simp add: buffer_inv_def min_def)
    then have "content b' = content b"
      using inv grow(2) unfolding content_def readableBytes_def
      by (simp add: buffer_inv_def) (metis take_drop le_add_diff_inverse2)
    then show ?thesis using grow(2) inv \<open>length v < 2 ^ 63\<close> \<open>m_writerIndex b \<le> length v\<close>
      by (auto simp: buffer_inv_def)
  next
    case compact
    then have v: "v = take kCheapPrepend (m_buffer b) @ content b @ drop (kCheapPrepend + readableBytes b) (m_buffer b)"
      "length v = length (m_buffer b)"
      using inv by (auto simp: copy_within_def content_def buffer_inv_def readableBytes_def split: if_splits)
    have "kCheapPrepend \<le> length (m_buffer b)" using inv by (auto simp: buffer_inv_def)
    then have "content b' = content b"
      unfolding compact(2) v(1) using length_content [OF inv] by (intro content_layout) auto
    then show ?thesis using compact(2) v(2) inv fits by (auto simp: buffer_inv_def)
  qed
qed

lemma append_bytes_Some:
  assumes inv: "buffer_inv b" and run: "append_bytes s b = Some b'"
  shows "buffer_inv b' \<and> content b' = content b @ s"
proof -
  obtain b1 v where b1: "ensureWritableBytes (length s) b = Some b1"
      and v: "copy_in s (m_writerIndex b1) (m_buffer b1) = Some v"
      and b': "b' = b1\<lparr>m_buffer := v, m_writerIndex := m_writerIndex b1 + length s\<rparr>"
    using run by (auto simp: append_bytes_def bind_eq_Some_conv)
  have fits: "m_writerIndex b1 + length s \<le> length (m_buffer b1)"
    using v by (auto simp: copy_in_def split: if_splits)
  have "buffer_inv b1" "content b1 = content b"
    using b1 makeSpace_Some [OF inv, of _ b1] fits inv by (auto simp: ensureWritableBytes_def split: if_splits)
  with content_copy_in [OF _ fits] v b' show ?thesis by (metis option.inject)
qed

section \<open>The buffer as a byte queue\<close>

text \<open>
  What the parser, the response writer and the connection rely on: a queue of bytes with an
  invariant, a footprint \<open>cap\<close> that bounds when appending may fail, appending at the tail and
  dropping at the head.
\<close>

text \<open>A run of appends (\<open>Inl\<close>) and retrievals (\<open>Inr\<close>), collecting the bytes retrieved.\<close>

fun queue_run ::
    "(string \<Rightarrow> 'b \<Rightarrow> 'b option) \<Rightarrow> (size_t \<Rightarrow> 'b \<Rightarrow> 'b) \<Rightarrow> ('b \<Rightarrow> string) \<Rightarrow>
       (string + size_t) list \<Rightarrow> string \<times> 'b \<Rightarrow> (string \<times> 'b) option" where
  "queue_run app ret bytes [] st = Some st"
| "queue_run app ret bytes (Inl s # ops) (out, b) =
     do { b' \<leftarrow> app s b; queue_run app ret bytes ops (out, b') }"
| "queue_run app ret bytes (Inr n # ops) (out, b) =
     queue_run app ret bytes ops (out @ take n (bytes b), ret n b)"

definition appended :: "(string + size_t) list \<Rightarrow> string" where
  "appended ops = concat (map (case_sum id (\<lambda>_. [])) ops)"

definition small_ops :: "(string + size_t) list \<Rightarrow> bool" where
  "small_ops ops \<longleftrightarrow> (\<forall>s. Inl s \<in> set ops \<longrightarrow> length s < 2 ^ 31)"

lemma appended_simps [simp]:
  "appended [] = []" "appended (Inl s # ops) = s @ appended ops"
  "appended (Inr n # ops) = appended ops"
  by (simp_all add: appended_def)

lemma small_ops_simps [simp]:
  "small_ops []" "small_ops (Inl s # ops) \<longleftrightarrow> length s < 2 ^ 31 \<and> small_ops ops"
  "small_ops (Inr n # ops) \<longleftrightarrow> small_ops ops"
  by (auto simp: small_ops_def)

locale byte_queue =
  fixes inv :: "'b \<Rightarrow> bool" and bytes :: "'b \<Rightarrow> string" and cap :: "'b \<Rightarrow> nat"
    and app :: "string \<Rightarrow> 'b \<Rightarrow> 'b option" and ret :: "size_t \<Rightarrow> 'b \<Rightarrow> 'b"
  assumes app_ok: "inv b \<Longrightarrow> cap b + length s < 2 ^ 63 \<Longrightarrow> length s < 2 ^ 31 \<Longrightarrow>
      \<exists>b'. app s b = Some b' \<and> inv b' \<and> bytes b' = bytes b @ s \<and> cap b' \<le> cap b + length s"
    and ret_inv: "inv b \<Longrightarrow> inv (ret n b)"
    and ret_bytes: "inv b \<Longrightarrow> bytes (ret n b) = drop n (bytes b)"
    and ret_cap: "cap (ret n b) \<le> cap b"
begin

lemma app_all:
  assumes "inv b" and "cap b + length (concat ss) < 2 ^ 63" and "length (concat ss) < 2 ^ 31"
  obtains b' where "foldM app ss b = Some b'" and "inv b'"
    and "bytes b' = bytes b @ concat ss" and "cap b' \<le> cap b + length (concat ss)"
  using assms
proof (induction ss arbitrary: b thesis)
  case Nil
  then show ?case by simp
next
  case (Cons s ss)
  have "cap b + length s < 2 ^ 63" "length s < 2 ^ 31" using Cons.prems(3,4) by auto
  then obtain b1 where b1: "app s b = Some b1" "inv b1" "bytes b1 = bytes b @ s"
      "cap b1 \<le> cap b + length s"
    using app_ok [OF Cons.prems(2)] by blast
  have "cap b1 + length (concat ss) < 2 ^ 63" "length (concat ss) < 2 ^ 31"
    using Cons.prems(3,4) b1(4) by auto
  then obtain b' where "foldM app ss b1 = Some b'" "inv b'"
      "bytes b' = bytes b1 @ concat ss" "cap b' \<le> cap b1 + length (concat ss)"
    using Cons.IH [OF _ b1(2)] by blast
  then show ?case using Cons.prems(1) [of b'] b1 by simp
qed

lemma run_ok:
  assumes "inv b" and "cap b + length (appended ops) < 2 ^ 63" and "small_ops ops"
  shows "\<exists>out' b'. queue_run app ret bytes ops (out, b) = Some (out', b') \<and> inv b' \<and>
           out' @ bytes b' = out @ bytes b @ appended ops"
  using assms
proof (induction ops arbitrary: out b)
  case Nil
  then show ?case by simp
next
  case (Cons op ops)
  show ?case
  proof (cases op)
    case (Inl s)
    have "cap b + length s < 2 ^ 63" "length s < 2 ^ 31" using Cons.prems(2,3) Inl by auto
    then obtain b1 where b1: "app s b = Some b1" "inv b1" "bytes b1 = bytes b @ s"
        "cap b1 \<le> cap b + length s"
      using app_ok [OF Cons.prems(1)] by blast
    have "cap b1 + length (appended ops) < 2 ^ 63" "small_ops ops"
      using Cons.prems(2,3) b1(4) Inl by auto
    from Cons.IH [OF b1(2) this] show ?thesis using b1 Inl by simp
  next
    case (Inr n)
    have "cap (ret n b) + length (appended ops) < 2 ^ 63" "small_ops ops"
      using Cons.prems(2,3) ret_cap [of n b] Inr by auto
    from Cons.IH [OF ret_inv [OF Cons.prems(1)] this, of "out @ take n (bytes b)"] show ?thesis
      using Inr ret_bytes [OF Cons.prems(1)] by auto
  qed
qed

end

interpretation netbuf: byte_queue buffer_inv content "\<lambda>b. length (m_buffer b)" append_bytes retrieve
proof
  fix b :: Buffer and s :: string
  assume "buffer_inv b" "length (m_buffer b) + length s < 2 ^ 63" "length s < 2 ^ 31"
  then show "\<exists>b'. append_bytes s b = Some b' \<and> buffer_inv b' \<and> content b' = content b @ s \<and>
      length (m_buffer b') \<le> length (m_buffer b) + length s"
    by (metis append_bytes_ok)
qed (simp_all add: buffer_inv_retrieve content_retrieve)

section \<open>Reading\<close>

lemma readFd_Some:
  assumes inv: "buffer_inv b" and run: "readFd readv b = Some (n, err, b')"
  shows "buffer_inv b' \<and> (\<exists>bs. content b' = content b @ bs \<and> (0 \<le> n \<longrightarrow> int (length bs) = n))"
proof -
  let ?w = "writableBytes b"
  let ?caps = "if ?w < extrabuf_size then [?w, extrabuf_size] else [?w]"
  show ?thesis
  proof (cases "readv ?caps")
    case (Io_err e)
    then show ?thesis using run inv by (auto simp: readFd_def Let_def simp del: buffer_inv_writable)
  next
    case (Io_ok bs)
    have "m_writerIndex b + length (take ?w bs) \<le> length (m_buffer b)"
      using inv by (auto simp: buffer_inv_def)
    then obtain v where v: "copy_in (take ?w bs) (m_writerIndex b) (m_buffer b) = Some v"
        "length v = length (m_buffer b)"
        "buffer_inv (b\<lparr>m_buffer := v, m_writerIndex := m_writerIndex b + length (take ?w bs)\<rparr>)"
        "content (b\<lparr>m_buffer := v, m_writerIndex := m_writerIndex b + length (take ?w bs)\<rparr>) =
           content b @ take ?w bs"
      using content_copy_in [OF inv] by blast
    show ?thesis
    proof (cases "length bs \<le> ?w")
      case True
      then show ?thesis using v run Io_ok by (auto simp: readFd_def Let_def min_def)
    next
      case False
      let ?b1 = "b\<lparr>m_buffer := v, m_writerIndex := length v\<rparr>"
      have "m_writerIndex b + ?w = length v" using inv v(2) by (simp add: buffer_inv_def)
      then have b1: "buffer_inv ?b1" "content ?b1 = content b @ take ?w bs"
        using v False by (simp_all add: min_def)
      have "append_bytes (drop ?w bs) ?b1 = Some b'" "n = int (length bs)"
        using run Io_ok v(1) False by (auto simp: readFd_def Let_def bind_eq_Some_conv)
      then have "buffer_inv b'" "content b' = content b @ bs" "n = int (length bs)"
        using append_bytes_Some [OF b1(1)] b1(2) by (metis append_assoc append_take_drop_id)+
      then show ?thesis by blast
    qed
  qed
qed

section \<open>Properties\<close>

text \<open>
  C4. Byte-queue correctness of the buffer. Starting from any buffer that satisfies the
  class invariant, every sequence of \<^verbatim>\<open>append\<close> and \<^verbatim>\<open>retrieve\<close> calls
  succeeds (no out-of-range copy, no \<^verbatim>\<open>length_error\<close>), keeps the invariant, and the bytes
  retrieved followed by the bytes still readable are exactly the old readable bytes followed by
  the bytes appended: nothing is lost, duplicated or reordered by growing or compacting.
\<close>

theorem buffer_stream_integrity:
  assumes "buffer_inv b" and "length (m_buffer b) + length (appended ops) < 2 ^ 63"
    and "small_ops ops"
  shows "\<exists>out b'. queue_run append_bytes retrieve content ops ([], b) = Some (out, b') \<and>
           buffer_inv b' \<and> out @ content b' = content b @ appended ops"
  using netbuf.run_ok [OF assms, of "[]"] by simp

theorem buffer_stream_integrity_witness:
  "\<exists>out b'. queue_run append_bytes retrieve content
       [Inl ''GET /'', Inr 4, Inl '' HTTP'', Inr 3] ([], Buffer_new 2) = Some (out, b') \<and>
     buffer_inv b' \<and> out @ content b' = ''GET / HTTP''"
  using buffer_stream_integrity
      [of "Buffer_new 2" "[Inl ''GET /'', Inr 4, Inl '' HTTP'', Inr 3]"]
  by (simp add: buffer_inv_new) (simp add: Buffer_new_def kCheapPrepend_def)

lemma readFd_caps:
  "sum_list (if w < extrabuf_size then [w, extrabuf_size] else [w]) \<le> w + extrabuf_size"
  by simp

text \<open>
  \<^verbatim>\<open>readFd\<close> appends exactly what the kernel delivered. If \<^verbatim>\<open>readv\<close> returns bytes that
  fit the segments it was offered, then the scatter read into the free space of the buffer and the
  64 KiB stack area, followed by the append of the overflow, succeeds, returns the byte count,
  keeps the invariant and extends the readable bytes by the bytes read, in order.
\<close>

theorem readFd_appends:
  assumes inv: "buffer_inv b" and room: "length (m_buffer b) + 65536 < 2 ^ 63"
    and rd: "readv (if writableBytes b < extrabuf_size then [writableBytes b, extrabuf_size]
                    else [writableBytes b]) = Io_ok bs"
    and fits: "length bs \<le> sum_list (if writableBytes b < extrabuf_size
                    then [writableBytes b, extrabuf_size] else [writableBytes b])"
  shows "\<exists>b'. readFd readv b = Some (int (length bs), None, b') \<and> buffer_inv b' \<and>
           content b' = content b @ bs"
proof -
  let ?w = "writableBytes b"
  have "m_writerIndex b + length (take ?w bs) \<le> length (m_buffer b)"
    using inv by (auto simp: buffer_inv_def)
  then obtain v where v: "copy_in (take ?w bs) (m_writerIndex b) (m_buffer b) = Some v"
      "length v = length (m_buffer b)"
      "buffer_inv (b\<lparr>m_buffer := v, m_writerIndex := m_writerIndex b + length (take ?w bs)\<rparr>)"
      "content (b\<lparr>m_buffer := v, m_writerIndex := m_writerIndex b + length (take ?w bs)\<rparr>) =
         content b @ take ?w bs"
    using content_copy_in [OF inv] by blast
  show ?thesis
  proof (cases "length bs \<le> ?w")
    case True
    then show ?thesis using v rd by (simp add: readFd_def Let_def min_def)
  next
    case False
    let ?b1 = "b\<lparr>m_buffer := v, m_writerIndex := length v\<rparr>"
    have wl: "m_writerIndex b + ?w = length v" using inv v(2) by (simp add: buffer_inv_def)
    then have b1: "buffer_inv ?b1" "content ?b1 = content b @ take ?w bs"
      using v False by (simp_all add: min_def)
    have ex: "length (drop ?w bs) \<le> 65536"
      using fits False by (simp add: extrabuf_size_def split: if_splits)
    then obtain b2 where b2: "append_bytes (drop ?w bs) ?b1 = Some b2" "buffer_inv b2"
        "content b2 = content ?b1 @ drop ?w bs"
      using append_bytes_ok [OF b1(1), of "drop ?w bs"] room v(2) by auto
    then have "readFd readv b = Some (int (length bs), None, b2)"
      using v(1) rd False by (simp add: readFd_def Let_def)
    then show ?thesis using b2 b1(2) by simp
  qed
qed

theorem readFd_appends_witness:
  "\<exists>b'. readFd (\<lambda>caps. Io_ok ''abcd'') (Buffer_new 1) = Some (4, None, b') \<and>
     buffer_inv b' \<and> content b' = ''abcd''"
  using readFd_appends [of "Buffer_new 1" "\<lambda>caps. Io_ok ''abcd''" "''abcd''"]
  by (simp add: buffer_inv_new writableBytes_def)
     (simp add: Buffer_new_def kCheapPrepend_def extrabuf_size_def)

text \<open>
  Narrowing in \<^verbatim>\<open>makeSpace(int)\<close>. Appending at least \<open>2 ^ 31\<close> bytes to a
  buffer of less than \<open>2 ^ 31\<close> bytes (together less than \<open>2 ^ 32 - 8\<close>) never succeeds: the length is
  narrowed to a negative \<^verbatim>\<open>int\<close>, and the resize asks for an impossible size, although
  the vector itself could grow to \<open>2 ^ 63 - 1\<close> bytes.
\<close>

theorem append_narrowing_fails:
  assumes "buffer_inv b" and "length (m_buffer b) < 2 ^ 31"
    and "2 ^ 31 \<le> length s" and "length (m_buffer b) + length s < 2 ^ 32 - 8"
  shows "append_bytes s b = None"
proof -
  let ?l = "size_of_int (int_of_size (length s))"
  have l: "?l = 2 ^ 64 - 2 ^ 32 + length s"
  proof -
    let ?x = "int (length s) - 2 ^ 32"
    have "(?x + 2 ^ 64) mod 2 ^ 64 = ?x + 2 ^ 64"
      using assms(3,4) by (intro mod_pos_pos_trivial) simp_all
    then have "?x mod 2 ^ 64 = ?x + 2 ^ 64" by (metis mod_add_self2)
    then show ?thesis
      using assms(3,4) by (simp add: int_of_size_def size_of_int_def Let_def)
  qed
  have "uadd (writableBytes b) (prependableBytes b) < uadd ?l kCheapPrepend"
    using assms l by (auto simp: buffer_inv_def prependableBytes_def kCheapPrepend_def uadd_def)
  moreover have "uadd (m_writerIndex b) ?l > vector_max_size"
    using assms l by (auto simp: buffer_inv_def vector_max_size_def uadd_def)
  moreover have "writableBytes b < length s" using assms by (auto simp: buffer_inv_def)
  ultimately show ?thesis
    by (simp add: append_bytes_def ensureWritableBytes_def makeSpace_def vector_resize_def)
qed

theorem append_narrowing_fails_witness:
  "append_bytes (replicate (2 ^ 31) CR) (Buffer_new 1024) = None"
  using append_narrowing_fails [of "Buffer_new 1024" "replicate (2 ^ 31) CR"]
  by (simp add: buffer_inv_new) (simp add: Buffer_new_def kCheapPrepend_def)

lemma findCRLF_SomeD:
  assumes "findCRLF b = Some i"
  shows "content b = take i (content b) @ CRLF @ drop (i + 2) (content b)"
    and "i + 2 \<le> length (content b)"
proof -
  have "search2 CR LF (content b) < length (content b)" and i: "i = search2 CR LF (content b)"
    using assms search2_le [of CR LF "content b"]
    by (auto simp: findCRLF_def Let_def split: if_splits)
  then show "content b = take i (content b) @ CRLF @ drop (i + 2) (content b)"
    and "i + 2 \<le> length (content b)"
    using search2_split [of CR LF "content b"] search2_found [of CR LF "content b"]
    by (simp_all only: append.simps Suc_le_eq add_2_eq_Suc')
qed

lemma findCRLF_None: "findCRLF b = None \<longleftrightarrow> no_pair CR LF (content b)"
  by (auto simp: findCRLF_def Let_def search2_none [symmetric] split: if_splits)

lemma findCRLF_line:
  "content b = line @ CRLF @ rest \<Longrightarrow> no_pair CR LF (line @ [CR]) \<Longrightarrow> findCRLF b = Some (length line)"
  by (simp add: findCRLF_def Let_def search2_append)

lemma retrieveAllAsString_ok:
  "buffer_inv b \<Longrightarrow> retrieveAllAsString b = Some (content b, retrieveAll b)"
  by (auto simp: retrieveAllAsString_def retrieveAsString_def content_def retrieve_def buffer_inv_def)

lemma getBufferAsString_ok: "buffer_inv b \<Longrightarrow> getBufferAsString b = Some (content b)"
  by (auto simp: getBufferAsString_def content_def Let_def buffer_inv_def)

lemma readFd_error:
  "readv (if writableBytes b < extrabuf_size then [writableBytes b, extrabuf_size]
          else [writableBytes b]) = Io_err e \<Longrightarrow> readFd readv b = Some (- 1, Some e, b)"
  by (simp add: readFd_def Let_def)

end
