(* ===== verification/Time_Base.thy ===== *)
theory Time_Base
  imports Prelude Complex_Main
begin

text \<open>
  Time stamps (\<^verbatim>\<open>myserver/include/timestamp.h\<close>,
  \<^verbatim>\<open>myserver/common/timestamp.cpp\<close>) and timers (\<^verbatim>\<open>myserver/include/timer.h\<close>,
  \<^verbatim>\<open>myserver/common/timer.cpp\<close>). A time stamp is its count of microseconds. A C++
  \<^verbatim>\<open>double\<close> is the rational number it denotes; the rounding of a product to the nearest
  double is the parameter \<open>rnd\<close>. The calendar function \<^verbatim>\<open>localtime\<close> is a parameter.
\<close>

section \<open>Timestamp\<close>

type_synonym timestamp = int

definition kMicroSecondsPerSecond :: int where "kMicroSecondsPerSecond = 1000 * 1000"

definition Timestamp_invalid :: timestamp where "Timestamp_invalid = 0"

definition Timestamp_now :: "int \<Rightarrow> int \<Rightarrow> timestamp" where
  "Timestamp_now tv_sec tv_usec = tv_sec * kMicroSecondsPerSecond + tv_usec"

definition getSecond :: "timestamp \<Rightarrow> int" where
  "getSecond ts = c_div ts kMicroSecondsPerSecond"

type_synonym double = rat

definition to_int64 :: "double \<Rightarrow> int" where
  "to_int64 d = (if 0 \<le> d then \<lfloor>d\<rfloor> else \<lceil>d\<rceil>)"

definition addTime :: "(rat \<Rightarrow> double) \<Rightarrow> timestamp \<Rightarrow> double \<Rightarrow> timestamp" where
  "addTime rnd ts seconds = ts + to_int64 (rnd (seconds * of_int kMicroSecondsPerSecond))"

section \<open>Formatting\<close>

record tm =
  tm_year :: int
  tm_mon :: int
  tm_mday :: int
  tm_hour :: int
  tm_min :: int
  tm_sec :: int

abbreviation pad2 :: "int \<Rightarrow> string" where "pad2 i \<equiv> pad_left (CHR ''0'') 2 (fmt_d i)"

text \<open>The conversion \<open>%4d/%02d/%02d %02d:%02d:%02d\<close>, used here and by the logger.\<close>

definition format_tm :: "tm \<Rightarrow> string" where
  "format_tm t =
     pad_left (CHR '' '') 4 (fmt_d (tm_year t + 1900)) @ ''/'' @ pad2 (tm_mon t + 1) @ ''/'' @
     pad2 (tm_mday t) @ '' '' @ pad2 (tm_hour t) @ '':'' @ pad2 (tm_min t) @ '':'' @ pad2 (tm_sec t)"

definition snprintf_buf :: "nat \<Rightarrow> string \<Rightarrow> string" where
  "snprintf_buf cap s = take (cap - 1) s"

definition Timestamp_format :: "(int \<Rightarrow> tm) \<Rightarrow> bool \<Rightarrow> timestamp \<Rightarrow> string" where
  "Timestamp_format localtime showMicroSec ts =
     (let seconds = c_div ts kMicroSecondsPerSecond; t = localtime seconds in
      if showMicroSec then
        let microSec = c_mod ts kMicroSecondsPerSecond in
        snprintf_buf 64 (format_tm t @ ''.'' @ pad_left (CHR ''0'') 6 (fmt_d microSec))
      else snprintf_buf 64 (format_tm t))"

text \<open>A calendar date with a four-digit year, as \<^verbatim>\<open>localtime\<close> returns it.\<close>

definition tm_wf :: "tm \<Rightarrow> bool" where
  "tm_wf t \<longleftrightarrow> -900 \<le> tm_year t \<and> tm_year t < 8100 \<and> 0 \<le> tm_mon t \<and> tm_mon t < 12 \<and>
     1 \<le> tm_mday t \<and> tm_mday t \<le> 31 \<and> 0 \<le> tm_hour t \<and> tm_hour t < 24 \<and>
     0 \<le> tm_min t \<and> tm_min t < 60 \<and> 0 \<le> tm_sec t \<and> tm_sec t \<le> 60"

lemma length_fmt_d_less:
  assumes "0 < k" and "0 \<le> i" and "i < 10 ^ k"
  shows "length (fmt_d i) \<le> k"
proof -
  have "nat i < 10 ^ k" using assms by (simp add: nat_less_iff)
  then show ?thesis using assms length_dec_nat by (simp add: fmt_d_def)
qed

lemma length_pad2 [simp]: "0 \<le> i \<Longrightarrow> i < 100 \<Longrightarrow> length (pad2 i) = 2"
  using length_fmt_d_less [of 2 i] by simp

lemma length_pad4: "1000 \<le> i \<Longrightarrow> i < 10000 \<Longrightarrow> length (pad_left c 4 (fmt_d i)) = 4"
  using length_fmt_d_less [of 4 i] by simp

lemma length_format_tm: "tm_wf t \<Longrightarrow> length (format_tm t) = 19"
proof -
  assume t: "tm_wf t"
  then have y: "length (pad_left (CHR '' '') 4 (fmt_d (tm_year t + 1900))) = 4"
    by (intro length_pad4) (auto simp: tm_wf_def)
  have "length (pad2 (tm_mon t + 1)) = 2" "length (pad2 (tm_mday t)) = 2"
    "length (pad2 (tm_hour t)) = 2" "length (pad2 (tm_min t)) = 2" "length (pad2 (tm_sec t)) = 2"
    using t by (intro length_pad2; simp add: tm_wf_def)+
  with y show "length (format_tm t) = 19"
    unfolding format_tm_def length_append by (simp del: length_pad_left)
qed

section \<open>Timer\<close>

record Timer =
  m_callback :: nat
  m_expiration :: timestamp
  m_interval :: double
  m_repeat :: bool

definition Timer_new :: "nat \<Rightarrow> timestamp \<Rightarrow> double \<Rightarrow> Timer" where
  "Timer_new cb when interval =
     \<lparr>m_callback = cb, m_expiration = when, m_interval = interval, m_repeat = (interval > 0)\<rparr>"

definition Timer_restart :: "(rat \<Rightarrow> double) \<Rightarrow> timestamp \<Rightarrow> Timer \<Rightarrow> Timer" where
  "Timer_restart rnd now t =
     t\<lparr>m_expiration := (if m_repeat t then addTime rnd now (m_interval t) else Timestamp_invalid)\<rparr>"

section \<open>Properties\<close>

lemma to_int64_of_int [simp]: "to_int64 (of_int i) = i"
  by (simp add: to_int64_def)

lemma to_int64_nonneg: "0 \<le> d \<Longrightarrow> 0 \<le> to_int64 d"
  by (simp add: to_int64_def)

text \<open>
  A rendered time stamp. For a calendar date with a four-digit year the text is exactly
  \<open>YYYY/MM/DD hh:mm:ss\<close> (19 characters), and with microseconds it is that text, a dot and six
  digits (26 characters): the 64-byte buffer is never exhausted and every field has its width.
\<close>

theorem Timestamp_format_shape:
  assumes "tm_wf (localtime (getSecond ts))" and "0 \<le> ts"
  shows "Timestamp_format localtime False ts = format_tm (localtime (getSecond ts)) \<and>
    length (Timestamp_format localtime False ts) = 19 \<and>
    Timestamp_format localtime True ts = format_tm (localtime (getSecond ts)) @ ''.'' @
      pad_left (CHR ''0'') 6 (fmt_d (ts mod 1000000)) \<and>
    length (Timestamp_format localtime True ts) = 26"
proof -
  let ?us = "pad_left (CHR ''0'') 6 (fmt_d (ts mod 1000000))"
  have us: "length ?us = 6" using length_fmt_d_less [of 6 "ts mod 1000000"] by simp
  have m: "c_mod ts kMicroSecondsPerSecond = ts mod 1000000"
    using assms(2) by (simp add: kMicroSecondsPerSecond_def)
  note len = length_format_tm [OF assms(1)]
  show ?thesis
    using len us m unfolding Timestamp_format_def getSecond_def [symmetric] Let_def snprintf_buf_def
    by (simp del: length_pad_left)
qed

theorem Timestamp_format_shape_witness:
  "Timestamp_format
     (\<lambda>s. \<lparr>tm_year = 124, tm_mon = 0, tm_mday = 2, tm_hour = 3, tm_min = 4, tm_sec = s mod 60\<rparr>)
     True 5000006 = ''2024/01/02 03:04:05.000006''"
proof -
  let ?lt = "\<lambda>s. \<lparr>tm_year = 124, tm_mon = 0, tm_mday = 2, tm_hour = 3, tm_min = 4, tm_sec = s mod 60\<rparr>"
  have s: "getSecond 5000006 = 5" by (simp add: getSecond_def kMicroSecondsPerSecond_def)
  have "tm_wf (?lt 5)" by (simp add: tm_wf_def)
  then have "Timestamp_format ?lt True 5000006 =
      format_tm (?lt 5) @ ''.'' @ pad_left (CHR ''0'') 6 (fmt_d 6)"
    using Timestamp_format_shape [of ?lt 5000006] s by simp
  also have "\<dots> = ''2024/01/02 03:04:05.000006''"
    by code_simp
  finally show ?thesis .
qed

end
