(* ===== verification/Http_Parser.thy ===== *)
theory Http_Parser
  imports Net_Buffer Time_Base
begin

text \<open>
  The request side of the HTTP layer: \<^verbatim>\<open>HttpRequest\<close>
  (\<^verbatim>\<open>myserver/include/http_request.h\<close>) and the incremental parser
  \<^verbatim>\<open>HttpContext\<close> (\<^verbatim>\<open>myserver/include/http_context.h\<close>,
  \<^verbatim>\<open>myserver/http/http_context.cpp\<close>). The parse loop
  \<^verbatim>\<open>while (hasMore)\<close> is a \<^theory_text>\<open>partial_function (option)\<close>: \<open>None\<close> is a
  call that never returns. The lemmas determine exactly when it returns and what it leaves in the
  context and in the buffer.
\<close>

section \<open>Requests\<close>

datatype Method = Invalid | GET | POST | HEAD | PUT | DELETE
datatype Version = Unknown | Http10 | Http11

record HttpRequest =
  m_method :: Method
  m_version :: Version
  m_path :: string
  m_query :: string
  m_receiveTime :: timestamp
  m_headers :: "string \<rightharpoonup> string"

definition HttpRequest_new :: HttpRequest where
  "HttpRequest_new =
     \<lparr>m_method = Invalid, m_version = Unknown, m_path = [], m_query = [],
      m_receiveTime = 0, m_headers = Map.empty\<rparr>"

definition method_of :: "string \<Rightarrow> Method" where
  "method_of m =
     (if m = ''GET'' then GET else if m = ''POST'' then POST else if m = ''HEAD'' then HEAD
      else if m = ''PUT'' then PUT else if m = ''DELETE'' then DELETE else Invalid)"

definition setMethod :: "string \<Rightarrow> HttpRequest \<Rightarrow> bool \<times> HttpRequest" where
  [http_defs]: "setMethod m req =
     (let req' = req\<lparr>m_method := method_of m\<rparr> in (m_method req' \<noteq> Invalid, req'))"

fun methodString :: "Method \<Rightarrow> string" where
  "methodString GET = ''GET''"
| "methodString POST = ''POST''"
| "methodString HEAD = ''HEAD''"
| "methodString PUT = ''PUT''"
| "methodString DELETE = ''DELETE''"
| "methodString Invalid = ''UNKNOWN''"

text \<open>The two trimming loops of \<^verbatim>\<open>addHeader\<close>.\<close>

definition trim_value :: "string \<Rightarrow> string" where
  "trim_value s = rev (dropWhile isspace (rev (dropWhile isspace s)))"

definition addHeader :: "string \<Rightarrow> nat \<Rightarrow> HttpRequest \<Rightarrow> HttpRequest" where
  [http_defs]: "addHeader line colon req =
     req\<lparr>m_headers := (m_headers req)(take colon line \<mapsto> trim_value (drop (colon + 1) line))\<rparr>"

definition getHeader :: "string \<Rightarrow> HttpRequest \<Rightarrow> string" where
  "getHeader field req = (case m_headers req field of None \<Rightarrow> [] | Some v \<Rightarrow> v)"

definition request_swap :: "HttpRequest \<times> HttpRequest \<Rightarrow> HttpRequest \<times> HttpRequest" where
  "request_swap p =
     (let l = fst p; r = snd p in
      (l\<lparr>m_method := m_method r, m_version := m_version r, m_path := m_path r,
         m_query := m_query r, m_receiveTime := m_receiveTime r, m_headers := m_headers r\<rparr>,
       r\<lparr>m_method := m_method l, m_version := m_version l, m_path := m_path l,
         m_query := m_query l, m_receiveTime := m_receiveTime l, m_headers := m_headers l\<rparr>))"

section \<open>The parsing context\<close>

datatype HttpRequestParseState = kExpectRequestLine | kExpectHeaders | kExpectBody | kGotAll

record HttpContext =
  hc_state :: HttpRequestParseState
  hc_request :: HttpRequest

definition HttpContext_new :: HttpContext where
  "HttpContext_new = \<lparr>hc_state = kExpectRequestLine, hc_request = HttpRequest_new\<rparr>"

definition isGotAll :: "HttpContext \<Rightarrow> bool" where
  "isGotAll ctx \<longleftrightarrow> hc_state ctx = kGotAll"

definition HttpContext_reset :: "HttpContext \<Rightarrow> HttpContext" where
  "HttpContext_reset ctx =
     ctx\<lparr>hc_state := kExpectRequestLine,
         hc_request := fst (request_swap (hc_request ctx, HttpRequest_new))\<rparr>"

definition processRequestLine :: "string \<Rightarrow> HttpRequest \<Rightarrow> bool \<times> HttpRequest" where
  "processRequestLine line req =
     (let space = find_char (CHR '' '') line in
      if space \<noteq> length line \<and> fst (setMethod (take space line) req) then
        let req1 = snd (setMethod (take space line) req);
            rest = drop (space + 1) line;
            space2 = find_char (CHR '' '') rest in
        if space2 \<noteq> length rest then
          let target = take space2 rest;
              question = find_char (CHR ''?'') target;
              req2 = (if question \<noteq> length target
                      then req1\<lparr>m_path := take question target, m_query := drop question target\<rparr>
                      else req1\<lparr>m_path := target\<rparr>);
              ver = drop (space2 + 1) rest in
          if length ver = 8 \<and> take 7 ver = ''HTTP/1.'' then
            (if ver ! 7 = CHR ''1'' then (True, req2\<lparr>m_version := Http11\<rparr>)
             else if ver ! 7 = CHR ''0'' then (True, req2\<lparr>m_version := Http10\<rparr>)
             else (False, req2))
          else (False, req2)
        else (False, req1)
      else (False, if space \<noteq> length line then snd (setMethod (take space line) req) else req))"

text \<open>
  The body of \<^verbatim>\<open>parseRequest\<close>: the loop runs with the flag \<open>ok\<close>; returning is leaving
  the loop with \<open>hasMore\<close> false. A request line that is not accepted leaves the state and the
  buffer as they are, as do the states \<open>kExpectBody\<close> and \<open>kGotAll\<close>.
\<close>

partial_function (option) parse_loop ::
    "timestamp \<Rightarrow> bool \<Rightarrow> HttpContext \<Rightarrow> Buffer \<Rightarrow> (bool \<times> HttpContext \<times> Buffer) option" where
  "parse_loop now ok ctx buf =
     (case hc_state ctx of
        kExpectRequestLine \<Rightarrow>
          (case findCRLF buf of
             Some crlf \<Rightarrow>
               (let r = processRequestLine (take crlf (content buf)) (hc_request ctx) in
                if fst r
                then parse_loop now True
                       \<lparr>hc_state = kExpectHeaders, hc_request = (snd r)\<lparr>m_receiveTime := now\<rparr>\<rparr>
                       (retrieveUntil (crlf + 2) buf)
                else parse_loop now False (ctx\<lparr>hc_request := snd r\<rparr>) buf)
           | None \<Rightarrow> Some (ok, ctx, buf))
      | kExpectHeaders \<Rightarrow>
          (case findCRLF buf of
             Some crlf \<Rightarrow>
               (let line = take crlf (content buf); colon = find_char (CHR '':'') line in
                if colon \<noteq> length line
                then parse_loop now ok (ctx\<lparr>hc_request := addHeader line colon (hc_request ctx)\<rparr>)
                       (retrieveUntil (crlf + 2) buf)
                else Some (ok, ctx\<lparr>hc_state := kGotAll\<rparr>, retrieveUntil (crlf + 2) buf))
           | None \<Rightarrow> Some (ok, ctx, buf))
      | kExpectBody \<Rightarrow> parse_loop now ok ctx buf
      | kGotAll \<Rightarrow> parse_loop now ok ctx buf)"

definition parseRequest ::
    "timestamp \<Rightarrow> HttpContext \<Rightarrow> Buffer \<Rightarrow> (bool \<times> HttpContext \<times> Buffer) option" where
  "parseRequest now ctx buf = parse_loop now False ctx buf"

section \<open>Request lines\<close>

lemma methodString_method_of: "method_of m \<noteq> Invalid \<Longrightarrow> methodString (method_of m) = m"
  by (auto simp: method_of_def split: if_splits)

lemma method_of_methodString: "mt \<noteq> Invalid \<Longrightarrow> method_of (methodString mt) = mt"
  by (cases mt) (simp_all add: method_of_def)

text \<open>A request line is accepted or not whatever the request held before.\<close>

definition line_ok :: "string \<Rightarrow> bool" where
  "line_ok line = fst (processRequestLine line HttpRequest_new)"

lemma processRequestLine_ok: "fst (processRequestLine line req) = line_ok line"
  by (simp add: line_ok_def processRequestLine_def setMethod_def Let_def)

definition version_chars :: "(Version \<times> char) list" where
  "version_chars = [(Http10, CHR ''0''), (Http11, CHR ''1'')]"

definition request_line :: "Method \<Rightarrow> string \<Rightarrow> Version \<Rightarrow> string" where
  "request_line mt target v =
     methodString mt @ '' '' @ target @ '' HTTP/1.'' @ [the (map_of version_chars v)]"

lemma methodString_no_space: "CHR '' '' \<notin> set (methodString mt)"
  by (cases mt) simp_all

lemma request_line_split:
  "request_line mt target v =
     methodString mt @ CHR '' '' # target @ CHR '' '' # ''HTTP/1.'' @ [the (map_of version_chars v)]"
  by (simp add: request_line_def)

lemma processRequestLine_request_line:
  assumes "mt \<noteq> Invalid" and "CHR '' '' \<notin> set target" and "v \<noteq> Unknown"
  shows "processRequestLine (request_line mt target v) req =
    (True, let q = find_char (CHR ''?'') target in
       (if q \<noteq> length target
        then req\<lparr>m_method := mt, m_path := take q target, m_query := drop q target\<rparr>
        else req\<lparr>m_method := mt, m_path := target\<rparr>)\<lparr>m_version := v\<rparr>)"
proof -
  note sp = methodString_no_space [of mt]
  have "the (map_of version_chars v) = (if v = Http11 then CHR ''1'' else CHR ''0'')"
    using assms(3) by (cases v) (simp_all add: version_chars_def)
  then show ?thesis
    using assms sp by (cases v) (simp_all add: request_line_split processRequestLine_def setMethod_def
      method_of_methodString Let_def)
qed

lemma line_okD:
  assumes "line_ok line"
  shows "\<exists>mt target v. mt \<noteq> Invalid \<and> v \<noteq> Unknown \<and> CHR '' '' \<notin> set target \<and>
           line = request_line mt target v"
proof -
  let ?sp = "find_char (CHR '' '') line"
  let ?rest = "drop (?sp + 1) line"
  let ?sp2 = "find_char (CHR '' '') ?rest"
  let ?ver = "drop (?sp2 + 1) ?rest"
  from assms have sp: "?sp \<noteq> length line" and m: "method_of (take ?sp line) \<noteq> Invalid"
    and sp2: "?sp2 \<noteq> length ?rest" and len: "length ?ver = 8" and pre: "take 7 ?ver = ''HTTP/1.''"
    and c: "?ver ! 7 = CHR ''1'' \<or> ?ver ! 7 = CHR ''0''"
    unfolding line_ok_def processRequestLine_def setMethod_def Let_def
    by (auto split: if_splits)
  define v where "v = (if ?ver ! 7 = CHR ''1'' then Http11 else Http10)"
  have "?ver = take 7 ?ver @ [?ver ! 7]"
    by (rule take_snoc) (subst len, simp)
  then have ver: "?ver = ''HTTP/1.'' @ [the (map_of version_chars v)]"
    using pre c by (auto simp: v_def version_chars_def)
  have "line = take ?sp line @ CHR '' '' # take ?sp2 ?rest @ CHR '' '' # ?ver"
    using find_char_split(1) [OF sp] find_char_split(1) [OF sp2] by simp
  then have "line = request_line (method_of (take ?sp line)) (take ?sp2 ?rest) v"
    using methodString_method_of [OF m] ver by (simp add: request_line_split)
  moreover have "CHR '' '' \<notin> set (take ?sp2 ?rest)" using find_char_split(2) [OF sp2] .
  moreover have "v \<noteq> Unknown" by (simp add: v_def)
  ultimately show ?thesis using m by blast
qed

section \<open>When the loop does not return\<close>

definition parse_stuck :: "HttpContext \<Rightarrow> Buffer \<Rightarrow> bool" where
  "parse_stuck ctx buf \<longleftrightarrow>
     (case hc_state ctx of
        kExpectRequestLine \<Rightarrow>
          (case findCRLF buf of None \<Rightarrow> False | Some i \<Rightarrow> \<not> line_ok (take i (content buf)))
      | kExpectHeaders \<Rightarrow> False | kExpectBody \<Rightarrow> True | kGotAll \<Rightarrow> True)"

lemma parse_loop_not_stuck:
  assumes ret: "parse_loop now ok ctx buf = Some r"
  shows "\<not> parse_stuck ctx buf"
proof (rule parse_loop.raw_induct [where P = "\<lambda>now ok ctx buf r. \<not> parse_stuck ctx buf", OF _ ret])
  fix f :: "timestamp \<Rightarrow> bool \<Rightarrow> HttpContext \<Rightarrow> Buffer \<Rightarrow> (bool \<times> HttpContext \<times> Buffer) option"
  fix now ok ctx buf r
  assume IH: "\<And>now ok ctx buf r. f now ok ctx buf = Some r \<Longrightarrow> \<not> parse_stuck ctx buf"
    and eq: "(case hc_state ctx of
        kExpectRequestLine \<Rightarrow>
          (case findCRLF buf of
             Some crlf \<Rightarrow>
               (let r = processRequestLine (take crlf (content buf)) (hc_request ctx) in
                if fst r
                then f now True
                       \<lparr>hc_state = kExpectHeaders, hc_request = (snd r)\<lparr>m_receiveTime := now\<rparr>\<rparr>
                       (retrieveUntil (crlf + 2) buf)
                else f now False (ctx\<lparr>hc_request := snd r\<rparr>) buf)
           | None \<Rightarrow> Some (ok, ctx, buf))
      | kExpectHeaders \<Rightarrow>
          (case findCRLF buf of
             Some crlf \<Rightarrow>
               (let line = take crlf (content buf); colon = find_char (CHR '':'') line in
                if colon \<noteq> length line
                then f now ok (ctx\<lparr>hc_request := addHeader line colon (hc_request ctx)\<rparr>)
                       (retrieveUntil (crlf + 2) buf)
                else Some (ok, ctx\<lparr>hc_state := kGotAll\<rparr>, retrieveUntil (crlf + 2) buf))
           | None \<Rightarrow> Some (ok, ctx, buf))
      | kExpectBody \<Rightarrow> f now ok ctx buf
      | kGotAll \<Rightarrow> f now ok ctx buf) = Some r"
  show "\<not> parse_stuck ctx buf"
  proof
    assume stuck: "parse_stuck ctx buf"
    show False
    proof (cases "hc_state ctx = kExpectRequestLine")
      case True
      with stuck obtain i where i: "findCRLF buf = Some i" and bad: "\<not> line_ok (take i (content buf))"
        by (auto simp: parse_stuck_def split: option.splits)
      let ?p = "processRequestLine (take i (content buf)) (hc_request ctx)"
      have "f now False (ctx\<lparr>hc_request := snd ?p\<rparr>) buf = Some r"
        using eq True i bad by (simp add: processRequestLine_ok Let_def)
      then have "\<not> parse_stuck (ctx\<lparr>hc_request := snd ?p\<rparr>) buf" by (rule IH)
      then show False using stuck by (simp add: parse_stuck_def)
    next
      case False
      then have "f now ok ctx buf = Some r"
        using stuck eq by (auto simp: parse_stuck_def split: HttpRequestParseState.splits)
      with stuck IH show False by blast
    qed
  qed
qed

section \<open>When it returns\<close>

definition end_of_headers :: "HttpContext \<Rightarrow> Buffer \<Rightarrow> bool" where
  "end_of_headers ctx buf \<longleftrightarrow>
     hc_state ctx = kGotAll \<or> hc_state ctx = kExpectHeaders \<and> findCRLF buf = None"

lemma headers_loop_returns:
  assumes "buffer_inv buf" and "hc_state ctx = kExpectHeaders"
  shows "\<exists>ctx' buf'. parse_loop now ok ctx buf = Some (ok, ctx', buf') \<and> buffer_inv buf' \<and>
           end_of_headers ctx' buf' \<and> (\<exists>u. content buf = u @ content buf')"
  using assms
proof (induction "length (content buf)" arbitrary: ctx buf rule: less_induct)
  case less
  show ?case
  proof (cases "findCRLF buf")
    case None
    then show ?thesis
      using less.prems by (simp add: parse_loop.simps end_of_headers_def)
  next
    case (Some i)
    let ?line = "take i (content buf)"
    let ?colon = "find_char (CHR '':'') ?line"
    let ?buf = "retrieveUntil (i + 2) buf"
    have c: "content ?buf = drop (i + 2) (content buf)" and inv: "buffer_inv ?buf"
      using less.prems by (simp_all add: retrieveUntil_def content_retrieve buffer_inv_retrieve)
    show ?thesis
    proof (cases "?colon = length ?line")
      case True
      then show ?thesis
        using Some less.prems inv c
        by (auto simp: parse_loop.simps [of now ok ctx] end_of_headers_def Let_def
            intro: append_take_drop_id [symmetric])
    next
      case False
      let ?ctx = "ctx\<lparr>hc_request := addHeader ?line ?colon (hc_request ctx)\<rparr>"
      have "length (content ?buf) < length (content buf)"
        using findCRLF_SomeD(2) [OF Some] c by simp
      then obtain ctx' buf' u where IH: "parse_loop now ok ?ctx ?buf = Some (ok, ctx', buf')"
          "buffer_inv buf'" "end_of_headers ctx' buf'" "content ?buf = u @ content buf'"
        using less.hyps [OF _ inv, of ?ctx] less.prems by auto
      have "\<exists>u. content buf = u @ content buf'"
        using IH(4) c drop_suffix by metis
      then show ?thesis
        using IH Some False less.prems by (auto simp: parse_loop.simps [of now ok ctx] Let_def)
    qed
  qed
qed

text \<open>The context after an accepted request line.\<close>

definition after_line :: "timestamp \<Rightarrow> string \<Rightarrow> HttpContext \<Rightarrow> HttpContext" where
  "after_line now line ctx = \<lparr>hc_state = kExpectHeaders, hc_request =
     (snd (processRequestLine line (hc_request ctx)))\<lparr>m_receiveTime := now\<rparr>\<rparr>"

lemma hc_state_after_line [simp]: "hc_state (after_line now line ctx) = kExpectHeaders"
  by (simp add: after_line_def)

lemma parse_loop_request_line:
  "hc_state ctx = kExpectRequestLine \<Longrightarrow> findCRLF buf = Some i \<Longrightarrow> line_ok (take i (content buf)) \<Longrightarrow>
     parse_loop now ok ctx buf =
       parse_loop now True (after_line now (take i (content buf)) ctx) (retrieveUntil (i + 2) buf)"
  by (simp add: parse_loop.simps [of now ok ctx] processRequestLine_ok after_line_def Let_def)

lemma retrieveUntil_inv [simp]: "buffer_inv b \<Longrightarrow> buffer_inv (retrieveUntil n b)"
  by (simp add: retrieveUntil_def buffer_inv_retrieve)

lemma content_retrieveUntil [simp]:
  "buffer_inv b \<Longrightarrow> content (retrieveUntil n b) = drop n (content b)"
  by (simp add: retrieveUntil_def content_retrieve)

lemma parse_loop_returns:
  assumes inv: "buffer_inv buf" and "\<not> parse_stuck ctx buf"
  shows "\<exists>r. parse_loop now ok ctx buf = Some r"
proof (cases "hc_state ctx")
  case kExpectRequestLine
  show ?thesis
  proof (cases "findCRLF buf")
    case None
    then show ?thesis using kExpectRequestLine by (simp add: parse_loop.simps)
  next
    case (Some i)
    have "line_ok (take i (content buf))"
      using assms(2) kExpectRequestLine Some by (simp add: parse_stuck_def)
    note parse_loop_request_line [OF kExpectRequestLine Some this, of now ok]
    with headers_loop_returns [OF retrieveUntil_inv [OF inv] hc_state_after_line, of now True]
    show ?thesis by metis
  qed
next
  case kExpectHeaders
  then show ?thesis using headers_loop_returns [OF inv] by blast
qed (use assms(2) in \<open>simp_all add: parse_stuck_def\<close>)

section \<open>What a complete request yields\<close>

definition header_line :: "string \<Rightarrow> bool" where
  "header_line l \<longleftrightarrow> CHR '':'' \<in> set l \<and> no_pair CR LF (l @ [CR])"

definition end_line :: "string \<Rightarrow> bool" where
  "end_line l \<longleftrightarrow> CHR '':'' \<notin> set l \<and> no_pair CR LF (l @ [CR])"

definition add_line :: "string \<Rightarrow> HttpRequest \<Rightarrow> HttpRequest" where
  "add_line l = addHeader l (find_char (CHR '':'') l)"

lemma headers_loop_complete:
  assumes "buffer_inv buf" and "hc_state ctx = kExpectHeaders"
    and "content buf = concat (map (\<lambda>l. l @ CRLF) hs) @ e @ CRLF @ rest"
    and "\<forall>l\<in>set hs. header_line l" and "end_line e"
  shows "\<exists>buf'. parse_loop now ok ctx buf =
      Some (ok, \<lparr>hc_state = kGotAll, hc_request = fold add_line hs (hc_request ctx)\<rparr>, buf') \<and>
      buffer_inv buf' \<and> content buf' = rest"
  using assms
proof (induction hs arbitrary: ctx buf)
  case Nil
  then have i: "findCRLF buf = Some (length e)"
    by (intro findCRLF_line) (auto simp: end_line_def)
  with Nil show ?case
    by (simp add: parse_loop.simps [of now ok ctx] end_line_def retrieveUntil_def
        content_retrieve buffer_inv_retrieve Let_def)
next
  case (Cons l hs)
  let ?rest = "concat (map (\<lambda>l. l @ CRLF) hs) @ e @ CRLF @ rest"
  have cont: "content buf = l @ CRLF @ ?rest" using Cons.prems(3) by simp
  have i: "findCRLF buf = Some (length l)"
    using Cons.prems(4) by (intro findCRLF_line [OF cont]) (simp add: header_line_def)
  let ?ctx = "ctx\<lparr>hc_request := add_line l (hc_request ctx)\<rparr>"
  let ?buf = "retrieveUntil (length l + 2) buf"
  have buf: "buffer_inv ?buf" "content ?buf = ?rest"
    using Cons.prems(1) cont by (simp_all add: retrieveUntil_def content_retrieve buffer_inv_retrieve)
  have "find_char (CHR '':'') l \<noteq> length l"
    using Cons.prems(4) by (simp add: find_char_eq_length header_line_def)
  then have "parse_loop now ok ctx buf = parse_loop now ok ?ctx ?buf"
    using Cons.prems(2) i cont by (simp add: parse_loop.simps [of now ok ctx] add_line_def Let_def)
  with Cons.IH [OF buf(1) _ buf(2), of ?ctx] Cons.prems show ?case by auto
qed

lemma request_loop_complete:
  assumes "buffer_inv buf" and "hc_state ctx = kExpectRequestLine"
    and "content buf = line @ CRLF @ concat (map (\<lambda>l. l @ CRLF) hs) @ e @ CRLF @ rest"
    and "line_ok line" and "no_pair CR LF (line @ [CR])"
    and "\<forall>l\<in>set hs. header_line l" and "end_line e"
  shows "\<exists>buf'. parseRequest now ctx buf =
      Some (True, \<lparr>hc_state = kGotAll, hc_request = fold add_line hs
        ((snd (processRequestLine line (hc_request ctx)))\<lparr>m_receiveTime := now\<rparr>)\<rparr>, buf') \<and>
      buffer_inv buf' \<and> content buf' = rest"
proof -
  let ?rest = "concat (map (\<lambda>l. l @ CRLF) hs) @ e @ CRLF @ rest"
  let ?ctx = "after_line now line ctx" and ?buf = "retrieveUntil (length line + 2) buf"
  have "findCRLF buf = Some (length line)"
    using assms(5) by (intro findCRLF_line [OF assms(3)])
  then have "parseRequest now ctx buf = parse_loop now True ?ctx ?buf"
    using parse_loop_request_line [of ctx buf "length line" now False] assms(2-4)
    by (simp add: parseRequest_def)
  with headers_loop_complete [of ?buf ?ctx hs e rest now True] assms show ?thesis
    by (simp add: after_line_def)
qed

section \<open>Printing a request and parsing it back\<close>

definition print_header :: "string \<times> string \<Rightarrow> string" where
  "print_header h = fst h @ '': '' @ snd h"

definition print_request ::
    "Method \<Rightarrow> string \<Rightarrow> Version \<Rightarrow> (string \<times> string) list \<Rightarrow> string" where
  "print_request mt target v hs =
     request_line mt target v @ CRLF @ concat (map (\<lambda>h. print_header h @ CRLF) hs) @ CRLF"

definition wf_header :: "string \<times> string \<Rightarrow> bool" where
  "wf_header h \<longleftrightarrow> CHR '':'' \<notin> set (fst h) \<and> LF \<notin> set (fst h) \<and> LF \<notin> set (snd h) \<and>
     (snd h \<noteq> [] \<longrightarrow> \<not> isspace (hd (snd h)) \<and> \<not> isspace (last (snd h)))"

lemma trim_value_padded:
  assumes "v \<noteq> [] \<longrightarrow> \<not> isspace (hd v) \<and> \<not> isspace (last v)"
  shows "trim_value (CHR '' '' # v) = v"
proof -
  have sp: "isspace (CHR '' '')" by (simp add: isspace_def)
  show ?thesis
  proof (cases v rule: rev_cases)
    case (snoc ys y)
    then have "dropWhile isspace v = v" using assms by (cases ys) auto
    then show ?thesis using snoc assms sp by (simp add: trim_value_def)
  qed (use sp in \<open>simp add: trim_value_def\<close>)
qed

lemma add_line_print_header:
  assumes "wf_header h"
  shows "add_line (print_header h) req = req\<lparr>m_headers := (m_headers req)(fst h \<mapsto> snd h)\<rparr>"
proof -
  have "find_char (CHR '':'') (print_header h) = length (fst h)"
    using assms by (simp add: print_header_def wf_header_def)
  then show ?thesis
    using assms trim_value_padded [of "snd h"]
    by (simp add: add_line_def addHeader_def print_header_def wf_header_def)
qed

lemma fold_add_line:
  "\<forall>h\<in>set hs. wf_header h \<Longrightarrow>
     fold add_line (map print_header hs) req =
       req\<lparr>m_headers := m_headers req ++ map_of (rev hs)\<rparr>"
proof (induction hs arbitrary: req)
  case (Cons h hs)
  then show ?case
    by (simp add: add_line_print_header map_of_append map_add_upd_left [symmetric])
qed simp

lemma header_line_print_header: "wf_header h \<Longrightarrow> header_line (print_header h)"
  by (auto simp: header_line_def wf_header_def print_header_def LF_def CR_def intro!: no_pair_notin)

lemma request_line_no_LF: "LF \<notin> set target \<Longrightarrow> v \<noteq> Unknown \<Longrightarrow> LF \<notin> set (request_line mt target v)"
  by (cases mt; cases v) (simp_all add: request_line_def version_chars_def LF_def)

lemma parse_printed:
  assumes inv: "buffer_inv buf" and cont: "content buf = print_request mt target v hs @ rest"
    and mt: "mt \<noteq> Invalid" and v: "v \<noteq> Unknown"
    and tgt: "CHR '' '' \<notin> set target" "LF \<notin> set target"
    and hs: "\<forall>h\<in>set hs. wf_header h"
  shows "\<exists>buf'. parseRequest now HttpContext_new buf =
    Some (True, \<lparr>hc_state = kGotAll, hc_request =
      \<lparr>m_method = mt, m_version = v,
       m_path = take (find_char (CHR ''?'') target) target,
       m_query = drop (find_char (CHR ''?'') target) target,
       m_receiveTime = now, m_headers = map_of (rev hs)\<rparr>\<rparr>, buf') \<and>
    buffer_inv buf' \<and> content buf' = rest"
proof -
  let ?line = "request_line mt target v"
  have pr: "processRequestLine ?line req = (True, snd (processRequestLine ?line req))" for req
    using processRequestLine_request_line [OF mt tgt(1) v, of req] by simp
  have "line_ok ?line" unfolding line_ok_def by (subst pr) simp
  moreover have "no_pair CR LF (?line @ [CR])"
    using request_line_no_LF [OF tgt(2) v, of mt] by (intro no_pair_notin) simp
  moreover have "content buf =
      ?line @ CRLF @ concat (map (\<lambda>l. l @ CRLF) (map print_header hs)) @ [] @ CRLF @ rest"
    using cont by (simp add: print_request_def comp_def)
  moreover have "\<forall>l\<in>set (map print_header hs). header_line l"
    using hs header_line_print_header by auto
  moreover have "end_line []" by (simp add: end_line_def no_pair_notin)
  ultimately obtain buf' where "parseRequest now HttpContext_new buf =
      Some (True, \<lparr>hc_state = kGotAll, hc_request = fold add_line (map print_header hs)
        ((snd (processRequestLine ?line HttpRequest_new))\<lparr>m_receiveTime := now\<rparr>)\<rparr>, buf')"
      "buffer_inv buf'" "content buf' = rest"
    using request_loop_complete [OF inv, of HttpContext_new ?line "map print_header hs" "[]" rest now]
    by (auto simp: HttpContext_new_def)
  then show ?thesis
    using hs by (auto simp: fold_add_line processRequestLine_request_line [OF mt tgt(1) v]
        HttpRequest_new_def Let_def)
qed

text \<open>
  C5. Round trip. A request printed in the usual form (method, target, version, one
  \<open>field: value\<close> line per header, an empty line) and sitting at the front of the buffer is parsed
  completely: \<^verbatim>\<open>parseRequest\<close> returns true in state \<open>kGotAll\<close>, with the method, version,
  path, query (with its leading question mark) and the header map of the printed request, and the
  buffer holds exactly the bytes after it.
\<close>

theorem parse_print_request:
  assumes inv: "buffer_inv buf" and cont: "content buf = print_request mt target v hs @ rest"
    and mt: "mt \<noteq> Invalid" and v: "v \<noteq> Unknown"
    and tgt: "CHR '' '' \<notin> set target" "LF \<notin> set target"
    and hs: "\<forall>h\<in>set hs. wf_header h"
  shows "\<exists>buf'. parseRequest now HttpContext_new buf =
    Some (True, \<lparr>hc_state = kGotAll, hc_request =
      \<lparr>m_method = mt, m_version = v,
       m_path = take (find_char (CHR ''?'') target) target,
       m_query = drop (find_char (CHR ''?'') target) target,
       m_receiveTime = now, m_headers = map_of (rev hs)\<rparr>\<rparr>, buf') \<and>
    buffer_inv buf' \<and> content buf' = rest"
  using parse_printed [OF assms] .

definition sample_buffer :: "string \<Rightarrow> Buffer" where
  "sample_buffer s = \<lparr>m_buffer = replicate 8 (CHR 0x00) @ s, m_readerIndex = 8, m_writerIndex = 8 + length s\<rparr>"

lemma sample_buffer [simp]:
  "length s < 2 ^ 62 \<Longrightarrow> buffer_inv (sample_buffer s)" "content (sample_buffer s) = s"
  by (simp_all add: sample_buffer_def buffer_inv_def kCheapPrepend_def content_def readableBytes_def)

theorem parse_print_request_witness:
  "\<exists>buf'. parseRequest 7 HttpContext_new
       (sample_buffer (print_request GET ''/a?x'' Http11 [(''Host'', ''h'')] @ ''tail'')) =
    Some (True, \<lparr>hc_state = kGotAll, hc_request =
      \<lparr>m_method = GET, m_version = Http11, m_path = ''/a'', m_query = ''?x'',
       m_receiveTime = 7, m_headers = [''Host'' \<mapsto> ''h'']\<rparr>\<rparr>, buf') \<and>
    buffer_inv buf' \<and> content buf' = ''tail''"
  using parse_print_request [of "sample_buffer (print_request GET ''/a?x'' Http11 [(''Host'', ''h'')] @ ''tail'')"
      GET "''/a?x''" Http11 "[(''Host'', ''h'')]" "''tail''" 7]
  by (simp add: print_request_def request_line_def print_header_def version_chars_def wf_header_def
      isspace_def LF_def find_char_def)

text \<open>
  C11. Exactly when \<^verbatim>\<open>parseRequest\<close> returns. On a buffer that satisfies its invariant the
  call returns if and only if the context is in state \<open>kExpectHeaders\<close>, or in state
  \<open>kExpectRequestLine\<close> and the first line, if the buffer holds a complete one, is an acceptable
  request line. In every other case the loop never ends: a malformed request line is neither
  consumed nor reported, and \<open>kExpectBody\<close> and \<open>kGotAll\<close> have no branch that leaves the loop.
\<close>

theorem parseRequest_returns_iff:
  assumes "buffer_inv buf"
  shows "(\<exists>r. parseRequest now ctx buf = Some r) \<longleftrightarrow>
    hc_state ctx = kExpectHeaders \<or>
    hc_state ctx = kExpectRequestLine \<and>
      (case findCRLF buf of None \<Rightarrow> True | Some i \<Rightarrow> line_ok (take i (content buf)))"
proof -
  have "(\<exists>r. parseRequest now ctx buf = Some r) \<longleftrightarrow> \<not> parse_stuck ctx buf"
    unfolding parseRequest_def using parse_loop_not_stuck parse_loop_returns [OF assms] by blast
  then show ?thesis
    by (cases "hc_state ctx") (auto simp: parse_stuck_def split: option.splits)
qed

theorem parseRequest_returns_iff_witness:
  "\<not> (\<exists>r. parseRequest 0 HttpContext_new (sample_buffer (''BREW / HTTP/1.1'' @ CRLF)) = Some r)"
  using parseRequest_returns_iff [of "sample_buffer (''BREW / HTTP/1.1'' @ CRLF)" 0 HttpContext_new]
  by (simp add: HttpContext_new_def findCRLF_def line_ok_def processRequestLine_def find_char_def
      setMethod_def method_of_def CR_def LF_def Let_def)

text \<open>
  The language of accepted request lines. A line is accepted exactly when it is one of the five
  methods, a space, a target without spaces, a space, and \<open>HTTP/1.0\<close> or \<open>HTTP/1.1\<close>.
\<close>

theorem line_ok_iff:
  "line_ok line \<longleftrightarrow>
     (\<exists>mt target v. mt \<noteq> Invalid \<and> v \<noteq> Unknown \<and> CHR '' '' \<notin> set target \<and>
        line = methodString mt @ '' '' @ target @ '' HTTP/1.'' @
          (if v = Http11 then ''1'' else ''0''))"
proof -
  have *: "request_line mt target v =
      methodString mt @ '' '' @ target @ '' HTTP/1.'' @ (if v = Http11 then ''1'' else ''0'')"
    if "v \<noteq> Unknown" for mt target v
    using that by (cases v) (simp_all add: request_line_def version_chars_def)
  show ?thesis
  proof
    assume "line_ok line"
    then show "\<exists>mt target v. mt \<noteq> Invalid \<and> v \<noteq> Unknown \<and> CHR '' '' \<notin> set target \<and>
        line = methodString mt @ '' '' @ target @ '' HTTP/1.'' @ (if v = Http11 then ''1'' else ''0'')"
      using line_okD * by metis
  next
    assume "\<exists>mt target v. mt \<noteq> Invalid \<and> v \<noteq> Unknown \<and> CHR '' '' \<notin> set target \<and>
        line = methodString mt @ '' '' @ target @ '' HTTP/1.'' @ (if v = Http11 then ''1'' else ''0'')"
    then obtain mt target v where "mt \<noteq> Invalid" "v \<noteq> Unknown" "CHR '' '' \<notin> set target"
        "line = request_line mt target v"
      using * by metis
    then show "line_ok line"
      using processRequestLine_request_line [of mt target v HttpRequest_new] by (simp add: line_ok_def)
  qed
qed

text \<open>
  No progress is lost on an incomplete head. If the call returns without having seen the end of
  the headers, then the bytes left in the buffer are a suffix of the bytes it was given, contain no
  further line end, and the state is \<open>kExpectRequestLine\<close> (nothing consumed, result false) or
  \<open>kExpectHeaders\<close>; the result is true exactly when the request line was consumed by this call.
\<close>

theorem parseRequest_incomplete:
  assumes inv: "buffer_inv buf" and ret: "parseRequest now ctx buf = Some (ok, ctx', buf')"
    and inc: "\<not> isGotAll ctx'"
  shows "(\<exists>u. content buf = u @ content buf') \<and> no_pair CR LF (content buf') \<and>
    (ok \<longleftrightarrow> hc_state ctx = kExpectRequestLine \<and> hc_state ctx' = kExpectHeaders) \<and>
    (hc_state ctx' = kExpectRequestLine \<longrightarrow> ctx' = ctx \<and> buf' = buf)"
proof -
  have hdr: "(\<exists>u. content b = u @ content buf') \<and> no_pair CR LF (content buf') \<and> ok = o0 \<and>
      hc_state ctx' = kExpectHeaders"
    if "buffer_inv b" "hc_state c = kExpectHeaders" "parse_loop now o0 c b = Some (ok, ctx', buf')"
    for b c o0
    using headers_loop_returns [OF that(1,2), of now o0] that(3) inc
    by (auto simp: end_of_headers_def isGotAll_def findCRLF_None)
  have ns: "\<not> parse_stuck ctx buf"
    using parse_loop_not_stuck ret unfolding parseRequest_def by blast
  show ?thesis
  proof (cases "hc_state ctx")
    case kExpectRequestLine
    show ?thesis
    proof (cases "findCRLF buf")
      case None
      moreover from None have "no_pair CR LF (content buf)" by (simp add: findCRLF_None)
      ultimately show ?thesis
        using ret kExpectRequestLine by (auto simp: parseRequest_def parse_loop.simps)
    next
      case (Some i)
      let ?b = "retrieveUntil (i + 2) buf" and ?ctx = "after_line now (take i (content buf)) ctx"
      have "line_ok (take i (content buf))"
        using ns kExpectRequestLine Some by (simp add: parse_stuck_def)
      then have "parse_loop now True ?ctx ?b = Some (ok, ctx', buf')"
        using parse_loop_request_line [OF kExpectRequestLine Some, of now False] ret
        by (simp add: parseRequest_def)
      from hdr [OF retrieveUntil_inv [OF inv] hc_state_after_line this] inv obtain u where
        *: "drop (i + 2) (content buf) = u @ content buf'" "no_pair CR LF (content buf')"
          "ok" "hc_state ctx' = kExpectHeaders"
        by auto
      with drop_suffix [OF *(1)] kExpectRequestLine show ?thesis by auto
    qed
  next
    case kExpectHeaders
    then show ?thesis using hdr [OF inv] ret by (auto simp: parseRequest_def)
  qed (use ns in \<open>simp_all add: parse_stuck_def\<close>)
qed

theorem parseRequest_incomplete_witness:
  "no_pair CR LF (content (sample_buffer ''GET / HT''))"
proof -
  have "parseRequest 0 HttpContext_new (sample_buffer ''GET / HT'') =
      Some (False, HttpContext_new, sample_buffer ''GET / HT'')"
    by (simp add: parseRequest_def parse_loop.simps HttpContext_new_def findCRLF_def CR_def LF_def)
  from parseRequest_incomplete [OF _ this] show ?thesis
    by (simp add: isGotAll_def HttpContext_new_def)
qed

end
