(* ===== verification/Epoll_Poller.thy ===== *)
theory Epoll_Poller
  imports Prelude
begin

text \<open>
  Channels and the epoll poller (\<^verbatim>\<open>myserver/include/channel.h\<close>,
  \<^verbatim>\<open>myserver/net/channel.cpp\<close>, \<^verbatim>\<open>myserver/include/poller.h\<close>,
  \<^verbatim>\<open>myserver/common/poller.cpp\<close>, \<^verbatim>\<open>myserver/include/epoll_poller.h\<close>,
  \<^verbatim>\<open>myserver/common/epoll_poller.cpp\<close>). Channels are heap objects, addressed by numbers;
  the kernel's \<^verbatim>\<open>epoll_ctl\<close> and \<^verbatim>\<open>epoll_wait\<close> are parameters over an abstract kernel
  state, and what the manual page says of \<^verbatim>\<open>epoll_ctl\<close> is the predicate \<open>epoll_spec\<close>.
  \<open>None\<close> is a call that does not return: \<^verbatim>\<open>LOG_FATAL\<close> aborts the process, and a dangling
  channel pointer is undefined behaviour.
\<close>

unbundle bit_operations_syntax

section \<open>Channel\<close>

type_synonym events = "32 word"
type_synonym chan_ptr = nat

definition EPOLLIN :: events where "EPOLLIN = 0x001"
definition EPOLLPRI :: events where "EPOLLPRI = 0x002"
definition EPOLLOUT :: events where "EPOLLOUT = 0x004"
definition EPOLLERR :: events where "EPOLLERR = 0x008"
definition EPOLLHUP :: events where "EPOLLHUP = 0x010"

definition kNoneEvent :: events where "kNoneEvent = 0"
definition kReadEvent :: events where "kReadEvent = EPOLLIN OR EPOLLPRI"
definition kWriteEvent :: events where "kWriteEvent = EPOLLOUT"

record Channel =
  ch_fd :: int
  ch_events :: events
  ch_revents :: events
  ch_index :: int
  ch_tied :: bool

definition Channel_new :: "int \<Rightarrow> Channel" where
  "Channel_new fd = \<lparr>ch_fd = fd, ch_events = 0, ch_revents = 0, ch_index = -1, ch_tied = False\<rparr>"

definition ev_enableRead :: "events \<Rightarrow> events" where "ev_enableRead e = e OR kReadEvent"
definition ev_disableRead :: "events \<Rightarrow> events" where "ev_disableRead e = e AND NOT kReadEvent"
definition ev_enableWrite :: "events \<Rightarrow> events" where "ev_enableWrite e = e OR kWriteEvent"
definition ev_disableWrite :: "events \<Rightarrow> events" where "ev_disableWrite e = e AND NOT kWriteEvent"
definition ev_disableAll :: "events \<Rightarrow> events" where "ev_disableAll e = e AND kNoneEvent"

definition isNoneEvent :: "events \<Rightarrow> bool" where "isNoneEvent e \<longleftrightarrow> e = kNoneEvent"
definition isWrite :: "events \<Rightarrow> bool" where "isWrite e \<longleftrightarrow> e AND kWriteEvent \<noteq> 0"
definition isRead :: "events \<Rightarrow> bool" where "isRead e \<longleftrightarrow> e AND kReadEvent \<noteq> 0"

text \<open>The callbacks a channel may run, and the order in which an event runs those that are set.\<close>

datatype callback = CloseCb | ErrorCb | ReadCb | WriteCb

definition handleEventWithGuard :: "(callback \<Rightarrow> bool) \<Rightarrow> Channel \<Rightarrow> callback list" where
  "handleEventWithGuard is_set ch =
     filter is_set
       ((if ch_revents ch AND EPOLLHUP \<noteq> 0 \<and> \<not> (ch_revents ch AND EPOLLIN \<noteq> 0) then [CloseCb] else []) @
        (if ch_revents ch AND EPOLLERR \<noteq> 0 then [ErrorCb] else []) @
        (if ch_revents ch AND (EPOLLIN OR EPOLLPRI) \<noteq> 0 then [ReadCb] else []) @
        (if ch_revents ch AND EPOLLOUT \<noteq> 0 then [WriteCb] else []))"

definition handleEvent :: "bool \<Rightarrow> (callback \<Rightarrow> bool) \<Rightarrow> Channel \<Rightarrow> callback list" where
  "handleEvent tie_alive is_set ch =
     (if ch_tied ch then (if tie_alive then handleEventWithGuard is_set ch else [])
      else handleEventWithGuard is_set ch)"

section \<open>EpollPoller\<close>

definition kNew :: int where "kNew = -1"
definition kAdded :: int where "kAdded = 1"
definition kDeleted :: int where "kDeleted = 2"

definition kInitEventListSize :: nat where "kInitEventListSize = 16"

datatype epoll_op = EPOLL_CTL_ADD | EPOLL_CTL_MOD | EPOLL_CTL_DEL

record 'k Poller =
  pl_heap :: "chan_ptr \<rightharpoonup> Channel"
  m_channels :: "int \<rightharpoonup> chan_ptr"
  pl_events :: nat
  pl_kern :: 'k

type_synonym 'k epoll_ctl = "'k \<Rightarrow> epoll_op \<Rightarrow> int \<Rightarrow> events \<Rightarrow> chan_ptr \<Rightarrow> int \<times> 'k"

definition EpollPoller_new :: "'k \<Rightarrow> 'k Poller" where
  "EpollPoller_new k = \<lparr>pl_heap = Map.empty, m_channels = Map.empty,
     pl_events = kInitEventListSize, pl_kern = k\<rparr>"

definition hasChannel :: "chan_ptr \<Rightarrow> 'k Poller \<Rightarrow> bool option" where
  "hasChannel p pl =
     (case pl_heap pl p of None \<Rightarrow> None | Some ch \<Rightarrow> Some (m_channels pl (ch_fd ch) = Some p))"

definition poller_update ::
    "'k epoll_ctl \<Rightarrow> epoll_op \<Rightarrow> chan_ptr \<Rightarrow> 'k Poller \<Rightarrow> 'k Poller option" where
  "poller_update ctl operation p pl =
     (case pl_heap pl p of
        None \<Rightarrow> None
      | Some ch \<Rightarrow>
          (let (r, k) = ctl (pl_kern pl) operation (ch_fd ch) (ch_events ch) p in
           if r < 0 then (if operation = EPOLL_CTL_DEL then Some (pl\<lparr>pl_kern := k\<rparr>) else None)
           else Some (pl\<lparr>pl_kern := k\<rparr>)))"

definition setIndex :: "int \<Rightarrow> chan_ptr \<Rightarrow> 'k Poller \<Rightarrow> 'k Poller" where
  "setIndex idx p pl =
     pl\<lparr>pl_heap := (pl_heap pl)(p := map_option (\<lambda>ch. ch\<lparr>ch_index := idx\<rparr>) (pl_heap pl p))\<rparr>"

definition updateChannel :: "'k epoll_ctl \<Rightarrow> chan_ptr \<Rightarrow> 'k Poller \<Rightarrow> 'k Poller option" where
  "updateChannel ctl p pl =
     (case pl_heap pl p of
        None \<Rightarrow> None
      | Some ch \<Rightarrow>
          (let index = ch_index ch in
           if index = kNew \<or> index = kDeleted then
             let pl1 = (if index = kNew
                        then pl\<lparr>m_channels := (m_channels pl)(ch_fd ch \<mapsto> p)\<rparr> else pl) in
             poller_update ctl EPOLL_CTL_ADD p (setIndex kAdded p pl1)
           else if isNoneEvent (ch_events ch) then do {
             pl1 \<leftarrow> poller_update ctl EPOLL_CTL_DEL p pl;
             Some (setIndex kDeleted p pl1) }
           else poller_update ctl EPOLL_CTL_MOD p pl))"

definition removeChannel :: "'k epoll_ctl \<Rightarrow> chan_ptr \<Rightarrow> 'k Poller \<Rightarrow> 'k Poller option" where
  "removeChannel ctl p pl =
     (case pl_heap pl p of
        None \<Rightarrow> None
      | Some ch \<Rightarrow> do {
          let pl1 = pl\<lparr>m_channels := (m_channels pl)(ch_fd ch := None)\<rparr>;
          pl2 \<leftarrow> (if ch_index ch = kAdded then poller_update ctl EPOLL_CTL_DEL p pl1 else Some pl1);
          Some (setIndex kNew p pl2) })"

text \<open>\<^verbatim>\<open>enableRead\<close> and its siblings: change \<open>m_events\<close>, then \<^verbatim>\<open>update()\<close>.\<close>

definition channel_set ::
    "'k epoll_ctl \<Rightarrow> (events \<Rightarrow> events) \<Rightarrow> chan_ptr \<Rightarrow> 'k Poller \<Rightarrow> 'k Poller option" where
  "channel_set ctl f p pl =
     updateChannel ctl p
       (pl\<lparr>pl_heap := (pl_heap pl)(p := map_option (\<lambda>ch. ch\<lparr>ch_events := f (ch_events ch)\<rparr>) (pl_heap pl p))\<rparr>)"

text \<open>\<^verbatim>\<open>m_events[i]\<close> for \<open>i\<close> below the count: the events bits and the channel pointer.\<close>

definition set_revents :: "events \<times> chan_ptr \<Rightarrow> 'k Poller \<Rightarrow> 'k Poller option" where
  "set_revents e pl =
     (case pl_heap pl (snd e) of None \<Rightarrow> None
      | Some ch \<Rightarrow> Some (pl\<lparr>pl_heap := (pl_heap pl)(snd e \<mapsto> ch\<lparr>ch_revents := fst e\<rparr>)\<rparr>))"

definition fillActiveChannels ::
    "int \<Rightarrow> (events \<times> chan_ptr) list \<Rightarrow> 'k Poller \<Rightarrow> (chan_ptr list \<times> 'k Poller) option" where
  "fillActiveChannels numEvents evs pl =
     (if numEvents \<le> int (length evs)
      then map_option (\<lambda>pl'. (map snd (take (nat numEvents) evs), pl'))
             (foldM set_revents (take (nat numEvents) evs) pl)
      else None)"

datatype poll_log = No_log | Log_timeout | Log_failed

definition EINTR :: int where "EINTR = 4"

text \<open>
  \<open>wait\<close> is \<^verbatim>\<open>epoll_wait\<close>: from the kernel state and the length of the event array to the
  return value, the error number and the events stored. The result is assigned to a
  \<^verbatim>\<open>size_t\<close>.
\<close>

definition EpollPoller_poll ::
    "('k \<Rightarrow> nat \<Rightarrow> int \<times> int \<times> (events \<times> chan_ptr) list) \<Rightarrow> 'k Poller \<Rightarrow>
       (chan_ptr list \<times> poll_log \<times> 'k Poller) option" where
  "EpollPoller_poll wait pl =
     (let (ret, saveErrno, evs) = wait (pl_kern pl) (pl_events pl);
          numEvents = size_of_int ret in
      if numEvents > 0 then do {
        (active, pl1) \<leftarrow> fillActiveChannels (int_of_size numEvents) evs pl;
        Some (active, No_log,
              if numEvents = pl_events pl1 then pl1\<lparr>pl_events := pl_events pl1 * 2\<rparr> else pl1) }
      else if numEvents = 0 then Some ([], Log_timeout, pl)
      else if saveErrno \<noteq> EINTR then Some ([], Log_failed, pl)
      else Some ([], No_log, pl))"

section \<open>Event masks\<close>

lemma isWrite_iff: "isWrite e \<longleftrightarrow> bit e 2"
proof -
  have "kWriteEvent = push_bit 2 1" by (simp add: kWriteEvent_def EPOLLOUT_def)
  then show ?thesis
    by (metis isWrite_def and_exp_eq_0_iff_not_bit push_bit_of_1)
qed

lemma isWrite_enable [simp]: "isWrite (ev_enableWrite e)"
  by (simp add: isWrite_iff ev_enableWrite_def kWriteEvent_def EPOLLOUT_def bit_simps)

lemma isWrite_disable [simp]: "\<not> isWrite (ev_disableWrite e)" "\<not> isWrite (ev_disableAll e)"
  by (simp_all add: isWrite_iff ev_disableWrite_def ev_disableAll_def kNoneEvent_def kWriteEvent_def
      EPOLLOUT_def bit_simps)

lemma isWrite_read [simp]: "isWrite (ev_enableRead e) = isWrite e" "isWrite (ev_disableRead e) = isWrite e"
  by (simp_all add: isWrite_iff ev_enableRead_def ev_disableRead_def kReadEvent_def EPOLLIN_def
      EPOLLPRI_def bit_simps)

lemma enableWrite_not_none [simp]: "\<not> isNoneEvent (ev_enableWrite e)"
proof
  assume "isNoneEvent (ev_enableWrite e)"
  then have "\<not> isWrite (ev_enableWrite e)" by (simp add: isNoneEvent_def isWrite_def kNoneEvent_def)
  then show False by simp
qed

section \<open>The kernel's interest list\<close>

text \<open>
  \<open>il k\<close> is the interest list of the kernel state \<open>k\<close>. As documented, a failing
  \<^verbatim>\<open>epoll_ctl\<close> changes nothing; \<^verbatim>\<open>ADD\<close> succeeds only on a descriptor that is not
  registered, \<^verbatim>\<open>MOD\<close> and \<^verbatim>\<open>DEL\<close> only on one that is, and deleting a registered
  descriptor succeeds.
\<close>

definition epoll_spec :: "('k \<Rightarrow> int \<rightharpoonup> events \<times> chan_ptr) \<Rightarrow> 'k epoll_ctl \<Rightarrow> bool" where
  "epoll_spec il ctl \<longleftrightarrow> (\<forall>k operation fd ev p r k'. ctl k operation fd ev p = (r, k') \<longrightarrow>
     (r < 0 \<longrightarrow> il k' = il k) \<and>
     (0 \<le> r \<longrightarrow> (case operation of
        EPOLL_CTL_ADD \<Rightarrow> il k fd = None \<and> il k' = (il k)(fd \<mapsto> (ev, p))
      | EPOLL_CTL_MOD \<Rightarrow> il k fd \<noteq> None \<and> il k' = (il k)(fd \<mapsto> (ev, p))
      | EPOLL_CTL_DEL \<Rightarrow> il k fd \<noteq> None \<and> il k' = (il k)(fd := None))) \<and>
     (operation = EPOLL_CTL_DEL \<and> il k fd \<noteq> None \<longrightarrow> 0 \<le> r))"

text \<open>No other reason to fail: the descriptors are open and pollable and memory suffices.\<close>

definition epoll_avail :: "('k \<Rightarrow> int \<rightharpoonup> events \<times> chan_ptr) \<Rightarrow> 'k epoll_ctl \<Rightarrow> bool" where
  "epoll_avail il ctl \<longleftrightarrow> (\<forall>k fd ev p.
     (il k fd = None \<longrightarrow> 0 \<le> fst (ctl k EPOLL_CTL_ADD fd ev p)) \<and>
     (il k fd \<noteq> None \<longrightarrow> 0 \<le> fst (ctl k EPOLL_CTL_MOD fd ev p)))"

text \<open>
  What the poller keeps true: the index of a channel is one of the three constants, live channels
  have distinct descriptors, the map holds exactly the channels that are not new, and the kernel's
  interest list holds exactly the channels marked added, each with its current event mask.
\<close>

definition poller_inv :: "('k \<Rightarrow> int \<rightharpoonup> events \<times> chan_ptr) \<Rightarrow> 'k Poller \<Rightarrow> bool" where
  "poller_inv il pl \<longleftrightarrow>
     (\<forall>p ch. pl_heap pl p = Some ch \<longrightarrow> ch_index ch \<in> {kNew, kAdded, kDeleted}) \<and>
     (\<forall>p q ch ch'. pl_heap pl p = Some ch \<and> pl_heap pl q = Some ch' \<and> ch_fd ch = ch_fd ch' \<longrightarrow> p = q) \<and>
     (\<forall>fd p. m_channels pl fd = Some p \<longleftrightarrow>
        (\<exists>ch. pl_heap pl p = Some ch \<and> ch_fd ch = fd \<and> ch_index ch \<noteq> kNew)) \<and>
     (\<forall>fd ev p. il (pl_kern pl) fd = Some (ev, p) \<longleftrightarrow>
        (\<exists>ch. pl_heap pl p = Some ch \<and> ch_fd ch = fd \<and> ch_index ch = kAdded \<and> ch_events ch = ev))"

lemma index_consts [simp]:
  "kNew \<noteq> kAdded" "kNew \<noteq> kDeleted" "kAdded \<noteq> kDeleted" "kAdded \<noteq> kNew" "kDeleted \<noteq> kNew" "kDeleted \<noteq> kAdded"
  by (simp_all add: kNew_def kAdded_def kDeleted_def)

lemma poller_invD:
  assumes "poller_inv il pl"
  shows "pl_heap pl p = Some ch \<Longrightarrow> ch_index ch \<in> {kNew, kAdded, kDeleted}"
    and "pl_heap pl p = Some ch \<Longrightarrow> pl_heap pl q = Some ch' \<Longrightarrow> ch_fd ch = ch_fd ch' \<Longrightarrow> p = q"
    and "m_channels pl fd = Some p \<longleftrightarrow>
        (\<exists>ch. pl_heap pl p = Some ch \<and> ch_fd ch = fd \<and> ch_index ch \<noteq> kNew)"
    and "il (pl_kern pl) fd = Some (ev, p) \<longleftrightarrow>
        (\<exists>ch. pl_heap pl p = Some ch \<and> ch_fd ch = fd \<and> ch_index ch = kAdded \<and> ch_events ch = ev)"
  using assms unfolding poller_inv_def by blast+

lemma poller_inv_channel:
  assumes inv: "poller_inv il pl" and ch: "pl_heap pl p = Some ch"
  shows "m_channels pl (ch_fd ch) = (if ch_index ch = kNew then None else Some p)"
    and "il (pl_kern pl) (ch_fd ch) = (if ch_index ch = kAdded then Some (ch_events ch, p) else None)"
proof -
  have inj: "q = p" if "pl_heap pl q = Some ch'" "ch_fd ch' = ch_fd ch" for q ch'
    using poller_invD(2) [OF inv that(1) ch that(2)] .
  show "m_channels pl (ch_fd ch) = (if ch_index ch = kNew then None else Some p)"
  proof (cases "m_channels pl (ch_fd ch)")
    case None
    then have "ch_index ch = kNew" using poller_invD(3) [OF inv, of "ch_fd ch" p] ch by auto
    with None show ?thesis by simp
  next
    case (Some q)
    then obtain ch' where "pl_heap pl q = Some ch'" "ch_fd ch' = ch_fd ch" "ch_index ch' \<noteq> kNew"
      using poller_invD(3) [OF inv] by blast
    with inj ch Some show ?thesis by auto
  qed
  show "il (pl_kern pl) (ch_fd ch) = (if ch_index ch = kAdded then Some (ch_events ch, p) else None)"
  proof (cases "il (pl_kern pl) (ch_fd ch)")
    case None
    then have "ch_index ch \<noteq> kAdded"
      using poller_invD(4) [OF inv, of "ch_fd ch" "ch_events ch" p] ch by auto
    with None show ?thesis by simp
  next
    case (Some x)
    then obtain ch' where "pl_heap pl (snd x) = Some ch'" "ch_fd ch' = ch_fd ch" "ch_index ch' = kAdded"
        "ch_events ch' = fst x"
      using poller_invD(4) [OF inv, of "ch_fd ch" "fst x" "snd x"] by auto
    with inj ch Some show ?thesis by (cases x) auto
  qed
qed

lemma poller_inv_upd:
  assumes inv: "poller_inv il pl" and ch: "pl_heap pl p = Some ch"
    and ch': "ch_fd ch' = ch_fd ch" "ch_index ch' \<in> {kNew, kAdded, kDeleted}"
    and heap: "pl_heap pl' = (pl_heap pl)(p \<mapsto> ch')"
    and m: "m_channels pl' = (m_channels pl)(ch_fd ch := if ch_index ch' = kNew then None else Some p)"
    and k: "il (pl_kern pl') = (il (pl_kern pl))
              (ch_fd ch := if ch_index ch' = kAdded then Some (ch_events ch', p) else None)"
  shows "poller_inv il pl'"
proof -
  have inj: "q = p" if "pl_heap pl q = Some c" "ch_fd c = ch_fd ch" for q c
    using poller_invD(2) [OF inv that(1) ch that(2)] .
  show ?thesis
    unfolding poller_inv_def
  proof (intro conjI allI)
    fix q c show "pl_heap pl' q = Some c \<longrightarrow> ch_index c \<in> {kNew, kAdded, kDeleted}"
      using poller_invD(1) [OF inv, of q c] ch'(2) heap by auto
  next
    fix a b c c'
    show "pl_heap pl' a = Some c \<and> pl_heap pl' b = Some c' \<and> ch_fd c = ch_fd c' \<longrightarrow> a = b"
    proof (cases "a = p \<or> b = p")
      case True
      then show ?thesis using inj ch'(1) by (metis fun_upd_apply heap option.inject)
    next
      case False
      then show ?thesis using poller_invD(2) [OF inv] by (metis fun_upd_apply heap)
    qed
  next
    fix fd q
    show "m_channels pl' fd = Some q \<longleftrightarrow>
        (\<exists>c. pl_heap pl' q = Some c \<and> ch_fd c = fd \<and> ch_index c \<noteq> kNew)"
    proof (cases "q = p")
      case True
      then show ?thesis
        using poller_invD(3) [OF inv, of fd p] ch ch'(1) by (auto simp: heap m)
    next
      case False
      then show ?thesis
        using poller_invD(3) [OF inv, of fd q] inj [of q] by (auto simp: heap m)
    qed
  next
    fix fd ev q
    show "il (pl_kern pl') fd = Some (ev, q) \<longleftrightarrow>
        (\<exists>c. pl_heap pl' q = Some c \<and> ch_fd c = fd \<and> ch_index c = kAdded \<and> ch_events c = ev)"
    proof (cases "q = p")
      case True
      then show ?thesis
        using poller_invD(4) [OF inv, of fd ev p] ch ch'(1) by (auto simp: heap k)
    next
      case False
      then show ?thesis
        using poller_invD(4) [OF inv, of fd ev q] inj [of q] by (auto simp: heap k)
    qed
  qed
qed

lemma poller_update_ok:
  assumes spec: "epoll_spec il ctl" and ch: "pl_heap pl p = Some ch"
    and upd: "poller_update ctl operation p pl = Some pl'"
    and reg: "operation = EPOLL_CTL_DEL \<longrightarrow> il (pl_kern pl) (ch_fd ch) \<noteq> None"
  shows "pl' = pl\<lparr>pl_kern := pl_kern pl'\<rparr>"
    and "il (pl_kern pl') = (il (pl_kern pl))
      (ch_fd ch := if operation = EPOLL_CTL_DEL then None else Some (ch_events ch, p))"
proof -
  obtain r k where rk: "ctl (pl_kern pl) operation (ch_fd ch) (ch_events ch) p = (r, k)" by fastforce
  have r: "0 \<le> r"
    using upd rk ch reg spec by (force simp: poller_update_def epoll_spec_def split: if_splits)
  then have pl': "pl' = pl\<lparr>pl_kern := k\<rparr>"
    using upd rk ch by (simp add: poller_update_def)
  then show "pl' = pl\<lparr>pl_kern := pl_kern pl'\<rparr>" by simp
  have "case operation of
        EPOLL_CTL_ADD \<Rightarrow> il k = (il (pl_kern pl))(ch_fd ch \<mapsto> (ch_events ch, p))
      | EPOLL_CTL_MOD \<Rightarrow> il k = (il (pl_kern pl))(ch_fd ch \<mapsto> (ch_events ch, p))
      | EPOLL_CTL_DEL \<Rightarrow> il k = (il (pl_kern pl))(ch_fd ch := None)"
    using spec rk r unfolding epoll_spec_def by (cases operation) fastforce+
  then show "il (pl_kern pl') = (il (pl_kern pl))
      (ch_fd ch := if operation = EPOLL_CTL_DEL then None else Some (ch_events ch, p))"
    using pl' by (cases operation) simp_all
qed

lemma poller_update_avail:
  assumes "epoll_avail il ctl" and "pl_heap pl p = Some ch"
    and "operation = EPOLL_CTL_ADD \<longrightarrow> il (pl_kern pl) (ch_fd ch) = None"
    and "operation = EPOLL_CTL_MOD \<longrightarrow> il (pl_kern pl) (ch_fd ch) \<noteq> None"
  shows "poller_update ctl operation p pl \<noteq> None"
proof -
  obtain r k where rk: "ctl (pl_kern pl) operation (ch_fd ch) (ch_events ch) p = (r, k)" by fastforce
  have "0 \<le> r \<or> operation = EPOLL_CTL_DEL"
    using assms(1,3,4) rk unfolding epoll_avail_def by (cases operation) (metis fst_conv)+
  then show ?thesis using assms(2) rk by (auto simp: poller_update_def)
qed

text \<open>The operations a channel offers its owners, as data, so that a run is a list of them.\<close>

datatype chan_op = Set_events "events \<Rightarrow> events" | Remove

definition chan_run :: "'k epoll_ctl \<Rightarrow> chan_op \<times> chan_ptr \<Rightarrow> 'k Poller \<Rightarrow> 'k Poller option" where
  "chan_run ctl x pl =
     (case fst x of Set_events f \<Rightarrow> channel_set ctl f (snd x) pl | Remove \<Rightarrow> removeChannel ctl (snd x) pl)"

definition next_index :: "Channel \<Rightarrow> int" where
  "next_index ch = (if ch_index ch = kAdded \<and> isNoneEvent (ch_events ch) then kDeleted else kAdded)"

lemma updateChannel_effect:
  assumes spec: "epoll_spec il ctl" and ch: "pl_heap pl p = Some ch"
    and idx: "ch_index ch \<in> {kNew, kAdded, kDeleted}"
    and reg: "ch_index ch = kAdded \<longrightarrow> il (pl_kern pl) (ch_fd ch) \<noteq> None"
    and run: "updateChannel ctl p pl = Some pl'"
  shows "pl_heap pl' = (pl_heap pl)(p \<mapsto> ch\<lparr>ch_index := next_index ch\<rparr>) \<and>
    m_channels pl' = (if ch_index ch = kNew then (m_channels pl)(ch_fd ch \<mapsto> p) else m_channels pl) \<and>
    il (pl_kern pl') = (il (pl_kern pl))
      (ch_fd ch := if next_index ch = kAdded then Some (ch_events ch, p) else None)"
proof (cases "ch_index ch = kAdded")
  case False
  define pl1 where "pl1 = setIndex kAdded p
    (if ch_index ch = kNew then pl\<lparr>m_channels := (m_channels pl)(ch_fd ch \<mapsto> p)\<rparr> else pl)"
  have h1: "pl_heap pl1 = (pl_heap pl)(p \<mapsto> ch\<lparr>ch_index := kAdded\<rparr>)" "pl_kern pl1 = pl_kern pl"
    "m_channels pl1 = (if ch_index ch = kNew then (m_channels pl)(ch_fd ch \<mapsto> p) else m_channels pl)"
    using ch by (simp_all add: pl1_def setIndex_def)
  have "poller_update ctl EPOLL_CTL_ADD p pl1 = Some pl'"
    using run ch idx False by (simp add: updateChannel_def Let_def pl1_def)
  from poller_update_ok [OF spec _ this, of "ch\<lparr>ch_index := kAdded\<rparr>"] False h1 show ?thesis
    by (cases pl1, cases pl') (auto simp: next_index_def)
next
  case True
  show ?thesis
  proof (cases "isNoneEvent (ch_events ch)")
    case none: True
    with run True ch obtain pl1 where del: "poller_update ctl EPOLL_CTL_DEL p pl = Some pl1"
        and pl': "pl' = setIndex kDeleted p pl1"
      by (auto simp: updateChannel_def Let_def bind_eq_Some_conv)
    from poller_update_ok [OF spec ch del] reg True none pl' ch show ?thesis
      by (cases pl, cases pl1) (auto simp: next_index_def setIndex_def)
  next
    case some: False
    then have md: "poller_update ctl EPOLL_CTL_MOD p pl = Some pl'"
      using run ch True by (simp add: updateChannel_def Let_def)
    have "ch\<lparr>ch_index := next_index ch\<rparr> = ch" using True some by (simp add: next_index_def)
    with poller_update_ok [OF spec ch md] True some ch show ?thesis
      by (cases pl, cases pl') (auto simp: next_index_def fun_upd_idem)
  qed
qed

lemma channel_set_effect:
  assumes spec: "epoll_spec il ctl" and inv: "poller_inv il pl" and ch: "pl_heap pl p = Some ch"
    and run: "channel_set ctl f p pl = Some pl'"
  defines "ch0 \<equiv> ch\<lparr>ch_events := f (ch_events ch)\<rparr>"
  shows "pl_heap pl' = (pl_heap pl)(p \<mapsto> ch0\<lparr>ch_index := next_index ch0\<rparr>)"
    and "m_channels pl' = (m_channels pl)(ch_fd ch \<mapsto> p)"
    and "il (pl_kern pl') = (il (pl_kern pl))
      (ch_fd ch := if next_index ch0 = kAdded then Some (f (ch_events ch), p) else None)"
proof -
  define pl0 where "pl0 = pl\<lparr>pl_heap := (pl_heap pl)(p \<mapsto> ch0)\<rparr>"
  have run0: "updateChannel ctl p pl0 = Some pl'"
    using run ch by (simp add: channel_set_def pl0_def ch0_def)
  have h0: "pl_kern pl0 = pl_kern pl" "m_channels pl0 = m_channels pl"
    "pl_heap pl0 = (pl_heap pl)(p \<mapsto> ch0)"
    by (simp_all add: pl0_def)
  note chan = poller_inv_channel [OF inv ch]
  have "ch_index ch0 \<in> {kNew, kAdded, kDeleted}" using poller_invD(1) [OF inv ch] by (simp add: ch0_def)
  from updateChannel_effect [OF spec _ this _ run0] chan(2)
  have eff: "pl_heap pl' = (pl_heap pl0)(p \<mapsto> ch0\<lparr>ch_index := next_index ch0\<rparr>)"
    "m_channels pl' = (if ch_index ch0 = kNew then (m_channels pl)(ch_fd ch0 \<mapsto> p) else m_channels pl)"
    "il (pl_kern pl') = (il (pl_kern pl))
      (ch_fd ch0 := if next_index ch0 = kAdded then Some (ch_events ch0, p) else None)"
    by (simp_all add: h0 ch0_def)
  from eff(1) show "pl_heap pl' = (pl_heap pl)(p \<mapsto> ch0\<lparr>ch_index := next_index ch0\<rparr>)" by (simp add: h0)
  from eff(2) chan(1) show "m_channels pl' = (m_channels pl)(ch_fd ch \<mapsto> p)"
    by (auto simp: ch0_def fun_upd_idem)
  from eff(3) show "il (pl_kern pl') = (il (pl_kern pl))
      (ch_fd ch := if next_index ch0 = kAdded then Some (f (ch_events ch), p) else None)"
    by (simp add: ch0_def)
qed

lemma channel_set_inv:
  assumes spec: "epoll_spec il ctl" and inv: "poller_inv il pl" and ch: "pl_heap pl p = Some ch"
    and run: "channel_set ctl f p pl = Some pl'"
  shows "poller_inv il pl'"
proof -
  note eff = channel_set_effect [OF spec inv ch run]
  show ?thesis
    by (rule poller_inv_upd [OF inv ch _ _ eff(1)]) (simp_all add: eff next_index_def)
qed

lemma removeChannel_effect:
  assumes spec: "epoll_spec il ctl" and inv: "poller_inv il pl" and ch: "pl_heap pl p = Some ch"
    and run: "removeChannel ctl p pl = Some pl'"
  shows "pl_heap pl' = (pl_heap pl)(p \<mapsto> ch\<lparr>ch_index := kNew\<rparr>)"
    and "m_channels pl' = (m_channels pl)(ch_fd ch := None)"
    and "il (pl_kern pl') = (il (pl_kern pl))(ch_fd ch := None)"
proof -
  define pl1 where "pl1 = pl\<lparr>m_channels := (m_channels pl)(ch_fd ch := None)\<rparr>"
  have h1: "pl_heap pl1 = pl_heap pl" "pl_kern pl1 = pl_kern pl"
    "m_channels pl1 = (m_channels pl)(ch_fd ch := None)"
    by (simp_all add: pl1_def)
  note chan = poller_inv_channel [OF inv ch]
  obtain pl2 where up: "(if ch_index ch = kAdded then poller_update ctl EPOLL_CTL_DEL p pl1 else Some pl1) = Some pl2"
      and pl': "pl' = setIndex kNew p pl2"
    using run ch unfolding removeChannel_def Let_def pl1_def by (auto simp: bind_eq_Some_conv)
  have "pl_heap pl2 = pl_heap pl \<and> m_channels pl2 = m_channels pl1 \<and>
    il (pl_kern pl2) = (il (pl_kern pl))(ch_fd ch := None)"
  proof (cases "ch_index ch = kAdded")
    case True
    with poller_update_ok [OF spec, of pl1 p ch EPOLL_CTL_DEL pl2] up h1 ch chan(2) show ?thesis
      by (cases pl1, cases pl2) auto
  next
    case False
    with up h1 chan(2) show ?thesis by (simp add: fun_upd_idem)
  qed
  with pl' h1 ch show "pl_heap pl' = (pl_heap pl)(p \<mapsto> ch\<lparr>ch_index := kNew\<rparr>)"
    "m_channels pl' = (m_channels pl)(ch_fd ch := None)"
    "il (pl_kern pl') = (il (pl_kern pl))(ch_fd ch := None)"
    by (simp_all add: setIndex_def)
qed

lemma removeChannel_inv:
  assumes spec: "epoll_spec il ctl" and inv: "poller_inv il pl" and ch: "pl_heap pl p = Some ch"
    and run: "removeChannel ctl p pl = Some pl'"
  shows "poller_inv il pl'"
proof -
  note eff = removeChannel_effect [OF spec inv ch run]
  show ?thesis
    by (rule poller_inv_upd [OF inv ch _ _ eff(1)]) (simp_all add: eff)
qed

lemma chan_run_step:
  assumes spec: "epoll_spec il ctl" and inv: "poller_inv il pl" and run: "chan_run ctl x pl = Some pl'"
  shows "poller_inv il pl' \<and> dom (pl_heap pl') = dom (pl_heap pl)"
proof -
  obtain ch where ch: "pl_heap pl (snd x) = Some ch"
    using run
    by (cases "pl_heap pl (snd x)")
       (auto simp: chan_run_def channel_set_def updateChannel_def removeChannel_def split: chan_op.splits)
  show ?thesis
  proof (cases "fst x")
    case (Set_events f)
    then have run': "channel_set ctl f (snd x) pl = Some pl'" using run by (simp add: chan_run_def)
    show ?thesis using channel_set_inv [OF spec inv ch run'] channel_set_effect(1) [OF spec inv ch run'] ch
      by auto
  next
    case Remove
    then have run': "removeChannel ctl (snd x) pl = Some pl'" using run by (simp add: chan_run_def)
    show ?thesis using removeChannel_inv [OF spec inv ch run'] removeChannel_effect(1) [OF spec inv ch run'] ch
      by auto
  qed
qed

lemma chan_run_returns:
  assumes avail: "epoll_avail il ctl" and inv: "poller_inv il pl" and live: "snd x \<in> dom (pl_heap pl)"
  shows "chan_run ctl x pl \<noteq> None"
proof -
  obtain ch where ch: "pl_heap pl (snd x) = Some ch" using live by auto
  note chan = poller_inv_channel [OF inv ch]
  show ?thesis
  proof (cases "fst x")
    case (Set_events f)
    define pl0 where "pl0 = pl\<lparr>pl_heap := (pl_heap pl)(snd x \<mapsto> ch\<lparr>ch_events := f (ch_events ch)\<rparr>)\<rparr>"
    have "updateChannel ctl (snd x) pl0 \<noteq> None"
      using chan(2) poller_invD(1) [OF inv ch] ch
      by (auto simp: updateChannel_def pl0_def Let_def setIndex_def bind_eq_Some_conv
          intro!: poller_update_avail [OF avail, unfolded not_None_eq])
    then show ?thesis using ch Set_events by (simp add: chan_run_def channel_set_def pl0_def)
  next
    case Remove
    have "poller_update ctl EPOLL_CTL_DEL (snd x) (pl\<lparr>m_channels := M\<rparr>) \<noteq> None" for M
      using ch by (intro poller_update_avail [OF avail]) auto
    then show ?thesis using ch Remove
      by (auto simp: chan_run_def removeChannel_def Let_def bind_eq_Some_conv)
  qed
qed

lemma chan_runs:
  assumes spec: "epoll_spec il ctl" and avail: "epoll_avail il ctl"
  shows "poller_inv il pl \<Longrightarrow> set (map snd xs) \<subseteq> dom (pl_heap pl) \<Longrightarrow>
    \<exists>pl'. foldM (chan_run ctl) xs pl = Some pl' \<and> poller_inv il pl' \<and> dom (pl_heap pl') = dom (pl_heap pl)"
proof (induction xs arbitrary: pl)
  case (Cons x xs)
  then obtain pl1 where pl1: "chan_run ctl x pl = Some pl1"
    using chan_run_returns [OF avail Cons.prems(1), of x] by auto
  from chan_run_step [OF spec Cons.prems(1) pl1] Cons.prems(2) Cons.IH [of pl1] pl1 show ?case by auto
qed simp

section \<open>Polling\<close>

lemma set_revents_foldM:
  assumes "set (map snd evs) \<subseteq> dom (pl_heap pl)"
  shows "foldM set_revents evs pl =
    Some (pl\<lparr>pl_heap := \<lambda>p. map_option (\<lambda>ch. case map_of (map (\<lambda>(e, p). (p, e)) (rev evs)) p of
             None \<Rightarrow> ch | Some e \<Rightarrow> ch\<lparr>ch_revents := e\<rparr>) (pl_heap pl p)\<rparr>)"
  using assms
proof (induction evs arbitrary: pl)
  case Nil
  then show ?case by (simp add: option.map_ident)
next
  case (Cons x evs)
  obtain e q where x: "x = (e, q)" by (cases x)
  obtain ch where ch: "pl_heap pl q = Some ch" using Cons.prems x by auto
  have sub: "set (map snd evs) \<subseteq> dom (pl_heap (pl\<lparr>pl_heap := (pl_heap pl)(q \<mapsto> ch\<lparr>ch_revents := e\<rparr>)\<rparr>))"
    using Cons.prems by auto
  show ?case
    using Cons.IH [OF sub] ch
    by (auto simp: x set_revents_def map_add_def fun_eq_iff split: option.splits)
qed

text \<open>A concrete kernel: the interest list itself, with the documented errors.\<close>

definition kern_ctl :: "(int \<rightharpoonup> events \<times> chan_ptr) epoll_ctl" where
  "kern_ctl k operation fd ev p = (case operation of
     EPOLL_CTL_ADD \<Rightarrow> (if k fd = None then (0, k(fd \<mapsto> (ev, p))) else (-1, k))
   | EPOLL_CTL_MOD \<Rightarrow> (if k fd = None then (-1, k) else (0, k(fd \<mapsto> (ev, p))))
   | EPOLL_CTL_DEL \<Rightarrow> (if k fd = None then (-1, k) else (0, k(fd := None))))"

lemma kern_ctl_spec: "epoll_spec (\<lambda>k. k) kern_ctl"
  by (auto simp: epoll_spec_def kern_ctl_def split: epoll_op.splits if_splits)

lemma kern_ctl_avail: "epoll_avail (\<lambda>k. k) kern_ctl"
  by (simp add: epoll_avail_def kern_ctl_def)

lemma poller_inv_new:
  assumes "\<And>fd. il k fd = None" and "\<And>p ch. h p = Some ch \<Longrightarrow> ch_index ch = kNew"
    and "\<And>p q ch ch'. h p = Some ch \<Longrightarrow> h q = Some ch' \<Longrightarrow> ch_fd ch = ch_fd ch' \<Longrightarrow> p = q"
  shows "poller_inv il ((EpollPoller_new k)\<lparr>pl_heap := h\<rparr>)"
  using assms by (fastforce simp: poller_inv_def EpollPoller_new_def)

text \<open>
  C8. Over a kernel that follows the manual page, any sequence of \<^verbatim>\<open>enableRead\<close>,
  \<^verbatim>\<open>disableAll\<close>, \<^verbatim>\<open>remove\<close> and the like on live channels runs to its end without the
  fatal error of \<^verbatim>\<open>update\<close>, and afterwards the poller's map and the kernel's interest list
  agree with the channels: \<^verbatim>\<open>hasChannel\<close> answers whether a channel is not new, and the
  kernel watches exactly the channels marked added, with their current event masks.
\<close>

theorem poller_mirrors_kernel:
  assumes "epoll_spec il ctl" and "epoll_avail il ctl" and "poller_inv il pl"
    and "set (map snd xs) \<subseteq> dom (pl_heap pl)"
  shows "\<exists>pl'. foldM (chan_run ctl) xs pl = Some pl' \<and> dom (pl_heap pl') = dom (pl_heap pl) \<and>
    (\<forall>p ch. pl_heap pl' p = Some ch \<longrightarrow>
       hasChannel p pl' = Some (ch_index ch \<noteq> kNew) \<and>
       il (pl_kern pl') (ch_fd ch) = (if ch_index ch = kAdded then Some (ch_events ch, p) else None)) \<and>
    (\<forall>fd ev p. il (pl_kern pl') fd = Some (ev, p) \<longrightarrow>
       (\<exists>ch. pl_heap pl' p = Some ch \<and> ch_fd ch = fd \<and> ch_index ch = kAdded \<and> ch_events ch = ev))"
proof -
  obtain pl' where run: "foldM (chan_run ctl) xs pl = Some pl'" and inv: "poller_inv il pl'"
      and dom: "dom (pl_heap pl') = dom (pl_heap pl)"
    using chan_runs [OF assms] by blast
  show ?thesis
    using run dom poller_inv_channel [OF inv] poller_invD(4) [OF inv]
    by (auto simp: hasChannel_def)
qed

definition two_channels :: "(int \<rightharpoonup> events \<times> chan_ptr) Poller" where
  "two_channels = (EpollPoller_new Map.empty)
     \<lparr>pl_heap := [0 \<mapsto> Channel_new 5, 1 \<mapsto> Channel_new 6]\<rparr>"

lemma two_channels_inv: "poller_inv (\<lambda>k. k) two_channels"
  unfolding two_channels_def
  by (rule poller_inv_new) (auto simp: Channel_new_def kNew_def split: if_splits)

theorem poller_mirrors_kernel_witness:
  "\<exists>pl'. foldM (chan_run kern_ctl)
      [(Set_events ev_enableRead, 0), (Set_events ev_enableWrite, 1), (Set_events ev_disableAll, 0), (Remove, 1)]
      two_channels = Some pl' \<and> dom (pl_heap pl') = {0, 1} \<and>
    hasChannel 1 pl' = Some (ch_index (the (pl_heap pl' 1)) \<noteq> kNew)"
proof -
  have d: "dom (pl_heap two_channels) = {0, 1}" by (auto simp: two_channels_def)
  show ?thesis
    using poller_mirrors_kernel [OF kern_ctl_spec kern_ctl_avail two_channels_inv,
      of "[(Set_events ev_enableRead, 0), (Set_events ev_enableWrite, 1), (Set_events ev_disableAll, 0), (Remove, 1)]"]
    unfolding d by (auto simp: dom_def set_eq_iff)
qed

lemma size_of_int_minus1: "size_of_int (-1) = 2 ^ 64 - 1"
  by (simp add: size_of_int_def)

lemma int_of_size_max: "int_of_size 18446744073709551615 = -1"
  by (simp add: int_of_size_def Let_def)

text \<open>
  What \<^verbatim>\<open>poll\<close> makes of the result of \<^verbatim>\<open>epoll_wait\<close>. When it reports \<open>n\<close> events on live
  channels, exactly these channels become active, in the kernel's order, each with its reported
  bits; the event array doubles precisely when it was full, and nothing else of the poller
  changes.
\<close>

theorem EpollPoller_poll_events:
  assumes "wait (pl_kern pl) (pl_events pl) = (int (length evs), e, evs)"
    and "evs \<noteq> []" and "length evs \<le> pl_events pl" and "pl_events pl < 2 ^ 31"
    and "set (map snd evs) \<subseteq> dom (pl_heap pl)" and "distinct (map snd evs)"
  shows "\<exists>pl'. EpollPoller_poll wait pl = Some (map snd evs, No_log, pl') \<and>
    pl_events pl' = (if length evs = pl_events pl then 2 * pl_events pl else pl_events pl) \<and>
    m_channels pl' = m_channels pl \<and> pl_kern pl' = pl_kern pl \<and>
    (\<forall>(ev, p) \<in> set evs. \<exists>ch. pl_heap pl p = Some ch \<and> pl_heap pl' p = Some (ch\<lparr>ch_revents := ev\<rparr>)) \<and>
    (\<forall>p. p \<notin> set (map snd evs) \<longrightarrow> pl_heap pl' p = pl_heap pl p)"
proof -
  define h where "h = (\<lambda>p. map_option (\<lambda>ch. case map_of (map (\<lambda>(e, p). (p, e)) (rev evs)) p of
             None \<Rightarrow> ch | Some e \<Rightarrow> ch\<lparr>ch_revents := e\<rparr>) (pl_heap pl p))"
  have small: "size_of_int (int (length evs)) = length evs" "int_of_size (length evs) = int (length evs)"
    using assms(3,4) by simp_all
  have fill: "fillActiveChannels (int (length evs)) evs pl = Some (map snd evs, pl\<lparr>pl_heap := h\<rparr>)"
    using set_revents_foldM [OF assms(5)] by (simp add: fillActiveChannels_def h_def)
  have dist: "distinct (map fst (map (\<lambda>(e, p). (p, e)) (rev evs)))"
    using assms(6) by (simp add: comp_def case_prod_unfold rev_map [symmetric])
  have in_evs: "\<exists>ch. pl_heap pl p = Some ch \<and> h p = Some (ch\<lparr>ch_revents := ev\<rparr>)" if mem: "(ev, p) \<in> set evs" for ev p
  proof -
    have "map_of (map (\<lambda>(e, p). (p, e)) (rev evs)) p = Some ev"
      using mem by (intro map_of_is_SomeI [OF dist]) force
    moreover obtain ch where "pl_heap pl p = Some ch" using mem assms(5) by force
    ultimately show ?thesis by (simp add: h_def)
  qed
  have notin: "h p = pl_heap pl p" if "p \<notin> set (map snd evs)" for p
  proof -
    have "map_of (map (\<lambda>(e, p). (p, e)) (rev evs)) p = None"
      using that by (force simp: map_of_eq_None_iff)
    then show ?thesis by (simp add: h_def option.map_ident)
  qed
  show ?thesis
    using assms(1,2) small fill in_evs notin
    by (auto simp: EpollPoller_poll_def Let_def)
qed

theorem EpollPoller_poll_events_witness:
  "\<exists>pl'. EpollPoller_poll (\<lambda>_ _. (2, 0, [(EPOLLIN, 1), (EPOLLOUT, 0)])) two_channels
      = Some ([1, 0], No_log, pl') \<and> pl_events pl' = 16"
proof -
  have d: "pl_events two_channels = 16" "dom (pl_heap two_channels) = {0, 1}"
    by (auto simp: two_channels_def EpollPoller_new_def kInitEventListSize_def)
  show ?thesis
    using EpollPoller_poll_events [of "\<lambda>_ _. (2, 0, [(EPOLLIN, 1), (EPOLLOUT, 0)])" two_channels
        "[(EPOLLIN, 1), (EPOLLOUT, 0)]" 0]
    unfolding d by auto
qed

text \<open>
  The error branch of \<^verbatim>\<open>poll\<close> is unreachable: the result of \<^verbatim>\<open>epoll_wait\<close> is kept in a
  \<^verbatim>\<open>size_t\<close>, so the \<open>-1\<close> of a failure counts as a positive number of events. Whatever the
  error number, a failing wait reports no active channel and logs nothing, and no result of the
  wait at all makes \<^verbatim>\<open>poll\<close> log a failure.
\<close>

theorem EpollPoller_poll_error_silent:
  assumes "wait (pl_kern pl) (pl_events pl) = (-1, e, evs)" and "pl_events pl < 2 ^ 31"
  shows "EpollPoller_poll wait pl = Some ([], No_log, pl) \<and>
    (\<nexists>wait' q act q'. EpollPoller_poll wait' (q :: 'k Poller) = Some (act, Log_failed, q'))"
  using assms
  by (auto simp: EpollPoller_poll_def Let_def size_of_int_minus1 int_of_size_max fillActiveChannels_def
      bind_eq_Some_conv split: prod.splits if_splits)

theorem EpollPoller_poll_error_silent_witness:
  "EpollPoller_poll (\<lambda>_ _. (-1, 9, [])) two_channels = Some ([], No_log, two_channels) \<and>
    (\<nexists>wait' q act q'. EpollPoller_poll wait' (q :: (int \<rightharpoonup> events \<times> chan_ptr) Poller) = Some (act, Log_failed, q'))"
  by (rule EpollPoller_poll_error_silent)
     (simp_all add: two_channels_def EpollPoller_new_def kInitEventListSize_def)

end
