(* ===== verification/Tcp_Connection.thy ===== *)
theory Tcp_Connection
  imports Net_Buffer Epoll_Poller
begin

text \<open>
  One TCP connection (\<^verbatim>\<open>myserver/include/tcp_connection.h\<close>,
  \<^verbatim>\<open>myserver/net/tcp_connection.cpp\<close>). The state of the object is a record with the two
  buffers and the channel of the components below; what a handler does to the outside is appended
  to a trace: bytes the kernel took, changes of the event mask, callbacks and functors. The system
  calls \<^verbatim>\<open>write\<close> and \<^verbatim>\<open>readv\<close> are parameters of each handler, as are the user's
  callbacks, which may themselves send on the connection or shut it down. \<open>Ef_accept\<close> is a ghost
  entry: the bytes a send has taken responsibility for.
\<close>

section \<open>State\<close>

datatype StateE = kDisconnected | kConnecting | kConnected | kDisconnecting

datatype conn_effect =
    Ef_write string
  | Ef_accept string
  | Ef_shutdownWrite
  | Ef_update events
  | Ef_remove
  | Ef_queue_writeComplete
  | Ef_queue_highWater size_t
  | Ef_queue_send string
  | Ef_queue_send_raw size_t
  | Ef_queue_shutdown
  | Ef_connectionCb StateE
  | Ef_messageCb
  | Ef_closeCb
  | Ef_log string

record TcpConnection =
  tc_name :: string
  tc_state :: StateE
  tc_channel :: Channel
  tc_has_writeComplete :: bool
  tc_has_highWater :: bool
  tc_highWaterMark :: size_t
  tc_inputBuffer :: Buffer
  tc_outputBuffer :: Buffer
  tc_trace :: "conn_effect list"

definition TcpConnection_new :: "string \<Rightarrow> int \<Rightarrow> TcpConnection" where
  "TcpConnection_new name sockfd = \<lparr>tc_name = name, tc_state = kConnecting,
     tc_channel = Channel_new sockfd, tc_has_writeComplete = False, tc_has_highWater = False,
     tc_highWaterMark = 64 * 1024 * 1024, tc_inputBuffer = Buffer_new kInitialSize,
     tc_outputBuffer = Buffer_new kInitialSize, tc_trace = []\<rparr>"

definition emit :: "conn_effect \<Rightarrow> TcpConnection \<Rightarrow> TcpConnection" where
  [conn_defs]: "emit e c = c\<lparr>tc_trace := tc_trace c @ [e]\<rparr>"

definition setState :: "StateE \<Rightarrow> TcpConnection \<Rightarrow> TcpConnection" where
  [conn_defs]: "setState st c = c\<lparr>tc_state := st\<rparr>"

definition conn_channel_set :: "(events \<Rightarrow> events) \<Rightarrow> TcpConnection \<Rightarrow> TcpConnection" where
  [conn_defs]: "conn_channel_set f c =
     emit (Ef_update (f (ch_events (tc_channel c))))
       (c\<lparr>tc_channel := (tc_channel c)\<lparr>ch_events := f (ch_events (tc_channel c))\<rparr>\<rparr>)"

abbreviation conn_isWrite :: "TcpConnection \<Rightarrow> bool" where
  "conn_isWrite c \<equiv> isWrite (ch_events (tc_channel c))"

definition setHighWaterMarkCallback :: "size_t \<Rightarrow> TcpConnection \<Rightarrow> TcpConnection" where
  "setHighWaterMarkCallback mark c = c\<lparr>tc_has_highWater := True, tc_highWaterMark := mark\<rparr>"

section \<open>Sending\<close>

definition EWOULDBLOCK :: int where "EWOULDBLOCK = 11"
definition EPIPE :: int where "EPIPE = 32"
definition ECONNRESET :: int where "ECONNRESET = 104"

text \<open>The direct write: the bytes taken, whether the peer is gone, and the connection after.\<close>

definition direct_write ::
    "(string \<Rightarrow> size_t io_result) \<Rightarrow> string \<Rightarrow> TcpConnection \<Rightarrow> size_t \<times> bool \<times> TcpConnection" where
  [conn_defs]: "direct_write wr data c =
     (case wr data of
        Io_ok n \<Rightarrow>
          (let c1 = emit (Ef_write (take n data)) c in
           (n, False,
            if usub (length data) n = 0 \<and> tc_has_writeComplete c then emit Ef_queue_writeComplete c1 else c1))
      | Io_err e \<Rightarrow>
          (if e \<noteq> EWOULDBLOCK
           then (0, e = EPIPE \<or> e = ECONNRESET, emit (Ef_log ''TcpConnection::sendInLoop'') c)
           else (0, False, c)))"

text \<open>\<open>append_from\<close> copies \<open>data[nwrote, nwrote + remaining)\<close>; a range outside is undefined.\<close>

definition append_from :: "string \<Rightarrow> size_t \<Rightarrow> size_t \<Rightarrow> Buffer \<Rightarrow> Buffer option" where
  "append_from data nwrote remaining b =
     (if nwrote + remaining \<le> length data then append_bytes (take remaining (drop nwrote data)) b else None)"

definition buffer_rest :: "string \<Rightarrow> size_t \<Rightarrow> size_t \<Rightarrow> TcpConnection \<Rightarrow> TcpConnection option" where
  "buffer_rest data nwrote remaining c = do {
     let oldLen = readableBytes (tc_outputBuffer c);
     let c1 = (if uadd oldLen remaining \<ge> tc_highWaterMark c \<and> oldLen < tc_highWaterMark c \<and> tc_has_highWater c
               then emit (Ef_queue_highWater (uadd oldLen remaining)) c else c);
     b \<leftarrow> append_from data nwrote remaining (tc_outputBuffer c1);
     let c2 = c1\<lparr>tc_outputBuffer := b\<rparr>;
     Some (if \<not> conn_isWrite c2 then conn_channel_set ev_enableWrite c2 else c2) }"

definition sendInLoop :: "(string \<Rightarrow> size_t io_result) \<Rightarrow> string \<Rightarrow> TcpConnection \<Rightarrow> TcpConnection option" where
  "sendInLoop wr data c =
     (if tc_state c = kDisconnected then Some (emit (Ef_log ''disconnected, give up write'') c)
      else
        (let (nwrote, faultError, c1) =
               (if \<not> conn_isWrite c \<and> readableBytes (tc_outputBuffer c) = 0
                then direct_write wr data c else (0, False, c));
             remaining = usub (length data) nwrote;
             c2 = (if faultError then c1 else emit (Ef_accept data) c1) in
         if \<not> faultError \<and> remaining > 0 then buffer_rest data nwrote remaining c2 else Some c2))"

text \<open>
  \<^verbatim>\<open>send(const std::string&)\<close>: from another thread the functor keeps the raw pointer and the
  length only, so what it will send is not determined by the argument.
\<close>

definition send_string ::
    "(string \<Rightarrow> size_t io_result) \<Rightarrow> bool \<Rightarrow> string \<Rightarrow> TcpConnection \<Rightarrow> TcpConnection option" where
  "send_string wr inLoop data c =
     (if tc_state c = kConnected
      then (if inLoop then sendInLoop wr data c else Some (emit (Ef_queue_send_raw (length data)) c))
      else Some c)"

definition send_buffer ::
    "(string \<Rightarrow> size_t io_result) \<Rightarrow> bool \<Rightarrow> Buffer \<Rightarrow> TcpConnection \<Rightarrow> (Buffer \<times> TcpConnection) option" where
  "send_buffer wr inLoop buf c =
     (if tc_state c = kConnected
      then (if inLoop
            then do { c1 \<leftarrow> sendInLoop wr (content buf) c; Some (retrieveAll buf, c1) }
            else do { (msg, buf1) \<leftarrow> retrieveAllAsString buf; Some (buf1, emit (Ef_queue_send msg) c) })
      else Some (buf, c))"

section \<open>Life cycle\<close>

definition shutdownInLoop :: "TcpConnection \<Rightarrow> TcpConnection" where
  [conn_defs]: "shutdownInLoop c = (if \<not> conn_isWrite c then emit Ef_shutdownWrite c else c)"

definition conn_shutdown :: "bool \<Rightarrow> TcpConnection \<Rightarrow> TcpConnection" where
  "conn_shutdown inLoop c =
     (if tc_state c = kConnected
      then (let c1 = setState kDisconnecting c in
            if inLoop then shutdownInLoop c1 else emit Ef_queue_shutdown c1)
      else c)"

type_synonym conn_cb = "TcpConnection \<Rightarrow> TcpConnection option"

definition call_connectionCb :: "conn_cb \<Rightarrow> conn_cb" where
  "call_connectionCb connCb c = connCb (emit (Ef_connectionCb (tc_state c)) c)"

definition connectEstablished :: "conn_cb \<Rightarrow> conn_cb" where
  "connectEstablished connCb c =
     (let c1 = setState kConnected c;
          c2 = c1\<lparr>tc_channel := (tc_channel c1)\<lparr>ch_tied := True\<rparr>\<rparr>;
          c3 = conn_channel_set ev_enableRead c2 in
      call_connectionCb connCb c3)"

definition connectDestroyed :: "conn_cb \<Rightarrow> conn_cb" where
  "connectDestroyed connCb c = do {
     c1 \<leftarrow> (if tc_state c = kConnected
            then call_connectionCb connCb (conn_channel_set ev_disableAll (setState kDisconnected c))
            else Some c);
     Some (emit Ef_remove c1) }"

definition handleClose :: "conn_cb \<Rightarrow> conn_cb" where
  "handleClose connCb c = do {
     c1 \<leftarrow> call_connectionCb connCb (conn_channel_set ev_disableAll (setState kDisconnected c));
     Some (emit Ef_closeCb c1) }"

text \<open>\<open>so_error\<close>: what \<^verbatim>\<open>getsockopt(SO_ERROR)\<close> reports, or the error of the call itself.\<close>

definition handleError :: "int io_result \<Rightarrow> TcpConnection \<Rightarrow> TcpConnection" where
  "handleError so_error c =
     (let err = (case so_error of Io_err e \<Rightarrow> e | Io_ok v \<Rightarrow> v) in
      emit (Ef_log (''Tcpconnection::handleError name: '' @ tc_name c @ '' - SO_ERROR: '' @ fmt_d err)) c)"

definition conn_handleRead ::
    "conn_cb \<Rightarrow> conn_cb \<Rightarrow> int io_result \<Rightarrow> (size_t list \<Rightarrow> string io_result) \<Rightarrow> conn_cb" where
  "conn_handleRead connCb msgCb so_error readv c = do {
     (n, savedErrno, b) \<leftarrow> readFd readv (tc_inputBuffer c);
     let c1 = c\<lparr>tc_inputBuffer := b\<rparr>;
     if n > 0 then msgCb (emit Ef_messageCb c1)
     else if n = 0 then handleClose connCb c1
     else Some (handleError so_error (emit (Ef_log ''TcpConnection::handleRead failed'') c1)) }"

definition handleWrite :: "(string \<Rightarrow> size_t io_result) \<Rightarrow> TcpConnection \<Rightarrow> TcpConnection" where
  "handleWrite wr c =
     (if conn_isWrite c then
        (let (n, saveErrno) = writeFd wr (tc_outputBuffer c) in
         if n > 0 then
           (let c1 = (emit (Ef_write (take (nat n) (content (tc_outputBuffer c)))) c)
                       \<lparr>tc_outputBuffer := retrieve (nat n) (tc_outputBuffer c)\<rparr> in
            if readableBytes (tc_outputBuffer c1) = 0 then
              (let c2 = conn_channel_set ev_disableWrite c1;
                   c3 = (if tc_has_writeComplete c2 then emit Ef_queue_writeComplete c2 else c2) in
               if tc_state c3 = kDisconnecting then shutdownInLoop c3 else c3)
            else c1)
         else emit (Ef_log ''TcpConnection:;handleWrite fail'') c)
      else emit (Ef_log (''TcpConnection fd='' @ fmt_d (ch_fd (tc_channel c)) @ '' is down, no more write'')) c)"

section \<open>Invariant\<close>

fun written :: "conn_effect list \<Rightarrow> string" where
  "written [] = []"
| "written (Ef_write s # tr) = s @ written tr"
| "written (_ # tr) = written tr"

fun accepted :: "conn_effect list \<Rightarrow> string" where
  "accepted [] = []"
| "accepted (Ef_accept s # tr) = s @ accepted tr"
| "accepted (_ # tr) = accepted tr"

lemma written_append [simp]: "written (xs @ ys) = written xs @ written ys"
  by (induction xs rule: written.induct) simp_all

lemma accepted_append [simp]: "accepted (xs @ ys) = accepted xs @ accepted ys"
  by (induction xs rule: accepted.induct) simp_all

text \<open>The write side was closed only when nothing accepted was left to write, or after the close.\<close>

definition clean_shutdown :: "conn_effect list \<Rightarrow> bool" where
  "clean_shutdown tr \<longleftrightarrow> (\<forall>u v. tr = u @ Ef_shutdownWrite # v \<longrightarrow>
     Ef_connectionCb kDisconnected \<in> set u \<or> written u = accepted u)"

definition conn_inv :: "TcpConnection \<Rightarrow> bool" where
  "conn_inv c \<longleftrightarrow>
     buffer_inv (tc_inputBuffer c) \<and> buffer_inv (tc_outputBuffer c) \<and>
     written (tc_trace c) @ content (tc_outputBuffer c) = accepted (tc_trace c) \<and>
     (tc_state c = kDisconnected \<longrightarrow> \<not> conn_isWrite c) \<and>
     (conn_isWrite c \<longrightarrow> content (tc_outputBuffer c) \<noteq> []) \<and>
     (content (tc_outputBuffer c) \<noteq> [] \<and> \<not> conn_isWrite c \<longrightarrow> Ef_connectionCb kDisconnected \<in> set (tc_trace c)) \<and>
     clean_shutdown (tc_trace c)"

lemma clean_shutdown_snoc:
  "clean_shutdown (tr @ [e]) \<longleftrightarrow> clean_shutdown tr \<and>
     (e = Ef_shutdownWrite \<longrightarrow> Ef_connectionCb kDisconnected \<in> set tr \<or> written tr = accepted tr)"
proof
  assume A: "clean_shutdown (tr @ [e])"
  show "clean_shutdown tr \<and>
     (e = Ef_shutdownWrite \<longrightarrow> Ef_connectionCb kDisconnected \<in> set tr \<or> written tr = accepted tr)"
    using A unfolding clean_shutdown_def by (metis append_Cons append_assoc append_Nil)
next
  assume B: "clean_shutdown tr \<and>
     (e = Ef_shutdownWrite \<longrightarrow> Ef_connectionCb kDisconnected \<in> set tr \<or> written tr = accepted tr)"
  show "clean_shutdown (tr @ [e])"
    unfolding clean_shutdown_def
  proof (intro allI impI)
    fix u v assume eq: "tr @ [e] = u @ Ef_shutdownWrite # v"
    show "Ef_connectionCb kDisconnected \<in> set u \<or> written u = accepted u"
    proof (cases v rule: rev_cases)
      case Nil
      with eq B show ?thesis by auto
    next
      case (snoc v' x)
      with eq have "tr = u @ Ef_shutdownWrite # v'" by simp
      with B show ?thesis unfolding clean_shutdown_def by blast
    qed
  qed
qed

lemma clean_shutdown_snoc2:
  "clean_shutdown (tr @ [d, e]) \<longleftrightarrow> clean_shutdown (tr @ [d]) \<and>
     (e = Ef_shutdownWrite \<longrightarrow> Ef_connectionCb kDisconnected \<in> set (tr @ [d]) \<or>
        written (tr @ [d]) = accepted (tr @ [d]))"
  using clean_shutdown_snoc [of "tr @ [d]" e] by simp

lemmas clean_snoc = clean_shutdown_snoc clean_shutdown_snoc2

definition neutral :: "conn_effect \<Rightarrow> bool" where
  "neutral e \<longleftrightarrow> written [e] = [] \<and> accepted [e] = [] \<and> e \<noteq> Ef_shutdownWrite"

lemma neutral_simps [simp]:
  "neutral (Ef_update ev)" "neutral Ef_remove" "neutral Ef_queue_writeComplete" "neutral (Ef_queue_highWater n)"
  "neutral (Ef_queue_send s)" "neutral (Ef_queue_send_raw n)" "neutral Ef_queue_shutdown"
  "neutral (Ef_connectionCb st)" "neutral Ef_messageCb" "neutral Ef_closeCb" "neutral (Ef_log s)"
  by (simp_all add: neutral_def)

lemma emit_inv: "conn_inv c \<Longrightarrow> neutral e \<Longrightarrow> conn_inv (emit e c)"
  by (auto simp: conn_inv_def emit_def neutral_def clean_snoc)

text \<open>What \<^verbatim>\<open>write\<close> promises: it never takes more than it was offered.\<close>

definition wr_ok :: "(string \<Rightarrow> size_t io_result) \<Rightarrow> bool" where
  "wr_ok wr \<longleftrightarrow> (\<forall>s n. wr s = Io_ok n \<longrightarrow> n \<le> length s)"

definition peer_gone :: "(string \<Rightarrow> size_t io_result) \<Rightarrow> string \<Rightarrow> TcpConnection \<Rightarrow> bool" where
  "peer_gone wr data c \<longleftrightarrow> \<not> conn_isWrite c \<and> readableBytes (tc_outputBuffer c) = 0 \<and>
     wr data \<in> {Io_err EPIPE, Io_err ECONNRESET}"

definition out_cap :: "TcpConnection \<Rightarrow> nat" where
  "out_cap c = length (m_buffer (tc_outputBuffer c))"

text \<open>The part of the connection that the sending path leaves alone.\<close>

definition same_frame :: "TcpConnection \<Rightarrow> TcpConnection \<Rightarrow> bool" where
  "same_frame c c' \<longleftrightarrow> tc_state c' = tc_state c \<and> tc_inputBuffer c' = tc_inputBuffer c \<and> tc_name c' = tc_name c \<and>
     tc_has_writeComplete c' = tc_has_writeComplete c \<and> (\<exists>tr. tc_trace c' = tc_trace c @ tr)"

lemma same_frame_refl [simp]: "same_frame c c"
  by (simp add: same_frame_def)

lemma same_frame_trans: "same_frame a b \<Longrightarrow> same_frame b c \<Longrightarrow> same_frame a c"
  by (auto simp: same_frame_def)

lemma buffer_empty_iff: "buffer_inv b \<Longrightarrow> readableBytes b = 0 \<longleftrightarrow> content b = []"
  using length_content [of b] by auto

lemma direct_write_cases:
  assumes "direct_write wr data c = (n, fault, c1)" and "wr_ok wr"
  shows "n \<le> length data \<and> (fault \<longrightarrow> n = 0 \<and> wr data \<in> {Io_err EPIPE, Io_err ECONNRESET}) \<and>
    (\<not> fault \<longrightarrow> wr data \<notin> {Io_err EPIPE, Io_err ECONNRESET}) \<and>
    written (tc_trace c1) = written (tc_trace c) @ take n data \<and>
    accepted (tc_trace c1) = accepted (tc_trace c) \<and> set (tc_trace c) \<subseteq> set (tc_trace c1) \<and>
    clean_shutdown (tc_trace c1) = clean_shutdown (tc_trace c) \<and>
    tc_outputBuffer c1 = tc_outputBuffer c \<and> tc_channel c1 = tc_channel c \<and> same_frame c c1"
  using assms
  by (cases "wr data")
     (auto simp: direct_write_def wr_ok_def Let_def emit_def clean_snoc same_frame_def
        EWOULDBLOCK_def EPIPE_def ECONNRESET_def split: if_splits)

lemma buffer_rest_effect:
  assumes inv: "buffer_inv (tc_outputBuffer c)" and n: "n \<le> length data"
    and run: "buffer_rest data n (length data - n) c = Some c'"
  shows "buffer_inv (tc_outputBuffer c') \<and>
    content (tc_outputBuffer c') = content (tc_outputBuffer c) @ drop n data \<and> conn_isWrite c' \<and>
    written (tc_trace c') = written (tc_trace c) \<and> accepted (tc_trace c') = accepted (tc_trace c) \<and>
    clean_shutdown (tc_trace c') = clean_shutdown (tc_trace c) \<and> same_frame c c'"
proof -
  let ?c1 = "if uadd (readableBytes (tc_outputBuffer c)) (length data - n) \<ge> tc_highWaterMark c \<and>
      readableBytes (tc_outputBuffer c) < tc_highWaterMark c \<and> tc_has_highWater c
      then emit (Ef_queue_highWater (uadd (readableBytes (tc_outputBuffer c)) (length data - n))) c else c"
  have c1: "tc_outputBuffer ?c1 = tc_outputBuffer c" "tc_channel ?c1 = tc_channel c"
    "written (tc_trace ?c1) = written (tc_trace c)" "accepted (tc_trace ?c1) = accepted (tc_trace c)"
    "clean_shutdown (tc_trace ?c1) = clean_shutdown (tc_trace c)" "same_frame c ?c1"
    by (auto simp: emit_def clean_snoc same_frame_def)
  obtain b where app: "append_bytes (drop n data) (tc_outputBuffer c) = Some b"
    and c': "c' = (if \<not> conn_isWrite c then conn_channel_set ev_enableWrite (?c1\<lparr>tc_outputBuffer := b\<rparr>)
            else ?c1\<lparr>tc_outputBuffer := b\<rparr>)"
    using run n c1(1,2) unfolding buffer_rest_def append_from_def Let_def
    by (auto simp: bind_eq_Some_conv simp del: uadd_small split: if_splits)
  have b: "buffer_inv b \<and> content b = content (tc_outputBuffer c) @ drop n data"
    using append_bytes_Some [OF inv app] .
  have "same_frame c (?c1\<lparr>tc_outputBuffer := b\<rparr>)"
    using c1(6) by (simp add: same_frame_def)
  then show ?thesis
    using b c1(2-5) c' by (auto simp: conn_channel_set_def emit_def clean_snoc same_frame_def)
qed

text \<open>A send that returns keeps the stream, whatever the kernel and the buffer did.\<close>

lemma sendInLoop_effect:
  assumes inv: "conn_inv c" and wr: "wr_ok wr" and run: "sendInLoop wr data c = Some c'"
  shows "conn_inv c' \<and> same_frame c c' \<and>
    accepted (tc_trace c') = accepted (tc_trace c) @
      (if tc_state c = kDisconnected \<or> peer_gone wr data c then [] else data)"
proof (cases "tc_state c = kDisconnected")
  case True
  then show ?thesis using emit_inv [OF inv] run
    by (auto simp: sendInLoop_def same_frame_def emit_def)
next
  case False
  note I = inv [unfolded conn_inv_def]
  define direct where "direct \<longleftrightarrow> \<not> conn_isWrite c \<and> readableBytes (tc_outputBuffer c) = 0"
  obtain n fault c1 where w: "(if direct then direct_write wr data c else (0, False, c)) = (n, fault, c1)"
    by (cases "if direct then direct_write wr data c else (0, False, c)") auto
  have w1: "n \<le> length data" "fault = peer_gone wr data c" "fault \<longrightarrow> n = 0" "n \<noteq> 0 \<longrightarrow> content (tc_outputBuffer c) = []"
    "written (tc_trace c1) = written (tc_trace c) @ take n data" "accepted (tc_trace c1) = accepted (tc_trace c)"
    "clean_shutdown (tc_trace c1)" "tc_outputBuffer c1 = tc_outputBuffer c" "tc_channel c1 = tc_channel c"
    "same_frame c c1" "set (tc_trace c) \<subseteq> set (tc_trace c1)"
    using w direct_write_cases [of wr data c n fault c1] wr I buffer_empty_iff [of "tc_outputBuffer c"]
    by (auto simp: peer_gone_def direct_def split: if_splits)
  show ?thesis
  proof (cases fault)
    case True
    then have "c' = c1" using w False run by (simp add: sendInLoop_def direct_def)
    moreover have "conn_inv c1" using I w1 True by (auto simp: conn_inv_def same_frame_def)
    ultimately show ?thesis using w1 True by auto
  next
    case no_fault: False
    define c2 where "c2 = emit (Ef_accept data) c1"
    have c2: "tc_outputBuffer c2 = tc_outputBuffer c" "tc_channel c2 = tc_channel c" "same_frame c c2"
      "written (tc_trace c2) = written (tc_trace c) @ take n data"
      "accepted (tc_trace c2) = accepted (tc_trace c) @ data" "clean_shutdown (tc_trace c2)"
      "set (tc_trace c) \<subseteq> set (tc_trace c2)"
      using w1 by (auto simp: c2_def emit_def clean_snoc same_frame_def)
    have send: "(if length data - n > 0 then buffer_rest data n (length data - n) c2 else Some c2) = Some c'"
      using w False no_fault w1(1) run
      by (simp add: sendInLoop_def direct_def c2_def Let_def split: if_splits)
    show ?thesis
    proof (cases "length data - n > 0")
      case True
      then have c': "buffer_inv (tc_outputBuffer c')" "conn_isWrite c'"
          "content (tc_outputBuffer c') = content (tc_outputBuffer c) @ drop n data"
          "written (tc_trace c') = written (tc_trace c2)" "accepted (tc_trace c') = accepted (tc_trace c2)"
          "clean_shutdown (tc_trace c') = clean_shutdown (tc_trace c2)" "same_frame c2 c'"
        using buffer_rest_effect [of c2 n data c'] I w1(1) c2(1) send by auto
      have frame: "same_frame c c'" using same_frame_trans [OF c2(3) c'(7)] .
      have "take n data @ content (tc_outputBuffer c) @ drop n data = content (tc_outputBuffer c) @ data"
        using w1(4) by (cases "n = 0") auto
      then have "conn_inv c'"
        using I c' c2 True frame False by (auto simp: conn_inv_def same_frame_def)
      with c' c2 frame no_fault w1(2) False show ?thesis by auto
    next
      case all: False
      then have n: "n = length data" using w1(1) by simp
      then have "content (tc_outputBuffer c) = [] \<or> data = []" using w1(4) by auto
      then have "conn_inv c2"
        using I c2 n by (auto simp: conn_inv_def same_frame_def)
      with c2 send all no_fault w1(2) False show ?thesis by auto
    qed
  qed
qed

lemma sendInLoop_returns:
  assumes inv: "conn_inv c" and wr: "wr_ok wr"
    and small: "out_cap c + length data < 2 ^ 63" "length data < 2 ^ 31"
  shows "sendInLoop wr data c \<noteq> None"
proof -
  have rest: "buffer_rest data n (length data - n) c2 \<noteq> None"
    if "n \<le> length data" "tc_outputBuffer c2 = tc_outputBuffer c" for n c2
  proof -
    have "length (m_buffer (tc_outputBuffer c)) + length (drop n data) < 2 ^ 63" "length (drop n data) < 2 ^ 31"
      using small by (auto simp: out_cap_def)
    then have "append_bytes (drop n data) (tc_outputBuffer c) \<noteq> None"
      using netbuf.app_ok [of "tc_outputBuffer c" "drop n data"] inv by (auto simp: conn_inv_def)
    then show ?thesis using that
      by (auto simp: buffer_rest_def append_from_def Let_def emit_def bind_eq_Some_conv)
  qed
  define direct where "direct \<longleftrightarrow> \<not> conn_isWrite c \<and> readableBytes (tc_outputBuffer c) = 0"
  obtain n fault c1 where w: "(if direct then direct_write wr data c else (0, False, c)) = (n, fault, c1)"
    by (cases "if direct then direct_write wr data c else (0, False, c)") auto
  have "n \<le> length data" "tc_outputBuffer c1 = tc_outputBuffer c"
    using w direct_write_cases [of wr data c n fault c1] wr by (auto split: if_splits)
  then have "buffer_rest data n (length data - n) (emit (Ef_accept data) c1) \<noteq> None" "n \<le> length data"
    using rest [of n "emit (Ef_accept data) c1"] by (simp_all add: emit_def)
  then show ?thesis
    using w by (simp add: sendInLoop_def direct_def [symmetric] Let_def)
qed

section \<open>The other handlers\<close>

lemma handleWrite_inv:
  assumes inv: "conn_inv c" and wr: "wr_ok wr"
  shows "conn_inv (handleWrite wr c)"
proof (cases "conn_isWrite c")
  case False
  then show ?thesis using emit_inv [OF inv] by (simp add: handleWrite_def)
next
  case True
  note I = inv [unfolded conn_inv_def]
  let ?b = "tc_outputBuffer c"
  show ?thesis
  proof (cases "wr (content ?b)")
    case (Io_err e)
    then show ?thesis using True emit_inv [OF inv] by (simp add: handleWrite_def writeFd_def)
  next
    case (Io_ok n)
    have n: "n \<le> length (content ?b)" using wr Io_ok by (simp add: wr_ok_def)
    define c1 where "c1 = (emit (Ef_write (take n (content ?b))) c)\<lparr>tc_outputBuffer := retrieve n ?b\<rparr>"
    have b1: "buffer_inv (retrieve n ?b)" "content (retrieve n ?b) = drop n (content ?b)"
      using I buffer_inv_retrieve content_retrieve by auto
    have c1: "buffer_inv (tc_inputBuffer c1)" "tc_outputBuffer c1 = retrieve n ?b" "tc_channel c1 = tc_channel c"
      "tc_state c1 = tc_state c" "written (tc_trace c1) @ drop n (content ?b) = accepted (tc_trace c1)"
      "clean_shutdown (tc_trace c1)" "set (tc_trace c) \<subseteq> set (tc_trace c1)" "tc_state c \<noteq> kDisconnected"
      using I True by (auto simp: c1_def emit_def clean_snoc)
    show ?thesis
    proof (cases "n > 0")
      case False
      then show ?thesis using True Io_ok emit_inv [OF inv] by (simp add: handleWrite_def writeFd_def)
    next
      case pos: True
      define c2 where "c2 = conn_channel_set ev_disableWrite c1"
      define c3 where "c3 = (if tc_has_writeComplete c2 then emit Ef_queue_writeComplete c2 else c2)"
      have hw: "handleWrite wr c = (if content (retrieve n ?b) = []
          then (if tc_state c3 = kDisconnecting then shutdownInLoop c3 else c3) else c1)"
        using True Io_ok pos buffer_empty_iff [OF b1(1)] c1(2)
        by (simp add: handleWrite_def writeFd_def c1_def c2_def c3_def Let_def)
      have "conn_inv c3" "conn_inv (shutdownInLoop c3)" if "drop n (content ?b) = []"
      proof -
        have "conn_inv c2"
          using c1 b1 that by (auto simp: conn_inv_def c2_def conn_channel_set_def emit_def clean_snoc)
        then show c3: "conn_inv c3" using emit_inv by (simp add: c3_def)
        have "written (tc_trace c3) = accepted (tc_trace c3)"
          using c1(5) that by (simp add: c3_def c2_def conn_channel_set_def emit_def)
        with c3 show "conn_inv (shutdownInLoop c3)"
          by (auto simp: shutdownInLoop_def conn_inv_def emit_def clean_snoc)
      qed
      moreover have "conn_inv c1" if "drop n (content ?b) \<noteq> []"
        using c1 b1 that True by (auto simp: conn_inv_def)
      ultimately show ?thesis using hw b1(2) by auto
    qed
  qed
qed

lemma state_simps [simp]:
  "tc_state (conn_channel_set f c) = tc_state c" "tc_state (setState st c) = st" "tc_state (emit e c) = tc_state c"
  by (simp_all add: conn_defs)

lemma handleError_inv: "conn_inv c \<Longrightarrow> conn_inv (handleError so c)"
  by (simp add: handleError_def Let_def emit_inv)

lemma shutdownInLoop_inv: "conn_inv c \<Longrightarrow> conn_inv (shutdownInLoop c)"
  by (auto simp: shutdownInLoop_def conn_inv_def emit_def clean_snoc)

lemma setState_inv: "conn_inv c \<Longrightarrow> st \<noteq> kDisconnected \<Longrightarrow> conn_inv (setState st c)"
  by (simp add: conn_inv_def setState_def)

lemma conn_shutdown_inv: "conn_inv c \<Longrightarrow> conn_inv (conn_shutdown inLoop c)"
  by (simp add: conn_shutdown_def Let_def shutdownInLoop_inv setState_inv emit_inv)

lemma disconnect_inv:
  "conn_inv c \<Longrightarrow> conn_inv (emit (Ef_connectionCb kDisconnected) (conn_channel_set ev_disableAll (setState kDisconnected c)))"
  by (auto simp: conn_inv_def conn_channel_set_def setState_def emit_def clean_snoc)

lemma established_inv:
  "conn_inv c \<Longrightarrow> conn_inv (conn_channel_set ev_enableRead ((setState kConnected c)
      \<lparr>tc_channel := (tc_channel (setState kConnected c))\<lparr>ch_tied := True\<rparr>\<rparr>))"
  by (auto simp: conn_inv_def conn_channel_set_def setState_def emit_def clean_snoc)

lemma input_inv: "conn_inv c \<Longrightarrow> buffer_inv b \<Longrightarrow> conn_inv (c\<lparr>tc_inputBuffer := b\<rparr>)"
  by (simp add: conn_inv_def)

lemma conn_inv_new: "conn_inv (TcpConnection_new name fd)"
  by (simp add: conn_inv_def TcpConnection_new_def buffer_inv_new kInitialSize_def Channel_new_def
      isWrite_def clean_shutdown_def)

section \<open>Runs\<close>

text \<open>
  Everything that can happen to a connection on its loop thread, as data: calls of its public
  operations, queued functors, and the channel's callbacks, each with what the kernel answers.
\<close>

datatype conn_op =
    Send "string \<Rightarrow> size_t io_result" bool string
  | Send_buffer "string \<Rightarrow> size_t io_result" bool Buffer
  | Send_functor "string \<Rightarrow> size_t io_result" string
  | Shutdown bool
  | Shutdown_functor
  | Established
  | Destroyed
  | Readable "int io_result" "size_t list \<Rightarrow> string io_result"
  | Writable "string \<Rightarrow> size_t io_result"
  | Closed
  | Errored "int io_result"

fun conn_run :: "conn_cb \<Rightarrow> conn_cb \<Rightarrow> conn_op \<Rightarrow> conn_cb" where
  "conn_run connCb msgCb (Send wr inLoop s) c = send_string wr inLoop s c"
| "conn_run connCb msgCb (Send_buffer wr inLoop b) c = map_option snd (send_buffer wr inLoop b c)"
| "conn_run connCb msgCb (Send_functor wr s) c = sendInLoop wr s c"
| "conn_run connCb msgCb (Shutdown inLoop) c = Some (conn_shutdown inLoop c)"
| "conn_run connCb msgCb Shutdown_functor c = Some (shutdownInLoop c)"
| "conn_run connCb msgCb Established c = connectEstablished connCb c"
| "conn_run connCb msgCb Destroyed c = connectDestroyed connCb c"
| "conn_run connCb msgCb (Readable so readv) c = conn_handleRead connCb msgCb so readv c"
| "conn_run connCb msgCb (Writable wr) c = Some (handleWrite wr c)"
| "conn_run connCb msgCb Closed c = handleClose connCb c"
| "conn_run connCb msgCb (Errored so) c = Some (handleError so c)"

text \<open>The kernel keeps its promise.\<close>

fun op_ok :: "conn_op \<Rightarrow> bool" where
  "op_ok (Send wr inLoop s) = wr_ok wr"
| "op_ok (Send_buffer wr inLoop b) = wr_ok wr"
| "op_ok (Send_functor wr s) = wr_ok wr"
| "op_ok (Writable wr) = wr_ok wr"
| "op_ok _ = True"

text \<open>
  The contract of the code that owns a connection: its callbacks keep the invariant, which code
  that only sends, shuts down and consumes input does.
\<close>

locale connection_owner =
  fixes connCb msgCb :: conn_cb
  assumes conn_keeps: "conn_inv c \<Longrightarrow> connCb c = Some c' \<Longrightarrow> conn_inv c'"
    and msg_keeps: "conn_inv c \<Longrightarrow> msgCb c = Some c' \<Longrightarrow> conn_inv c'"
begin

lemma disconnect_keeps:
  assumes "conn_inv c" and "call_connectionCb connCb (conn_channel_set ev_disableAll (setState kDisconnected c)) = Some c'"
  shows "conn_inv c'"
  using assms(2) by (auto simp: call_connectionCb_def intro: conn_keeps [OF disconnect_inv [OF assms(1)]])

lemma close_keeps: "conn_inv c \<Longrightarrow> handleClose connCb c = Some c' \<Longrightarrow> conn_inv c'"
  by (auto simp: handleClose_def bind_eq_Some_conv intro!: emit_inv dest: disconnect_keeps)

lemma read_keeps:
  assumes inv: "conn_inv c" and run: "conn_handleRead connCb msgCb so readv c = Some c'"
  shows "conn_inv c'"
proof -
  obtain n err b where b: "readFd readv (tc_inputBuffer c) = Some (n, err, b)"
    using run by (auto simp: conn_handleRead_def bind_eq_Some_conv)
  have "conn_inv (c\<lparr>tc_inputBuffer := b\<rparr>)"
    using inv readFd_Some [OF _ b] by (auto intro: input_inv simp: conn_inv_def)
  then have "conn_inv (c\<lparr>tc_inputBuffer := b\<rparr>)" "conn_inv (emit Ef_messageCb (c\<lparr>tc_inputBuffer := b\<rparr>))"
    "conn_inv (handleError so (emit (Ef_log ''TcpConnection::handleRead failed'') (c\<lparr>tc_inputBuffer := b\<rparr>)))"
    by (simp_all add: emit_inv handleError_inv)
  then show ?thesis
    using run b by (auto simp: conn_handleRead_def Let_def intro: close_keeps msg_keeps split: if_splits)
qed

lemma run_op_keeps:
  assumes inv: "conn_inv c" and ok: "op_ok op" and run: "conn_run connCb msgCb op c = Some c'"
  shows "conn_inv c'"
proof (cases op)
  case (Readable so readv)
  then show ?thesis using read_keeps inv ok run by simp
next
  case Established
  then show ?thesis using run by (auto simp: connectEstablished_def call_connectionCb_def Let_def
      intro: conn_keeps [OF emit_inv [OF established_inv [OF inv] neutral_simps(8)]])
next
  case Destroyed
  then show ?thesis using run inv disconnect_keeps [OF inv]
    by (auto simp: connectDestroyed_def bind_eq_Some_conv intro!: emit_inv split: if_splits)
next
  case (Send wr inLoop s)
  then show ?thesis using run inv ok sendInLoop_effect [OF inv, of wr s c']
    by (auto simp: send_string_def intro: emit_inv split: if_splits)
next
  case (Send_buffer wr inLoop b)
  then show ?thesis using run inv ok sendInLoop_effect [OF inv, of wr "content b" c']
    by (auto simp: send_buffer_def bind_eq_Some_conv intro: emit_inv split: if_splits)
next
  case (Send_functor wr s)
  then show ?thesis using run ok sendInLoop_effect [OF inv, of wr s c'] by simp
qed (use run inv ok close_keeps in \<open>auto intro: handleError_inv conn_shutdown_inv shutdownInLoop_inv handleWrite_inv\<close>)

lemma runs_keep:
  assumes "conn_inv c" and "\<forall>op\<in>set ops. op_ok op" and "foldM (conn_run connCb msgCb) ops c = Some c'"
  shows "conn_inv c'"
  using assms(3,1) by (rule foldM_invariant) (use assms(2) run_op_keeps in blast)

end

section \<open>Draining the output\<close>

lemma handleWrite_progress:
  assumes inv: "conn_inv c" and out: "content (tc_outputBuffer c) \<noteq> []" and wr: "conn_isWrite c" "wr_ok wr"
    and takes: "wr (content (tc_outputBuffer c)) = Io_ok n" "0 < n"
  shows "length (content (tc_outputBuffer (handleWrite wr c))) < length (content (tc_outputBuffer c))"
    and "content (tc_outputBuffer (handleWrite wr c)) \<noteq> [] \<Longrightarrow> conn_isWrite (handleWrite wr c)"
    and "content (tc_outputBuffer (handleWrite wr c)) = [] \<Longrightarrow> tc_state c = kDisconnecting \<Longrightarrow>
      Ef_shutdownWrite \<in> set (tc_trace (handleWrite wr c))"
    and "tc_state (handleWrite wr c) = tc_state c" and "accepted (tc_trace (handleWrite wr c)) = accepted (tc_trace c)"
proof -
  let ?b = "tc_outputBuffer c"
  have b1: "buffer_inv (retrieve n ?b)" "content (retrieve n ?b) = drop n (content ?b)"
    using inv buffer_inv_retrieve content_retrieve by (auto simp: conn_inv_def)
  note e = buffer_empty_iff [OF b1(1)]
  have hw: "handleWrite wr c = (let c1 = (emit (Ef_write (take n (content ?b))) c)\<lparr>tc_outputBuffer := retrieve n ?b\<rparr> in
     if drop n (content ?b) = [] then
       (let c2 = conn_channel_set ev_disableWrite c1;
            c3 = (if tc_has_writeComplete c2 then emit Ef_queue_writeComplete c2 else c2) in
        if tc_state c3 = kDisconnecting then shutdownInLoop c3 else c3)
     else c1)"
    using wr(1) takes e b1(2) by (simp add: handleWrite_def writeFd_def Let_def)
  show "length (content (tc_outputBuffer (handleWrite wr c))) < length (content ?b)"
    using out takes(2) b1(2) by (auto simp: hw Let_def conn_channel_set_def emit_def shutdownInLoop_def)
  show "content (tc_outputBuffer (handleWrite wr c)) \<noteq> [] \<Longrightarrow> conn_isWrite (handleWrite wr c)"
    using wr(1) b1(2) by (auto simp: hw Let_def conn_channel_set_def emit_def shutdownInLoop_def split: if_splits)
  show "content (tc_outputBuffer (handleWrite wr c)) = [] \<Longrightarrow> tc_state c = kDisconnecting \<Longrightarrow>
      Ef_shutdownWrite \<in> set (tc_trace (handleWrite wr c))"
    using b1(2) by (auto simp: hw Let_def conn_channel_set_def emit_def shutdownInLoop_def split: if_splits)
  show "tc_state (handleWrite wr c) = tc_state c" "accepted (tc_trace (handleWrite wr c)) = accepted (tc_trace c)"
    by (auto simp: hw Let_def conn_channel_set_def emit_def shutdownInLoop_def)
qed

lemma drains:
  assumes wr: "wr_ok wr" and takes: "\<And>s. s \<noteq> [] \<Longrightarrow> \<exists>n>0. wr s = Io_ok n"
  shows "conn_inv c \<Longrightarrow> conn_isWrite c \<Longrightarrow>
    \<exists>k \<le> length (content (tc_outputBuffer c)). let c' = (handleWrite wr ^^ k) c in
      conn_inv c' \<and> content (tc_outputBuffer c') = [] \<and> tc_state c' = tc_state c \<and>
      accepted (tc_trace c') = accepted (tc_trace c) \<and>
      (tc_state c = kDisconnecting \<longrightarrow> Ef_shutdownWrite \<in> set (tc_trace c'))"
proof (induction "length (content (tc_outputBuffer c))" arbitrary: c rule: less_induct)
  case less
  let ?c = "handleWrite wr c"
  have out: "content (tc_outputBuffer c) \<noteq> []" using less.prems by (simp add: conn_inv_def)
  obtain n where n: "wr (content (tc_outputBuffer c)) = Io_ok n" "0 < n" using takes [OF out] by blast
  note prog = handleWrite_progress [OF less.prems(1) out less.prems(2) wr n]
  have inv: "conn_inv ?c" using handleWrite_inv [OF less.prems(1) wr] .
  show ?case
  proof (cases "content (tc_outputBuffer ?c) = []")
    case True
    have "1 \<le> length (content (tc_outputBuffer c))" using out by (cases "content (tc_outputBuffer c)") auto
    with True prog inv show ?thesis
      by (intro exI [of _ 1]) (simp add: Let_def)
  next
    case False
    from less.hyps [OF prog(1) inv prog(2) [OF False]] obtain k where
      k: "k \<le> length (content (tc_outputBuffer ?c))"
        "let c' = (handleWrite wr ^^ k) ?c in conn_inv c' \<and> content (tc_outputBuffer c') = [] \<and>
          tc_state c' = tc_state ?c \<and> accepted (tc_trace c') = accepted (tc_trace ?c) \<and>
          (tc_state ?c = kDisconnecting \<longrightarrow> Ef_shutdownWrite \<in> set (tc_trace c'))"
      by blast
    have "(handleWrite wr ^^ k) ?c = (handleWrite wr ^^ Suc k) c" by (simp add: funpow_swap1)
    with k prog show ?thesis
      by (intro exI [of _ "Suc k"]) (simp add: Let_def)
  qed
qed

section \<open>Properties\<close>

text \<open>
  C2. Byte-stream integrity over the life of a connection. Take any sequence of the events of a
  connection, in any order: sends from the loop thread and queued ones, shutdown, establishment,
  destruction, readable and writable events, close and error, with any answers of a kernel that
  keeps its promises and any callbacks that keep the invariant. Then the bytes handed to the kernel
  followed by those in the output buffer are exactly the bytes accepted for sending, in order; while
  the connection is up, output is pending precisely when the channel watches for writability; and
  the write side was never shut down while accepted bytes were unsent, unless the connection had
  been closed before.
\<close>

theorem conn_stream_integrity:
  assumes "connection_owner connCb msgCb" and "conn_inv c" and "\<forall>op\<in>set ops. op_ok op"
    and "foldM (conn_run connCb msgCb) ops c = Some c'"
  shows "written (tc_trace c') @ content (tc_outputBuffer c') = accepted (tc_trace c') \<and>
    (Ef_connectionCb kDisconnected \<notin> set (tc_trace c') \<longrightarrow>
       (conn_isWrite c' \<longleftrightarrow> content (tc_outputBuffer c') \<noteq> [])) \<and>
    (\<forall>u v. tc_trace c' = u @ Ef_shutdownWrite # v \<longrightarrow>
       Ef_connectionCb kDisconnected \<in> set u \<or> written u = accepted u)"
  using connection_owner.runs_keep [OF assms] by (auto simp: conn_inv_def clean_shutdown_def)

lemma plain_owner: "connection_owner Some Some"
  by unfold_locales simp_all

definition wr_upto :: "size_t \<Rightarrow> string \<Rightarrow> size_t io_result" where
  "wr_upto k s = Io_ok (min k (length s))"

lemma wr_upto_ok: "wr_ok (wr_upto k)"
  by (simp add: wr_ok_def wr_upto_def)

definition sample_ops :: "conn_op list" where
  "sample_ops = [Established, Send (wr_upto 2) True ''hello'', Shutdown True, Writable (wr_upto 9)]"

definition sample_conn :: TcpConnection where
  "sample_conn = (TcpConnection_new ''c'' 5)"

lemma sample_conn_stays_up: "foldM (conn_run Some Some) sample_ops sample_conn \<noteq> None"
proof -
  obtain c1 where e1: "conn_run Some Some Established sample_conn = Some c1"
    by (simp add: connectEstablished_def call_connectionCb_def Let_def)
  have "conn_inv c1" "out_cap c1 = 1032" "tc_state c1 = kConnected"
    using connection_owner.run_op_keeps [OF plain_owner conn_inv_new, of Established] e1
    by (auto simp: sample_conn_def connectEstablished_def call_connectionCb_def Let_def
        out_cap_def conn_channel_set_def setState_def emit_def TcpConnection_new_def Buffer_new_def
        kInitialSize_def kCheapPrepend_def)
  then obtain c2 where "conn_run Some Some (Send (wr_upto 2) True ''hello'') c1 = Some c2"
    using sendInLoop_returns [OF _ wr_upto_ok [of 2], of c1 "''hello''"] by (auto simp: send_string_def)
  with e1 show ?thesis by (simp add: sample_ops_def)
qed

theorem conn_stream_integrity_witness:
  "\<exists>c'. foldM (conn_run Some Some) sample_ops sample_conn = Some c' \<and>
     written (tc_trace c') @ content (tc_outputBuffer c') = accepted (tc_trace c')"
proof -
  obtain c' where c': "foldM (conn_run Some Some) sample_ops sample_conn = Some c'"
    using sample_conn_stays_up by blast
  have "\<forall>op\<in>set sample_ops. op_ok op" by (simp add: sample_ops_def wr_upto_ok)
  from conn_stream_integrity [OF plain_owner _ this c'] c' show ?thesis
    by (simp add: sample_conn_def conn_inv_new)
qed

text \<open>
  \<^verbatim>\<open>sendInLoop\<close> on a live connection. It returns, keeps the invariant and the connection's
  state, and takes all of the data: what the kernel did not accept at once is appended to the output
  buffer behind what was already there, and the channel then watches for writability. Only when the
  kernel reports that the peer is gone, on a direct write, is the data dropped.
\<close>

theorem sendInLoop_correct:
  assumes "conn_inv c" and "tc_state c \<noteq> kDisconnected" and "wr_ok wr"
    and "out_cap c + length data < 2 ^ 63" and "length data < 2 ^ 31"
  shows "\<exists>c'. sendInLoop wr data c = Some c' \<and> conn_inv c' \<and> tc_state c' = tc_state c \<and>
    written (tc_trace c') @ content (tc_outputBuffer c') =
      written (tc_trace c) @ content (tc_outputBuffer c) @ (if peer_gone wr data c then [] else data)"
proof -
  obtain c' where c': "sendInLoop wr data c = Some c'"
    using sendInLoop_returns [OF assms(1,3-5)] by blast
  have "written (tc_trace c) @ content (tc_outputBuffer c) = accepted (tc_trace c)"
    using assms(1) by (simp add: conn_inv_def)
  with sendInLoop_effect [OF assms(1,3) c'] assms(2) c' show ?thesis
    by (auto simp: same_frame_def conn_inv_def)
qed

theorem sendInLoop_correct_witness:
  "\<exists>c'. sendInLoop (wr_upto 2) ''hello'' sample_conn = Some c' \<and>
     written (tc_trace c') @ content (tc_outputBuffer c') = ''hello''"
  using sendInLoop_correct [of sample_conn "wr_upto 2" "''hello''"]
  by (auto simp: sample_conn_def conn_inv_new wr_upto_ok)
     (auto simp: TcpConnection_new_def out_cap_def Buffer_new_def kInitialSize_def kCheapPrepend_def
        peer_gone_def wr_upto_def content_def readableBytes_def)

text \<open>
  C9. Pending output is sent and the shutdown completes: while the channel watches for writability
  and every write takes at least one byte, after at most as many writable events as there are bytes
  pending everything accepted has been handed to the kernel, and a connection that was being shut
  down has closed its write side.
\<close>

theorem handleWrite_drains:
  assumes "conn_inv c" and "conn_isWrite c" and "wr_ok wr" and "\<And>s. s \<noteq> [] \<Longrightarrow> \<exists>n>0. wr s = Io_ok n"
  shows "\<exists>k \<le> length (content (tc_outputBuffer c)). let c' = (handleWrite wr ^^ k) c in
    written (tc_trace c') = accepted (tc_trace c) \<and> \<not> conn_isWrite c' \<and>
    (tc_state c = kDisconnecting \<longrightarrow> Ef_shutdownWrite \<in> set (tc_trace c'))"
  using drains [OF assms(3,4,1,2)] by (auto simp: Let_def conn_inv_def)

definition busy_conn :: TcpConnection where
  "busy_conn = (TcpConnection_new ''c'' 5)\<lparr>tc_state := kDisconnecting,
     tc_channel := (Channel_new 5)\<lparr>ch_events := kWriteEvent\<rparr>, tc_trace := [Ef_accept ''hi''],
     tc_outputBuffer := \<lparr>m_buffer = replicate 8 (CHR 0x00) @ ''hi'', m_readerIndex = 8, m_writerIndex = 10\<rparr>\<rparr>"

lemma busy_conn_inv: "conn_inv busy_conn" "conn_isWrite busy_conn"
proof -
  have "content (tc_outputBuffer busy_conn) = ''hi''" "buffer_inv (tc_outputBuffer busy_conn)"
    by (simp_all add: busy_conn_def content_def readableBytes_def buffer_inv_def kCheapPrepend_def)
  moreover show "conn_isWrite busy_conn" by (simp add: busy_conn_def isWrite_def kWriteEvent_def EPOLLOUT_def)
  moreover have "clean_shutdown (tc_trace busy_conn)"
    by (auto simp: busy_conn_def clean_shutdown_def Cons_eq_append_conv)
  moreover have "tc_trace busy_conn = [Ef_accept ''hi'']" "tc_state busy_conn = kDisconnecting"
    "tc_inputBuffer busy_conn = Buffer_new kInitialSize"
    by (simp_all add: busy_conn_def TcpConnection_new_def)
  ultimately show "conn_inv busy_conn"
    by (simp add: conn_inv_def buffer_inv_new kInitialSize_def)
qed

theorem handleWrite_drains_witness:
  "\<exists>k \<le> length (content (tc_outputBuffer busy_conn)). let c' = (handleWrite (wr_upto 1) ^^ k) busy_conn in
     written (tc_trace c') = ''hi'' \<and> \<not> conn_isWrite c' \<and> Ef_shutdownWrite \<in> set (tc_trace c')"
  using handleWrite_drains [OF busy_conn_inv wr_upto_ok [of 1]]
  by (auto simp: wr_upto_def Let_def busy_conn_def)

end
