(* ===== verification/Http_Server.thy ===== *)
theory Http_Server
  imports Http_Parser Tcp_Connection
begin

text \<open>
  Responses and the HTTP server (\<^verbatim>\<open>myserver/include/http_response.h\<close>,
  \<^verbatim>\<open>myserver/http/http_response.cpp\<close>, \<^verbatim>\<open>myserver/include/http_server.h\<close>,
  \<^verbatim>\<open>myserver/http/http_server.cpp\<close>, \<^verbatim>\<open>myserver/main/main.cpp\<close>). The message callback
  runs on the connection's loop thread, on its input buffer. The order in which an
  \<^verbatim>\<open>std::unordered_map\<close> is traversed is a parameter, any enumeration of the keys; the local
  calendar of \<^verbatim>\<open>Timestamp::format\<close> is one as well. \<open>None\<close> is a call that does not return.
\<close>

section \<open>HttpResponse\<close>

datatype HttpStatusCode = kUnknown | k200_ok | k301_movedPermanently | k400_badRequest | k404_notFound

fun status_num :: "HttpStatusCode \<Rightarrow> int" where
  "status_num kUnknown = 0"
| "status_num k200_ok = 200"
| "status_num k301_movedPermanently = 301"
| "status_num k400_badRequest = 400"
| "status_num k404_notFound = 404"

record HttpResponse =
  rs_headers :: "string \<rightharpoonup> string"
  rs_statusCode :: HttpStatusCode
  rs_statusMsg :: string
  rs_closeConnection :: bool
  rs_body :: string

definition HttpResponse_new :: "bool \<Rightarrow> HttpResponse" where
  "HttpResponse_new close = \<lparr>rs_headers = Map.empty, rs_statusCode = kUnknown, rs_statusMsg = [],
     rs_closeConnection = close, rs_body = []\<rparr>"

definition setStatusCode :: "HttpStatusCode \<Rightarrow> HttpResponse \<Rightarrow> HttpResponse" where
  [http_defs]: "setStatusCode code r = r\<lparr>rs_statusCode := code\<rparr>"

definition setStatusMsg :: "string \<Rightarrow> HttpResponse \<Rightarrow> HttpResponse" where
  [http_defs]: "setStatusMsg msg r = r\<lparr>rs_statusMsg := msg\<rparr>"

definition setCloseConnection :: "bool \<Rightarrow> HttpResponse \<Rightarrow> HttpResponse" where
  [http_defs]: "setCloseConnection on r = r\<lparr>rs_closeConnection := on\<rparr>"

definition response_addHeader :: "string \<Rightarrow> string \<Rightarrow> HttpResponse \<Rightarrow> HttpResponse" where
  [http_defs]: "response_addHeader key value r = r\<lparr>rs_headers := (rs_headers r)(key \<mapsto> value)\<rparr>"

definition setBody :: "string \<Rightarrow> HttpResponse \<Rightarrow> HttpResponse" where
  [http_defs]: "setBody body r = r\<lparr>rs_body := body\<rparr>"

definition setContentType :: "string \<Rightarrow> HttpResponse \<Rightarrow> HttpResponse" where
  [http_defs]: "setContentType ty r = response_addHeader ''Content-Type'' ty r"

type_synonym map_order = "(string \<rightharpoonup> string) \<Rightarrow> string list"

definition order_ok :: "map_order \<Rightarrow> bool" where
  "order_ok order \<longleftrightarrow> (\<forall>m. finite (dom m) \<longrightarrow> set (order m) = dom m \<and> distinct (order m))"

text \<open>The 32-byte buffer of the two \<^verbatim>\<open>snprintf\<close> calls keeps 31 characters.\<close>

definition append_parts :: "map_order \<Rightarrow> HttpResponse \<Rightarrow> string list" where
  "append_parts order r =
     [take 31 (''HTTP/1.1 '' @ fmt_d (status_num (rs_statusCode r)) @ '' ''), rs_statusMsg r, CRLF] @
     (if rs_closeConnection r then [''Connection: close'' @ CRLF]
      else [take 31 (''Content-Length: '' @ fmt_d (int (length (rs_body r))) @ CRLF),
            ''Connection: Keep-Alive'' @ CRLF]) @
     concat (map (\<lambda>k. [k, '': '', the (rs_headers r k), CRLF]) (order (rs_headers r))) @
     [CRLF, rs_body r]"

definition appendToBuffer :: "map_order \<Rightarrow> HttpResponse \<Rightarrow> Buffer \<Rightarrow> Buffer option" where
  "appendToBuffer order r output = foldM append_bytes (append_parts order r) output"

section \<open>HttpServer\<close>

type_synonym http_cb = "HttpRequest \<Rightarrow> HttpResponse \<Rightarrow> HttpResponse"

definition defaultHttpCallback :: http_cb where
  "defaultHttpCallback req resp =
     setCloseConnection True (setStatusMsg ''Not Found'' (setStatusCode k404_notFound resp))"

definition onConnection :: conn_cb where
  "onConnection c =
     Some (emit (Ef_log (if tc_state c = kConnected then ''new Connection arrived'' else ''Connection closed'')) c)"

definition onRequest ::
    "map_order \<Rightarrow> http_cb \<Rightarrow> (string \<Rightarrow> size_t io_result) \<Rightarrow> HttpRequest \<Rightarrow> conn_cb" where
  "onRequest order httpCb wr req c = do {
     let connection = getHeader ''Connection'' req;
     let close0 = (connection = ''close'' \<or> (m_version req = Http10 \<and> connection \<noteq> ''Keep-Alive''));
     let close = True;
     let response = httpCb req (HttpResponse_new close);
     buf \<leftarrow> appendToBuffer order response (Buffer_new kInitialSize);
     (buf', c1) \<leftarrow> send_buffer wr True buf c;
     Some (if rs_closeConnection response then conn_shutdown True c1 else c1) }"

definition bad_request :: string where
  "bad_request = ''HTTP/1.1 400 Bad Request'' @ CRLF @ CRLF"

definition onMessage ::
    "map_order \<Rightarrow> http_cb \<Rightarrow> (string \<Rightarrow> size_t io_result) \<Rightarrow> timestamp \<Rightarrow> conn_cb" where
  "onMessage order httpCb wr receiveTime c = do {
     (ok, context, buf) \<leftarrow> parseRequest receiveTime HttpContext_new (tc_inputBuffer c);
     let c1 = c\<lparr>tc_inputBuffer := buf\<rparr>;
     c2 \<leftarrow> (if \<not> ok
            then do {
              c' \<leftarrow> send_string wr True bad_request (emit (Ef_log ''parse request failed'') c1);
              Some (conn_shutdown True c') }
            else Some c1);
     if isGotAll context
     then onRequest order httpCb wr (hc_request context) (emit (Ef_log ''parse request success'') c2)
     else Some c2 }"

section \<open>The program\<close>

definition favicon :: string where
  "favicon = map char_of ([
     137, 80, 78, 71, 13, 10, 26, 10, 0, 0, 0, 13, 73, 72, 68, 82,
     0, 0, 0, 16, 0, 0, 0, 16, 8, 6, 0, 0, 0, 31, 243, 255,
     97, 0, 0, 0, 25, 116, 69, 88, 116, 83, 111, 102, 116, 119, 97, 114,
     101, 0, 65, 100, 111, 98, 101, 32, 73, 109, 97, 103, 101, 82, 101, 97,
     100, 121, 113, 201, 101, 60, 0, 0, 1, 205, 73, 68, 65, 84, 120, 218,
     148, 147, 57, 72, 3, 65, 20, 134, 255, 93, 98, 167, 4, 82, 196, 109,
     34, 30, 160, 70, 36, 8, 22, 22, 118, 10, 54, 186, 74, 154, 128, 8,
     65, 180, 113, 133, 88, 137, 71, 176, 73, 169, 81, 36, 205, 166, 8, 164,
     72, 99, 145, 66, 11, 175, 86, 193, 70, 180, 21, 207, 34, 88, 152, 11,
     84, 72, 138, 100, 147, 141, 251, 70, 103, 201, 26, 20, 125, 240, 102, 118,
     102, 223, 124, 239, 231, 103, 70, 168, 213, 106, 72, 36, 18, 42, 0, 5,
     191, 71, 212, 239, 247, 47, 54, 236, 18, 32, 30, 143, 215, 170, 213, 234,
     175, 73, 53, 70, 170, 84, 95, 159, 34, 65, 42, 149, 10, 131, 229, 114,
     57, 100, 179, 89, 150, 153, 76, 6, 233, 116, 154, 37, 133, 44, 203, 84,
     167, 196, 98, 49, 181, 94, 0, 3, 104, 154, 198, 22, 130, 32, 88, 82,
     20, 69, 54, 83, 148, 203, 101, 120, 189, 94, 170, 85, 84, 35, 76, 192,
     224, 226, 193, 143, 0, 158, 188, 9, 65, 124, 62, 31, 131, 68, 34, 17,
     213, 84, 64, 63, 56, 128, 119, 229, 51, 7, 184, 92, 46, 72, 146, 4,
     135, 195, 129, 64, 32, 64, 103, 152, 233, 54, 26, 166, 103, 21, 4, 227,
     215, 200, 189, 21, 225, 105, 183, 67, 171, 234, 120, 47, 106, 88, 146, 187,
     24, 32, 159, 207, 51, 195, 184, 233, 78, 167, 211, 108, 74, 0, 105, 54,
     124, 142, 225, 254, 86, 132, 231, 60, 159, 114, 43, 58, 66, 123, 55, 102,
     119, 174, 142, 14, 243, 189, 82, 169, 100, 2, 66, 175, 133, 50, 102, 70,
     186, 12, 217, 159, 29, 154, 108, 34, 230, 199, 58, 44, 128, 239, 193, 21,
     144, 7, 147, 162, 40, 160, 83, 106, 177, 184, 223, 41, 53, 67, 14, 63,
     88, 252, 152, 218, 121, 106, 80, 64, 0, 135, 174, 27, 23, 66, 180, 58,
     63, 190, 121, 199, 10, 38, 182, 238, 217, 154, 96, 20, 147, 219, 143, 13,
     10, 46, 233, 35, 149, 41, 88, 0, 39, 235, 110, 86, 112, 188, 214, 203,
     214, 71, 171, 61, 108, 125, 184, 210, 221, 160, 96, 131, 186, 239, 95, 164,
     234, 204, 2, 78, 174, 94, 112, 26, 236, 179, 64, 57, 172, 254, 242, 145,
     137, 103, 145, 133, 33, 168, 135, 183, 88, 126, 126, 133, 187, 205, 78, 78,
     98, 116, 64, 250, 147, 137, 236, 30, 236, 134, 2, 72, 38, 147, 208, 117,
     29, 127, 9, 50, 149, 191, 31, 219, 215, 99, 138, 26, 247, 92, 193, 255,
     34, 74, 195, 135, 0, 3, 0, 75, 187, 248, 214, 42, 118, 152, 73, 0,
     0, 0, 0, 73, 69, 78, 68, 174, 66, 96, 130] :: nat list)"

text \<open>\<open>now_text\<close> is the text of the current time. What is printed to the console is not kept.\<close>

definition main_onRequest :: "string \<Rightarrow> http_cb" where
  "main_onRequest now_text req resp =
     (if m_path req = ''/'' then
        setBody (''<html><head><title>This is title</title></head>'' @ ''<body><h1>Hello</h1>Now is '' @ now_text @
                 ''</body></html>'')
          (response_addHeader ''Server'' ''Muduo_zzz''
            (setContentType ''text/html'' (setStatusMsg ''OK'' (setStatusCode k200_ok resp))))
      else if m_path req = ''/favicon.ico'' then
        setBody favicon (setContentType ''image/png'' (setStatusMsg ''OK'' (setStatusCode k200_ok resp)))
      else if m_path req = ''/hello'' then
        setBody ''hello world''
          (response_addHeader ''Server'' ''Muduo_zzz''
            (setContentType ''text/plain'' (setStatusMsg ''OK'' (setStatusCode k200_ok resp))))
      else setCloseConnection True (setStatusMsg ''Not Found'' (setStatusCode k404_notFound resp)))"

section \<open>The bytes of a response\<close>

definition response_head :: "map_order \<Rightarrow> HttpResponse \<Rightarrow> string list" where
  "response_head order r =
     [''HTTP/1.1 '' @ fmt_d (status_num (rs_statusCode r)) @ '' '' @ rs_statusMsg r] @
     (if rs_closeConnection r then [''Connection: close'']
      else [''Content-Length: '' @ dec_nat (length (rs_body r)), ''Connection: Keep-Alive'']) @
     map (\<lambda>k. k @ '': '' @ the (rs_headers r k)) (order (rs_headers r))"

definition response_bytes :: "map_order \<Rightarrow> HttpResponse \<Rightarrow> string" where
  "response_bytes order r = concat (map (\<lambda>l. l @ CRLF) (response_head order r)) @ CRLF @ rs_body r"

lemma length_fmt_status: "length (fmt_d (status_num code)) \<le> 3"
  using length_dec_nat [of 3] by (cases code) (auto simp: fmt_d_def)

lemma append_parts_bytes:
  assumes "length (rs_body r) < 10 ^ 13"
  shows "concat (append_parts order r) = response_bytes order r"
proof -
  have "length (dec_nat (length (rs_body r))) \<le> 13" using assms by (intro length_dec_nat) simp_all
  then have cl: "take 31 (''Content-Length: '' @ fmt_d (int (length (rs_body r))) @ CRLF) =
      ''Content-Length: '' @ dec_nat (length (rs_body r)) @ CRLF"
    by (simp add: fmt_d_def)
  have st: "take 31 (''HTTP/1.1 '' @ fmt_d (status_num (rs_statusCode r)) @ '' '') =
      ''HTTP/1.1 '' @ fmt_d (status_num (rs_statusCode r)) @ '' ''"
    using length_fmt_status [of "rs_statusCode r"] by simp
  have hd: "concat (concat (map (\<lambda>k. [k, '': '', the (rs_headers r k), CRLF]) ks)) =
      concat (map (\<lambda>l. l @ CRLF) (map (\<lambda>k. k @ '': '' @ the (rs_headers r k)) ks))" for ks
    by (induction ks) simp_all
  show ?thesis
    unfolding append_parts_def response_bytes_def response_head_def cl st by (simp add: hd)
qed

lemma appendToBuffer_ok:
  assumes "buffer_inv b" and "length (m_buffer b) + length (response_bytes order r) < 2 ^ 63"
    and "length (response_bytes order r) < 2 ^ 31"
  shows "\<exists>b'. appendToBuffer order r b = Some b' \<and> buffer_inv b' \<and> content b' = content b @ response_bytes order r"
proof -
  have "length (rs_body r) < 10 ^ 13" using assms(3) by (simp add: response_bytes_def)
  from append_parts_bytes [OF this] assms netbuf.app_all [OF assms(1), of "append_parts order r"]
  show ?thesis unfolding appendToBuffer_def by metis
qed

section \<open>The server as the owner of its connections\<close>

lemma parseRequest_inv:
  assumes inv: "buffer_inv buf" and run: "parseRequest now HttpContext_new buf = Some (ok, ctx, buf')"
  shows "buffer_inv buf'"
proof -
  have "\<not> parse_stuck HttpContext_new buf"
    using parse_loop_not_stuck run unfolding parseRequest_def by blast
  show ?thesis
  proof (cases "findCRLF buf")
    case None
    then show ?thesis using inv run by (auto simp: parseRequest_def parse_loop.simps HttpContext_new_def)
  next
    case (Some i)
    have st: "hc_state HttpContext_new = kExpectRequestLine" by (simp add: HttpContext_new_def)
    with \<open>\<not> parse_stuck HttpContext_new buf\<close> Some have "line_ok (take i (content buf))"
      by (simp add: parse_stuck_def)
    then have "parse_loop now True (after_line now (take i (content buf)) HttpContext_new) (retrieveUntil (i + 2) buf)
        = Some (ok, ctx, buf')"
      using parse_loop_request_line [OF st Some, of now False] run by (simp add: parseRequest_def)
    with headers_loop_returns [OF retrieveUntil_inv [OF inv, of "i + 2"]
        hc_state_after_line [of now "take i (content buf)" HttpContext_new], of now True]
    show ?thesis by auto
  qed
qed

lemma send_string_keeps:
  "conn_inv c \<Longrightarrow> wr_ok wr \<Longrightarrow> send_string wr inLoop s c = Some c' \<Longrightarrow> conn_inv c'"
  using sendInLoop_effect by (auto simp: send_string_def intro: emit_inv split: if_splits)

lemma send_buffer_keeps:
  "conn_inv c \<Longrightarrow> wr_ok wr \<Longrightarrow> send_buffer wr inLoop b c = Some (b', c') \<Longrightarrow> conn_inv c'"
  using sendInLoop_effect by (auto simp: send_buffer_def bind_eq_Some_conv intro: emit_inv split: if_splits)

lemma onRequest_keeps:
  "conn_inv c \<Longrightarrow> wr_ok wr \<Longrightarrow> onRequest order httpCb wr req c = Some c' \<Longrightarrow> conn_inv c'"
  by (auto simp: onRequest_def Let_def bind_eq_Some_conv dest: send_buffer_keeps intro: conn_shutdown_inv
      split: if_splits)

lemma onMessage_keeps:
  assumes inv: "conn_inv c" and wr: "wr_ok wr" and run: "onMessage order httpCb wr now c = Some c'"
  shows "conn_inv c'"
proof -
  obtain ok ctx buf where p: "parseRequest now HttpContext_new (tc_inputBuffer c) = Some (ok, ctx, buf)"
    using run by (auto simp: onMessage_def bind_eq_Some_conv)
  have "conn_inv (c\<lparr>tc_inputBuffer := buf\<rparr>)"
    using inv parseRequest_inv [OF _ p] by (auto intro: input_inv simp: conn_inv_def)
  then have log: "conn_inv (emit (Ef_log ''parse request failed'') (c\<lparr>tc_inputBuffer := buf\<rparr>))" (is "conn_inv ?c0")
    by (simp add: emit_inv)
  have "\<exists>c2. conn_inv c2 \<and> (if isGotAll ctx
      then onRequest order httpCb wr (hc_request ctx) (emit (Ef_log ''parse request success'') c2) else Some c2) = Some c'"
  proof (cases ok)
    case True
    then show ?thesis
      using run p \<open>conn_inv (c\<lparr>tc_inputBuffer := buf\<rparr>)\<close> by (auto simp: onMessage_def Let_def)
  next
    case False
    with run p obtain c1 where "send_string wr True bad_request ?c0 = Some c1"
        "(if isGotAll ctx then onRequest order httpCb wr (hc_request ctx)
           (emit (Ef_log ''parse request success'') (conn_shutdown True c1)) else Some (conn_shutdown True c1)) = Some c'"
      by (auto simp: onMessage_def Let_def bind_eq_Some_conv)
    then show ?thesis using send_string_keeps [OF log wr] conn_shutdown_inv by blast
  qed
  then show ?thesis
    using onRequest_keeps [OF emit_inv [OF _ neutral_simps(11)] wr] by (auto split: if_splits)
qed

text \<open>
  An application of the server: an order of traversal, a request handler and a kernel that keeps
  its promise. Whatever the handler answers, the server is a proper owner of its connections.
\<close>

locale http_app =
  fixes order :: map_order and httpCb :: http_cb and wr :: "string \<Rightarrow> size_t io_result" and now :: timestamp
  assumes kernel: "wr_ok wr"
begin

lemma message_keeps: "conn_inv c \<Longrightarrow> onMessage order httpCb wr now c = Some c' \<Longrightarrow> conn_inv c'"
  using onMessage_keeps kernel by blast

end

sublocale http_app \<subseteq> owner: connection_owner onConnection "onMessage order httpCb wr now"
  by unfold_locales (auto simp: onConnection_def emit_inv message_keeps)

text \<open>The program of \<^verbatim>\<open>main.cpp\<close>, on a kernel that takes whatever it is offered.\<close>

definition wr_all :: "string \<Rightarrow> size_t io_result" where
  "wr_all s = Io_ok (length s)"

definition list_order :: "string list \<Rightarrow> map_order" where
  "list_order ks m = filter (\<lambda>k. m k \<noteq> None) ks"

interpretation myserver: http_app "list_order [''Content-Type'', ''Server'']" "main_onRequest ''now''" wr_all 0
  by unfold_locales (simp add: wr_ok_def wr_all_def)

section \<open>Serving a request\<close>

text \<open>What a send from the loop thread does to a connected connection, the shutdown included.\<close>

lemma send_then_shutdown:
  assumes inv: "conn_inv c" and up: "tc_state c = kConnected" and wr: "wr_ok wr"
    and small: "out_cap c + length data < 2 ^ 63" "length data < 2 ^ 31"
  shows "\<exists>c1. sendInLoop wr data c = Some c1 \<and> conn_inv (conn_shutdown True c1) \<and>
    tc_state (conn_shutdown True c1) = kDisconnecting \<and> tc_inputBuffer (conn_shutdown True c1) = tc_inputBuffer c \<and>
    written (tc_trace (conn_shutdown True c1)) @ content (tc_outputBuffer (conn_shutdown True c1)) =
      written (tc_trace c) @ content (tc_outputBuffer c) @ (if peer_gone wr data c then [] else data)"
proof -
  obtain c1 where c1: "sendInLoop wr data c = Some c1"
    using sendInLoop_returns [OF inv wr small] by blast
  note eff = sendInLoop_effect [OF inv wr c1]
  have sh: "conn_inv (conn_shutdown True c1)" using eff conn_shutdown_inv by blast
  have "written (tc_trace (conn_shutdown True c1)) @ content (tc_outputBuffer (conn_shutdown True c1)) =
      accepted (tc_trace (conn_shutdown True c1))"
    using sh by (simp add: conn_inv_def)
  also have "\<dots> = accepted (tc_trace c1)"
    by (simp add: conn_shutdown_def Let_def shutdownInLoop_def emit_def setState_def)
  also have "\<dots> = accepted (tc_trace c) @ (if peer_gone wr data c then [] else data)"
    using eff up by simp
  also have "accepted (tc_trace c) = written (tc_trace c) @ content (tc_outputBuffer c)"
    using inv by (simp add: conn_inv_def)
  finally have bytes: "written (tc_trace (conn_shutdown True c1)) @ content (tc_outputBuffer (conn_shutdown True c1)) =
      written (tc_trace c) @ content (tc_outputBuffer c) @ (if peer_gone wr data c then [] else data)" by simp
  have "tc_state (conn_shutdown True c1) = kDisconnecting" "tc_inputBuffer (conn_shutdown True c1) = tc_inputBuffer c"
    using eff up by (simp_all add: same_frame_def conn_shutdown_def Let_def shutdownInLoop_def emit_def setState_def)
  with c1 sh bytes show ?thesis by blast
qed

lemma peer_gone_frame [simp]:
  "peer_gone wr data (c\<lparr>tc_inputBuffer := b\<rparr>) = peer_gone wr data c"
  "peer_gone wr data (emit e c) = peer_gone wr data c"
  by (simp_all add: peer_gone_def emit_def)

lemma out_cap_frame [simp]:
  "out_cap (c\<lparr>tc_inputBuffer := b\<rparr>) = out_cap c" "out_cap (emit e c) = out_cap c"
  by (simp_all add: out_cap_def emit_def)

lemma trace_log_frame [simp]:
  "written (tc_trace (emit (Ef_log s) c)) = written (tc_trace c)"
  "content (tc_outputBuffer (emit e c)) = content (tc_outputBuffer c)"
  "tc_inputBuffer (emit e c) = tc_inputBuffer c"
  by (simp_all add: emit_def)

lemma onRequest_serves:
  assumes inv: "conn_inv c" and up: "tc_state c = kConnected" and wr: "wr_ok wr"
    and r: "r = httpCb req (HttpResponse_new True)" "rs_closeConnection r"
    and small: "out_cap c + length (response_bytes order r) < 2 ^ 63" "length (response_bytes order r) < 2 ^ 31"
  shows "\<exists>c'. onRequest order httpCb wr req c = Some c' \<and> conn_inv c' \<and> tc_state c' = kDisconnecting \<and>
    tc_inputBuffer c' = tc_inputBuffer c \<and>
    written (tc_trace c') @ content (tc_outputBuffer c') = written (tc_trace c) @ content (tc_outputBuffer c) @
      (if peer_gone wr (response_bytes order r) c then [] else response_bytes order r)"
proof -
  have "length (m_buffer (Buffer_new kInitialSize)) + length (response_bytes order r) < 2 ^ 63"
    using small(2) by (simp add: Buffer_new_def kInitialSize_def kCheapPrepend_def)
  then obtain buf where buf: "appendToBuffer order r (Buffer_new kInitialSize) = Some buf"
      "content buf = response_bytes order r"
    using appendToBuffer_ok [OF buffer_inv_new _ small(2), of kInitialSize] by (auto simp: kInitialSize_def)
  obtain c1 where "sendInLoop wr (response_bytes order r) c = Some c1"
      "conn_inv (conn_shutdown True c1)" "tc_state (conn_shutdown True c1) = kDisconnecting"
      "tc_inputBuffer (conn_shutdown True c1) = tc_inputBuffer c"
      "written (tc_trace (conn_shutdown True c1)) @ content (tc_outputBuffer (conn_shutdown True c1)) =
        written (tc_trace c) @ content (tc_outputBuffer c) @
          (if peer_gone wr (response_bytes order r) c then [] else response_bytes order r)"
    using send_then_shutdown [OF inv up wr small] by blast
  then show ?thesis
    using buf r up by (simp add: onRequest_def send_buffer_def Let_def)
qed

section \<open>Properties\<close>

text \<open>
  C1. End to end: a request that has arrived completely is answered. When the input buffer of a
  connected connection starts with a well-formed request, \<^verbatim>\<open>onMessage\<close> returns, the bytes sent or
  left to send grow by exactly the response that the handler made of the parsed request, with the
  status line, the headers and the body in place, the input behind the request stays, and the
  connection is being shut down (the server always closes). Only a peer found gone by the write
  gets nothing.
\<close>

theorem http_serves_request:
  assumes "conn_inv c" and "tc_state c = kConnected" and "wr_ok wr"
    and "content (tc_inputBuffer c) = print_request mt target v hs @ rest"
    and "mt \<noteq> Invalid" and "v \<noteq> Unknown" and "CHR '' '' \<notin> set target" and "LF \<notin> set target"
    and "\<forall>h\<in>set hs. wf_header h"
    and "r = httpCb \<lparr>m_method = mt, m_version = v, m_path = take (find_char (CHR ''?'') target) target,
           m_query = drop (find_char (CHR ''?'') target) target, m_receiveTime = now, m_headers = map_of (rev hs)\<rparr>
           (HttpResponse_new True)"
    and "rs_closeConnection r"
    and "out_cap c + length (response_bytes order r) < 2 ^ 63" and "length (response_bytes order r) < 2 ^ 31"
  shows "\<exists>c'. onMessage order httpCb wr now c = Some c' \<and> conn_inv c' \<and> tc_state c' = kDisconnecting \<and>
    content (tc_inputBuffer c') = rest \<and>
    written (tc_trace c') @ content (tc_outputBuffer c') = written (tc_trace c) @ content (tc_outputBuffer c) @
      (if peer_gone wr (response_bytes order r) c then [] else response_bytes order r)"
proof -
  let ?req = "\<lparr>m_method = mt, m_version = v, m_path = take (find_char (CHR ''?'') target) target,
    m_query = drop (find_char (CHR ''?'') target) target, m_receiveTime = now, m_headers = map_of (rev hs)\<rparr>"
  obtain buf where p: "parseRequest now HttpContext_new (tc_inputBuffer c) =
      Some (True, \<lparr>hc_state = kGotAll, hc_request = ?req\<rparr>, buf)" "buffer_inv buf" "content buf = rest"
    using parse_printed [OF _ assms(4-9), of now] assms(1) by (auto simp: conn_inv_def)
  define c1 where "c1 = emit (Ef_log ''parse request success'') (c\<lparr>tc_inputBuffer := buf\<rparr>)"
  have c1: "conn_inv c1" "tc_state c1 = kConnected" "out_cap c1 = out_cap c" "tc_inputBuffer c1 = buf"
    "written (tc_trace c1) = written (tc_trace c)" "content (tc_outputBuffer c1) = content (tc_outputBuffer c)"
    "peer_gone wr (response_bytes order r) c1 = peer_gone wr (response_bytes order r) c"
    using assms(1,2) p(2) by (simp_all add: c1_def emit_inv input_inv)
  have "onMessage order httpCb wr now c = onRequest order httpCb wr ?req c1"
    using p(1) by (simp add: onMessage_def isGotAll_def c1_def)
  moreover obtain c' where "onRequest order httpCb wr ?req c1 = Some c'" "conn_inv c'" "tc_state c' = kDisconnecting"
      "tc_inputBuffer c' = buf"
      "written (tc_trace c') @ content (tc_outputBuffer c') = written (tc_trace c) @ content (tc_outputBuffer c) @
        (if peer_gone wr (response_bytes order r) c then [] else response_bytes order r)"
    using onRequest_serves [of c1 wr r httpCb ?req order] assms(3,10-13) c1 by auto
  ultimately show ?thesis using p(3) by auto
qed

definition ready_conn :: "string \<Rightarrow> TcpConnection" where
  "ready_conn s = (TcpConnection_new ''c'' 5)\<lparr>tc_state := kConnected, tc_inputBuffer := sample_buffer s\<rparr>"

lemma ready_conn [simp]:
  "length s < 2 ^ 62 \<Longrightarrow> conn_inv (ready_conn s)" "tc_state (ready_conn s) = kConnected"
  "content (tc_inputBuffer (ready_conn s)) = s" "out_cap (ready_conn s) = 1032"
  "written (tc_trace (ready_conn s)) = []" "content (tc_outputBuffer (ready_conn s)) = []"
proof -
  have "conn_inv ((TcpConnection_new ''c'' 5)\<lparr>tc_state := kConnected\<rparr>)"
    using setState_inv [OF conn_inv_new, of kConnected] by (simp add: setState_def)
  then show "length s < 2 ^ 62 \<Longrightarrow> conn_inv (ready_conn s)"
    unfolding ready_conn_def using input_inv by auto
qed (simp_all add: ready_conn_def TcpConnection_new_def out_cap_def Buffer_new_def kInitialSize_def kCheapPrepend_def
      content_def readableBytes_def sample_buffer_def)

definition hello_response :: string where
  "hello_response = ''HTTP/1.1 200 OK'' @ CRLF @ ''Connection: close'' @ CRLF @ ''Content-Type: text/plain'' @ CRLF @
     ''Server: Muduo_zzz'' @ CRLF @ CRLF @ ''hello world''"

lemma hello_bytes:
  "m_path req = ''/hello'' \<Longrightarrow>
     response_bytes (list_order [''Content-Type'', ''Server'']) (main_onRequest t req (HttpResponse_new True)) = hello_response"
proof -
  have "fmt_d 200 = ''200''" by code_simp
  then show "m_path req = ''/hello'' \<Longrightarrow>
     response_bytes (list_order [''Content-Type'', ''Server'']) (main_onRequest t req (HttpResponse_new True)) = hello_response"
    by (simp add: response_bytes_def response_head_def main_onRequest_def http_defs HttpResponse_new_def
        hello_response_def list_order_def)
qed

theorem http_serves_request_witness:
  "\<exists>c'. onMessage (list_order [''Content-Type'', ''Server'']) (main_onRequest ''now'') wr_all 9
        (ready_conn (print_request GET ''/hello'' Http11 [(''Host'', ''h'')])) = Some c' \<and>
     tc_state c' = kDisconnecting \<and> written (tc_trace c') @ content (tc_outputBuffer c') = hello_response"
proof -
  let ?req = "\<lparr>m_method = GET, m_version = Http11, m_path = ''/hello'', m_query = [], m_receiveTime = 9,
    m_headers = map_of (rev [(''Host'', ''h'')])\<rparr>"
  let ?r = "main_onRequest ''now'' ?req (HttpResponse_new True)"
  have f: "find_char (CHR ''?'') ''/hello'' = 6" by (simp add: find_char_def)
  have len: "length (print_request GET ''/hello'' Http11 [(''Host'', ''h'')]) < 2 ^ 62" "length hello_response < 100"
    by (simp_all add: print_request_def request_line_def print_header_def hello_response_def)
  have close: "rs_closeConnection ?r" by (simp add: main_onRequest_def http_defs HttpResponse_new_def)
  have gone: "\<not> peer_gone wr_all s c" for s c by (simp add: peer_gone_def wr_all_def)
  have wf: "\<forall>h\<in>set [(''Host'', ''h'')]. wf_header h" by (simp add: wf_header_def LF_def isspace_def)
  have bytes: "response_bytes (list_order [''Content-Type'', ''Server'']) ?r = hello_response" by (rule hello_bytes) simp
  show ?thesis
    using http_serves_request [of "ready_conn (print_request GET ''/hello'' Http11 [(''Host'', ''h'')])" wr_all GET
        "''/hello''" Http11 "[(''Host'', ''h'')]" "[]" ?r "main_onRequest ''now''" 9
        "list_order [''Content-Type'', ''Server'']"] len close gone wf
    unfolding bytes by (auto simp: f wr_ok_def wr_all_def LF_def)
qed

text \<open>
  C40. A request that arrives in pieces is refused: when the bytes received so far hold no line end,
  the server, which parses every message with a fresh context, answers \<open>400 Bad Request\<close> and shuts
  the connection down, although the rest of the request line may still be on its way; the bytes stay
  in the input buffer.
\<close>

theorem partial_request_refused:
  assumes "conn_inv c" and "tc_state c = kConnected" and "wr_ok wr" and "no_pair CR LF (content (tc_inputBuffer c))"
    and "out_cap c + 28 < 2 ^ 63" and "\<not> peer_gone wr bad_request c"
  shows "\<exists>c'. onMessage order httpCb wr now c = Some c' \<and> conn_inv c' \<and> tc_state c' = kDisconnecting \<and>
    tc_inputBuffer c' = tc_inputBuffer c \<and>
    written (tc_trace c') @ content (tc_outputBuffer c') =
      written (tc_trace c) @ content (tc_outputBuffer c) @ ''HTTP/1.1 400 Bad Request'' @ CRLF @ CRLF"
proof -
  define c1 where "c1 = emit (Ef_log ''parse request failed'') c"
  have len: "length bad_request = 28" by (simp add: bad_request_def)
  have p: "parseRequest now HttpContext_new (tc_inputBuffer c) = Some (False, HttpContext_new, tc_inputBuffer c)"
    using assms(4) by (simp add: parseRequest_def parse_loop.simps HttpContext_new_def findCRLF_None [THEN iffD2])
  have c1: "conn_inv c1" "tc_state c1 = kConnected" "out_cap c1 = out_cap c" "\<not> peer_gone wr bad_request c1"
    "tc_inputBuffer c1 = tc_inputBuffer c"
    using assms by (simp_all add: c1_def emit_inv)
  obtain c2 where c2: "sendInLoop wr bad_request c1 = Some c2" "conn_inv (conn_shutdown True c2)"
      "tc_state (conn_shutdown True c2) = kDisconnecting" "tc_inputBuffer (conn_shutdown True c2) = tc_inputBuffer c"
      "written (tc_trace (conn_shutdown True c2)) @ content (tc_outputBuffer (conn_shutdown True c2)) =
        written (tc_trace c1) @ content (tc_outputBuffer c1) @ bad_request"
    using send_then_shutdown [of c1 wr bad_request] c1 assms(3,5) len by auto
  have "onMessage order httpCb wr now c = Some (conn_shutdown True c2)"
    using p c2(1) c1(2) by (simp add: onMessage_def Let_def send_string_def c1_def isGotAll_def HttpContext_new_def)
  then show ?thesis using c2 by (simp add: c1_def bad_request_def)
qed

theorem partial_request_refused_witness:
  "\<exists>c'. onMessage (list_order []) (main_onRequest ''now'') wr_all 0 (ready_conn ''GET /hel'') = Some c' \<and>
     tc_state c' = kDisconnecting \<and>
     written (tc_trace c') @ content (tc_outputBuffer c') = ''HTTP/1.1 400 Bad Request'' @ CRLF @ CRLF"
proof -
  have np: "no_pair CR LF ''GET /hel''" by (rule no_pair_notin) (simp add: LF_def)
  show ?thesis
    using partial_request_refused [of "ready_conn ''GET /hel''" wr_all "list_order []" "main_onRequest ''now''" 0] np
    by (auto simp: wr_ok_def wr_all_def peer_gone_def)
qed

text \<open>
  The bytes of a response. Appending a response to a buffer succeeds and adds exactly the
  status line, the connection header (with the length of the body when the connection stays open),
  one line per header in the order of the map, the empty line and the body: the 32-byte buffer of
  the formatted lines never cuts anything.
\<close>

theorem appendToBuffer_writes:
  assumes "buffer_inv b" and "length (m_buffer b) + length (response_bytes order r) < 2 ^ 63"
    and "length (response_bytes order r) < 2 ^ 31"
  shows "\<exists>b'. appendToBuffer order r b = Some b' \<and> buffer_inv b' \<and> content b' = content b @
    ''HTTP/1.1 '' @ fmt_d (status_num (rs_statusCode r)) @ '' '' @ rs_statusMsg r @ CRLF @
    (if rs_closeConnection r then ''Connection: close'' @ CRLF
     else ''Content-Length: '' @ dec_nat (length (rs_body r)) @ CRLF @ ''Connection: Keep-Alive'' @ CRLF) @
    concat (map (\<lambda>k. k @ '': '' @ the (rs_headers r k) @ CRLF) (order (rs_headers r))) @ CRLF @ rs_body r"
  using appendToBuffer_ok [OF assms]
  by (cases "rs_closeConnection r") (simp_all add: response_bytes_def response_head_def comp_def)

theorem appendToBuffer_writes_witness:
  "\<exists>b'. appendToBuffer (list_order []) (defaultHttpCallback HttpRequest_new (HttpResponse_new False)) (Buffer_new 16) = Some b' \<and>
     content b' = ''HTTP/1.1 404 Not Found'' @ CRLF @ ''Connection: close'' @ CRLF @ CRLF"
proof -
  let ?r = "defaultHttpCallback HttpRequest_new (HttpResponse_new False)"
  have n: "fmt_d 404 = ''404''" by code_simp
  have "length (response_bytes (list_order []) ?r) = 45"
    by (simp add: response_bytes_def response_head_def defaultHttpCallback_def http_defs HttpResponse_new_def list_order_def n)
  then show ?thesis
    using appendToBuffer_writes [of "Buffer_new 16" "list_order []" ?r]
    by (simp add: buffer_inv_new)
       (auto simp: Buffer_new_def kCheapPrepend_def defaultHttpCallback_def http_defs HttpResponse_new_def list_order_def n)
qed

lemma favicon_png: "length favicon = 555" "take 8 favicon = map char_of [0x89, 0x50, 0x4E, 0x47, 0x0D, 0x0A, 0x1A, 0x0A :: nat]"
  by (simp_all add: favicon_def)

end
