(* ===== verification/Event_Loop.thy ===== *)
theory Event_Loop
  imports Prelude "HOL-Library.Multiset"
begin

text \<open>
  The event loop and its threads (\<^verbatim>\<open>myserver/include/event_loop.h\<close>,
  \<^verbatim>\<open>myserver/common/event_loop.cpp\<close>, \<^verbatim>\<open>myserver/thread/event_loop_thread.cpp\<close>,
  \<^verbatim>\<open>myserver/common/event_loop_threadpool.cpp\<close>, \<^verbatim>\<open>myserver/thread/mythread.cpp\<close>,
  \<^verbatim>\<open>myserver/thread/current_thread.cpp\<close>). The loop is shared between its own thread and
  others, so it is a step relation: one step per atomic access of the shared state, the program
  counter of the loop thread as a datatype, and for every other thread whether it stands between
  the two halves of \<^verbatim>\<open>queueInLoop\<close>. Functors are numbers; \<open>body f\<close> lists what running \<open>f\<close>
  asks of the loop. Two ghost fields record the functors queued and the functors run, a third one
  counts the pending functors that the loop's own thread queued before it entered \<^verbatim>\<open>loop()\<close>:
  \<^verbatim>\<open>threadFunc\<close> runs the initial callback there, and \<^verbatim>\<open>EventLoopThreadPool::start\<close> runs it on the
  base loop.
\<close>

section \<open>The loop object\<close>

type_synonym fid = nat
type_synonym tid = nat

text \<open>What code running on the loop thread asks of the loop.\<close>

datatype loop_act = Queue fid | Run fid | Quit

text \<open>The active channels of one poll: the wakeup channel, or one whose callbacks act as listed.\<close>

datatype loop_event = Wake | Io "loop_act list"

datatype loop_pc =
    L_init "loop_act list" | L_begin | L_reset | L_test | L_poll
  | L_events "loop_act list" "loop_event list"
  | L_calling | L_swap
  | L_run "loop_act list" "fid list"
  | L_exit | L_done

record EventLoop =
  m_loop :: bool
  m_quit :: bool
  m_callPendingFunctors :: bool
  m_pendingFunctors :: "fid list"
  lp_eventfd :: nat
  lp_pc :: loop_pc
  lp_mid :: "tid set"
  lp_queued :: "fid list"
  lp_ran :: "fid list"
  lp_early :: nat

definition EventLoop_new :: EventLoop where
  "EventLoop_new = \<lparr>m_loop = False, m_quit = False, m_callPendingFunctors = False,
     m_pendingFunctors = [], lp_eventfd = 0, lp_pc = L_begin, lp_mid = {}, lp_queued = [], lp_ran = [],
     lp_early = 0\<rparr>"

text \<open>The eventfd counter: a write that would pass the maximum fails and leaves it; a read zeroes it.\<close>

definition loop_wakeup :: "EventLoop \<Rightarrow> EventLoop" where
  "loop_wakeup s = (if lp_eventfd s + 1 < 2 ^ 64 - 1 then s\<lparr>lp_eventfd := lp_eventfd s + 1\<rparr> else s)"

definition loop_handleRead :: "EventLoop \<Rightarrow> EventLoop" where
  "loop_handleRead s = s\<lparr>lp_eventfd := 0\<rparr>"

text \<open>\<^verbatim>\<open>queueInLoop\<close> has two halves: the guarded append, and the conditional wakeup.\<close>

definition queue_push :: "fid \<Rightarrow> EventLoop \<Rightarrow> EventLoop" where
  "queue_push f s = s\<lparr>m_pendingFunctors := m_pendingFunctors s @ [f], lp_queued := lp_queued s @ [f]\<rparr>"

definition queue_signal :: "bool \<Rightarrow> EventLoop \<Rightarrow> EventLoop" where
  "queue_signal inLoop s = (if \<not> inLoop \<or> m_callPendingFunctors s then loop_wakeup s else s)"

definition queueInLoop :: "bool \<Rightarrow> fid \<Rightarrow> EventLoop \<Rightarrow> EventLoop" where
  "queueInLoop inLoop f s = queue_signal inLoop (queue_push f s)"

definition loop_quit :: "bool \<Rightarrow> EventLoop \<Rightarrow> EventLoop" where
  "loop_quit inLoop s = (let s1 = s\<lparr>m_quit := True\<rparr> in if inLoop then loop_wakeup s1 else s1)"

text \<open>
  \<^verbatim>\<open>runInLoop\<close>: on the loop thread the functor runs at once, so its actions come before the
  caller's remaining ones; elsewhere it is queued.
\<close>

definition runInLoop ::
    "(fid \<Rightarrow> loop_act list) \<Rightarrow> bool \<Rightarrow> fid \<Rightarrow> loop_act list \<Rightarrow> EventLoop \<Rightarrow> loop_act list \<times> EventLoop" where
  "runInLoop body inLoop f rest s =
     (if inLoop then (body f @ rest, s) else (rest, queueInLoop inLoop f s))"

text \<open>One action of code that runs on the loop thread: the actions left and the new state.\<close>

fun do_act :: "(fid \<Rightarrow> loop_act list) \<Rightarrow> loop_act \<Rightarrow> loop_act list \<Rightarrow> EventLoop \<Rightarrow> loop_act list \<times> EventLoop" where
  "do_act body (Queue f) rest s = (rest, queueInLoop True f s)"
| "do_act body (Run f) rest s = runInLoop body True f rest s"
| "do_act body Quit rest s = (rest, loop_quit True s)"

section \<open>The loop thread\<close>

text \<open>
  \<open>own_step body evs s\<close> is the next step of the loop thread; \<open>evs\<close> is what \<^verbatim>\<open>poll\<close> returns,
  and matters at that point only. \<open>L_init as\<close> is the thread before \<^verbatim>\<open>loop()\<close>, with what its initial
  callback still asks of the loop. \<open>None\<close> means the thread has left \<^verbatim>\<open>loop()\<close>.
\<close>

fun own_step :: "(fid \<Rightarrow> loop_act list) \<Rightarrow> loop_event list \<Rightarrow> EventLoop \<Rightarrow> EventLoop option" where
  "own_step body evs s = (case lp_pc s of
     L_init (a # as) \<Rightarrow>
       (let (as', s') = do_act body a as s in
        Some (s'\<lparr>lp_early := lp_early s' + (case a of Queue f \<Rightarrow> 1 | _ \<Rightarrow> 0), lp_pc := L_init as'\<rparr>))
   | L_init [] \<Rightarrow> Some (s\<lparr>lp_pc := L_begin\<rparr>)
   | L_begin \<Rightarrow> Some (s\<lparr>m_loop := True, lp_pc := L_reset\<rparr>)
   | L_reset \<Rightarrow> Some (s\<lparr>m_quit := False, lp_pc := L_test\<rparr>)
   | L_test \<Rightarrow> Some (s\<lparr>lp_pc := (if m_quit s then L_exit else L_poll)\<rparr>)
   | L_poll \<Rightarrow> Some (s\<lparr>lp_pc := L_events [] evs\<rparr>)
   | L_events (a # as) es \<Rightarrow>
       (let (as', s') = do_act body a as s in Some (s'\<lparr>lp_pc := L_events as' es\<rparr>))
   | L_events [] (Wake # es) \<Rightarrow> Some ((loop_handleRead s)\<lparr>lp_pc := L_events [] es\<rparr>)
   | L_events [] (Io as # es) \<Rightarrow> Some (s\<lparr>lp_pc := L_events as es\<rparr>)
   | L_events [] [] \<Rightarrow> Some (s\<lparr>lp_pc := L_calling\<rparr>)
   | L_calling \<Rightarrow> Some (s\<lparr>m_callPendingFunctors := True, lp_pc := L_swap\<rparr>)
   | L_swap \<Rightarrow> Some (s\<lparr>lp_pc := L_run [] (m_pendingFunctors s), m_pendingFunctors := [], lp_early := 0\<rparr>)
   | L_run (a # as) fs \<Rightarrow>
       (let (as', s') = do_act body a as s in Some (s'\<lparr>lp_pc := L_run as' fs\<rparr>))
   | L_run [] (f # fs) \<Rightarrow> Some (s\<lparr>lp_pc := L_run (body f) fs, lp_ran := lp_ran s @ [f]\<rparr>)
   | L_run [] [] \<Rightarrow> Some (s\<lparr>m_callPendingFunctors := False, lp_pc := L_test\<rparr>)
   | L_exit \<Rightarrow> Some (s\<lparr>m_loop := False, lp_pc := L_done\<rparr>)
   | L_done \<Rightarrow> None)"

declare own_step.simps [simp del]

text \<open>
  \<^verbatim>\<open>epoll_wait\<close> reports the wakeup channel only while the eventfd counter is positive, and
  reports a descriptor once; no event at all is the timeout.
\<close>

definition poll_may_return :: "EventLoop \<Rightarrow> loop_event list \<Rightarrow> bool" where
  "poll_may_return s evs \<longleftrightarrow> count_list evs Wake \<le> (if 0 < lp_eventfd s then 1 else 0)"

inductive loop_step :: "(fid \<Rightarrow> loop_act list) \<Rightarrow> EventLoop \<Rightarrow> EventLoop \<Rightarrow> bool" for body where
  own: "poll_may_return s evs \<Longrightarrow> own_step body evs s = Some s' \<Longrightarrow> loop_step body s s'"
| push: "t \<notin> lp_mid s \<Longrightarrow> loop_step body s ((queue_push f s)\<lparr>lp_mid := insert t (lp_mid s)\<rparr>)"
| signal: "t \<in> lp_mid s \<Longrightarrow> loop_step body s ((queue_signal False s)\<lparr>lp_mid := lp_mid s - {t}\<rparr>)"
| quit: "loop_step body s (loop_quit False s)"

text \<open>A run begins where the thread has built the loop and its initial callback, if any, asks \<open>as\<close> of it.\<close>

definition loop_start :: "loop_act list \<Rightarrow> EventLoop" where
  "loop_start as = EventLoop_new\<lparr>lp_pc := L_init as\<rparr>"

inductive loop_reach :: "(fid \<Rightarrow> loop_act list) \<Rightarrow> EventLoop \<Rightarrow> bool" for body where
  init: "loop_reach body (loop_start as)"
| step: "loop_reach body s \<Longrightarrow> loop_step body s s' \<Longrightarrow> loop_reach body s'"

section \<open>Order of execution and wakeups\<close>

fun left_to_run :: "loop_pc \<Rightarrow> fid list" where
  "left_to_run (L_run as fs) = fs"
| "left_to_run _ = []"

fun swap_ahead :: "loop_pc \<Rightarrow> bool" where
  "swap_ahead (L_events as es) = True"
| "swap_ahead L_calling = True"
| "swap_ahead L_swap = True"
| "swap_ahead _ = False"

fun draining :: "loop_pc \<Rightarrow> bool" where
  "draining L_swap = True"
| "draining (L_run as fs) = True"
| "draining _ = False"

fun before_loop :: "loop_pc \<Rightarrow> bool" where
  "before_loop (L_init as) = True"
| "before_loop _ = False"

fun in_batch :: "loop_pc \<Rightarrow> bool" where
  "in_batch (L_run as fs) = True"
| "in_batch _ = False"

definition loop_inv :: "EventLoop \<Rightarrow> bool" where
  "loop_inv s \<longleftrightarrow>
     lp_queued s = lp_ran s @ left_to_run (lp_pc s) @ m_pendingFunctors s \<and>
     m_callPendingFunctors s = draining (lp_pc s) \<and>
     lp_early s \<le> length (m_pendingFunctors s) \<and>
     (before_loop (lp_pc s) \<longrightarrow> lp_ran s = []) \<and>
     (lp_ran s \<noteq> [] \<or> in_batch (lp_pc s) \<longrightarrow> lp_early s = 0) \<and>
     (\<not> swap_ahead (lp_pc s) \<and> lp_early s < length (m_pendingFunctors s) \<longrightarrow>
        0 < lp_eventfd s \<or> lp_mid s \<noteq> {})"

lemma wakeup_simps [simp]:
  "m_loop (loop_wakeup s) = m_loop s" "m_quit (loop_wakeup s) = m_quit s"
  "m_callPendingFunctors (loop_wakeup s) = m_callPendingFunctors s"
  "m_pendingFunctors (loop_wakeup s) = m_pendingFunctors s" "lp_pc (loop_wakeup s) = lp_pc s"
  "lp_mid (loop_wakeup s) = lp_mid s" "lp_queued (loop_wakeup s) = lp_queued s"
  "lp_ran (loop_wakeup s) = lp_ran s" "lp_early (loop_wakeup s) = lp_early s" "0 < lp_eventfd (loop_wakeup s)"
  "lp_eventfd (loop_wakeup s) \<noteq> 0"
  by (simp_all add: loop_wakeup_def)

text \<open>The effect of an action on the loop thread, whichever part of the loop runs it.\<close>

lemma do_act_effect:
  assumes "do_act body a as s = (as', s')"
  shows "lp_pc s' = lp_pc s \<and> lp_mid s' = lp_mid s \<and> lp_ran s' = lp_ran s \<and>
    lp_early s' = lp_early s \<and> m_callPendingFunctors s' = m_callPendingFunctors s \<and>
    (\<exists>fs. m_pendingFunctors s' = m_pendingFunctors s @ fs \<and> lp_queued s' = lp_queued s @ fs \<and>
       (fs \<noteq> [] \<and> m_callPendingFunctors s \<longrightarrow> 0 < lp_eventfd s')) \<and>
    (0 < lp_eventfd s \<longrightarrow> 0 < lp_eventfd s')"
  using assms
  by (cases a; cases "m_callPendingFunctors s")
     (auto simp: queueInLoop_def queue_signal_def queue_push_def runInLoop_def loop_quit_def Let_def)

text \<open>Before \<^verbatim>\<open>loop()\<close> an action that queues is counted, and no other one queues.\<close>

lemma init_act_inv:
  assumes "loop_inv s" and "lp_pc s = L_init (a # as)" and "do_act body a as s = (as', s')"
  shows "loop_inv (s'\<lparr>lp_early := lp_early s' + (case a of Queue f \<Rightarrow> 1 | _ \<Rightarrow> 0), lp_pc := L_init as'\<rparr>)"
  using assms
  by (cases a)
     (auto simp: loop_inv_def queueInLoop_def queue_signal_def queue_push_def runInLoop_def loop_quit_def Let_def)

lemma act_inv:
  assumes inv: "loop_inv s" and "do_act body a as s = (as', s')"
    and "left_to_run pc = left_to_run (lp_pc s)" "draining pc = draining (lp_pc s)"
      "swap_ahead pc = swap_ahead (lp_pc s)" "in_batch pc = in_batch (lp_pc s)" "\<not> before_loop pc"
    and held: "swap_ahead pc \<or> draining pc"
  shows "loop_inv (s'\<lparr>lp_pc := pc\<rparr>)"
proof -
  obtain fs where "m_pendingFunctors s' = m_pendingFunctors s @ fs" "lp_queued s' = lp_queued s @ fs"
    and "fs \<noteq> [] \<and> m_callPendingFunctors s \<longrightarrow> 0 < lp_eventfd s'"
    using do_act_effect [OF assms(2)] by blast
  then show ?thesis
    using do_act_effect [OF assms(2)] assms(3-) inv unfolding loop_inv_def by (cases "fs = []") auto
qed

lemma own_step_inv:
  assumes inv: "loop_inv s" and own: "own_step body evs s = Some s'"
  shows "loop_inv s'"
proof -
  show ?thesis
  proof (cases "lp_pc s")
    case (L_init as)
    show ?thesis
    proof (cases as)
      case Nil
      then show ?thesis using inv own L_init by (auto simp: own_step.simps loop_inv_def)
    next
      case (Cons a as')
      then show ?thesis using own L_init
        by (auto simp: own_step.simps Let_def split: prod.splits intro!: init_act_inv [OF inv])
    qed
  next
    case (L_events as es)
    show ?thesis
    proof (cases as)
      case Nil
      then show ?thesis using inv own L_events
        by (cases es) (auto simp: own_step.simps loop_inv_def loop_handleRead_def split: loop_event.splits)
    next
      case (Cons a as')
      then show ?thesis using own L_events
        by (auto simp: own_step.simps Let_def split: prod.splits intro!: act_inv [OF inv])
    qed
  next
    case (L_run as fs)
    show ?thesis
    proof (cases as)
      case Nil
      then show ?thesis using inv own L_run
        by (cases fs) (auto simp: own_step.simps loop_inv_def)
    next
      case (Cons a as')
      then show ?thesis using own L_run
        by (auto simp: own_step.simps Let_def split: prod.splits intro!: act_inv [OF inv])
    qed
  qed (use inv own in \<open>auto simp: own_step.simps loop_inv_def split: if_splits\<close>)
qed

lemma loop_step_inv: "loop_step body s s' \<Longrightarrow> loop_inv s \<Longrightarrow> loop_inv s'"
proof (induction rule: loop_step.induct)
  case (own s evs s')
  then show ?case using own_step_inv by blast
qed (auto simp: loop_inv_def queue_push_def queue_signal_def loop_quit_def)

lemma loop_reach_inv: "loop_reach body s \<Longrightarrow> loop_inv s"
  by (induction rule: loop_reach.induct)
     (simp_all add: loop_step_inv, simp add: loop_inv_def loop_start_def EventLoop_new_def)

text \<open>
  A step of the loop thread that needs no help: at \<^verbatim>\<open>poll\<close> it returns because the eventfd is
  readable, never because of a timeout or of other traffic.
\<close>

definition prompt_step :: "(fid \<Rightarrow> loop_act list) \<Rightarrow> EventLoop \<Rightarrow> EventLoop \<Rightarrow> bool" where
  "prompt_step body s s' \<longleftrightarrow>
     own_step body [Wake] s = Some s' \<and> (lp_pc s = L_poll \<longrightarrow> 0 < lp_eventfd s)"

abbreviation prompt_run :: "(fid \<Rightarrow> loop_act list) \<Rightarrow> EventLoop \<Rightarrow> EventLoop \<Rightarrow> bool" where
  "prompt_run body \<equiv> (prompt_step body)\<^sup>*\<^sup>*"

text \<open>Running functors directly is well-founded: no functor runs itself through \<^verbatim>\<open>runInLoop\<close>.\<close>

definition runs_down :: "(fid \<Rightarrow> loop_act list) \<Rightarrow> bool" where
  "runs_down body \<longleftrightarrow> (\<forall>f g. Run g \<in> set (body f) \<longrightarrow> g < f)"

lemma own_step_reach:
  assumes "loop_reach body s" and "prompt_step body s s'"
  shows "loop_reach body s'"
proof -
  have "own_step body (if lp_pc s = L_poll then [Wake] else []) s = Some s'"
    using assms(2) by (auto simp: prompt_step_def own_step.simps split: loop_pc.splits)
  moreover have "poll_may_return s (if lp_pc s = L_poll then [Wake] else [])"
    using assms(2) by (simp add: prompt_step_def poll_may_return_def)
  ultimately show ?thesis using assms(1) loop_reach.step loop_step.own by blast
qed

lemma prompt_run_reach: "prompt_run body s s' \<Longrightarrow> loop_reach body s \<Longrightarrow> loop_reach body s'"
  by (induction rule: rtranclp_induct) (auto intro: own_step_reach)

lemma acts_run:
  assumes down: "runs_down body"
  shows "\<lbrakk>lp_pc s = L_run (as @ rest) fs; \<And>g. Run g \<in> set as \<Longrightarrow> g < k\<rbrakk> \<Longrightarrow>
    \<exists>s'. prompt_run body s s' \<and> lp_pc s' = L_run rest fs \<and> lp_ran s' = lp_ran s"
proof (induction k arbitrary: as rest s rule: less_induct)
  case (less k)
  from less.prems show ?case
  proof (induction as arbitrary: s)
    case Nil
    then show ?case by auto
  next
    case (Cons a as)
    obtain as1 s1 where act: "do_act body a (as @ rest) s = (as1, s1)" by fastforce
    let ?s1 = "s1\<lparr>lp_pc := L_run as1 fs\<rparr>"
    have st: "prompt_step body s ?s1"
      using Cons.prems(1) act by (simp add: prompt_step_def own_step.simps)
    have ran: "lp_ran ?s1 = lp_ran s" using do_act_effect [OF act] by simp
    have "\<exists>s2. prompt_run body ?s1 s2 \<and> lp_pc s2 = L_run (as @ rest) fs \<and> lp_ran s2 = lp_ran s"
    proof (cases a)
      case (Run g)
      then have "as1 = body g @ as @ rest" "g < k"
        using act Cons.prems(2) by (auto simp: runInLoop_def)
      then show ?thesis
        using less.IH [of g ?s1 "body g" "as @ rest"] ran down by (auto simp: runs_down_def)
    qed (use act ran in auto)
    then obtain s2 where "prompt_run body ?s1 s2" "lp_pc s2 = L_run (as @ rest) fs" "lp_ran s2 = lp_ran s"
      by blast
    with Cons.IH [of s2] Cons.prems(2) st show ?case
      by (metis (no_types, lifting) converse_rtranclp_into_rtranclp list.set_intros(2) rtranclp_trans)
  qed
qed

lemma functors_run:
  assumes down: "runs_down body"
  shows "lp_pc s = L_run [] fs \<Longrightarrow>
    \<exists>s'. prompt_run body s s' \<and> lp_pc s' = L_run [] [] \<and> lp_ran s' = lp_ran s @ fs"
proof (induction fs arbitrary: s)
  case Nil
  then show ?case by auto
next
  case (Cons f fs)
  let ?s1 = "s\<lparr>lp_pc := L_run (body f) fs, lp_ran := lp_ran s @ [f]\<rparr>"
  have st: "prompt_step body s ?s1"
    using Cons.prems by (simp add: prompt_step_def own_step.simps)
  obtain s2 where s2: "prompt_run body ?s1 s2" "lp_pc s2 = L_run [] fs" "lp_ran s2 = lp_ran s @ [f]"
    using acts_run [OF down, of ?s1 "body f" "[]" fs f] down by (auto simp: runs_down_def)
  obtain s3 where "prompt_run body s2 s3" "lp_pc s3 = L_run [] []" "lp_ran s3 = lp_ran s @ f # fs"
    using Cons.IH [OF s2(2)] s2(3) by auto
  with st s2(1) show ?case
    by (metis (no_types, lifting) converse_rtranclp_into_rtranclp rtranclp_trans)
qed

lemma wake_drains:
  assumes down: "runs_down body" and "lp_pc s = L_poll" and "0 < lp_eventfd s"
  shows "\<exists>s'. prompt_run body s s' \<and> lp_pc s' = L_test \<and> lp_ran s' = lp_ran s @ m_pendingFunctors s"
proof -
  define s1 where "s1 = s\<lparr>lp_pc := L_events [] [Wake]\<rparr>"
  define s2 where "s2 = (loop_handleRead s1)\<lparr>lp_pc := L_events [] []\<rparr>"
  define s3 where "s3 = s2\<lparr>lp_pc := L_calling\<rparr>"
  define s4 where "s4 = s3\<lparr>m_callPendingFunctors := True, lp_pc := L_swap\<rparr>"
  define s5 where "s5 = s4\<lparr>lp_pc := L_run [] (m_pendingFunctors s4), m_pendingFunctors := [], lp_early := 0\<rparr>"
  note d = s5_def s4_def s3_def s2_def s1_def
  have "prompt_step body s s1" "prompt_step body s1 s2" "prompt_step body s2 s3" "prompt_step body s3 s4"
    "prompt_step body s4 s5"
    using assms(2,3) by (simp_all add: d prompt_step_def own_step.simps)
  then have r5: "prompt_run body s s5" by (meson converse_rtranclp_into_rtranclp rtranclp.rtrancl_refl)
  have s5: "lp_pc s5 = L_run [] (m_pendingFunctors s)" "lp_ran s5 = lp_ran s"
    by (simp_all add: d loop_handleRead_def)
  obtain s6 where s6: "prompt_run body s5 s6" "lp_pc s6 = L_run [] []" "lp_ran s6 = lp_ran s @ m_pendingFunctors s"
    using functors_run [OF down s5(1)] s5(2) by auto
  have "prompt_step body s6 (s6\<lparr>m_callPendingFunctors := False, lp_pc := L_test\<rparr>)"
    using s6(2) by (simp add: prompt_step_def own_step.simps)
  with r5 s6 have "prompt_run body s (s6\<lparr>m_callPendingFunctors := False, lp_pc := L_test\<rparr>)" by simp
  then show ?thesis using s6(3) by (intro exI [of _ "s6\<lparr>m_callPendingFunctors := False, lp_pc := L_test\<rparr>"]) simp
qed

text \<open>
  C3. Under every interleaving of the loop thread with threads that queue functors or ask it to
  quit, functors run in the order in which they were queued, each once and none invented: those
  that ran, those of the batch being run and those still pending are, in this order, the functors
  queued, to which \<^verbatim>\<open>queueInLoop\<close> adds the one it is given. And no wakeup is lost but for those of
  the initial callback: whenever the loop stands before \<^verbatim>\<open>poll\<close> with a functor pending that was
  not queued by its own thread before \<^verbatim>\<open>loop()\<close>, the eventfd is readable, or a thread that has
  queued one is about to write it. The exception ends with the first batch of functors run.
\<close>

theorem loop_fifo_no_lost_wakeup:
  assumes "loop_reach body s"
  shows "lp_queued s = lp_ran s @ left_to_run (lp_pc s) @ m_pendingFunctors s \<and>
    (lp_pc s = L_poll \<and> lp_early s < length (m_pendingFunctors s) \<longrightarrow> 0 < lp_eventfd s \<or> lp_mid s \<noteq> {}) \<and>
    (lp_ran s \<noteq> [] \<longrightarrow> lp_early s = 0) \<and>
    (\<forall>inLoop f. m_pendingFunctors (queueInLoop inLoop f s) = m_pendingFunctors s @ [f] \<and>
       lp_queued (queueInLoop inLoop f s) = lp_queued s @ [f])"
  using loop_reach_inv [OF assms] by (auto simp: loop_inv_def queueInLoop_def queue_push_def queue_signal_def)

text \<open>
  C6. Pending functors are run promptly: once the threads that queued them have left
  \<^verbatim>\<open>queueInLoop\<close>, a loop that stands before \<^verbatim>\<open>poll\<close> with a functor pending that its own thread did
  not queue before \<^verbatim>\<open>loop()\<close> gets through the poll without a timeout or any other traffic and runs
  every functor queued so far, in order, before it polls again, whatever these functors queue
  meanwhile.
\<close>

theorem queued_functors_run:
  assumes "loop_reach body s" and "lp_pc s = L_poll" and "lp_mid s = {}"
    and "lp_early s < length (m_pendingFunctors s)" and "runs_down body"
  shows "\<exists>s'. prompt_run body s s' \<and> loop_reach body s' \<and> lp_pc s' = L_test \<and> lp_ran s' = lp_queued s"
proof -
  have inv: "lp_queued s = lp_ran s @ m_pendingFunctors s" "0 < lp_eventfd s"
    using loop_reach_inv [OF assms(1)] assms(2-4) by (auto simp: loop_inv_def)
  with wake_drains [OF assms(5,2)] obtain s' where "prompt_run body s s'" "lp_pc s' = L_test" "lp_ran s' = lp_queued s"
    by auto
  with prompt_run_reach [OF _ assms(1)] show ?thesis by blast
qed

text \<open>Three states of a concrete run: at \<^verbatim>\<open>poll\<close>, after another thread queued, after a foreign quit.\<close>

definition at_poll :: EventLoop where
  "at_poll = EventLoop_new\<lparr>m_loop := True, lp_pc := L_poll\<rparr>"

definition at_poll_queued :: EventLoop where
  "at_poll_queued = at_poll\<lparr>m_pendingFunctors := [7], lp_queued := [7], lp_eventfd := 1\<rparr>"

text \<open>From \<^verbatim>\<open>loop()\<close> to the first poll.\<close>

lemma first_poll:
  assumes "loop_reach body s" and "lp_pc s = L_init []"
  shows "loop_reach body (s\<lparr>m_loop := True, m_quit := False, lp_pc := L_poll\<rparr>)"
proof -
  define s0 where "s0 = s\<lparr>lp_pc := L_begin\<rparr>"
  define s1 where "s1 = s\<lparr>m_loop := True, lp_pc := L_reset\<rparr>"
  define s2 where "s2 = s\<lparr>m_loop := True, m_quit := False, lp_pc := L_test\<rparr>"
  have "prompt_step body s s0" "prompt_step body s0 s1" "prompt_step body s1 s2"
    "prompt_step body s2 (s\<lparr>m_loop := True, m_quit := False, lp_pc := L_poll\<rparr>)"
    using assms(2) by (simp_all add: prompt_step_def own_step.simps s0_def s1_def s2_def)
  then show ?thesis using own_step_reach assms(1) by metis
qed

lemma new_reach: "loop_reach body EventLoop_new"
proof -
  have "prompt_step body (loop_start []) EventLoop_new"
    by (simp add: prompt_step_def own_step.simps loop_start_def EventLoop_new_def)
  then show ?thesis using own_step_reach loop_reach.init by metis
qed

lemma at_poll_reach: "loop_reach body at_poll"
  using first_poll [OF loop_reach.init, of "[]" body]
  by (simp add: loop_start_def at_poll_def EventLoop_new_def)

text \<open>
  The initial callback that queues a functor on its own loop is not followed by a wakeup: the
  thread is the loop's and runs no functors yet, so \<^verbatim>\<open>queueInLoop\<close> does not write the eventfd. The
  loop is then left before its first \<^verbatim>\<open>poll\<close> with the functor pending and nothing that makes the
  poll return.
\<close>

theorem init_functor_waits:
  "\<exists>s. loop_reach body s \<and> lp_pc s = L_poll \<and> m_pendingFunctors s = [f] \<and> lp_early s = 1 \<and>
     lp_eventfd s = 0 \<and> lp_mid s = {} \<and> (\<nexists>s'. prompt_step body s s')"
proof -
  let ?s = "EventLoop_new\<lparr>m_pendingFunctors := [f], lp_queued := [f], lp_early := 1, lp_pc := L_init []\<rparr>"
  have "prompt_step body (loop_start [Queue f]) ?s"
    by (simp add: prompt_step_def own_step.simps loop_start_def EventLoop_new_def queueInLoop_def
        queue_push_def queue_signal_def)
  then have "loop_reach body ?s" using own_step_reach loop_reach.init by metis
  from first_poll [OF this] show ?thesis
    by (intro exI [of _ "?s\<lparr>m_loop := True, m_quit := False, lp_pc := L_poll\<rparr>"])
       (simp add: EventLoop_new_def prompt_step_def)
qed

lemma at_poll_queued_reach: "loop_reach body at_poll_queued"
proof -
  have "loop_reach body ((queue_push 7 at_poll)\<lparr>lp_mid := {1}\<rparr>)" (is "loop_reach body ?s")
    using loop_reach.step [OF at_poll_reach loop_step.push [of 1 at_poll body 7]]
    by (simp add: at_poll_def EventLoop_new_def queue_push_def)
  from loop_reach.step [OF this loop_step.signal [of 1]] show ?thesis
    by (simp add: at_poll_def EventLoop_new_def queue_push_def queue_signal_def loop_wakeup_def at_poll_queued_def)
qed

theorem loop_fifo_no_lost_wakeup_witness:
  "lp_queued at_poll_queued = lp_ran at_poll_queued @ m_pendingFunctors at_poll_queued \<and> 0 < lp_eventfd at_poll_queued"
  using loop_fifo_no_lost_wakeup [OF at_poll_queued_reach [of "\<lambda>_. []"]]
  by (simp add: at_poll_queued_def at_poll_def EventLoop_new_def)

definition sample_body :: "fid \<Rightarrow> loop_act list" where
  "sample_body f = (if f = 7 then [Run 3, Queue 7, Quit] else [])"

theorem queued_functors_run_witness:
  "\<exists>s'. prompt_run sample_body at_poll_queued s' \<and> loop_reach sample_body s' \<and> lp_pc s' = L_test \<and> lp_ran s' = [7]"
  using queued_functors_run [OF at_poll_queued_reach [of sample_body]]
  by (simp add: at_poll_queued_def at_poll_def EventLoop_new_def runs_down_def sample_body_def)

text \<open>
  \<^verbatim>\<open>quit()\<close> wakes the loop in the wrong case. It writes the eventfd when the caller is the loop
  thread, which is not blocked, and not when the caller is another thread: then the loop can be
  left before \<^verbatim>\<open>poll\<close> with the quit flag set, nothing pending and nothing that makes the poll
  return. A quit that comes before \<^verbatim>\<open>loop()\<close> resets the flag is forgotten.
\<close>

theorem quit_without_wakeup:
  "(\<exists>s. loop_reach body s \<and> lp_pc s = L_poll \<and> m_quit s \<and> lp_mid s = {} \<and> (\<nexists>s'. prompt_step body s s')) \<and>
   (\<exists>s s'. loop_reach body s \<and> m_quit s \<and> own_step body [] s = Some s' \<and> loop_reach body s' \<and> \<not> m_quit s')"
proof
  have "loop_reach body (loop_quit False at_poll)"
    using loop_reach.step [OF at_poll_reach loop_step.quit] .
  then show "\<exists>s. loop_reach body s \<and> lp_pc s = L_poll \<and> m_quit s \<and> lp_mid s = {} \<and> (\<nexists>s'. prompt_step body s s')"
    by (intro exI [of _ "loop_quit False at_poll"])
       (simp add: loop_quit_def at_poll_def EventLoop_new_def prompt_step_def)
next
  let ?s1 = "EventLoop_new\<lparr>m_loop := True, lp_pc := L_reset\<rparr>"
  have "prompt_step body EventLoop_new ?s1"
    by (simp add: prompt_step_def own_step.simps EventLoop_new_def)
  then have r1: "loop_reach body (loop_quit False ?s1)"
    using own_step_reach [OF new_reach] loop_reach.step loop_step.quit by blast
  let ?s = "loop_quit False ?s1"
  have st: "own_step body [] ?s = Some (?s\<lparr>m_quit := False, lp_pc := L_test\<rparr>)"
    by (simp add: own_step.simps loop_quit_def EventLoop_new_def)
  have "loop_reach body (?s\<lparr>m_quit := False, lp_pc := L_test\<rparr>)"
    by (rule loop_reach.step [OF r1 loop_step.own [OF _ st]]) (simp add: poll_may_return_def)
  with r1 st show "\<exists>s s'. loop_reach body s \<and> m_quit s \<and> own_step body [] s = Some s' \<and>
      loop_reach body s' \<and> \<not> m_quit s'"
    by (intro exI [of _ ?s] exI [of _ "?s\<lparr>m_quit := False, lp_pc := L_test\<rparr>"]) (simp add: loop_quit_def)
qed

section \<open>CurrentThread and MyThread\<close>

text \<open>\<open>gettid\<close> is the system call; the cached value is thread-local.\<close>

definition cacheTid :: "int \<Rightarrow> int \<Rightarrow> int" where
  "cacheTid gettid cached = (if cached = 0 then gettid else cached)"

definition current_tid :: "int \<Rightarrow> int \<Rightarrow> int \<times> int" where
  "current_tid gettid cached =
     (let c = (if cached = 0 then cacheTid gettid cached else cached) in (c, c))"

lemma current_tid_stable: "gettid \<noteq> 0 \<Longrightarrow> current_tid g' (snd (current_tid gettid 0)) = (gettid, gettid)"
  by (simp add: current_tid_def cacheTid_def)

record MyThread =
  mt_startd :: bool
  mt_joined :: bool
  mt_tid :: int
  mt_name :: string
  mt_thread :: "bool option"   \<comment> \<open>the std::thread, if created, and whether it is joinable\<close>

definition inc32 :: "int \<Rightarrow> int" where
  "inc32 n = (if n = 2 ^ 31 - 1 then - (2 ^ 31) else n + 1)"

definition setDefaultName :: "int \<Rightarrow> MyThread \<Rightarrow> int \<times> MyThread" where
  "setDefaultName created th =
     (let num = inc32 created in
      (num, if mt_name th = [] then th\<lparr>mt_name := take 31 (''Thread-'' @ fmt_d num)\<rparr> else th))"

definition MyThread_new :: "int \<Rightarrow> string \<Rightarrow> int \<times> MyThread" where
  "MyThread_new created name =
     setDefaultName created \<lparr>mt_startd = False, mt_joined = False, mt_tid = 0, mt_name = name, mt_thread = None\<rparr>"

text \<open>\<^verbatim>\<open>start\<close> returns after the new thread has stored its id: the semaphore orders the two.\<close>

definition MyThread_start :: "int \<Rightarrow> MyThread \<Rightarrow> MyThread" where
  "MyThread_start newtid th = th\<lparr>mt_startd := True, mt_thread := Some True, mt_tid := newtid\<rparr>"

definition MyThread_join :: "MyThread \<Rightarrow> MyThread option" where
  "MyThread_join th =
     (if mt_thread th = Some True then Some (th\<lparr>mt_joined := True, mt_thread := Some False\<rparr>) else None)"

text \<open>The destructor; destroying a \<^verbatim>\<open>std::thread\<close> that is still joinable terminates the program.\<close>

definition MyThread_destroy :: "MyThread \<Rightarrow> unit option" where
  "MyThread_destroy th =
     (let th' = (if mt_startd th \<and> \<not> mt_joined th then th\<lparr>mt_thread := Some False\<rparr> else th) in
      if mt_thread th' = Some True then None else Some ())"

lemma MyThread_lifecycle:
  assumes "snd (MyThread_new n name) = th"
  shows "MyThread_destroy th = Some ()" and "MyThread_destroy (MyThread_start t th) = Some ()"
    and "\<exists>th'. MyThread_join (MyThread_start t th) = Some th' \<and> MyThread_destroy th' = Some ()"
  using assms by (cases "name = []"; auto simp: MyThread_new_def setDefaultName_def Let_def MyThread_destroy_def
      MyThread_start_def MyThread_join_def)+

section \<open>EventLoopThread\<close>

text \<open>
  \<^verbatim>\<open>startLoop\<close> and \<^verbatim>\<open>threadFunc\<close> meet at a condition variable. \<open>St_wait\<close> is the starter inside
  \<^verbatim>\<open>m_cond.wait\<close>, which has given up the mutex; a notification, or a spurious wakeup, takes it
  back to the test of the \<^verbatim>\<open>while\<close>. Each step below is one critical section.
\<close>

datatype starter = St_test | St_wait | St_done nat
datatype worker = Th_create | Th_init | Th_publish | Th_loop | Th_end

record EventLoopThread =
  elt_loop :: "nat option"
  elt_starter :: starter
  elt_worker :: worker

definition EventLoopThread_new :: EventLoopThread where
  "EventLoopThread_new = \<lparr>elt_loop = None, elt_starter = St_test, elt_worker = Th_create\<rparr>"

definition notify_one :: "starter \<Rightarrow> starter" where
  "notify_one st = (if st = St_wait then St_test else st)"

inductive elt_step :: "bool \<Rightarrow> nat \<Rightarrow> EventLoopThread \<Rightarrow> EventLoopThread \<Rightarrow> bool" for has_cb l where
  test_null: "elt_starter e = St_test \<Longrightarrow> elt_loop e = None \<Longrightarrow>
     elt_step has_cb l e (e\<lparr>elt_starter := St_wait\<rparr>)"
| test_loop: "elt_starter e = St_test \<Longrightarrow> elt_loop e = Some p \<Longrightarrow>
     elt_step has_cb l e (e\<lparr>elt_starter := St_done p\<rparr>)"
| spurious: "elt_starter e = St_wait \<Longrightarrow> elt_step has_cb l e (e\<lparr>elt_starter := St_test\<rparr>)"
| create: "elt_worker e = Th_create \<Longrightarrow>
     elt_step has_cb l e (e\<lparr>elt_worker := if has_cb then Th_init else Th_publish\<rparr>)"
| init_cb: "elt_worker e = Th_init \<Longrightarrow> elt_step has_cb l e (e\<lparr>elt_worker := Th_publish\<rparr>)"
| publish: "elt_worker e = Th_publish \<Longrightarrow>
     elt_step has_cb l e (e\<lparr>elt_loop := Some l, elt_starter := notify_one (elt_starter e), elt_worker := Th_loop\<rparr>)"
| ended: "elt_worker e = Th_loop \<Longrightarrow>
     elt_step has_cb l e (e\<lparr>elt_loop := None, elt_worker := Th_end\<rparr>)"

inductive elt_reach :: "bool \<Rightarrow> nat \<Rightarrow> EventLoopThread \<Rightarrow> bool" for has_cb l where
  elt_init: "elt_reach has_cb l EventLoopThread_new"
| elt_next: "elt_reach has_cb l e \<Longrightarrow> elt_step has_cb l e e' \<Longrightarrow> elt_reach has_cb l e'"

lemma elt_reach_inv:
  "elt_reach has_cb l e \<Longrightarrow>
     (elt_loop e = (if elt_worker e = Th_loop then Some l else None)) \<and>
     (elt_worker e = Th_loop \<longrightarrow> elt_starter e \<noteq> St_wait) \<and>
     (\<forall>p. elt_starter e = St_done p \<longrightarrow> p = l \<and> elt_worker e \<in> {Th_loop, Th_end})"
proof (induction rule: elt_reach.induct)
  case (elt_next e e')
  from elt_next(2,1,3) show ?case
    by (induction rule: elt_step.induct) (auto simp: notify_one_def split: if_splits)
qed (simp add: EventLoopThread_new_def)

text \<open>
  C12. The handshake of \<^verbatim>\<open>startLoop\<close> loses no notification, spurious wakeups included: a starter that
  has returned holds the loop of the new thread, published before; and while the loop runs the
  starter is never asleep, so its next test succeeds. It sleeps only before the publication, or
  after a loop that ended before the starter looked.
\<close>

theorem startLoop_handshake:
  assumes "elt_reach has_cb l e"
  shows "(\<forall>p. elt_starter e = St_done p \<longrightarrow> p = l \<and> elt_worker e \<in> {Th_loop, Th_end}) \<and>
    (elt_worker e = Th_loop \<longrightarrow> elt_starter e = St_done l \<or>
       (elt_starter e = St_test \<and> elt_step has_cb l e (e\<lparr>elt_starter := St_done l\<rparr>))) \<and>
    (elt_starter e = St_wait \<longrightarrow> elt_worker e \<in> {Th_create, Th_init, Th_publish, Th_end})"
proof (cases "elt_worker e = Th_loop")
  case True
  then show ?thesis using elt_reach_inv [OF assms] elt_step.test_loop [of e l has_cb l]
    by (cases "elt_starter e") auto
next
  case False
  then show ?thesis using elt_reach_inv [OF assms] by (cases "elt_worker e") auto
qed

theorem startLoop_handshake_witness:
  "elt_worker (EventLoopThread_new\<lparr>elt_starter := St_wait\<rparr>) \<in> {Th_create, Th_init, Th_publish, Th_end}"
proof -
  have "elt_reach False 9 (EventLoopThread_new\<lparr>elt_starter := St_wait\<rparr>)"
    by (rule elt_reach.elt_next [OF elt_reach.elt_init elt_step.test_null])
       (simp_all add: EventLoopThread_new_def)
  from startLoop_handshake [OF this] show ?thesis by simp
qed

section \<open>EventLoopThreadPool\<close>

type_synonym loop_ptr = nat

record EventLoopThreadPool =
  pool_loop :: loop_ptr
  pool_name :: string
  pool_started :: bool
  pool_numThreads :: int
  pool_next :: nat
  pool_threads :: "string list"   \<comment> \<open>the names the threads were created with\<close>
  pool_loops :: "loop_ptr list"

definition EventLoopThreadPool_new :: "loop_ptr \<Rightarrow> string \<Rightarrow> EventLoopThreadPool" where
  "EventLoopThreadPool_new baseLoop name = \<lparr>pool_loop = baseLoop, pool_name = name, pool_started = False,
     pool_numThreads = 0, pool_next = 0, pool_threads = [], pool_loops = []\<rparr>"

definition setThreadNum :: "int \<Rightarrow> EventLoopThreadPool \<Rightarrow> EventLoopThreadPool" where
  "setThreadNum n p = p\<lparr>pool_numThreads := n\<rparr>"

text \<open>\<^verbatim>\<open>snprintf\<close> into a buffer of the name's length and 32.\<close>

definition thread_name :: "string \<Rightarrow> nat \<Rightarrow> string" where
  "thread_name name i = take (length name + 31) (name @ ''_'' @ fmt_d (int i))"

text \<open>
  \<^verbatim>\<open>start\<close>: \<open>startLoop i\<close> is what the \<open>i\<close>-th thread's \<^verbatim>\<open>startLoop()\<close> returns. The second
  result lists the loops on which the initial callback runs in the caller's thread.
\<close>

definition pool_start ::
    "bool \<Rightarrow> (nat \<Rightarrow> loop_ptr) \<Rightarrow> EventLoopThreadPool \<Rightarrow> EventLoopThreadPool \<times> loop_ptr list" where
  "pool_start has_cb startLoop p =
     (let n = nat (pool_numThreads p);
          p1 = p\<lparr>pool_started := True,
                 pool_threads := pool_threads p @ map (thread_name (pool_name p)) [0..<n],
                 pool_loops := pool_loops p @ map startLoop [0..<n]\<rparr> in
      (p1, if pool_numThreads p = 0 \<and> has_cb then [pool_loop p] else []))"

definition getNextLoop :: "EventLoopThreadPool \<Rightarrow> (loop_ptr \<times> EventLoopThreadPool) option" where
  "getNextLoop p =
     (if pool_loops p \<noteq> [] then
        (if pool_next p < length (pool_loops p) then
           (let loop = pool_loops p ! pool_next p;
                next = uadd (pool_next p) 1 in
            Some (loop, p\<lparr>pool_next := if next \<ge> length (pool_loops p) then 0 else next\<rparr>))
         else None)
      else Some (pool_loop p, p))"

definition getAllLoops :: "EventLoopThreadPool \<Rightarrow> loop_ptr list" where
  "getAllLoops p = (if pool_loops p = [] then [pool_loop p] else pool_loops p)"

fun take_loops :: "nat \<Rightarrow> EventLoopThreadPool \<Rightarrow> (loop_ptr list \<times> EventLoopThreadPool) option" where
  "take_loops 0 p = Some ([], p)"
| "take_loops (Suc n) p = do {
     (l, p1) \<leftarrow> getNextLoop p;
     (ls, p2) \<leftarrow> take_loops n p1;
     Some (l # ls, p2) }"

lemma thread_name_full: "i < 10 ^ 29 \<Longrightarrow> thread_name name i = name @ ''_'' @ dec_nat i"
  using length_dec_nat [of 29 i] by (simp add: thread_name_def fmt_d_def)

lemma getAllLoops_next [simp]: "getAllLoops (p\<lparr>pool_next := x\<rparr>) = getAllLoops p"
  by (simp add: getAllLoops_def)

lemma getNextLoop_index:
  assumes "pool_next p < length (getAllLoops p)" and "length (getAllLoops p) < 2 ^ 64"
  shows "getNextLoop p = Some (getAllLoops p ! pool_next p,
    p\<lparr>pool_next := (pool_next p + 1) mod length (getAllLoops p)\<rparr>)"
proof (cases "Suc (pool_next p) = length (getAllLoops p)")
  case True
  then show ?thesis using assms by (auto simp: getNextLoop_def getAllLoops_def Let_def split: if_splits)
next
  case False
  then show ?thesis using assms by (auto simp: getNextLoop_def getAllLoops_def Let_def split: if_splits)
qed

lemma take_loops_index:
  assumes "pool_next p < length (getAllLoops p)" and "length (getAllLoops p) < 2 ^ 64"
  shows "take_loops n p = Some (map (\<lambda>i. getAllLoops p ! ((pool_next p + i) mod length (getAllLoops p))) [0..<n],
    p\<lparr>pool_next := (pool_next p + n) mod length (getAllLoops p)\<rparr>)"
  using assms
proof (induction n arbitrary: p)
  case (Suc n)
  let ?L = "length (getAllLoops p)"
  let ?p1 = "p\<lparr>pool_next := (pool_next p + 1) mod ?L\<rparr>"
  have pos: "0 < ?L" using Suc.prems by linarith
  have IH: "take_loops n ?p1 =
    Some (map (\<lambda>i. getAllLoops p ! ((pool_next p + Suc i) mod ?L)) [0..<n],
      p\<lparr>pool_next := (pool_next p + Suc n) mod ?L\<rparr>)"
    using Suc.IH [of ?p1] Suc.prems pos by (simp add: mod_simps)
  show ?case
    using getNextLoop_index [OF Suc.prems] IH Suc.prems(1)
    by (simp add: upt_conv_Cons map_Suc_upt [symmetric] comp_def del: upt_Suc)
qed simp

text \<open>
  The pool hands out its loops in rotation, the base loop when it has none: successive calls of
  \<^verbatim>\<open>getNextLoop\<close> return consecutive loops modulo their number, never index out of range, and a
  whole round gives each loop exactly once.
\<close>

theorem getNextLoop_round_robin:
  assumes "pool_next p < length (getAllLoops p)" and "length (getAllLoops p) < 2 ^ 64"
  shows "\<exists>ls p'. take_loops n p = Some (ls, p') \<and> length ls = n \<and>
    (\<forall>i<n. ls ! i = getAllLoops p ! ((pool_next p + i) mod length (getAllLoops p))) \<and>
    pool_next p' < length (getAllLoops p') \<and>
    (n = length (getAllLoops p) \<longrightarrow> mset ls = mset (getAllLoops p))"
proof -
  let ?L = "length (getAllLoops p)"
  have round: "map (\<lambda>i. getAllLoops p ! ((pool_next p + i) mod ?L)) [0..<?L] = rotate (pool_next p) (getAllLoops p)"
    by (rule nth_equalityI) (simp_all add: nth_rotate)
  have "mset (rotate (pool_next p) (getAllLoops p)) = mset (getAllLoops p)"
    by (metis append_take_drop_id mset_append rotate_drop_take union_commute)
  moreover have "(pool_next p + n) mod ?L < ?L" using assms(1) by (intro mod_less_divisor) linarith
  ultimately show ?thesis using round take_loops_index [OF assms, of n] by auto
qed

theorem getNextLoop_round_robin_witness:
  "\<exists>ls p'. take_loops 3 (fst (pool_start True (\<lambda>i. 100 + i) (setThreadNum 3 (EventLoopThreadPool_new 7 ''io'')))) = Some (ls, p') \<and>
     mset ls = {#100, 101, 102#}"
  using getNextLoop_round_robin [of "fst (pool_start True (\<lambda>i. 100 + i) (setThreadNum 3 (EventLoopThreadPool_new 7 ''io'')))" 3]
  by (auto simp: pool_start_def setThreadNum_def EventLoopThreadPool_new_def getAllLoops_def Let_def upt_rec)

end
