(* ===== verification/Tcp_Server.thy ===== *)
theory Tcp_Server
  imports Event_Loop Tcp_Connection
begin

text \<open>
  Addresses, listening and the table of connections (\<^verbatim>\<open>myserver/net/inet_address.cpp\<close>,
  \<^verbatim>\<open>myserver/net/mysocket.cpp\<close>, \<^verbatim>\<open>myserver/net/acceptor.cpp\<close>,
  \<^verbatim>\<open>myserver/net/tcp_server.cpp\<close>). What a socket is asked to do is a trace of calls. A
  connection object is a number; the functors the server hands to the loops are a trace as well.
  \<open>None\<close> is \<^verbatim>\<open>LOG_FATAL\<close>, which aborts, or a signed overflow.
\<close>

unbundle bit_operations_syntax

section \<open>InetAddress\<close>

text \<open>The port as it lies in memory, and the four address bytes in network order.\<close>

record sockaddr_in =
  sin_family :: nat
  sin_port :: "16 word"
  sin_addr :: "nat list"

definition AF_INET :: nat where "AF_INET = 2"

definition swap16 :: "16 word \<Rightarrow> 16 word" where
  "swap16 w = push_bit 8 w OR drop_bit 8 w"

abbreviation htons :: "16 word \<Rightarrow> 16 word" where "htons \<equiv> swap16"
abbreviation ntohs :: "16 word \<Rightarrow> 16 word" where "ntohs \<equiv> swap16"

definition INADDR_ANY :: "nat list" where "INADDR_ANY = [0, 0, 0, 0]"

definition InetAddress_new :: "16 word \<Rightarrow> string \<Rightarrow> sockaddr_in" where
  "InetAddress_new port ip = \<lparr>sin_family = AF_INET, sin_port = htons port, sin_addr = INADDR_ANY\<rparr>"

text \<open>\<^verbatim>\<open>inet_ntop\<close> for \<^verbatim>\<open>AF_INET\<close>: dotted decimal.\<close>

fun dotted :: "nat list \<Rightarrow> string" where
  "dotted [] = []"
| "dotted [a] = dec_nat a"
| "dotted (a # as) = dec_nat a @ ''.'' @ dotted as"

definition toIp :: "sockaddr_in \<Rightarrow> string" where
  "toIp a = dotted (sin_addr a)"

definition toPort :: "sockaddr_in \<Rightarrow> 16 word" where
  "toPort a = ntohs (sin_port a)"

definition toIpPort :: "sockaddr_in \<Rightarrow> string" where
  "toIpPort a = dotted (sin_addr a) @ '':'' @ dec_nat (unat (ntohs (sin_port a)))"

section \<open>MySocket\<close>

datatype sock_call =
    S_setsockopt string bool
  | S_bind sockaddr_in
  | S_listen nat
  | S_accept
  | S_close int
  | S_shutdown_wr
  | S_enableRead
  | S_disableAll
  | S_remove
  | S_log string

type_synonym socket = "sock_call list"

definition bindAddress :: "bool \<Rightarrow> sockaddr_in \<Rightarrow> socket \<Rightarrow> socket option" where
  "bindAddress bind_ok localAddr s = (if \<not> bind_ok then None else Some (s @ [S_bind localAddr]))"

definition socket_listen :: "bool \<Rightarrow> socket \<Rightarrow> socket option" where
  "socket_listen listen_ok s = (if \<not> listen_ok then None else Some (s @ [S_listen 1024]))"

text \<open>\<^verbatim>\<open>accept4\<close> gives a descriptor and the peer's address, or an error number.\<close>

definition socket_accept ::
    "(int \<times> sockaddr_in) io_result \<Rightarrow> sockaddr_in \<Rightarrow> socket \<Rightarrow> int \<times> sockaddr_in \<times> socket" where
  "socket_accept acc peerAddr s =
     (case acc of Io_ok (connfd, addr) \<Rightarrow> (connfd, addr, s @ [S_accept])
      | Io_err e \<Rightarrow> (-1, peerAddr, s @ [S_accept, S_log ''accept4 failed'']))"

definition socket_shutdownWrite :: "bool \<Rightarrow> socket \<Rightarrow> socket" where
  "socket_shutdownWrite ok s = s @ [S_shutdown_wr] @ (if ok then [] else [S_log ''shutdown error''])"

definition setTcpNoDelay :: "bool \<Rightarrow> socket \<Rightarrow> socket" where
  "setTcpNoDelay on s = s @ [S_setsockopt ''TCP_NODELAY'' on]"

definition setReuseAddr :: "bool \<Rightarrow> socket \<Rightarrow> socket" where
  "setReuseAddr on s = s @ [S_setsockopt ''SO_REUSEADDR'' on]"

definition setReusePort :: "bool \<Rightarrow> socket \<Rightarrow> socket" where
  "setReusePort on s = s @ [S_setsockopt ''SO_REUSEPORT'' on]"

definition setKeepAlive :: "bool \<Rightarrow> socket \<Rightarrow> socket" where
  "setKeepAlive on s = s @ [S_setsockopt ''SO_KEEPALIVE'' on]"

section \<open>Acceptor\<close>

record Acceptor =
  ac_socket :: socket
  ac_listenning :: bool
  ac_has_cb :: bool

definition createNonBlock :: "int io_result \<Rightarrow> int option" where
  "createNonBlock sock = (case sock of Io_ok fd \<Rightarrow> Some fd | Io_err e \<Rightarrow> None)"

definition Acceptor_new :: "int io_result \<Rightarrow> bool \<Rightarrow> sockaddr_in \<Rightarrow> bool \<Rightarrow> Acceptor option" where
  "Acceptor_new sock bind_ok listenAddr reusePort = do {
     fd \<leftarrow> createNonBlock sock;
     s \<leftarrow> bindAddress bind_ok listenAddr (setReusePort True (setReuseAddr reusePort []));
     Some \<lparr>ac_socket = s, ac_listenning = False, ac_has_cb = False\<rparr> }"

definition Acceptor_destroy :: "Acceptor \<Rightarrow> socket" where
  "Acceptor_destroy a = ac_socket a @ [S_disableAll, S_remove]"

definition Acceptor_listen :: "bool \<Rightarrow> Acceptor \<Rightarrow> Acceptor option" where
  "Acceptor_listen listen_ok a = do {
     s \<leftarrow> socket_listen listen_ok (ac_socket a);
     Some (a\<lparr>ac_listenning := True, ac_socket := s @ [S_enableRead]\<rparr>) }"

definition EMFILE :: int where "EMFILE = 24"

text \<open>
  \<^verbatim>\<open>handleRead\<close>: the second result is the call of the new-connection callback. \<open>errno\<close> after
  the failing accept is what the kernel left.
\<close>

definition Acceptor_handleRead ::
    "(int \<times> sockaddr_in) io_result \<Rightarrow> Acceptor \<Rightarrow> Acceptor \<times> (int \<times> sockaddr_in) option" where
  "Acceptor_handleRead acc a =
     (let peerAddr = InetAddress_new 0 ''127.0.0.1'';
          (connfd, addr, s) = socket_accept acc peerAddr (ac_socket a) in
      if connfd \<ge> 0 then
        (if ac_has_cb a then (a\<lparr>ac_socket := s\<rparr>, Some (connfd, addr))
         else (a\<lparr>ac_socket := s @ [S_log ''no newConnectionCallback function'', S_close connfd]\<rparr>, None))
      else
        (a\<lparr>ac_socket := s @ [S_log ''accept() failed''] @
             (case acc of Io_err e \<Rightarrow> if e = EMFILE then [S_log ''sockfd reached limit''] else [] | Io_ok _ \<Rightarrow> [])\<rparr>,
         None))"

section \<open>TcpServer\<close>

text \<open>A connection object of the server: its name, its descriptor, the loop it lives on.\<close>

record server_conn =
  sc_name :: string
  sc_fd :: int
  sc_loop :: loop_ptr

datatype loop_call =
    Run_listen loop_ptr
  | Run_established loop_ptr server_conn
  | Run_removeInLoop loop_ptr server_conn
  | Queue_destroyed loop_ptr server_conn
  | Run_destroyed loop_ptr server_conn

datatype Option = kNoReusePort | kReusePort

record TcpServer =
  ts_loop :: loop_ptr
  ts_ipPort :: string
  ts_name :: string
  ts_acceptor :: Acceptor
  ts_threadPool :: EventLoopThreadPool
  ts_started :: int
  ts_nextConnId :: int
  ts_connections :: "string \<rightharpoonup> server_conn"
  ts_calls :: "loop_call list"

definition TcpServer_new ::
    "int io_result \<Rightarrow> bool \<Rightarrow> loop_ptr \<Rightarrow> sockaddr_in \<Rightarrow> string \<Rightarrow> Option \<Rightarrow> TcpServer option" where
  "TcpServer_new sock bind_ok loop listenAddr name opt = do {
     a \<leftarrow> Acceptor_new sock bind_ok listenAddr (opt = kReusePort);
     Some \<lparr>ts_loop = loop, ts_ipPort = toIpPort listenAddr, ts_name = name, ts_acceptor = a\<lparr>ac_has_cb := True\<rparr>,
           ts_threadPool = EventLoopThreadPool_new loop name, ts_started = 0, ts_nextConnId = 1,
           ts_connections = Map.empty, ts_calls = []\<rparr> }"

definition TcpServer_setThreadNum :: "int \<Rightarrow> TcpServer \<Rightarrow> TcpServer" where
  "TcpServer_setThreadNum n s = s\<lparr>ts_threadPool := setThreadNum n (ts_threadPool s)\<rparr>"

definition TcpServer_start :: "bool \<Rightarrow> (nat \<Rightarrow> loop_ptr) \<Rightarrow> TcpServer \<Rightarrow> TcpServer" where
  "TcpServer_start has_cb startLoop s =
     (let s1 = s\<lparr>ts_started := inc32 (ts_started s)\<rparr> in
      if ts_started s = 0
      then s1\<lparr>ts_threadPool := fst (pool_start has_cb startLoop (ts_threadPool s)),
              ts_calls := ts_calls s @ [Run_listen (ts_loop s)]\<rparr>
      else s1)"

text \<open>\<^verbatim>\<open>snprintf\<close> into 64 bytes.\<close>

definition conn_name :: "string \<Rightarrow> string \<Rightarrow> int \<Rightarrow> string" where
  "conn_name name ipPort connId = name @ take 63 (''-'' @ ipPort @ ''#'' @ fmt_d connId)"

definition newConnection :: "int \<Rightarrow> TcpServer \<Rightarrow> TcpServer option" where
  "newConnection sockfd s = do {
     (ioLoop, pool) \<leftarrow> getNextLoop (ts_threadPool s);
     let connName = conn_name (ts_name s) (ts_ipPort s) (ts_nextConnId s);
     next \<leftarrow> (if ts_nextConnId s = 2 ^ 31 - 1 then None else Some (ts_nextConnId s + 1));
     let conn = \<lparr>sc_name = connName, sc_fd = sockfd, sc_loop = ioLoop\<rparr>;
     Some (s\<lparr>ts_threadPool := pool, ts_nextConnId := next,
             ts_connections := (ts_connections s)(connName \<mapsto> conn),
             ts_calls := ts_calls s @ [Run_established ioLoop conn]\<rparr>) }"

definition removeConnection :: "server_conn \<Rightarrow> TcpServer \<Rightarrow> TcpServer" where
  "removeConnection conn s = s\<lparr>ts_calls := ts_calls s @ [Run_removeInLoop (ts_loop s) conn]\<rparr>"

definition removeConnectionInLoop :: "server_conn \<Rightarrow> TcpServer \<Rightarrow> TcpServer" where
  "removeConnectionInLoop conn s =
     s\<lparr>ts_connections := (ts_connections s)(sc_name conn := None),
       ts_calls := ts_calls s @ [Queue_destroyed (sc_loop conn) conn]\<rparr>"

text \<open>The destructor, over an enumeration \<open>ks\<close> of the keys of the table.\<close>

definition TcpServer_destroy :: "string list \<Rightarrow> TcpServer \<Rightarrow> loop_call list" where
  "TcpServer_destroy ks s =
     map (\<lambda>k. let conn = the (ts_connections s k) in Run_destroyed (sc_loop conn) conn) ks"

section \<open>Addresses\<close>

lemma swap16_swap16 [simp]: "swap16 (swap16 w) = w"
  by (rule bit_word_eqI) (auto simp: swap16_def bit_simps)

lemma length_dotted_4: "a < 256 \<Longrightarrow> b < 256 \<Longrightarrow> c < 256 \<Longrightarrow> d < 256 \<Longrightarrow> length (dotted [a, b, c, d]) \<le> 15"
proof -
  have l: "length (dec_nat n) \<le> 3" if "n < 256" for n
    using length_dec_nat [of 3 n] that by simp
  assume "a < 256" "b < 256" "c < 256" "d < 256"
  from this [THEN l] show ?thesis by simp
qed

lemma length_port: "length (dec_nat (unat (w :: 16 word))) \<le> 5"
proof -
  have "unat w < 2 ^ LENGTH(16)" by (rule unsigned_less)
  then show ?thesis by (intro length_dec_nat) simp_all
qed

text \<open>An address the kernel may hand out: four bytes.\<close>

definition addr_ok :: "sockaddr_in \<Rightarrow> bool" where
  "addr_ok a \<longleftrightarrow> length (sin_addr a) = 4 \<and> (\<forall>b\<in>set (sin_addr a). b < 256)"

lemma length_toIpPort: "addr_ok a \<Longrightarrow> length (toIpPort a) \<le> 21"
proof -
  assume ok: "addr_ok a"
  obtain p q r s where "sin_addr a = [p, q, r, s]"
    using ok by (auto simp: addr_ok_def numeral_eq_Suc length_Suc_conv)
  then have "length (dotted (sin_addr a)) \<le> 15" using ok length_dotted_4 [of p q r s] by (simp add: addr_ok_def)
  then show ?thesis using length_port [of "ntohs (sin_port a)"] by (simp add: toIpPort_def)
qed

text \<open>
  Addresses. The port of a constructed address survives the two byte-order conversions, and
  the rendered address is \<open>0.0.0.0\<close> and the port in decimal, whatever the \<^verbatim>\<open>ip\<close> argument: the
  constructor ignores it.
\<close>

theorem InetAddress_roundtrip:
  "toPort (InetAddress_new port ip) = port \<and> toIp (InetAddress_new port ip) = ''0.0.0.0'' \<and>
   toIpPort (InetAddress_new port ip) = ''0.0.0.0:'' @ dec_nat (unat port)"
proof -
  have "dotted INADDR_ANY = ''0.0.0.0''" unfolding INADDR_ANY_def by code_simp
  then show ?thesis by (simp add: InetAddress_new_def toPort_def toIp_def toIpPort_def)
qed

section \<open>The table of connections\<close>

lemma fmt_d_pos: "0 \<le> i \<Longrightarrow> fmt_d i = dec_nat (nat i)"
  by (simp add: fmt_d_def)

lemma conn_name_full:
  assumes "length ipPort \<le> 21" and "0 \<le> i" and "i < 2 ^ 31"
  shows "conn_name name ipPort i = name @ ''-'' @ ipPort @ ''#'' @ dec_nat (nat i)"
proof -
  have "length (dec_nat (nat i)) \<le> 10" using assms by (intro length_dec_nat) simp_all
  then show ?thesis using assms by (simp add: conn_name_def fmt_d_pos)
qed

lemma conn_name_inj:
  assumes "length ipPort \<le> 21" and "0 \<le> i" "i < 2 ^ 31" "0 \<le> j" "j < 2 ^ 31"
    and "conn_name name ipPort i = conn_name name ipPort j"
  shows "i = j"
proof -
  have "dec_nat (nat i) = dec_nat (nat j)" using assms by (simp add: conn_name_full)
  then show ?thesis using dec_nat_inj [of "nat i" "nat j"] assms by simp
qed

definition server_inv :: "TcpServer \<Rightarrow> bool" where
  "server_inv s \<longleftrightarrow> length (ts_ipPort s) \<le> 21 \<and> 1 \<le> ts_nextConnId s \<and> ts_nextConnId s < 2 ^ 31 \<and>
     pool_next (ts_threadPool s) < length (getAllLoops (ts_threadPool s)) \<and>
     length (getAllLoops (ts_threadPool s)) < 2 ^ 64 \<and>
     (\<forall>k conn. ts_connections s k = Some conn \<longrightarrow> sc_name conn = k \<and>
        (\<exists>i. 1 \<le> i \<and> i < ts_nextConnId s \<and> k = conn_name (ts_name s) (ts_ipPort s) i))"

definition next_conn :: "int \<Rightarrow> TcpServer \<Rightarrow> server_conn" where
  "next_conn fd s = \<lparr>sc_name = conn_name (ts_name s) (ts_ipPort s) (ts_nextConnId s), sc_fd = fd,
     sc_loop = getAllLoops (ts_threadPool s) ! pool_next (ts_threadPool s)\<rparr>"

lemma newConnection_step:
  assumes inv: "server_inv s" and room: "ts_nextConnId s < 2 ^ 31 - 1"
  shows "ts_connections s (sc_name (next_conn fd s)) = None"
    and "newConnection fd s = Some (s\<lparr>
      ts_threadPool := (ts_threadPool s)\<lparr>pool_next :=
        (pool_next (ts_threadPool s) + 1) mod length (getAllLoops (ts_threadPool s))\<rparr>,
      ts_nextConnId := ts_nextConnId s + 1,
      ts_connections := (ts_connections s)(sc_name (next_conn fd s) \<mapsto> next_conn fd s),
      ts_calls := ts_calls s @ [Run_established (sc_loop (next_conn fd s)) (next_conn fd s)]\<rparr>)"
proof -
  note I = inv [unfolded server_inv_def]
  show "ts_connections s (sc_name (next_conn fd s)) = None"
  proof (rule ccontr)
    assume "ts_connections s (sc_name (next_conn fd s)) \<noteq> None"
    then obtain i where i: "1 \<le> i" "i < ts_nextConnId s"
        "conn_name (ts_name s) (ts_ipPort s) (ts_nextConnId s) = conn_name (ts_name s) (ts_ipPort s) i"
      using I by (auto simp: next_conn_def)
    moreover have "ts_nextConnId s = i" using i I by (intro conn_name_inj [OF _ _ _ _ _ i(3)]) auto
    ultimately show False by simp
  qed
  have "getNextLoop (ts_threadPool s) = Some (sc_loop (next_conn fd s), (ts_threadPool s)\<lparr>pool_next :=
        (pool_next (ts_threadPool s) + 1) mod length (getAllLoops (ts_threadPool s))\<rparr>)"
    using getNextLoop_index [of "ts_threadPool s"] I by (simp add: next_conn_def)
  then show "newConnection fd s = Some (s\<lparr>
      ts_threadPool := (ts_threadPool s)\<lparr>pool_next :=
        (pool_next (ts_threadPool s) + 1) mod length (getAllLoops (ts_threadPool s))\<rparr>,
      ts_nextConnId := ts_nextConnId s + 1,
      ts_connections := (ts_connections s)(sc_name (next_conn fd s) \<mapsto> next_conn fd s),
      ts_calls := ts_calls s @ [Run_established (sc_loop (next_conn fd s)) (next_conn fd s)]\<rparr>)"
    using room by (simp add: newConnection_def Let_def next_conn_def)
qed

lemma newConnection_inv:
  assumes inv: "server_inv s" and room: "ts_nextConnId s < 2 ^ 31 - 1" and run: "newConnection fd s = Some s'"
  shows "server_inv s'"
proof -
  note I = inv [unfolded server_inv_def]
  have s': "ts_threadPool s' = (ts_threadPool s)\<lparr>pool_next :=
        (pool_next (ts_threadPool s) + 1) mod length (getAllLoops (ts_threadPool s))\<rparr>"
      "ts_nextConnId s' = ts_nextConnId s + 1" "ts_name s' = ts_name s" "ts_ipPort s' = ts_ipPort s"
      "ts_connections s' = (ts_connections s)(sc_name (next_conn fd s) \<mapsto> next_conn fd s)"
    using newConnection_step(2) [OF inv room, of fd] run by auto
  have pos: "0 < length (getAllLoops (ts_threadPool s))" using I by linarith
  show ?thesis
    unfolding server_inv_def
  proof (intro conjI allI impI)
    fix k conn assume k: "ts_connections s' k = Some conn"
    show "sc_name conn = k" using k I by (auto simp: s' split: if_splits)
    show "\<exists>i\<ge>1. i < ts_nextConnId s' \<and> k = conn_name (ts_name s') (ts_ipPort s') i"
    proof (cases "k = sc_name (next_conn fd s)")
      case True
      then show ?thesis using I by (intro exI [of _ "ts_nextConnId s"]) (simp add: s' next_conn_def)
    next
      case False
      then have "ts_connections s k = Some conn" using k by (simp add: s')
      then obtain i where "1 \<le> i" "i < ts_nextConnId s" "k = conn_name (ts_name s) (ts_ipPort s) i"
        using I by blast
      then show ?thesis by (intro exI [of _ i]) (simp add: s')
    qed
  qed (use I room pos in \<open>simp_all add: s'\<close>)
qed

datatype server_op = Accept int | Gone server_conn

fun server_run :: "server_op \<Rightarrow> TcpServer \<Rightarrow> TcpServer option" where
  "server_run (Accept fd) s = newConnection fd s"
| "server_run (Gone conn) s = Some (removeConnectionInLoop conn (removeConnection conn s))"

fun accepts :: "server_op list \<Rightarrow> int list" where
  "accepts [] = []"
| "accepts (Accept fd # ops) = fd # accepts ops"
| "accepts (Gone conn # ops) = accepts ops"

fun established :: "loop_call list \<Rightarrow> server_conn list" where
  "established [] = []"
| "established (Run_established l c # cs) = c # established cs"
| "established (_ # cs) = established cs"

lemma established_append [simp]: "established (xs @ ys) = established xs @ established ys"
  by (induction xs rule: established.induct) simp_all

text \<open>The connections that a list of descriptors yields, by number and loop.\<close>

definition conns_for :: "TcpServer \<Rightarrow> int list \<Rightarrow> server_conn list" where
  "conns_for s fds = map (\<lambda>i. \<lparr>sc_name = conn_name (ts_name s) (ts_ipPort s) (ts_nextConnId s + int i), sc_fd = fds ! i,
     sc_loop = getAllLoops (ts_threadPool s) !
       ((pool_next (ts_threadPool s) + i) mod length (getAllLoops (ts_threadPool s)))\<rparr>) [0..<length fds]"

lemma removed_inv: "server_inv s \<Longrightarrow> server_inv (removeConnectionInLoop conn (removeConnection conn s))"
  by (auto simp: server_inv_def removeConnectionInLoop_def removeConnection_def split: if_splits)

lemma server_runs:
  "server_inv s \<Longrightarrow> ts_nextConnId s + int (length (accepts ops)) < 2 ^ 31 \<Longrightarrow>
    \<exists>s'. foldM server_run ops s = Some s' \<and> server_inv s' \<and>
      ts_nextConnId s' = ts_nextConnId s + int (length (accepts ops)) \<and>
      established (ts_calls s') = established (ts_calls s) @ conns_for s (accepts ops)"
proof (induction ops arbitrary: s)
  case Nil
  then show ?case by (simp add: conns_for_def)
next
  case (Cons op ops)
  show ?case
  proof (cases op)
    case (Gone conn)
    let ?s = "removeConnectionInLoop conn (removeConnection conn s)"
    have same: "ts_nextConnId ?s = ts_nextConnId s" "conns_for ?s fds = conns_for s fds"
      "established (ts_calls ?s) = established (ts_calls s)" for fds
      by (simp_all add: removeConnectionInLoop_def removeConnection_def conns_for_def)
    then show ?thesis using Cons.IH [OF removed_inv [OF Cons.prems(1)], of conn] Cons.prems(2) Gone by simp
  next
    case (Accept fd)
    let ?L = "length (getAllLoops (ts_threadPool s))"
    have room: "ts_nextConnId s < 2 ^ 31 - 1" using Cons.prems(2) Accept by simp
    obtain s1 where s1: "newConnection fd s = Some s1" using newConnection_step(2) [OF Cons.prems(1) room] by blast
    have eff: "ts_nextConnId s1 = ts_nextConnId s + 1" "ts_name s1 = ts_name s" "ts_ipPort s1 = ts_ipPort s"
      "getAllLoops (ts_threadPool s1) = getAllLoops (ts_threadPool s)"
      "pool_next (ts_threadPool s1) = (pool_next (ts_threadPool s) + 1) mod ?L"
      "established (ts_calls s1) = established (ts_calls s) @ [next_conn fd s]"
      using newConnection_step(2) [OF Cons.prems(1) room, of fd] s1 by auto
    have "next_conn fd s # conns_for s1 fds = conns_for s (fd # fds)" for fds
      using Cons.prems(1)
      by (simp add: conns_for_def eff next_conn_def upt_conv_Cons map_Suc_upt [symmetric] comp_def mod_simps
          server_inv_def algebra_simps del: upt_Suc)
    then show ?thesis
      using Cons.IH [OF newConnection_inv [OF Cons.prems(1) room s1]] Cons.prems(2) Accept s1 eff by (simp add: add.assoc)
  qed
qed

lemma conns_for_distinct:
  assumes "server_inv s" and "ts_nextConnId s + int (length fds) < 2 ^ 31"
  shows "distinct (map sc_name (conns_for s fds))"
proof -
  have "inj_on (\<lambda>i. conn_name (ts_name s) (ts_ipPort s) (ts_nextConnId s + int i)) (set [0..<length fds])"
    using assms by (intro inj_onI) (auto dest!: conn_name_inj [rotated 5] simp: server_inv_def)
  then show ?thesis by (simp add: conns_for_def comp_def distinct_map)
qed

text \<open>
  C10. Accepting connections. For any sequence of accepts and removals that stays below \<open>2 ^ 31\<close>
  connections, every accept succeeds; the connections established are, in order, one per accepted
  descriptor, with pairwise different names, so that no entry of the table is overwritten by a
  later one, and they are dealt to the loops of the pool in rotation.
\<close>

theorem server_connections:
  assumes "server_inv s" and "ts_nextConnId s + int (length (accepts ops)) < 2 ^ 31"
  shows "\<exists>s' cs. foldM server_run ops s = Some s' \<and> server_inv s' \<and>
    established (ts_calls s') = established (ts_calls s) @ cs \<and> map sc_fd cs = accepts ops \<and>
    distinct (map sc_name cs) \<and>
    (\<forall>i<length cs. sc_loop (cs ! i) = getAllLoops (ts_threadPool s) !
       ((pool_next (ts_threadPool s) + i) mod length (getAllLoops (ts_threadPool s))))"
proof -
  obtain s' where "foldM server_run ops s = Some s'" "server_inv s'"
      "established (ts_calls s') = established (ts_calls s) @ conns_for s (accepts ops)"
    using server_runs [OF assms] by blast
  moreover have "map sc_fd (conns_for s (accepts ops)) = accepts ops"
    by (simp add: conns_for_def comp_def map_nth)
  moreover have "\<forall>i<length (conns_for s (accepts ops)). sc_loop (conns_for s (accepts ops) ! i) =
      getAllLoops (ts_threadPool s) ! ((pool_next (ts_threadPool s) + i) mod length (getAllLoops (ts_threadPool s)))"
    by (simp add: conns_for_def)
  ultimately show ?thesis using conns_for_distinct [OF assms] by blast
qed

lemma TcpServer_new_inv:
  assumes "TcpServer_new sock bind_ok loop addr name opt = Some s" and "addr_ok addr"
  shows "server_inv s"
  using assms length_toIpPort [of addr]
  by (auto simp: TcpServer_new_def bind_eq_Some_conv server_inv_def EventLoopThreadPool_new_def getAllLoops_def)

definition sample_server :: TcpServer where
  "sample_server = the (TcpServer_new (Io_ok 3) True 7 (InetAddress_new 8080 ''127.0.0.1'') ''http'' kNoReusePort)"

lemma sample_server_new:
  "TcpServer_new (Io_ok 3) True 7 (InetAddress_new 8080 ''127.0.0.1'') ''http'' kNoReusePort = Some sample_server"
  by (simp add: sample_server_def TcpServer_new_def Acceptor_new_def createNonBlock_def bindAddress_def)

theorem server_connections_witness:
  "\<exists>s' cs. foldM server_run [Accept 5, Accept 6] sample_server = Some s' \<and>
     established (ts_calls s') = cs \<and> map sc_fd cs = [5, 6] \<and> distinct (map sc_name cs)"
proof -
  have "server_inv sample_server"
    by (rule TcpServer_new_inv [OF sample_server_new]) (simp add: addr_ok_def InetAddress_new_def INADDR_ANY_def)
  moreover have "ts_nextConnId sample_server = 1" "ts_calls sample_server = []"
    by (simp_all add: sample_server_def TcpServer_new_def Acceptor_new_def createNonBlock_def bindAddress_def)
  ultimately show ?thesis
    using server_connections [of sample_server "[Accept 5, Accept 6]"] by auto
qed

text \<open>
  The acceptor: the option that asks for a shared port sets the address option instead, and the
  shared port is always requested.
\<close>

lemma Acceptor_new_options:
  "Acceptor_new (Io_ok fd) True addr reusePort =
     Some \<lparr>ac_socket = [S_setsockopt ''SO_REUSEADDR'' reusePort, S_setsockopt ''SO_REUSEPORT'' True, S_bind addr],
           ac_listenning = False, ac_has_cb = False\<rparr>"
  by (simp add: Acceptor_new_def createNonBlock_def bindAddress_def setReuseAddr_def setReusePort_def)

lemma TcpServer_start_once:
  "0 \<le> ts_started s \<Longrightarrow> ts_started s < 2 ^ 31 - 2 \<Longrightarrow>
     ts_calls (TcpServer_start has_cb l (TcpServer_start has_cb l s)) = ts_calls (TcpServer_start has_cb l s)"
  by (simp add: TcpServer_start_def Let_def inc32_def)

end
