(* ===== verification/Timer_Queue.thy ===== *)
theory Timer_Queue
  imports Time_Base "HOL-Library.Product_Lexorder"
begin

text \<open>
  The timer queue of an event loop (\<^verbatim>\<open>myserver/include/timer_queue.h\<close>,
  \<^verbatim>\<open>myserver/common/timer_queue.cpp\<close>). The ordered set of \<open>(expiration, Timer*)\<close>
  pairs is its strictly ascending list; timers live in a heap from addresses to timers, so that
  \<^verbatim>\<open>new\<close>, \<^verbatim>\<open>delete\<close> and the use of a freed address are visible (\<open>None\<close> is a
  dereference of a freed or never allocated timer). Clock readings come from a stream, as every
  \<^verbatim>\<open>Timestamp::now()\<close> is a new reading; the calls of \<^verbatim>\<open>timerfd_settime\<close> and
  the callbacks run are recorded. All of it happens in the loop's own thread, where
  \<^verbatim>\<open>runInLoop\<close> is a direct call.
\<close>

section \<open>State\<close>

type_synonym timer_ptr = nat
type_synonym entry = "timestamp \<times> timer_ptr"

record TimerQueue =
  m_timers :: "entry list"
  m_callingExpiredTimers :: bool
  tq_heap :: "timer_ptr \<rightharpoonup> Timer"
  tq_tick :: nat
  tq_settime :: "(int \<times> int) list"
  tq_ran :: "nat list"

text \<open>What the environment of the queue provides.\<close>

record timer_env =
  env_clock :: "nat \<Rightarrow> timestamp"
  env_rnd :: "rat \<Rightarrow> double"
  env_alloc :: "(timer_ptr \<rightharpoonup> Timer) \<Rightarrow> timer_ptr"
  env_adds :: "nat \<Rightarrow> (nat \<times> timestamp \<times> double) list"

definition UINTPTR_MAX :: nat where "UINTPTR_MAX = 2 ^ 64 - 1"

definition TimerQueue_new :: TimerQueue where
  "TimerQueue_new = \<lparr>m_timers = [], m_callingExpiredTimers = False, tq_heap = Map.empty,
     tq_tick = 0, tq_settime = [], tq_ran = []\<rparr>"

definition tq_now :: "timer_env \<Rightarrow> TimerQueue \<Rightarrow> timestamp \<times> TimerQueue" where
  "tq_now env q = (env_clock env (tq_tick q), q\<lparr>tq_tick := tq_tick q + 1\<rparr>)"

section \<open>Operations\<close>

text \<open>\<^verbatim>\<open>std::set::insert\<close> and \<^verbatim>\<open>lower_bound\<close> on the ascending list.\<close>

fun set_insert :: "entry \<Rightarrow> entry list \<Rightarrow> entry list" where
  "set_insert e [] = [e]"
| "set_insert e (x # xs) =
     (if e < x then e # x # xs else if x < e then x # set_insert e xs else x # xs)"

definition insert_timer :: "timer_ptr \<Rightarrow> TimerQueue \<Rightarrow> (bool \<times> TimerQueue) option" where
  "insert_timer timer q =
     (case tq_heap q timer of
        None \<Rightarrow> None
      | Some t \<Rightarrow>
          (let when = m_expiration t;
               earliestChanged = (case m_timers q of [] \<Rightarrow> True | e # _ \<Rightarrow> when < fst e) in
           Some (earliestChanged, q\<lparr>m_timers := set_insert (when, timer) (m_timers q)\<rparr>)))"

definition resetTimerfd :: "timer_env \<Rightarrow> timestamp \<Rightarrow> TimerQueue \<Rightarrow> TimerQueue" where
  "resetTimerfd env expiration q =
     (let (now, q1) = tq_now env q;
          microSecDiff = expiration - now;
          microSecDiff = (if microSecDiff < 100 then 100 else microSecDiff) in
      q1\<lparr>tq_settime := tq_settime q1 @
           [(c_div microSecDiff kMicroSecondsPerSecond,
             c_mod microSecDiff kMicroSecondsPerSecond * 1000)]\<rparr>)"

definition addTimerInLoop :: "timer_env \<Rightarrow> timer_ptr \<Rightarrow> TimerQueue \<Rightarrow> TimerQueue option" where
  "addTimerInLoop env timer q = do {
     (earliestChanged, q1) \<leftarrow> insert_timer timer q;
     if earliestChanged
     then (case tq_heap q1 timer of None \<Rightarrow> None | Some t \<Rightarrow> Some (resetTimerfd env (m_expiration t) q1))
     else Some q1 }"

definition addTimer :: "timer_env \<Rightarrow> nat \<times> timestamp \<times> double \<Rightarrow> TimerQueue \<Rightarrow> TimerQueue option" where
  "addTimer env args q =
     (case args of (cb, when, interval) \<Rightarrow>
        let timer = env_alloc env (tq_heap q) in
        addTimerInLoop env timer
          (q\<lparr>tq_heap := (tq_heap q)(timer \<mapsto> Timer_new cb when interval)\<rparr>))"

definition getExpired :: "timestamp \<Rightarrow> TimerQueue \<Rightarrow> entry list \<times> TimerQueue" where
  "getExpired now q =
     (let sentry = (now, UINTPTR_MAX) in
      (takeWhile (\<lambda>e. e < sentry) (m_timers q),
       q\<lparr>m_timers := dropWhile (\<lambda>e. e < sentry) (m_timers q)\<rparr>))"

text \<open>A callback may add timers; that is all it can do to the queue.\<close>

definition run_timer :: "timer_env \<Rightarrow> entry \<Rightarrow> TimerQueue \<Rightarrow> TimerQueue option" where
  "run_timer env e q =
     (case tq_heap q (snd e) of
        None \<Rightarrow> None
      | Some t \<Rightarrow> foldM (addTimer env) (env_adds env (m_callback t))
                     (q\<lparr>tq_ran := tq_ran q @ [m_callback t]\<rparr>))"

text \<open>The re-arming at the end of the loop body of \<^verbatim>\<open>reset\<close>.\<close>

definition rearm :: "timer_env \<Rightarrow> TimerQueue \<Rightarrow> TimerQueue option" where
  "rearm env q =
     (case m_timers q of
        [] \<Rightarrow> Some q
      | b # _ \<Rightarrow>
          (case tq_heap q (snd b) of
             None \<Rightarrow> None | Some t \<Rightarrow> Some (resetTimerfd env (m_expiration t) q)))"

definition reset_one :: "timer_env \<Rightarrow> entry \<Rightarrow> TimerQueue \<Rightarrow> TimerQueue option" where
  "reset_one env it q =
     (case tq_heap q (snd it) of
        None \<Rightarrow> None
      | Some t \<Rightarrow> do {
          q1 \<leftarrow> (if m_repeat t then
                  let (now, q0) = tq_now env q in
                  map_option snd (insert_timer (snd it)
                    (q0\<lparr>tq_heap := (tq_heap q0)(snd it \<mapsto> Timer_restart (env_rnd env) now t)\<rparr>))
                else Some (q\<lparr>tq_heap := (tq_heap q)(snd it := None)\<rparr>));
          rearm env q1 })"

definition reset_timers :: "timer_env \<Rightarrow> entry list \<Rightarrow> TimerQueue \<Rightarrow> TimerQueue option" where
  "reset_timers env expired q = foldM (reset_one env) expired q"

definition TimerQueue_handleRead :: "timer_env \<Rightarrow> TimerQueue \<Rightarrow> TimerQueue option" where
  "TimerQueue_handleRead env q = do {
     let (now, q0) = tq_now env q;
     let (expired, q1) = getExpired now q0;
     q2 \<leftarrow> foldM (run_timer env) expired (q1\<lparr>m_callingExpiredTimers := True\<rparr>);
     reset_timers env expired (q2\<lparr>m_callingExpiredTimers := False\<rparr>) }"

definition TimerQueue_destroy :: "TimerQueue \<Rightarrow> TimerQueue" where
  "TimerQueue_destroy q =
     q\<lparr>tq_heap := foldl (\<lambda>h e. h(snd e := None)) (tq_heap q) (m_timers q)\<rparr>"

definition runAt :: "timer_env \<Rightarrow> timestamp \<Rightarrow> nat \<Rightarrow> TimerQueue \<Rightarrow> TimerQueue option" where
  "runAt env ts cb q = addTimer env (cb, ts, 0) q"

definition runAfter :: "timer_env \<Rightarrow> double \<Rightarrow> nat \<Rightarrow> TimerQueue \<Rightarrow> TimerQueue option" where
  "runAfter env waitTime cb q =
     (let (now, q1) = tq_now env q in runAt env (addTime (env_rnd env) now waitTime) cb q1)"

definition runEvery :: "timer_env \<Rightarrow> double \<Rightarrow> nat \<Rightarrow> TimerQueue \<Rightarrow> TimerQueue option" where
  "runEvery env interval cb q =
     (let (now, q1) = tq_now env q in
      addTimer env (cb, addTime (env_rnd env) now interval, interval) q1)"

section \<open>The ordered set\<close>

lemma set_set_insert [simp]: "set (set_insert e xs) = insert e (set xs)"
  by (induction xs) auto

lemma sorted_set_insert: "sorted_wrt (<) xs \<Longrightarrow> sorted_wrt (<) (set_insert e xs)"
  by (induction xs) (auto, (metis order.strict_trans)+)

lemma takeWhile_less_sorted:
  "sorted_wrt (<) xs \<Longrightarrow> set (takeWhile (\<lambda>e. e < s) xs) = {e \<in> set xs. e < s}" for s :: entry
  by (induction xs) (auto dest: order.strict_trans2 less_trans)

lemma dropWhile_less_sorted:
  "sorted_wrt (<) xs \<Longrightarrow> set (dropWhile (\<lambda>e. e < s) xs) = {e \<in> set xs. \<not> e < s}" for s :: entry
  by (induction xs) (auto dest: less_trans)

lemma sorted_wrt_dropWhile: "sorted_wrt P xs \<Longrightarrow> sorted_wrt P (dropWhile Q xs)"
  by (induction xs) auto

lemma hd_set_insert:
  "sorted_wrt (<) xs \<Longrightarrow>
     fst (hd (set_insert e xs)) = (case xs of [] \<Rightarrow> fst e | x # _ \<Rightarrow> min (fst e) (fst x))"
  by (cases xs) (auto simp: less_prod_def' min_def)

section \<open>Invariant\<close>

text \<open>
  With the entries \<open>out\<close> handed out to the caller (the expired ones while they are processed):
  the set is in order, every entry points to a live timer that expires when the entry says, no
  address occurs twice, and every live timer is in the set or handed out, so none leaks.
\<close>

definition tq_inv :: "timer_ptr set \<Rightarrow> TimerQueue \<Rightarrow> bool" where
  "tq_inv out q \<longleftrightarrow>
     sorted_wrt (<) (m_timers q) \<and>
     (\<forall>e\<in>set (m_timers q). \<exists>t. tq_heap q (snd e) = Some t \<and> m_expiration t = fst e) \<and>
     snd ` set (m_timers q) \<inter> out = {} \<and>
     dom (tq_heap q) = snd ` set (m_timers q) \<union> out \<and>
     (\<forall>p\<in>dom (tq_heap q). p < UINTPTR_MAX)"

text \<open>The allocator returns a fresh address while fewer than \<open>2 ^ 32\<close> timers are alive.\<close>

definition max_timers :: nat where "max_timers = 2 ^ 32"

definition env_ok :: "timer_env \<Rightarrow> bool" where
  "env_ok env \<longleftrightarrow> (\<forall>h. finite (dom h) \<and> card (dom h) < max_timers \<longrightarrow>
     env_alloc env h \<notin> dom h \<and> env_alloc env h < UINTPTR_MAX)"

lemma tq_inv_finite: "tq_inv out q \<Longrightarrow> finite out \<Longrightarrow> finite (dom (tq_heap q))"
  by (simp add: tq_inv_def)

lemma tq_inv_new: "tq_inv {} TimerQueue_new"
  by (simp add: tq_inv_def TimerQueue_new_def)

lemma tq_inv_frame [simp]:
  "tq_inv out (q\<lparr>tq_tick := n\<rparr>) = tq_inv out q" "tq_inv out (q\<lparr>tq_settime := s\<rparr>) = tq_inv out q"
  "tq_inv out (q\<lparr>tq_ran := r\<rparr>) = tq_inv out q"
  "tq_inv out (q\<lparr>m_callingExpiredTimers := b\<rparr>) = tq_inv out q"
  by (simp_all add: tq_inv_def)

lemma resetTimerfd_frame [simp]:
  "m_timers (resetTimerfd env x q) = m_timers q" "tq_heap (resetTimerfd env x q) = tq_heap q"
  "tq_ran (resetTimerfd env x q) = tq_ran q" "tq_tick (resetTimerfd env x q) = tq_tick q + 1"
  "tq_inv out (resetTimerfd env x q) = tq_inv out q"
  by (simp_all add: resetTimerfd_def tq_now_def Let_def tq_inv_def)

lemma tq_inv_insert:
  assumes "tq_inv (insert p out) q" and "tq_heap q p = Some t" and "p \<notin> out"
  shows "tq_inv out (q\<lparr>m_timers := set_insert (m_expiration t, p) (m_timers q)\<rparr>)"
  using assms by (auto simp: tq_inv_def sorted_set_insert)

lemma tq_inv_update:
  assumes "tq_inv (insert p out) q"
  shows "tq_inv (insert p out) (q\<lparr>tq_heap := (tq_heap q)(p \<mapsto> t)\<rparr>)"
  using assms unfolding tq_inv_def by (auto simp: disjoint_iff)

lemma tq_inv_alloc:
  assumes "tq_inv out q" and "p \<notin> dom (tq_heap q)" and "p < UINTPTR_MAX"
  shows "tq_inv (insert p out) (q\<lparr>tq_heap := (tq_heap q)(p \<mapsto> t)\<rparr>)"
  using assms unfolding tq_inv_def by (auto simp: disjoint_iff dom_def)

lemma tq_inv_free:
  assumes "tq_inv (insert p out) q" and "p \<notin> out"
  shows "tq_inv out (q\<lparr>tq_heap := (tq_heap q)(p := None)\<rparr>)"
  using assms unfolding tq_inv_def by (auto simp: disjoint_iff)

lemma tq_inv_live: "tq_inv out q \<Longrightarrow> p \<in> out \<Longrightarrow> \<exists>t. tq_heap q p = Some t"
  by (auto simp: tq_inv_def dom_def)

section \<open>Operations keep the invariant\<close>

lemma insert_timer_ok:
  assumes "tq_inv (insert p out) q" and "p \<notin> out"
  obtains ec t where "tq_heap q p = Some t"
    and "insert_timer p q =
           Some (ec, q\<lparr>m_timers := set_insert (m_expiration t, p) (m_timers q)\<rparr>)"
    and "tq_inv out (q\<lparr>m_timers := set_insert (m_expiration t, p) (m_timers q)\<rparr>)"
proof -
  obtain t where t: "tq_heap q p = Some t" using tq_inv_live [OF assms(1)] by blast
  with tq_inv_insert [OF assms(1) t assms(2)] that show thesis
    by (simp add: insert_timer_def Let_def)
qed

lemma addTimerInLoop_ok:
  assumes "tq_inv (insert p out) q" and "p \<notin> out"
  obtains q' where "addTimerInLoop env p q = Some q'" and "tq_inv out q'"
    and "tq_heap q' = tq_heap q" and "tq_ran q' = tq_ran q"
    and "set (m_timers q) \<subseteq> set (m_timers q')" and "tq_tick q \<le> tq_tick q'"
proof -
  obtain ec t where t: "tq_heap q p = Some t"
    and i: "insert_timer p q =
           Some (ec, q\<lparr>m_timers := set_insert (m_expiration t, p) (m_timers q)\<rparr>)"
    and inv: "tq_inv out (q\<lparr>m_timers := set_insert (m_expiration t, p) (m_timers q)\<rparr>)"
    by (rule insert_timer_ok [OF assms])
  show thesis
    by (rule that [of "if ec then resetTimerfd env (m_expiration t)
          (q\<lparr>m_timers := set_insert (m_expiration t, p) (m_timers q)\<rparr>)
        else q\<lparr>m_timers := set_insert (m_expiration t, p) (m_timers q)\<rparr>"])
      (use t i inv in \<open>auto simp: addTimerInLoop_def\<close>)
qed

text \<open>The timers handed out keep their contents, and the callbacks run so far stay as they are.\<close>

definition keeps :: "timer_ptr set \<Rightarrow> TimerQueue \<Rightarrow> TimerQueue \<Rightarrow> bool" where
  "keeps out q q' \<longleftrightarrow> (\<forall>p\<in>out. tq_heap q' p = tq_heap q p) \<and> tq_ran q' = tq_ran q \<and>
     set (m_timers q) \<subseteq> set (m_timers q') \<and> tq_tick q \<le> tq_tick q'"

lemma keeps_refl [simp]: "keeps out q q"
  by (simp add: keeps_def)

lemma keeps_trans: "keeps out q q' \<Longrightarrow> keeps out q' q'' \<Longrightarrow> keeps out q q''"
  by (auto simp: keeps_def)

lemma addTimer_ok:
  assumes env: "env_ok env" and inv: "tq_inv out q" and "finite out"
    and room: "card (dom (tq_heap q)) < max_timers"
  obtains q' where "addTimer env args q = Some q'" and "tq_inv out q'" and "keeps out q q'"
    and "card (dom (tq_heap q')) = Suc (card (dom (tq_heap q)))"
proof -
  obtain cb w iv where args: "args = (cb, w, iv)" by (cases args)
  let ?p = "env_alloc env (tq_heap q)"
  let ?q = "q\<lparr>tq_heap := (tq_heap q)(?p \<mapsto> Timer_new cb w iv)\<rparr>"
  have p: "?p \<notin> dom (tq_heap q)" "?p < UINTPTR_MAX"
    using env room tq_inv_finite [OF inv assms(3)] by (simp_all add: env_ok_def)
  then have "?p \<notin> out" using inv by (auto simp: tq_inv_def)
  then obtain q' where "addTimerInLoop env ?p ?q = Some q'" "tq_inv out q'"
      "tq_heap q' = tq_heap ?q" "tq_ran q' = tq_ran ?q" "set (m_timers ?q) \<subseteq> set (m_timers q')"
      "tq_tick ?q \<le> tq_tick q'"
    using addTimerInLoop_ok [OF tq_inv_alloc [OF inv p]] by metis
  then show thesis
    using that \<open>?p \<notin> out\<close> p(1) tq_inv_finite [OF inv assms(3)]
    by (auto simp: addTimer_def args Let_def keeps_def)
qed

lemma addTimers_ok:
  assumes "env_ok env" and "finite out" and "tq_inv out q"
    and "card (dom (tq_heap q)) + length as \<le> max_timers"
  shows "\<exists>q'. foldM (addTimer env) as q = Some q' \<and> tq_inv out q' \<and> keeps out q q' \<and>
    card (dom (tq_heap q')) = card (dom (tq_heap q)) + length as"
  using assms(3,4)
proof (induction as arbitrary: q)
  case (Cons a as)
  have "card (dom (tq_heap q)) < max_timers" using Cons.prems(2) by simp
  then obtain q1 where q1: "addTimer env a q = Some q1" "tq_inv out q1" "keeps out q q1"
      "card (dom (tq_heap q1)) = Suc (card (dom (tq_heap q)))"
    using addTimer_ok [OF assms(1) Cons.prems(1) assms(2)] by metis
  then show ?case using Cons.IH [of q1] Cons.prems(2) keeps_trans by fastforce
qed simp

text \<open>The number of timers the callbacks of some entries add.\<close>

definition adds_count :: "timer_env \<Rightarrow> (timer_ptr \<rightharpoonup> Timer) \<Rightarrow> entry list \<Rightarrow> nat" where
  "adds_count env h es = sum_list (map (\<lambda>e. length (env_adds env (m_callback (the (h (snd e)))))) es)"

lemma adds_count_cong:
  "(\<And>e. e \<in> set es \<Longrightarrow> h (snd e) = h' (snd e)) \<Longrightarrow> adds_count env h es = adds_count env h' es"
  unfolding adds_count_def by (metis (mono_tags, lifting) map_eq_conv)

lemma run_timers_ok:
  assumes "env_ok env" and "finite out" and "tq_inv out q" and "snd ` set es \<subseteq> out"
    and "card (dom (tq_heap q)) + adds_count env (tq_heap q) es \<le> max_timers"
  shows "\<exists>q'. foldM (run_timer env) es q = Some q' \<and> tq_inv out q' \<and>
    (\<forall>p\<in>out. tq_heap q' p = tq_heap q p) \<and>
    tq_ran q' = tq_ran q @ map (\<lambda>e. m_callback (the (tq_heap q (snd e)))) es \<and>
    set (m_timers q) \<subseteq> set (m_timers q') \<and> tq_tick q \<le> tq_tick q'"
  using assms(3-5)
proof (induction es arbitrary: q)
  case (Cons e es)
  obtain t where t: "tq_heap q (snd e) = Some t"
    using tq_inv_live [OF Cons.prems(1), of "snd e"] Cons.prems(2) by auto
  let ?q = "q\<lparr>tq_ran := tq_ran q @ [m_callback t]\<rparr>"
  obtain q1 where q1: "foldM (addTimer env) (env_adds env (m_callback t)) ?q = Some q1"
      "tq_inv out q1" "keeps out ?q q1"
      "card (dom (tq_heap q1)) = card (dom (tq_heap q)) + length (env_adds env (m_callback t))"
    using addTimers_ok [OF assms(1,2), of ?q "env_adds env (m_callback t)"] Cons.prems(1,3) t
    by (auto simp: adds_count_def)
  have "adds_count env (tq_heap q1) es = adds_count env (tq_heap q) es"
    using q1(3) Cons.prems(2) by (intro adds_count_cong) (auto simp: keeps_def)
  then have room: "card (dom (tq_heap q1)) + adds_count env (tq_heap q1) es \<le> max_timers"
    using q1(4) Cons.prems(3) t by (simp add: adds_count_def)
  have eq: "map (\<lambda>e. m_callback (the (tq_heap q1 (snd e)))) es =
      map (\<lambda>e. m_callback (the (tq_heap q (snd e)))) es"
    using q1(3) Cons.prems(2) by (auto simp: keeps_def)
  obtain q' where q': "foldM (run_timer env) es q1 = Some q'" "tq_inv out q'"
      "\<forall>p\<in>out. tq_heap q' p = tq_heap q1 p" "set (m_timers q1) \<subseteq> set (m_timers q')"
      "tq_ran q' = tq_ran q1 @ map (\<lambda>e. m_callback (the (tq_heap q1 (snd e)))) es"
      "tq_tick q1 \<le> tq_tick q'"
    using Cons.IH [OF q1(2) _ room] Cons.prems(2) by auto
  have "foldM (run_timer env) (e # es) q = Some q'"
    using t q1(1) q'(1) by (simp add: run_timer_def)
  moreover have "set (m_timers q) \<subseteq> set (m_timers q')"
    using q1(3) q'(4) by (auto simp: keeps_def)
  ultimately show ?case
    using q'(2,3,5,6) q1(3) eq t by (simp add: keeps_def)
qed simp

text \<open>
  What becomes of one expired timer \<open>t\<close> at \<open>p\<close>: a repeating one expires next one interval after a
  clock reading the reset took, from the one numbered \<open>k\<close> on, and is queued under this expiration;
  a one-shot one is deleted.
\<close>

definition settled :: "timer_env \<Rightarrow> nat \<Rightarrow> Timer \<Rightarrow> timer_ptr \<Rightarrow> TimerQueue \<Rightarrow> bool" where
  "settled env k t p q \<longleftrightarrow>
     (if m_repeat t
      then \<exists>i. k \<le> i \<and> i < tq_tick q \<and>
        (let next = addTime (env_rnd env) (env_clock env i) (m_interval t) in
         tq_heap q p = Some (t\<lparr>m_expiration := next\<rparr>) \<and> (next, p) \<in> set (m_timers q))
      else tq_heap q p = None)"

lemma settled_mono:
  assumes "settled env k t p q" and "j \<le> k" and "tq_tick q \<le> tq_tick q'"
    and "tq_heap q' p = tq_heap q p" and "set (m_timers q) \<subseteq> set (m_timers q')"
  shows "settled env j t p q'"
proof (cases "m_repeat t")
  case True
  with assms(1) obtain i where "k \<le> i" "i < tq_tick q"
    "tq_heap q p = Some (t\<lparr>m_expiration := addTime (env_rnd env) (env_clock env i) (m_interval t)\<rparr>)"
    "(addTime (env_rnd env) (env_clock env i) (m_interval t), p) \<in> set (m_timers q)"
    by (auto simp: settled_def Let_def)
  with True assms(2-) show ?thesis
    unfolding settled_def Let_def by (metis less_le_trans order_trans subsetD)
qed (use assms in \<open>simp add: settled_def\<close>)

lemma rearm_ok:
  assumes "tq_inv out q"
  shows "\<exists>q'. rearm env q = Some q' \<and>
    tq_inv out q' \<and> m_timers q' = m_timers q \<and> tq_heap q' = tq_heap q \<and> tq_ran q' = tq_ran q \<and>
    tq_tick q \<le> tq_tick q'"
proof (cases "m_timers q")
  case (Cons b bs)
  then obtain t where "tq_heap q (snd b) = Some t" using assms by (auto simp: tq_inv_def)
  with Cons assms show ?thesis by (simp add: rearm_def)
qed (use assms in \<open>simp add: rearm_def\<close>)

lemma reset_one_ok:
  assumes inv: "tq_inv (insert p out) q" and p: "p \<notin> out" and t: "tq_heap q p = Some t"
  shows "\<exists>q'. reset_one env (w, p) q = Some q' \<and> tq_inv out q' \<and>
    settled env (tq_tick q) t p q' \<and> tq_tick q \<le> tq_tick q' \<and> tq_ran q' = tq_ran q \<and> (\<forall>r. r \<noteq> p \<longrightarrow> tq_heap q' r = tq_heap q r) \<and>
    set (m_timers q) \<subseteq> set (m_timers q')"
proof (cases "m_repeat t")
  case True
  define q0 where "q0 = q\<lparr>tq_tick := tq_tick q + 1, tq_heap := (tq_heap q)
     (p \<mapsto> Timer_restart (env_rnd env) (env_clock env (tq_tick q)) t)\<rparr>"
  have i0: "tq_inv (insert p out) q0"
    using tq_inv_update [of p out "q\<lparr>tq_tick := tq_tick q + 1\<rparr>"] inv by (simp add: q0_def)
  obtain ec t' where t': "tq_heap q0 p = Some t'" and i: "insert_timer p q0 =
        Some (ec, q0\<lparr>m_timers := set_insert (m_expiration t', p) (m_timers q0)\<rparr>)"
      and inv2: "tq_inv out (q0\<lparr>m_timers := set_insert (m_expiration t', p) (m_timers q0)\<rparr>)"
    by (rule insert_timer_ok [OF i0 p])
  obtain q' where q': "rearm env (q0\<lparr>m_timers := set_insert (m_expiration t', p) (m_timers q0)\<rparr>) = Some q'"
      "tq_inv out q'" "m_timers q' = set_insert (m_expiration t', p) (m_timers q0)"
      "tq_heap q' = tq_heap q0" "tq_ran q' = tq_ran q0" "tq_tick q0 \<le> tq_tick q'"
    using rearm_ok [OF inv2, of env] by auto
  have "reset_one env (w, p) q = Some q'"
    using True t i q'(1) by (simp add: reset_one_def tq_now_def q0_def)
  moreover have "settled env (tq_tick q) t p q'"
    using True q'(3,4,6) t' by (auto simp: settled_def q0_def Let_def Timer_restart_def intro!: exI [of _ "tq_tick q"])
  ultimately show ?thesis using q' by (auto simp: q0_def)
next
  case False
  have "tq_inv out (q\<lparr>tq_heap := (tq_heap q)(p := None)\<rparr>)" using tq_inv_free [OF inv p] .
  from rearm_ok [OF this, of env] False t show ?thesis
    by (auto simp: reset_one_def settled_def)
qed

lemma reset_timers_ok:
  assumes "tq_inv (snd ` set es) q" and "distinct (map snd es)"
  shows "\<exists>q'. reset_timers env es q = Some q' \<and> tq_inv {} q' \<and> tq_ran q' = tq_ran q \<and>
    tq_tick q \<le> tq_tick q' \<and> (\<forall>e\<in>set es. settled env (tq_tick q) (the (tq_heap q (snd e))) (snd e) q') \<and>
    set (m_timers q) \<subseteq> set (m_timers q') \<and>
    (\<forall>r. r \<notin> snd ` set es \<longrightarrow> tq_heap q' r = tq_heap q r)"
  using assms unfolding reset_timers_def
proof (induction es arbitrary: q)
  case (Cons e es)
  have p: "snd e \<notin> snd ` set es" using Cons.prems(2) by auto
  have inv: "tq_inv (insert (snd e) (snd ` set es)) q" using Cons.prems(1) by simp
  obtain t where t: "tq_heap q (snd e) = Some t" using tq_inv_live [OF inv] by blast
  obtain q1 where q1: "reset_one env (fst e, snd e) q = Some q1" "tq_inv (snd ` set es) q1"
      "settled env (tq_tick q) t (snd e) q1" "tq_tick q \<le> tq_tick q1" "tq_ran q1 = tq_ran q" "\<forall>r. r \<noteq> snd e \<longrightarrow> tq_heap q1 r = tq_heap q r"
      "set (m_timers q) \<subseteq> set (m_timers q1)"
    using reset_one_ok [OF inv p t] by blast
  obtain q' where q': "foldM (reset_one env) es q1 = Some q'" "tq_inv {} q'" "tq_ran q' = tq_ran q1"
      "\<forall>e\<in>set es. settled env (tq_tick q1) (the (tq_heap q1 (snd e))) (snd e) q'"
      "set (m_timers q1) \<subseteq> set (m_timers q')"
      "\<forall>r. r \<notin> snd ` set es \<longrightarrow> tq_heap q' r = tq_heap q1 r" "tq_tick q1 \<le> tq_tick q'"
    using Cons.IH [OF q1(2)] Cons.prems(2) by auto
  have "settled env (tq_tick q) t (snd e) q'"
    using settled_mono [OF q1(3) order_refl q'(7) _ q'(5)] q'(6) p by simp
  moreover have "\<forall>e'\<in>set es. settled env (tq_tick q) (the (tq_heap q (snd e'))) (snd e') q'"
    using q'(4) q1(4,6) p settled_mono [OF _ q1(4) order_refl refl subset_refl] by (metis image_eqI)
  ultimately show ?case using q1 q' t by auto
qed simp

section \<open>Handing out expired timers\<close>

lemma tq_inv_distinct: "tq_inv out q \<Longrightarrow> distinct (map snd (m_timers q))"
proof -
  assume inv: "tq_inv out q"
  have "inj_on snd (set (m_timers q))"
  proof (rule inj_onI)
    fix e e' assume e: "e \<in> set (m_timers q)" "e' \<in> set (m_timers q)" "snd e = snd e'"
    then obtain t t' where "tq_heap q (snd e) = Some t" "m_expiration t = fst e"
        "tq_heap q (snd e') = Some t'" "m_expiration t' = fst e'"
      using inv unfolding tq_inv_def by metis
    with e(3) show "e = e'" by (simp add: prod_eq_iff)
  qed
  moreover have "distinct (m_timers q)"
    using inv strict_sorted_iff [of "m_timers q"] by (auto simp: tq_inv_def)
  ultimately show ?thesis by (simp add: distinct_map)
qed

lemma getExpired_split:
  assumes inv: "tq_inv {} q" and ge: "getExpired now q = (expired, q')"
  shows "set expired = {e \<in> set (m_timers q). fst e \<le> now}"
    and "set (m_timers q') = {e \<in> set (m_timers q). now < fst e}"
    and "expired @ m_timers q' = m_timers q"
    and "tq_inv (snd ` set expired) q'"
    and "tq_heap q' = tq_heap q" and "tq_ran q' = tq_ran q" and "tq_tick q' = tq_tick q"
proof -
  have srt: "sorted_wrt (<) (m_timers q)" using inv by (simp add: tq_inv_def)
  have less: "e < (now, UINTPTR_MAX) \<longleftrightarrow> fst e \<le> now" if "e \<in> set (m_timers q)" for e
  proof -
    have "snd e < UINTPTR_MAX" using inv that by (auto simp: tq_inv_def)
    then show ?thesis by (cases e) auto
  qed
  have ex: "expired = takeWhile (\<lambda>e. e < (now, UINTPTR_MAX)) (m_timers q)"
    and q': "q' = q\<lparr>m_timers := dropWhile (\<lambda>e. e < (now, UINTPTR_MAX)) (m_timers q)\<rparr>"
    using ge by (auto simp: getExpired_def Let_def)
  show s1: "set expired = {e \<in> set (m_timers q). fst e \<le> now}"
    using ex less takeWhile_less_sorted [OF srt] by auto
  show s2: "set (m_timers q') = {e \<in> set (m_timers q). now < fst e}"
    using q' less dropWhile_less_sorted [OF srt, of "(now, UINTPTR_MAX)"] by (auto simp: not_le)
  show app: "expired @ m_timers q' = m_timers q" using ex q' by simp
  show "tq_heap q' = tq_heap q" "tq_ran q' = tq_ran q" "tq_tick q' = tq_tick q" using q' by simp_all
  have "distinct (map snd (expired @ m_timers q'))" using tq_inv_distinct [OF inv] app by simp
  then have "snd ` set (m_timers q') \<inter> snd ` set expired = {}" by auto
  moreover have "set (m_timers q) = set expired \<union> set (m_timers q')" using app by (metis set_append)
  moreover have "sorted_wrt (<) (m_timers q')" using q' sorted_wrt_dropWhile [OF srt] by simp
  ultimately show "tq_inv (snd ` set expired) q'"
    using inv \<open>tq_heap q' = tq_heap q\<close> unfolding tq_inv_def by (auto simp: image_Un)
qed

section \<open>Properties\<close>

text \<open>
  C7. One firing of the timer descriptor. From a state that satisfies the queue's invariant,
  \<^verbatim>\<open>handleRead\<close> never touches a freed timer and re-establishes the invariant (ordered
  set, entries matching their timers, no leaked timer), whatever timers the callbacks add (as long as
  no more than \<open>2 ^ 32\<close> timers are alive); it runs the
  callback of exactly the timers due at the clock reading, each once and in order of expiration;
  afterwards every repeating one of them has been restarted from a clock reading taken after that
  one, so that it expires one interval later, and is queued under its new expiration; every one-shot
  one is deleted, and every timer that was not due is still queued.
\<close>

theorem timer_handleRead_correct:
  assumes env: "env_ok env" and inv: "tq_inv {} q"
    and room: "card (dom (tq_heap q)) + adds_count env (tq_heap q) (m_timers q) \<le> max_timers"
  shows "\<exists>q'. TimerQueue_handleRead env q = Some q' \<and> tq_inv {} q' \<and>
    (let now = env_clock env (tq_tick q); due = filter (\<lambda>e. fst e \<le> now) (m_timers q) in
     tq_ran q' = tq_ran q @ map (\<lambda>e. m_callback (the (tq_heap q (snd e)))) due \<and>
     (\<forall>e\<in>set due. settled env (tq_tick q + 1) (the (tq_heap q (snd e))) (snd e) q') \<and>
     (\<forall>e\<in>set (m_timers q). now < fst e \<longrightarrow> e \<in> set (m_timers q')))"
proof -
  let ?now = "env_clock env (tq_tick q)" and ?q0 = "q\<lparr>tq_tick := tq_tick q + 1\<rparr>"
  obtain expired q1 where ge: "getExpired ?now ?q0 = (expired, q1)" by fastforce
  have inv0: "tq_inv {} ?q0" using inv by simp
  note sp = getExpired_split [OF inv0 ge]
  have due: "expired = filter (\<lambda>e. fst e \<le> ?now) (m_timers q)"
  proof -
    have "filter (\<lambda>e. fst e \<le> ?now) (expired @ m_timers q1) = expired"
      using sp(1,2) by (auto simp: filter_empty_conv filter_id_conv)
    then show ?thesis using sp(3) by simp
  qed
  have "adds_count env (tq_heap q) (expired @ m_timers q1) = adds_count env (tq_heap q) (m_timers q)"
    using sp(3) by simp
  then have room1: "card (dom (tq_heap q)) + adds_count env (tq_heap q) expired \<le> max_timers"
    using room by (simp add: adds_count_def)
  obtain q2 where q2: "foldM (run_timer env) expired (q1\<lparr>m_callingExpiredTimers := True\<rparr>) = Some q2"
      "tq_inv (snd ` set expired) q2" "\<forall>p\<in>snd ` set expired. tq_heap q2 p = tq_heap q1 p"
      "tq_ran q2 = tq_ran q1 @ map (\<lambda>e. m_callback (the (tq_heap q1 (snd e)))) expired"
      "set (m_timers q1) \<subseteq> set (m_timers q2)" "tq_tick q1 \<le> tq_tick q2"
    using run_timers_ok [OF env _ _ subset_refl, of expired "q1\<lparr>m_callingExpiredTimers := True\<rparr>"]
      sp(4,5) room1 by auto
  have "distinct (map snd expired)"
    using tq_inv_distinct [OF inv] sp(3) by (metis (mono_tags) map_append distinct_append
        TimerQueue.select_convs(1) TimerQueue.surjective TimerQueue.update_convs(4))
  then obtain q' where q': "reset_timers env expired (q2\<lparr>m_callingExpiredTimers := False\<rparr>) = Some q'"
      "tq_inv {} q'" "tq_ran q' = tq_ran q2"
      "\<forall>e\<in>set expired. settled env (tq_tick q2) (the (tq_heap q2 (snd e))) (snd e) q'"
      "set (m_timers q2) \<subseteq> set (m_timers q')"
    using reset_timers_ok [of expired "q2\<lparr>m_callingExpiredTimers := False\<rparr>" env] q2(2) by auto
  have "TimerQueue_handleRead env q = Some q'"
    using ge q2(1) q'(1) by (simp add: TimerQueue_handleRead_def tq_now_def)
  moreover have "tq_ran q' = tq_ran q @ map (\<lambda>e. m_callback (the (tq_heap q (snd e)))) expired"
    using q'(3) q2(4) sp(5,6) by simp
  moreover have "\<forall>e\<in>set expired. settled env (tq_tick q + 1) (the (tq_heap q (snd e))) (snd e) q'"
    using q'(4) q2(3,6) sp(5,7) settled_mono [of env "tq_tick q2" _ _ q' "tq_tick q + 1" q'] by simp
  moreover have "\<forall>e\<in>set (m_timers q). ?now < fst e \<longrightarrow> e \<in> set (m_timers q')"
    using sp(2) q2(5) q'(5) by auto
  ultimately show ?thesis using q'(2) due by (simp add: Let_def)
qed

lemma least_fresh:
  fixes A :: "nat set"
  assumes "finite A"
  shows "(LEAST p. p \<notin> A) \<notin> A \<and> (LEAST p. p \<notin> A) \<le> card A"
proof -
  have ex: "\<exists>p. p \<notin> A" using assms infinite_UNIV_nat by (metis UNIV_I ex_new_if_finite)
  have "{..<(LEAST p. p \<notin> A)} \<subseteq> A" using not_less_Least by blast
  then have "card {..<(LEAST p. p \<notin> A)} \<le> card A" using assms by (rule card_mono [rotated])
  then show ?thesis using LeastI_ex [OF ex] by simp
qed

definition sample_env :: "timestamp \<Rightarrow> timer_env" where
  "sample_env now = \<lparr>env_clock = (\<lambda>_. now), env_rnd = (\<lambda>x. x),
     env_alloc = (\<lambda>h. LEAST p. p \<notin> dom h),
     env_adds = (\<lambda>cb. if cb = 7 then [(9, now + 5, 0)] else [])\<rparr>"

lemma sample_env_ok: "env_ok (sample_env now)"
proof -
  have "(LEAST p. p \<notin> dom h) < UINTPTR_MAX"
    if "finite (dom h)" "card (dom h) < max_timers" for h :: "timer_ptr \<rightharpoonup> Timer"
    using least_fresh [OF that(1)] that(2) by (simp add: max_timers_def UINTPTR_MAX_def)
  then show ?thesis using least_fresh by (auto simp: env_ok_def sample_env_def)
qed

definition sample_queue :: TimerQueue where
  "sample_queue = TimerQueue_new\<lparr>m_timers := [(40, 1), (45, 2), (60, 3)],
     tq_heap := [1 \<mapsto> Timer_new 7 40 0, 2 \<mapsto> Timer_new 8 45 2, 3 \<mapsto> Timer_new 6 60 0]\<rparr>"

lemma sample_queue_inv: "tq_inv {} sample_queue"
  by (auto simp: tq_inv_def sample_queue_def TimerQueue_new_def Timer_new_def UINTPTR_MAX_def)

theorem timer_handleRead_correct_witness:
  "\<exists>q'. TimerQueue_handleRead (sample_env 50) sample_queue = Some q' \<and> tq_inv {} q' \<and>
     tq_ran q' = [7, 8] \<and> tq_heap q' 1 = None \<and>
     tq_heap q' 2 = Some (Timer_new 8 2000050 2) \<and> (2000050, 2) \<in> set (m_timers q') \<and>
     (60, 3) \<in> set (m_timers q')"
proof -
  have "dom (tq_heap sample_queue) = {1, 2, 3}" by (auto simp: sample_queue_def)
  then have "card (dom (tq_heap sample_queue)) +
      adds_count (sample_env 50) (tq_heap sample_queue) (m_timers sample_queue) \<le> max_timers"
    by (simp add: adds_count_def max_timers_def sample_env_def sample_queue_def Timer_new_def)
  from timer_handleRead_correct [OF sample_env_ok sample_queue_inv this] show ?thesis
    by (auto simp: sample_env_def sample_queue_def TimerQueue_new_def Timer_new_def settled_def Let_def
        addTime_def kMicroSecondsPerSecond_def to_int64_def)
qed

text \<open>
  Arming the descriptor. \<^verbatim>\<open>addTimerInLoop\<close> makes a \<^verbatim>\<open>timerfd_settime\<close> call exactly
  when the new timer expires before everything queued; the value it sets is never the disarming zero,
  has a nanosecond part in range, and amounts to the time left but at least 100 microseconds.
\<close>

theorem addTimerInLoop_arms:
  assumes "tq_heap q p = Some t"
  shows "\<exists>q'. addTimerInLoop env p q = Some q' \<and>
    (if m_timers q = [] \<or> m_expiration t < fst (hd (m_timers q))
     then \<exists>sec nsec. tq_settime q' = tq_settime q @ [(sec, nsec)] \<and> (sec, nsec) \<noteq> (0, 0) \<and>
        0 \<le> sec \<and> 0 \<le> nsec \<and> nsec < 1000000000 \<and>
        1000000 * sec + nsec div 1000 = max 100 (m_expiration t - env_clock env (tq_tick q))
     else tq_settime q' = tq_settime q)"
proof -
  let ?d = "max 100 (m_expiration t - env_clock env (tq_tick q))"
  have d: "(if x < 100 then 100 else x) = max 100 x" for x :: int by simp
  have "c_div ?d kMicroSecondsPerSecond = ?d div 1000000"
      "c_mod ?d kMicroSecondsPerSecond = ?d mod 1000000"
    by (simp_all add: kMicroSecondsPerSecond_def)
  then have set: "tq_settime (resetTimerfd env (m_expiration t) r) =
      tq_settime r @ [(?d div 1000000, ?d mod 1000000 * 1000)]" if "tq_tick r = tq_tick q" for r
    using that by (simp add: resetTimerfd_def tq_now_def d Let_def)
  have ne: "(?d div 1000000, ?d mod 1000000 * 1000) \<noteq> (0, 0)"
    by (metis Pair_inject div_mult_mod_eq max.cobounded1 mult_eq_0_iff not_numeral_le_zero add_0 zero_neq_numeral)
  have rng: "0 \<le> ?d div 1000000" "0 \<le> ?d mod 1000000 * 1000" "?d mod 1000000 * 1000 < 1000000000"
      "1000000 * (?d div 1000000) + ?d mod 1000000 * 1000 div 1000 = ?d"
    by (auto simp: pos_imp_zdiv_nonneg_iff)
  have ec: "(case m_timers q of [] \<Rightarrow> True | e # _ \<Rightarrow> m_expiration t < fst e) \<longleftrightarrow>
      m_timers q = [] \<or> m_expiration t < fst (hd (m_timers q))"
    by (cases "m_timers q") auto
  show ?thesis
  proof (cases "m_timers q = [] \<or> m_expiration t < fst (hd (m_timers q))")
    case True
    then have "addTimerInLoop env p q = Some (resetTimerfd env (m_expiration t)
        (q\<lparr>m_timers := set_insert (m_expiration t, p) (m_timers q)\<rparr>))"
      using assms ec by (simp add: addTimerInLoop_def insert_timer_def Let_def)
    then show ?thesis using set ne rng True by auto
  next
    case False
    then show ?thesis using assms ec by (simp add: addTimerInLoop_def insert_timer_def Let_def)
  qed
qed

theorem addTimerInLoop_arms_witness:
  "\<exists>q' sec nsec. addTimerInLoop (sample_env 20) 1
      (TimerQueue_new\<lparr>tq_heap := [1 \<mapsto> Timer_new 7 1500040 0]\<rparr>) = Some q' \<and>
    tq_settime q' = [(sec, nsec)] \<and> 1000000 * sec + nsec div 1000 = 1500020"
  using addTimerInLoop_arms [of "TimerQueue_new\<lparr>tq_heap := [1 \<mapsto> Timer_new 7 1500040 0]\<rparr>" 1
      "Timer_new 7 1500040 0" "sample_env 20"]
  by (auto simp: TimerQueue_new_def Timer_new_def sample_env_def)

text \<open>
  A wake-up with nothing due stalls the queue. The re-arming sits inside the loop over the expired
  timers, so when the descriptor fires but the (wall) clock reading is before every queued expiration,
  \<^verbatim>\<open>handleRead\<close> makes no \<^verbatim>\<open>timerfd_settime\<close> call at all: the queue keeps its timers and
  the one-shot descriptor stays disarmed.
\<close>

theorem timer_stall:
  assumes "tq_inv {} q" and "\<forall>e\<in>set (m_timers q). env_clock env (tq_tick q) < fst e"
  shows "\<exists>q'. TimerQueue_handleRead env q = Some q' \<and> m_timers q' = m_timers q \<and>
    tq_settime q' = tq_settime q \<and> tq_ran q' = tq_ran q"
proof -
  let ?now = "env_clock env (tq_tick q)" and ?q0 = "q\<lparr>tq_tick := tq_tick q + 1\<rparr>"
  obtain expired q1 where ge: "getExpired ?now ?q0 = (expired, q1)" by fastforce
  have inv0: "tq_inv {} ?q0" using assms(1) by simp
  have "set expired = {}" using getExpired_split(1) [OF inv0 ge] assms(2) by auto
  then have "expired = []" by simp
  moreover have "tq_settime q1 = tq_settime q" using ge by (auto simp: getExpired_def Let_def)
  ultimately show ?thesis
    using ge getExpired_split(3,6) [OF inv0 ge]
    by (simp add: TimerQueue_handleRead_def tq_now_def reset_timers_def)
qed

theorem timer_stall_witness:
  "\<exists>q'. TimerQueue_handleRead (sample_env 39) sample_queue = Some q' \<and>
     m_timers q' = [(40, 1), (45, 2), (60, 3)] \<and> tq_settime q' = [] \<and> tq_ran q' = []"
  using timer_stall [OF sample_queue_inv, of "sample_env 39"]
  by (simp add: sample_env_def sample_queue_def TimerQueue_new_def)

lemma foldl_free:
  "foldl (\<lambda>h e. h(snd e := None)) h es r = (if r \<in> snd ` set es then None else h r)"
  by (induction es arbitrary: h) auto

lemma TimerQueue_destroy_frees: "tq_inv {} q \<Longrightarrow> tq_heap (TimerQueue_destroy q) = Map.empty"
  by (rule ext) (auto simp: TimerQueue_destroy_def foldl_free tq_inv_def dom_def)

end
