(* ===== verification/Log_Stream.thy ===== *)
theory Log_Stream
  imports Time_Base
begin

text \<open>
  Logging: the fixed-size buffer template (\<^verbatim>\<open>myserver/include/fixed_buffer.h\<close>), the
  stream with its integer formatting (\<^verbatim>\<open>myserver/include/log_stream.h\<close>,
  \<^verbatim>\<open>myserver/common/log_stream.cpp\<close>) and the logger object from construction to the
  destructor that emits the line (\<^verbatim>\<open>myserver/include/logging.h\<close>,
  \<^verbatim>\<open>myserver/common/logging.cpp\<close>). The array of a fixed buffer starts with arbitrary
  contents (the C++ member is not initialised) and a write outside it is \<open>None\<close>. The rendering of a
  \<^verbatim>\<open>double\<close> by \<^verbatim>\<open>%.12g\<close>, \<^verbatim>\<open>strerror_r\<close> and
  \<^verbatim>\<open>localtime\<close> are parameters.
\<close>

section \<open>FixedBuffer\<close>

record FixedBuffer =
  fb_data :: string
  fb_cur :: nat

definition kSmallBuffer :: nat where "kSmallBuffer = 4000"

definition FixedBuffer_new :: "string \<Rightarrow> FixedBuffer" where
  "FixedBuffer_new mem = \<lparr>fb_data = mem, fb_cur = 0\<rparr>"

definition fb_avail :: "FixedBuffer \<Rightarrow> nat" where
  [log_defs]: "fb_avail b = usub (length (fb_data b)) (fb_cur b)"

definition fb_length :: "FixedBuffer \<Rightarrow> nat" where
  "fb_length b = length (fb_data b)"

definition fb_add :: "nat \<Rightarrow> FixedBuffer \<Rightarrow> FixedBuffer" where
  [log_defs]: "fb_add len b = b\<lparr>fb_cur := fb_cur b + len\<rparr>"

definition fb_reset :: "FixedBuffer \<Rightarrow> FixedBuffer" where
  "fb_reset b = b\<lparr>fb_cur := 0\<rparr>"

definition fb_bzero :: "FixedBuffer \<Rightarrow> FixedBuffer" where
  "fb_bzero b = b\<lparr>fb_data := replicate (length (fb_data b)) (CHR 0x00)\<rparr>"

definition fb_toString :: "FixedBuffer \<Rightarrow> string" where
  "fb_toString b = take (fb_length b) (fb_data b)"

text \<open>\<^verbatim>\<open>memcpy\<close> or a store at \<^verbatim>\<open>current()\<close>.\<close>

definition fb_write :: "string \<Rightarrow> FixedBuffer \<Rightarrow> FixedBuffer option" where
  "fb_write s b = do { v \<leftarrow> copy_in s (fb_cur b) (fb_data b); Some (b\<lparr>fb_data := v\<rparr>) }"

definition fb_append :: "string \<Rightarrow> FixedBuffer \<Rightarrow> FixedBuffer option" where
  "fb_append s b =
     (if fb_avail b > length s
      then do { b' \<leftarrow> fb_write s b; Some (fb_add (length s) b') }
      else Some b)"

section \<open>LogStream\<close>

definition kMaxNumberSize :: nat where "kMaxNumberSize = 48"

definition digits_table :: string where
  "digits_table = ''9876543210123456789''"

text \<open>The do-while loop of \<^verbatim>\<open>formatInteger\<close>: the digits from the last one on.\<close>

function digit_loop :: "int \<Rightarrow> string" where
  "digit_loop num =
     (let remainder = c_mod num 10; c = digits_table ! nat (9 + remainder); num' = c_div num 10 in
      if num' \<noteq> 0 then c # digit_loop num' else [c])"
  by pat_completeness auto
termination
proof (relation "measure (\<lambda>num. nat \<bar>num\<bar>)", goal_cases)
  case (2 num x xa xb)
  then show ?case by (cases "num < 0") auto
qed simp

declare digit_loop.simps [simp del]

definition formatInteger :: "int \<Rightarrow> FixedBuffer \<Rightarrow> FixedBuffer option" where
  "formatInteger num b =
     (if fb_avail b \<ge> kMaxNumberSize then
        let cs = digit_loop num @ (if num < 0 then ''-'' else []) in
        do { b' \<leftarrow> fb_write (rev cs @ [CHR 0x00]) b; Some (fb_add (length cs) b') }
      else Some b)"

datatype log_item =
    LInt int
  | LDouble string
  | LChar char
  | LCStr "string option"
  | LString string
  | LBuffer FixedBuffer
  | LTemplate string

text \<open>
  One insertion. \<open>LDouble g\<close> carries the text \<^verbatim>\<open>%.12g\<close> produces; \<open>LCStr None\<close> is the
  null pointer; \<open>LTemplate s\<close> the \<open>m_len\<close> bytes of a \<^verbatim>\<open>GeneralTemplate\<close>.
\<close>

fun log_put :: "log_item \<Rightarrow> FixedBuffer \<Rightarrow> FixedBuffer option" where
  "log_put (LInt v) b = formatInteger v b"
| "log_put (LDouble g) b =
     (if fb_avail b \<ge> kMaxNumberSize then
        do { b' \<leftarrow> fb_write (take (kMaxNumberSize - 1) g @ [CHR 0x00]) b; Some (fb_add (length g) b') }
      else Some b)"
| "log_put (LChar c) b = fb_append [c] b"
| "log_put (LCStr None) b = fb_append ''(null)'' b"
| "log_put (LCStr (Some s)) b = fb_append s b"
| "log_put (LString s) b = fb_append s b"
| "log_put (LBuffer x) b = fb_append (fb_toString x) b"
| "log_put (LTemplate s) b = fb_append s b"

section \<open>Logger\<close>

datatype LogLevel = TRACE | DEBUG | INFO | WARN | ERROR | FATAL

definition level_num :: "LogLevel \<Rightarrow> nat" where
  "level_num l = (case l of TRACE \<Rightarrow> 0 | DEBUG \<Rightarrow> 1 | INFO \<Rightarrow> 2 | WARN \<Rightarrow> 3 | ERROR \<Rightarrow> 4 | FATAL \<Rightarrow> 5)"

text \<open>The table of names, each with its terminating zero byte.\<close>

definition getLevelName :: "string list" where
  "getLevelName = map (\<lambda>s. s @ [CHR 0x00])
     [''TRACE '', ''DEBUG'', ''INFO '', ''WARN '', ''ERROR '', ''FATAL '']"

definition initLogLevel :: LogLevel where "initLogLevel = INFO"

text \<open>The macros: \<^verbatim>\<open>LOG_DEBUG\<close> and \<^verbatim>\<open>LOG_INFO\<close> test the global level, the others do not.\<close>

definition log_enabled :: "LogLevel \<Rightarrow> LogLevel \<Rightarrow> bool" where
  "log_enabled g level =
     (case level of DEBUG \<Rightarrow> level_num g \<le> level_num DEBUG
      | INFO \<Rightarrow> level_num g \<le> level_num INFO | _ \<Rightarrow> True)"

definition basename :: "string \<Rightarrow> string" where
  "basename filename = rev (takeWhile (\<lambda>c. c \<noteq> CHR ''/'') (rev filename))"

definition formatTime :: "(int \<Rightarrow> tm) \<Rightarrow> timestamp \<Rightarrow> FixedBuffer \<Rightarrow> FixedBuffer option" where
  "formatTime localtime now b =
     (let seconds = c_div now kMicroSecondsPerSecond;
          microSec = c_mod now kMicroSecondsPerSecond;
          t_time = snprintf_buf 64 (format_tm (localtime seconds));
          buf = snprintf_buf 32 (pad_left (CHR ''0'') 6 (fmt_d microSec)) in
      do {
        b1 \<leftarrow> log_put (LTemplate (take 17 (t_time @ replicate 17 (CHR 0x00)))) b;
        log_put (LTemplate (take 7 (buf @ replicate 32 (CHR 0x00)))) b1 })"

record Logger =
  lg_level :: LogLevel
  lg_line :: int
  lg_file :: string
  lg_stream :: FixedBuffer

definition Logger_Impl ::
    "(int \<Rightarrow> tm) \<Rightarrow> (int \<Rightarrow> string) \<Rightarrow> timestamp \<Rightarrow> string \<Rightarrow> LogLevel \<Rightarrow> int \<Rightarrow> string \<Rightarrow> int \<Rightarrow>
       Logger option" where
  "Logger_Impl localtime strerror now mem level savedErrno file line = do {
     b1 \<leftarrow> formatTime localtime now (FixedBuffer_new mem);
     b2 \<leftarrow> log_put (LTemplate (take 6 (getLevelName ! level_num level))) b1;
     b3 \<leftarrow> (if savedErrno \<noteq> 0
            then foldM log_put [LCStr (Some (strerror savedErrno)), LCStr (Some '' errno is ''),
                   LInt savedErrno] b2
            else Some b2);
     Some \<lparr>lg_level = level, lg_line = line, lg_file = basename file, lg_stream = b3\<rparr> }"

definition Logger_func ::
    "(int \<Rightarrow> tm) \<Rightarrow> (int \<Rightarrow> string) \<Rightarrow> timestamp \<Rightarrow> string \<Rightarrow> LogLevel \<Rightarrow> string option \<Rightarrow> string \<Rightarrow>
       int \<Rightarrow> Logger option" where
  "Logger_func localtime strerror now mem level func file line = do {
     lg \<leftarrow> Logger_Impl localtime strerror now mem level 0 file line;
     case func of None \<Rightarrow> Some lg
     | Some f \<Rightarrow> do { b \<leftarrow> foldM log_put [LCStr (Some f), LChar (CHR '' '')] (lg_stream lg);
                       Some (lg\<lparr>lg_stream := b\<rparr>) } }"

definition Logger_finish :: "Logger \<Rightarrow> Logger option" where
  "Logger_finish lg = do {
     b \<leftarrow> foldM log_put [LCStr (Some '' - ''), LTemplate (lg_file lg), LCStr (Some '' : ''),
            LInt (lg_line lg), LCStr (Some [CHR 0x0A])] (lg_stream lg);
     Some (lg\<lparr>lg_stream := b\<rparr>) }"

text \<open>What the destructor hands to the output function, and whether it aborts.\<close>

definition Logger_destroy :: "Logger \<Rightarrow> (string \<times> bool) option" where
  "Logger_destroy lg = do {
     lg' \<leftarrow> Logger_finish lg;
     let buf = lg_stream lg';
     Some (take (fb_length buf) (fb_data buf), lg_level lg' = FATAL) }"

section \<open>Invariant of the fixed buffer\<close>

definition fb_inv :: "FixedBuffer \<Rightarrow> bool" where
  "fb_inv b \<longleftrightarrow> fb_cur b \<le> length (fb_data b) \<and> length (fb_data b) = kSmallBuffer"

definition fb_text :: "FixedBuffer \<Rightarrow> string" where
  "fb_text b = take (fb_cur b) (fb_data b)"

lemma fb_inv_avail [simp]: "fb_inv b \<Longrightarrow> fb_avail b = kSmallBuffer - fb_cur b"
  by (simp add: fb_inv_def fb_avail_def)

lemma fb_inv_new [simp]: "length mem = kSmallBuffer \<Longrightarrow> fb_inv (FixedBuffer_new mem)"
  by (simp add: fb_inv_def FixedBuffer_new_def)

lemma fb_text_new [simp]: "fb_text (FixedBuffer_new mem) = []"
  by (simp add: fb_text_def FixedBuffer_new_def)

lemma fb_write_ok:
  assumes "fb_inv b" and "fb_cur b + length s \<le> kSmallBuffer" and "n \<le> length s"
  shows "\<exists>b'. fb_write s b = Some b' \<and> fb_inv (fb_add n b') \<and>
    fb_text (fb_add n b') = fb_text b @ take n s"
proof -
  let ?v = "take (fb_cur b) (fb_data b) @ s @ drop (fb_cur b + length s) (fb_data b)"
  have "fb_write s b = Some (b\<lparr>fb_data := ?v\<rparr>)"
    using assms by (simp add: fb_write_def copy_in_def fb_inv_def)
  moreover have "take (fb_cur b + n) ?v = take (fb_cur b) (fb_data b) @ take n s"
    using assms by (simp add: fb_inv_def)
  moreover have "length ?v = kSmallBuffer" using assms by (simp add: fb_inv_def)
  ultimately show ?thesis
    using assms by (auto simp: fb_inv_def fb_add_def fb_text_def)
qed

lemma fb_append_ok:
  assumes "fb_inv b"
  shows "\<exists>b'. fb_append s b = Some b' \<and> fb_inv b' \<and>
    fb_text b' = fb_text b @ (if length s < kSmallBuffer - fb_cur b then s else [])"
proof (cases "length s < kSmallBuffer - fb_cur b")
  case True
  then have "fb_cur b + length s \<le> kSmallBuffer" by simp
  from fb_write_ok [OF assms this order_refl] True assms show ?thesis
    by (auto simp: fb_append_def)
qed (use assms in \<open>simp add: fb_append_def\<close>)

section \<open>Integer formatting\<close>

lemma digits_table_digit:
  assumes "-10 < r" and "r < 10"
  shows "digits_table ! nat (9 + r) = digit (nat \<bar>r\<bar>)"
proof -
  have "r \<in> {-9..9}" using assms by auto
  then have "r \<in> set [-9..9]" by (simp only: set_upto)
  moreover have "\<forall>r\<in>set [-9..9]. digits_table ! nat (9 + r) = digit (nat \<bar>r\<bar>)"
    by code_simp
  ultimately show ?thesis by blast
qed

lemma rev_digit_loop: "rev (digit_loop num) = dec_nat (nat \<bar>num\<bar>)"
proof (induction num rule: digit_loop.induct)
  case (1 num)
  have m: "c_mod num 10 = (if num < 0 then - (\<bar>num\<bar> mod 10) else \<bar>num\<bar> mod 10)"
    and d: "c_div num 10 = (if num < 0 then - (\<bar>num\<bar> div 10) else \<bar>num\<bar> div 10)"
    by simp_all
  have c: "digits_table ! nat (9 + c_mod num 10) = digit (nat \<bar>num\<bar> mod 10)"
  proof -
    define x where "x = \<bar>num\<bar> mod 10"
    have x: "0 \<le> x" "x < 10" and mx: "c_mod num 10 = (if num < 0 then - x else x)"
      using m by (simp_all only: x_def)
    then have "-10 < c_mod num 10" "c_mod num 10 < 10" "\<bar>c_mod num 10\<bar> = x"
      by (simp_all del: c_mod_neg c_mod_nonneg)
    moreover from this have "digits_table ! nat (9 + c_mod num 10) = digit (nat \<bar>c_mod num 10\<bar>)"
      by (intro digits_table_digit)
    ultimately show ?thesis by (simp add: x_def nat_mod_distrib del: c_mod_neg c_mod_nonneg)
  qed
  have a: "nat \<bar>c_div num 10\<bar> = nat \<bar>num\<bar> div 10" using d by (simp add: nat_div_distrib)
  have z: "c_div num 10 \<noteq> 0 \<longleftrightarrow> \<not> nat \<bar>num\<bar> < 10" using d by (simp, linarith)
  show ?case
    using "1.IH" c a z
    by (subst digit_loop.simps, subst dec_nat.simps) (simp add: Let_def)
qed

lemma length_digit_loop: "\<bar>num\<bar> < 10 ^ 20 \<Longrightarrow> length (digit_loop num) \<le> 20"
  using length_dec_nat [of 20 "nat \<bar>num\<bar>"] rev_digit_loop [of num]
  by (metis length_rev nat_less_iff abs_ge_zero zero_less_numeral of_nat_numeral of_nat_power)

section \<open>Rendering of items\<close>

fun render :: "log_item \<Rightarrow> string" where
  "render (LInt v) = fmt_d v"
| "render (LDouble g) = g"
| "render (LChar c) = [c]"
| "render (LCStr None) = ''(null)''"
| "render (LCStr (Some s)) = s"
| "render (LString s) = s"
| "render (LBuffer x) = fb_toString x"
| "render (LTemplate s) = s"

text \<open>Integers of at most 64 bits, and \<^verbatim>\<open>%.12g\<close> output within its 48 bytes.\<close>

fun item_ok :: "log_item \<Rightarrow> bool" where
  "item_ok (LInt v) = (\<bar>v\<bar> < 2 ^ 64)"
| "item_ok (LDouble g) = (length g < 48)"
| "item_ok _ = True"

lemma formatInteger_ok:
  assumes inv: "fb_inv b" and v: "\<bar>num\<bar> < 2 ^ 64"
  shows "\<exists>b'. formatInteger num b = Some b' \<and> fb_inv b' \<and>
    fb_text b' = fb_text b @ (if fb_cur b + kMaxNumberSize \<le> kSmallBuffer then fmt_d num else [])"
proof (cases "fb_cur b + kMaxNumberSize \<le> kSmallBuffer")
  case True
  define cs where "cs = digit_loop num @ (if num < 0 then ''-'' else [])"
  have len: "length cs \<le> 21" using length_digit_loop [of num] v by (simp add: cs_def)
  have rev: "rev cs = fmt_d num" by (simp add: rev_digit_loop fmt_d_def cs_def)
  have "fb_cur b + length (rev cs @ [CHR 0x00]) \<le> kSmallBuffer"
    using True len by (simp add: kMaxNumberSize_def)
  from fb_write_ok [OF inv this, of "length cs"]
  obtain b' where b': "fb_write (rev cs @ [CHR 0x00]) b = Some b'" "fb_inv (fb_add (length cs) b')"
      "fb_text (fb_add (length cs) b') = fb_text b @ rev cs"
    by auto
  have "kMaxNumberSize \<le> fb_avail b" using True inv by simp
  then have "formatInteger num b = Some (fb_add (length cs) b')"
    using b'(1) by (simp add: formatInteger_def Let_def cs_def [symmetric])
  then show ?thesis
    using b'(2,3) True rev by simp
next
  case False
  then have "\<not> kMaxNumberSize \<le> fb_avail b"
    using inv by (simp add: kMaxNumberSize_def kSmallBuffer_def)
  then show ?thesis using inv False by (simp add: formatInteger_def)
qed

lemma log_put_ok:
  assumes inv: "fb_inv b" and ok: "item_ok i"
  shows "\<exists>b' k. log_put i b = Some b' \<and> fb_inv b' \<and>
    fb_text b' = fb_text b @ (if k then render i else []) \<and>
    (fb_cur b + length (render i) + 48 \<le> kSmallBuffer \<longrightarrow> k)"
proof -
  have app: "\<exists>b' k. fb_append s b = Some b' \<and> fb_inv b' \<and>
      fb_text b' = fb_text b @ (if k then s else []) \<and>
      (fb_cur b + length s + 48 \<le> kSmallBuffer \<longrightarrow> k)" for s
  proof -
    obtain b' where "fb_append s b = Some b'" "fb_inv b'"
        "fb_text b' = fb_text b @ (if length s < kSmallBuffer - fb_cur b then s else [])"
      using fb_append_ok [OF inv] by blast
    then show ?thesis by (intro exI [of _ b'] exI [of _ "length s < kSmallBuffer - fb_cur b"]) auto
  qed
  show ?thesis
  proof (cases i)
    case (LInt v)
    then obtain b' where "formatInteger v b = Some b'" "fb_inv b'" "fb_text b' = fb_text b @
        (if fb_cur b + kMaxNumberSize \<le> kSmallBuffer then fmt_d v else [])"
      using formatInteger_ok [OF inv, of v] ok by auto
    then show ?thesis using LInt
      by (intro exI [of _ b'] exI [of _ "fb_cur b + kMaxNumberSize \<le> kSmallBuffer"])
         (simp add: kMaxNumberSize_def)
  next
    case (LDouble g)
    show ?thesis
    proof (cases "fb_cur b + 48 \<le> kSmallBuffer")
      case True
      have g: "take (kMaxNumberSize - 1) g = g" using ok LDouble by (simp add: kMaxNumberSize_def)
      have "fb_cur b + length (g @ [CHR 0x00]) \<le> kSmallBuffer" using True ok LDouble by simp
      from fb_write_ok [OF inv this, of "length g"]
      obtain b' where "fb_write (g @ [CHR 0x00]) b = Some b'" "fb_inv (fb_add (length g) b')"
          "fb_text (fb_add (length g) b') = fb_text b @ g"
        by auto
      then show ?thesis using True inv g LDouble
        by (intro exI [of _ "fb_add (length g) b'"] exI [of _ True]) (simp add: kMaxNumberSize_def)
    next
      case False
      then have "\<not> kMaxNumberSize \<le> fb_avail b"
        using inv by (simp add: kMaxNumberSize_def kSmallBuffer_def)
      with False show ?thesis using inv LDouble
        by (intro exI [of _ b] exI [of _ False]) simp
    qed
  next
    case (LCStr x)
    then have "log_put i b = fb_append (render i) b" by (cases x) simp_all
    with app [of "render i"] show ?thesis by metis
  qed (use app [of "render i"] in simp_all)
qed

lemma fb_inv_cur: "fb_inv b \<Longrightarrow> fb_cur b = length (fb_text b)"
  by (simp add: fb_inv_def fb_text_def)

lemma log_puts_ok:
  assumes "fb_inv b" and "\<forall>i\<in>set its. item_ok i"
  shows "\<exists>b' ks. foldM log_put its b = Some b' \<and> fb_inv b' \<and> length ks = length its \<and>
    fb_text b' = fb_text b @ concat (map2 (\<lambda>i k. if k then render i else []) its ks) \<and>
    (fb_cur b + length (concat (map render its)) + 48 \<le> kSmallBuffer \<longrightarrow> (\<forall>k\<in>set ks. k))"
  using assms
proof (induction its arbitrary: b)
  case (Cons i its)
  obtain b1 k where b1: "log_put i b = Some b1" "fb_inv b1"
      "fb_text b1 = fb_text b @ (if k then render i else [])"
      "fb_cur b + length (render i) + 48 \<le> kSmallBuffer \<longrightarrow> k"
    using log_put_ok [OF Cons.prems(1), of i] Cons.prems(2) by auto
  obtain b' ks where b': "foldM log_put its b1 = Some b'" "fb_inv b'" "length ks = length its"
      "fb_text b' = fb_text b1 @ concat (map2 (\<lambda>i k. if k then render i else []) its ks)"
      "fb_cur b1 + length (concat (map render its)) + 48 \<le> kSmallBuffer \<longrightarrow> (\<forall>k\<in>set ks. k)"
    using Cons.IH [OF b1(2)] Cons.prems(2) by auto
  have "fb_cur b1 \<le> fb_cur b + length (render i)"
    using b1(3) fb_inv_cur [OF b1(2)] fb_inv_cur [OF Cons.prems(1)] by simp
  then show ?case
    using b1 b' by (intro exI [of _ b'] exI [of _ "k # ks"]) auto
qed simp

lemma log_puts_all:
  assumes "fb_inv b" and "\<forall>i\<in>set its. item_ok i"
    and "fb_cur b + length (concat (map render its)) + 48 \<le> kSmallBuffer"
  shows "\<exists>b'. foldM log_put its b = Some b' \<and> fb_inv b' \<and>
    fb_text b' = fb_text b @ concat (map render its)"
proof -
  obtain b' ks where b': "foldM log_put its b = Some b'" "fb_inv b'" "length ks = length its"
      "fb_text b' = fb_text b @ concat (map2 (\<lambda>i k. if k then render i else []) its ks)"
      "\<forall>k\<in>set ks. k"
    using log_puts_ok [OF assms(1,2)] assms(3) by auto
  have "map2 (\<lambda>i k. if k then render i else []) its ks = map render its"
    using b'(3,5) by (induction its ks rule: list_induct2') auto
  with b' show ?thesis by auto
qed

section \<open>Properties\<close>

text \<open>
  \<^verbatim>\<open>formatInteger\<close> prints like \<^verbatim>\<open>%d\<close>. For every value of every integer type the
  stream accepts (including the smallest negative one, which is never negated), the digits written
  through the mirrored table and reversed in place are the decimal representation; the write stays
  inside the array, and nothing is written when fewer than 48 bytes are free.
\<close>

theorem formatInteger_correct:
  assumes "fb_inv b" and "\<bar>num\<bar> < 2 ^ 64"
  shows "\<exists>b'. formatInteger num b = Some b' \<and> fb_inv b' \<and>
    fb_text b' = fb_text b @ (if 48 \<le> fb_avail b then fmt_d num else [])"
proof -
  have "fb_cur b + kMaxNumberSize \<le> kSmallBuffer \<longleftrightarrow> 48 \<le> fb_avail b"
    using assms(1) by (auto simp: kMaxNumberSize_def kSmallBuffer_def)
  with formatInteger_ok [OF assms] show ?thesis by simp
qed

theorem formatInteger_correct_witness:
  "\<exists>b'. formatInteger (- 9223372036854775808) (FixedBuffer_new (replicate 4000 CR)) = Some b' \<and>
     fb_inv b' \<and> fb_text b' = fmt_d (- 9223372036854775808)"
  using formatInteger_correct [of "FixedBuffer_new (replicate 4000 CR)" "- 9223372036854775808"]
  by (simp add: kSmallBuffer_def FixedBuffer_new_def fb_inv_def fb_text_def)

text \<open>
  C39. A log line never overflows its buffer, and items are all or nothing. Any sequence of insertions
  succeeds without leaving the 4000-byte array; the text grows by the rendering of each item or not at
  all, never by a part of it; and if everything fits with 48 bytes to spare, all of it is there.
\<close>

theorem log_stream_all_or_nothing:
  assumes "fb_inv b" and "\<forall>i\<in>set its. item_ok i"
  shows "\<exists>b' ks. foldM log_put its b = Some b' \<and> fb_inv b' \<and> length ks = length its \<and>
    fb_text b' = fb_text b @ concat (map2 (\<lambda>i k. if k then render i else []) its ks) \<and>
    (length (fb_text b) + length (concat (map render its)) + 48 \<le> 4000 \<longrightarrow> (\<forall>k\<in>set ks. k))"
  using log_puts_ok [OF assms] fb_inv_cur [OF assms(1)] by (simp add: kSmallBuffer_def)

theorem log_stream_all_or_nothing_witness:
  "\<exists>b'. foldM log_put [LCStr (Some ''fd=''), LCStr (Some ''x'')] (FixedBuffer_new (replicate 4000 CR)) = Some b' \<and>
     fb_inv b' \<and> fb_text b' = ''fd=x''"
proof -
  let ?its = "[LCStr (Some ''fd=''), LCStr (Some ''x'')]" and ?b = "FixedBuffer_new (replicate 4000 CR)"
  obtain b' ks where b': "foldM log_put ?its ?b = Some b'" "fb_inv b'" "length ks = length ?its"
      "fb_text b' = fb_text ?b @ concat (map2 (\<lambda>i k. if k then render i else []) ?its ks)"
      "length (fb_text ?b) + length (concat (map render ?its)) + 48 \<le> 4000 \<longrightarrow> (\<forall>k\<in>set ks. k)"
    using log_stream_all_or_nothing [of ?b ?its] by (auto simp: kSmallBuffer_def)
  moreover have "fb_text ?b = []" by (simp add: fb_text_def FixedBuffer_new_def)
  ultimately have "\<forall>k\<in>set ks. k" "length ks = 2" by simp_all
  then obtain k1 k2 where "ks = [k1, k2]" "k1" "k2"
    by (auto simp: numeral_2_eq_2 length_Suc_conv)
  with b' \<open>fb_text ?b = []\<close> show ?thesis by auto
qed

text \<open>
  What the logger emits. The destructor passes \<^verbatim>\<open>data()\<close> and \<^verbatim>\<open>length()\<close> to the
  output function, and \<^verbatim>\<open>length()\<close> is the capacity: every log line is 4000 bytes, the text
  followed by whatever the uninitialised array held; and the process is aborted exactly on \<open>FATAL\<close>.
\<close>

theorem logger_emits_capacity:
  assumes "fb_inv (lg_stream lg)" and "\<bar>lg_line lg\<bar> < 2 ^ 31"
  shows "\<exists>out. Logger_destroy lg = Some (out, lg_level lg = FATAL) \<and> length out = 4000 \<and>
    (\<exists>rest. out = fb_text (lg_stream lg) @ rest)"
proof -
  let ?is = "[LCStr (Some '' - ''), LTemplate (lg_file lg), LCStr (Some '' : ''),
            LInt (lg_line lg), LCStr (Some [CHR 0x0A])]"
  have "\<forall>i\<in>set ?is. item_ok i" using assms(2) by simp
  from log_puts_ok [OF assms(1) this] obtain b' u where
    b': "foldM log_put ?is (lg_stream lg) = Some b'" "fb_inv b'" "fb_text b' = fb_text (lg_stream lg) @ u"
    by blast
  have "take (fb_cur b') (fb_data b') @ drop (fb_cur b') (fb_data b') = fb_data b'" by simp
  then have "fb_data b' = fb_text (lg_stream lg) @ u @ drop (fb_cur b') (fb_data b')"
    using b'(3) by (metis append_assoc fb_text_def)
  moreover have "Logger_destroy lg = Some (fb_data b', lg_level lg = FATAL)"
    using b'(1) by (simp add: Logger_destroy_def Logger_finish_def fb_length_def)
  ultimately show ?thesis using b'(2) by (auto simp: fb_inv_def kSmallBuffer_def)
qed

theorem logger_emits_capacity_witness:
  "\<exists>out. Logger_destroy \<lparr>lg_level = INFO, lg_line = 3, lg_file = ''a.cpp'',
       lg_stream = FixedBuffer_new (replicate 4000 CR)\<rparr> = Some (out, False) \<and> length out = 4000"
  using logger_emits_capacity [of "\<lparr>lg_level = INFO, lg_line = 3, lg_file = ''a.cpp'',
       lg_stream = FixedBuffer_new (replicate 4000 CR)\<rparr>"]
  by (auto simp: kSmallBuffer_def)

text \<open>
  The head of a log line. A logger built without an error number starts its line with the date,
  hours and minutes, the microseconds as six digits, a zero byte and six bytes of the level name: the
  \<open>17\<close> bytes taken from the 19-byte time text end right before the seconds, which never appear.
\<close>

theorem logger_head:
  assumes mem: "length mem = 4000" and t: "tm_wf (localtime (getSecond now))" and now: "0 \<le> now"
  shows "\<exists>lg. Logger_Impl localtime strerror now mem level 0 file line = Some lg \<and>
    fb_inv (lg_stream lg) \<and>
    (let t = localtime (getSecond now) in
     fb_text (lg_stream lg) =
       pad_left (CHR '' '') 4 (fmt_d (tm_year t + 1900)) @ ''/'' @ pad2 (tm_mon t + 1) @ ''/'' @
       pad2 (tm_mday t) @ '' '' @ pad2 (tm_hour t) @ '':'' @ pad2 (tm_min t) @ '':'' @
       pad_left (CHR ''0'') 6 (fmt_d (now mod 1000000)) @ [CHR 0x00] @
       take 6 (getLevelName ! level_num level))"
proof -
  let ?t = "localtime (getSecond now)"
  let ?us = "pad_left (CHR ''0'') 6 (fmt_d (now mod 1000000))"
  define hm where "hm = pad_left (CHR '' '') 4 (fmt_d (tm_year ?t + 1900)) @ ''/'' @
       pad2 (tm_mon ?t + 1) @ ''/'' @ pad2 (tm_mday ?t) @ '' '' @ pad2 (tm_hour ?t) @ '':'' @
       pad2 (tm_min ?t) @ '':''"
  have us: "length ?us = 6" using length_fmt_d_less [of 6 "now mod 1000000"] by simp
  have sec: "length (pad2 (tm_sec ?t)) = 2" using t by (intro length_pad2) (simp_all add: tm_wf_def)
  have fmt: "format_tm ?t = hm @ pad2 (tm_sec ?t)" by (simp add: format_tm_def hm_def)
  have hm: "length hm = 17"
    using length_format_tm [OF t] sec unfolding fmt length_append by linarith
  have i1: "take 17 (snprintf_buf 64 (format_tm ?t) @ replicate 17 (CHR 0x00)) = hm"
    using fmt hm sec by (simp add: snprintf_buf_def)
  have i2: "take 7 (snprintf_buf 32 ?us @ replicate 32 (CHR 0x00)) = ?us @ [CHR 0x00]"
    using us by (simp add: snprintf_buf_def numeral_eq_Suc)
  have m: "c_mod now kMicroSecondsPerSecond = now mod 1000000"
    using now by (simp add: kMicroSecondsPerSecond_def)
  let ?lv = "take 6 (getLevelName ! level_num level)"
  have "length ?lv \<le> 6" by simp
  then have "\<exists>b'. foldM log_put [LTemplate hm, LTemplate (?us @ [CHR 0x00]), LTemplate ?lv]
      (FixedBuffer_new mem) = Some b' \<and> fb_inv b' \<and> fb_text b' = hm @ ?us @ [CHR 0x00] @ ?lv"
    using log_puts_all [of "FixedBuffer_new mem" "[LTemplate hm, LTemplate (?us @ [CHR 0x00]), LTemplate ?lv]"]
      mem us hm by (simp add: kSmallBuffer_def FixedBuffer_new_def fb_inv_def fb_text_def del: length_take)
  then show ?thesis
    unfolding Logger_Impl_def formatTime_def getSecond_def [symmetric] Let_def
    using i1 i2 m by (auto simp: hm_def getSecond_def bind_eq_Some_conv simp del: length_pad_left)
qed

theorem logger_head_witness:
  "\<exists>lg. Logger_Impl
      (\<lambda>s. \<lparr>tm_year = 124, tm_mon = 0, tm_mday = 2, tm_hour = 3, tm_min = 4, tm_sec = s mod 60\<rparr>)
      (\<lambda>e. []) 5000006 (replicate 4000 CR) ERROR 0 ''src/a.cpp'' 12 = Some lg \<and> fb_inv (lg_stream lg) \<and>
    fb_text (lg_stream lg) = ''2024/01/02 03:04:000006'' @ [CHR 0x00] @ ''ERROR ''"
proof -
  let ?lt = "\<lambda>s. \<lparr>tm_year = 124, tm_mon = 0, tm_mday = 2, tm_hour = 3, tm_min = 4, tm_sec = s mod 60\<rparr>"
  have s: "getSecond 5000006 = 5" by (simp add: getSecond_def kMicroSecondsPerSecond_def)
  have t: "tm_wf (?lt (getSecond 5000006))" by (simp add: tm_wf_def s)
  have "pad_left (CHR '' '') 4 (fmt_d 2024) = ''2024''" "pad2 1 = ''01''" "pad2 2 = ''02''"
      "pad2 3 = ''03''" "pad2 4 = ''04''" "pad_left (CHR ''0'') 6 (fmt_d 6) = ''000006''"
    by code_simp+
  then show ?thesis
    using logger_head [of "replicate 4000 CR" ?lt 5000006 "\<lambda>e. []" ERROR "''src/a.cpp''" 12] t s
    by (simp add: getLevelName_def level_num_def)
qed

lemma basename_spec: "CHR ''/'' \<notin> set (basename f) \<and> (\<exists>d. f = d @ basename f)"
proof -
  have "rev f = takeWhile (\<lambda>c. c \<noteq> CHR ''/'') (rev f) @ dropWhile (\<lambda>c. c \<noteq> CHR ''/'') (rev f)" by simp
  then have "f = rev (dropWhile (\<lambda>c. c \<noteq> CHR ''/'') (rev f)) @ basename f"
    by (metis basename_def rev_append rev_rev_ident)
  moreover have "CHR ''/'' \<notin> set (basename f)" by (auto simp: basename_def dest: set_takeWhileD)
  ultimately show ?thesis by blast
qed

end
