(* ===== verification/Turn_Taking.thy ===== *)
theory Turn_Taking
  imports Prelude
begin

text \<open>
  Threads that take turns at printing: the two solutions of \<^verbatim>\<open>any/concurrency/LT_1195_fizzbuzz.cpp\<close>
  (a condition variable, an atomic counter) and the three of
  \<^verbatim>\<open>any/concurrency/LT_1115_foobar.cpp\<close> (semaphores, a condition variable, an atomic counter).
  Each is a step relation over the shared object and one program counter per thread: a critical
  section under a mutex is one step, and so is every access of an atomic. A thread inside
  \<^verbatim>\<open>wait\<close> may wake up spuriously at any time. The counters are 32-bit integers: an atomic one wraps
  around; for a plain \<^verbatim>\<open>int\<close>, whose overflow is undefined, the model wraps too and the theorems
  keep it within its range.
\<close>

section \<open>Output in sequence\<close>

text \<open>
  What all five promise, whatever the schedule, when the request is within the range \<open>ok\<close> of
  their counters: the output of every reachable state is an initial part of one fixed sequence.
\<close>

locale sequenced =
  fixes ok :: bool and init :: 's and step :: "'s \<Rightarrow> 's \<Rightarrow> bool" and inv :: "'s \<Rightarrow> bool"
    and printed :: "'s \<Rightarrow> 'o list" and nth_out :: "nat \<Rightarrow> 'o" and total :: nat
  assumes init_inv: "ok \<Longrightarrow> inv init"
    and step_inv: "inv s \<Longrightarrow> step s s' \<Longrightarrow> inv s'"
    and inv_out: "inv s \<Longrightarrow> printed s = map nth_out [0..<length (printed s)] \<and> length (printed s) \<le> total"
begin

lemma reach_inv: "step\<^sup>*\<^sup>* init s \<Longrightarrow> ok \<Longrightarrow> inv s"
  by (induction rule: rtranclp_induct) (auto intro: init_inv step_inv)

lemma in_sequence:
  "step\<^sup>*\<^sup>* init s \<Longrightarrow> ok \<Longrightarrow> printed s = map nth_out [0..<length (printed s)] \<and> length (printed s) \<le> total"
  using reach_inv inv_out by blast

end

section \<open>FizzBuzz\<close>

datatype role = Fizz | Buzz | FizzBuzz | Number
datatype fb_out = Print_fizz | Print_buzz | Print_fizzbuzz | Print_number int

text \<open>The conditions of the four threads.\<close>

fun fb_guard :: "role \<Rightarrow> int \<Rightarrow> bool" where
  "fb_guard Fizz idx = (c_mod idx 3 = 0 \<and> c_mod idx 5 \<noteq> 0)"
| "fb_guard Buzz idx = (c_mod idx 3 \<noteq> 0 \<and> c_mod idx 5 = 0)"
| "fb_guard FizzBuzz idx = (c_mod idx 3 = 0 \<and> c_mod idx 5 = 0)"
| "fb_guard Number idx = (c_mod idx 3 \<noteq> 0 \<and> c_mod idx 5 \<noteq> 0)"

fun fb_print :: "role \<Rightarrow> int \<Rightarrow> fb_out" where
  "fb_print Fizz idx = Print_fizz"
| "fb_print Buzz idx = Print_buzz"
| "fb_print FizzBuzz idx = Print_fizzbuzz"
| "fb_print Number idx = Print_number idx"

text \<open>What the exercise asks for.\<close>

definition fizzbuzz_spec :: "nat \<Rightarrow> fb_out" where
  "fizzbuzz_spec i =
     (let k = i + 1 in
      if 15 dvd k then Print_fizzbuzz else if 3 dvd k then Print_fizz
      else if 5 dvd k then Print_buzz else Print_number (int k))"

subsection \<open>With a condition variable\<close>

datatype fb_thread = Running | Blocked | Returned

record fizzbuzz =
  fb_idx :: int
  fb_printed :: "fb_out list"
  fb_th :: "role \<Rightarrow> fb_thread"

definition fizzbuzz_new :: fizzbuzz where
  "fizzbuzz_new = \<lparr>fb_idx = 1, fb_printed = [], fb_th = (\<lambda>_. Running)\<rparr>"

definition notify_all :: "(role \<Rightarrow> fb_thread) \<Rightarrow> role \<Rightarrow> fb_thread" where
  "notify_all th = (\<lambda>r. if th r = Blocked then Running else th r)"

text \<open>
  One pass of a thread's loop, from taking the mutex to giving it up; \<open>w\<close> is the thread that
  \<^verbatim>\<open>notify_one\<close> picks, a waiting one if there is any.
\<close>

definition fb_pass :: "int \<Rightarrow> role \<Rightarrow> role \<Rightarrow> fizzbuzz \<Rightarrow> fizzbuzz" where
  "fb_pass n r w s =
     (if \<not> (fb_idx s > n \<or> fb_guard r (fb_idx s)) then s\<lparr>fb_th := (fb_th s)(r := Blocked)\<rparr>
      else if fb_idx s > n then
        (let th = (if fb_th s w = Blocked then (fb_th s)(w := Running) else fb_th s) in
         s\<lparr>fb_th := th(r := Returned)\<rparr>)
      else s\<lparr>fb_printed := fb_printed s @ [fb_print r (fb_idx s)], fb_idx := int32 (fb_idx s + 1),
             fb_th := notify_all (fb_th s)\<rparr>)"

inductive fb_step :: "int \<Rightarrow> fizzbuzz \<Rightarrow> fizzbuzz \<Rightarrow> bool" for n where
  pass: "fb_th s r = Running \<Longrightarrow> fb_th s w = Blocked \<or> (\<forall>q. fb_th s q \<noteq> Blocked) \<Longrightarrow> fb_step n s (fb_pass n r w s)"
| spurious: "fb_th s r = Blocked \<Longrightarrow> fb_step n s (s\<lparr>fb_th := (fb_th s)(r := Running)\<rparr>)"

subsection \<open>With an atomic counter\<close>

datatype fa_thread = A_load | A_check int | A_add | A_returned

record fizzbuzz_atomic =
  fa_ati :: int
  fa_printed :: "fb_out list"
  fa_th :: "role \<Rightarrow> fa_thread"

definition fizzbuzz_atomic_new :: fizzbuzz_atomic where
  "fizzbuzz_atomic_new = \<lparr>fa_ati = 1, fa_printed = [], fa_th = (\<lambda>_. A_load)\<rparr>"

text \<open>The fizzbuzz thread tests divisibility by 15 here.\<close>

definition fa_guard :: "role \<Rightarrow> int \<Rightarrow> bool" where
  "fa_guard r t2 = (if r = FizzBuzz then c_mod t2 15 = 0 else fb_guard r t2)"

definition fa_pass :: "int \<Rightarrow> role \<Rightarrow> fizzbuzz_atomic \<Rightarrow> fizzbuzz_atomic" where
  "fa_pass n r s =
     (case fa_th s r of
        A_load \<Rightarrow> s\<lparr>fa_th := (fa_th s)(r := A_check (fa_ati s))\<rparr>
      | A_check t2 \<Rightarrow>
          (if t2 > n then s\<lparr>fa_th := (fa_th s)(r := A_returned)\<rparr>
           else if fa_guard r t2
           then s\<lparr>fa_printed := fa_printed s @ [fb_print r t2], fa_th := (fa_th s)(r := A_add)\<rparr>
           else s\<lparr>fa_th := (fa_th s)(r := A_load)\<rparr>)
      | A_add \<Rightarrow> s\<lparr>fa_ati := int32 (fa_ati s + 1), fa_th := (fa_th s)(r := A_load)\<rparr>
      | A_returned \<Rightarrow> s)"

inductive fa_step :: "int \<Rightarrow> fizzbuzz_atomic \<Rightarrow> fizzbuzz_atomic \<Rightarrow> bool" for n where
  "fa_th s r \<noteq> A_returned \<Longrightarrow> fa_step n s (fa_pass n r s)"

subsection \<open>Turns\<close>

definition fb_turn :: "int \<Rightarrow> role" where
  "fb_turn i = (if 15 dvd i then FizzBuzz else if 3 dvd i then Fizz else if 5 dvd i then Buzz else Number)"

lemma fb_guard_turn: "0 < i \<Longrightarrow> fb_guard r i \<longleftrightarrow> r = fb_turn i"
proof -
  assume "0 < i"
  then have "c_mod i 3 = i mod 3" "c_mod i 5 = i mod 5" by simp_all
  moreover have "15 dvd i \<longleftrightarrow> i mod 3 = 0 \<and> i mod 5 = 0" by presburger
  ultimately show ?thesis
    by (cases r) (simp_all only: fb_guard.simps fb_turn_def dvd_eq_mod_eq_0 [of 3] dvd_eq_mod_eq_0 [of 5], auto)
qed

lemma fa_guard_turn: "0 < i \<Longrightarrow> fa_guard r i \<longleftrightarrow> r = fb_turn i"
proof -
  assume i: "0 < i"
  then have "c_mod i 15 = i mod 15" by simp
  then have "c_mod i 15 = 0 \<longleftrightarrow> fb_turn i = FizzBuzz" by (auto simp: fb_turn_def dvd_eq_mod_eq_0)
  with fb_guard_turn [OF i, of r] show ?thesis by (auto simp: fa_guard_def)
qed

lemma fizzbuzz_spec_turn: "fizzbuzz_spec i = fb_print (fb_turn (int i + 1)) (int i + 1)"
proof -
  have "k dvd i + 1 \<longleftrightarrow> int k dvd int i + 1" for k
    by (metis int_dvd_int_iff of_nat_1 of_nat_add)
  from this [of 15] this [of 3] this [of 5] show ?thesis
    by (auto simp: fizzbuzz_spec_def fb_turn_def Let_def)
qed

definition fb_inv :: "int \<Rightarrow> fizzbuzz \<Rightarrow> bool" where
  "fb_inv n s \<longleftrightarrow> n < 2 ^ 31 - 1 \<and> fb_idx s = 1 + int (length (fb_printed s)) \<and>
     fb_printed s = map fizzbuzz_spec [0..<length (fb_printed s)] \<and> length (fb_printed s) \<le> nat n \<and>
     (\<forall>r. fb_th s r = Blocked \<longrightarrow> fb_idx s \<le> n \<and> r \<noteq> fb_turn (fb_idx s)) \<and>
     (\<forall>r. fb_th s r = Returned \<longrightarrow> fb_idx s > n)"

lemma fb_pass_inv:
  assumes inv: "fb_inv n s" and run: "fb_th s r = Running"
  shows "fb_inv n (fb_pass n r w s)"
proof -
  note I = inv [unfolded fb_inv_def]
  have pos: "0 < fb_idx s" using I by simp
  show ?thesis
  proof (cases "fb_idx s > n")
    case True
    then show ?thesis using I by (auto simp: fb_pass_def fb_inv_def Let_def split: if_splits)
  next
    case le: False
    show ?thesis
    proof (cases "r = fb_turn (fb_idx s)")
      case True
      have tok: "fizzbuzz_spec (length (fb_printed s)) = fb_print r (fb_idx s)"
        using I True by (simp add: fizzbuzz_spec_turn add.commute)
      show ?thesis
        using I le True fb_guard_turn [OF pos, of r] tok
        by (auto simp: fb_pass_def fb_inv_def notify_all_def split: if_splits)
    next
      case False
      then show ?thesis using I le fb_guard_turn [OF pos, of r] by (auto simp: fb_pass_def fb_inv_def)
    qed
  qed
qed

interpretation fizzbuzz_cv: sequenced "n < 2 ^ 31 - 1" fizzbuzz_new "fb_step n" "fb_inv n" fb_printed fizzbuzz_spec "nat n" for n
proof
  show "fb_inv n fizzbuzz_new" if "n < 2 ^ 31 - 1" using that by (simp add: fb_inv_def fizzbuzz_new_def)
next
  fix s s' assume "fb_inv n s" "fb_step n s s'"
  from this(2,1) show "fb_inv n s'"
  proof cases
    case (pass r w)
    then show ?thesis using fb_pass_inv \<open>fb_inv n s\<close> by simp
  next
    case (spurious r)
    then show ?thesis using \<open>fb_inv n s\<close> by (auto simp: fb_inv_def)
  qed
next
  fix s assume "fb_inv n s"
  then show "fb_printed s = map fizzbuzz_spec [0..<length (fb_printed s)] \<and> length (fb_printed s) \<le> nat n"
    by (simp add: fb_inv_def)
qed

definition fa_inv :: "int \<Rightarrow> fizzbuzz_atomic \<Rightarrow> bool" where
  "fa_inv n s \<longleftrightarrow> n < 2 ^ 31 - 1 \<and> 1 \<le> fa_ati s \<and>
     fa_printed s = map fizzbuzz_spec [0..<length (fa_printed s)] \<and> length (fa_printed s) \<le> nat n \<and>
     (\<forall>r. fa_th s r = A_add \<longrightarrow> fa_ati s \<le> n \<and> r = fb_turn (fa_ati s)) \<and>
     int (length (fa_printed s)) = fa_ati s - (if \<exists>r. fa_th s r = A_add then 0 else 1) \<and>
     (\<forall>r t. fa_th s r = A_check t \<longrightarrow> 1 \<le> t \<and> t \<le> fa_ati s \<and> (r = fb_turn t \<longrightarrow> t = fa_ati s)) \<and>
     (\<forall>r. fa_th s r = A_returned \<longrightarrow> fa_ati s > n)"

lemma fa_inv_quiet:
  assumes "fa_inv n s" and "fa_th s r \<noteq> A_add" and "pc \<noteq> A_add"
    and "\<And>t. pc = A_check t \<Longrightarrow> t = fa_ati s" and "pc = A_returned \<Longrightarrow> fa_ati s > n"
  shows "fa_inv n (s\<lparr>fa_th := (fa_th s)(r := pc)\<rparr>)"
proof -
  have "(\<exists>q. ((fa_th s)(r := pc)) q = A_add) \<longleftrightarrow> (\<exists>q. fa_th s q = A_add)"
    using assms(2,3) by (metis fun_upd_apply)
  then show ?thesis using assms by (auto simp: fa_inv_def)
qed

lemma fa_pass_inv:
  assumes inv: "fa_inv n s" and run: "fa_th s r \<noteq> A_returned"
  shows "fa_inv n (fa_pass n r s)"
proof (cases "fa_th s r")
  case A_load
  then show ?thesis using fa_inv_quiet [OF inv, of r "A_check (fa_ati s)"] by (simp add: fa_pass_def)
next
  case (A_check t)
  note I = inv [unfolded fa_inv_def]
  have t: "1 \<le> t" "t \<le> fa_ati s" "r = fb_turn t \<longrightarrow> t = fa_ati s" using I A_check by auto
  show ?thesis
  proof (cases "t > n \<or> r \<noteq> fb_turn t")
    case True
    then show ?thesis
      using A_check t fa_inv_quiet [OF inv, of r A_load] fa_inv_quiet [OF inv, of r A_returned] fa_guard_turn [of t r]
      by (auto simp: fa_pass_def)
  next
    case False
    then have eq: "t = fa_ati s" "r = fb_turn (fa_ati s)" "fa_ati s \<le> n" using t by auto
    have none: "\<nexists>q. fa_th s q = A_add"
    proof
      assume "\<exists>q. fa_th s q = A_add"
      then obtain q where "fa_th s q = A_add" by blast
      then have "q = r" using I eq by blast
      then show False using A_check \<open>fa_th s q = A_add\<close> by simp
    qed
    have len: "int (length (fa_printed s)) = fa_ati s - 1" using I none by auto
    have tok: "fizzbuzz_spec (length (fa_printed s)) = fb_print r t"
      using len eq by (simp add: fizzbuzz_spec_turn)
    have s': "fa_pass n r s = s\<lparr>fa_printed := fa_printed s @ [fb_print r t], fa_th := (fa_th s)(r := A_add)\<rparr>"
      using A_check False fa_guard_turn [of t r] t(1) by (simp add: fa_pass_def)
    have ex: "\<exists>q. ((fa_th s)(r := A_add)) q = A_add" by (intro exI [of _ r]) simp
    show ?thesis
      unfolding s' fa_inv_def using I eq len tok ex none by auto
  qed
next
  case A_add
  note I = inv [unfolded fa_inv_def]
  have r: "r = fb_turn (fa_ati s)" "fa_ati s \<le> n" and len: "int (length (fa_printed s)) = fa_ati s"
    using I A_add by auto
  have none: "((fa_th s)(r := A_load)) q \<noteq> A_add" for q using I r by auto
  have s': "fa_pass n r s = s\<lparr>fa_ati := fa_ati s + 1, fa_th := (fa_th s)(r := A_load)\<rparr>"
    using A_add I r(2) by (simp add: fa_pass_def)
  have chk: "1 \<le> t \<and> t \<le> fa_ati s + 1 \<and> (q = fb_turn t \<longrightarrow> t = fa_ati s + 1)"
    if "((fa_th s)(r := A_load)) q = A_check t" for q t
  proof -
    have q: "q \<noteq> r" "fa_th s q = A_check t" using that by (auto split: if_splits)
    then have "1 \<le> t" "t \<le> fa_ati s" "q = fb_turn t \<longrightarrow> t = fa_ati s" using I by blast+
    then show ?thesis using q(1) r(1) by auto
  qed
  have ret: "fa_ati s + 1 > n" if "((fa_th s)(r := A_load)) q = A_returned" for q
    using that I by (auto split: if_splits)
  show ?thesis
    unfolding s' fa_inv_def using I none chk ret len by auto
qed (use run in simp)

interpretation fizzbuzz_at: sequenced "n < 2 ^ 31 - 1" fizzbuzz_atomic_new "fa_step n" "fa_inv n" fa_printed fizzbuzz_spec "nat n" for n
proof
  show "fa_inv n fizzbuzz_atomic_new" if "n < 2 ^ 31 - 1" using that by (simp add: fa_inv_def fizzbuzz_atomic_new_def)
next
  fix s s' assume "fa_inv n s" "fa_step n s s'"
  from this(2,1) show "fa_inv n s'" by cases (auto intro: fa_pass_inv)
next
  fix s assume "fa_inv n s"
  then show "fa_printed s = map fizzbuzz_spec [0..<length (fa_printed s)] \<and> length (fa_printed s) \<le> nat n"
    by (simp add: fa_inv_def)
qed

text \<open>
  The atomic solution makes progress: the thread whose turn it is needs at most four passes of its
  own to print the next number and pass the turn on, and once none is left every thread returns
  within three.
\<close>

lemma fa_pass_load:
  "fa_th s r = A_load \<Longrightarrow> fa_pass n r s = s\<lparr>fa_th := (fa_th s)(r := A_check (fa_ati s))\<rparr>"
  by (simp add: fa_pass_def)

lemma fa_turn_advances:
  assumes inv: "fa_inv n s" and le: "fa_ati s \<le> n" and r: "r = fb_turn (fa_ati s)"
  shows "\<exists>k\<le>4. fa_ati ((fa_pass n r ^^ k) s) = fa_ati s + 1"
proof -
  note I = inv [unfolded fa_inv_def]
  have g: "fa_guard r (fa_ati s)" using fa_guard_turn [of "fa_ati s" r] I r by simp
  have wrap: "int32 (fa_ati s + 1) = fa_ati s + 1" using I le by simp
  have load: "fa_ati ((fa_pass n r ^^ 3) s') = fa_ati s + 1"
    if "fa_th s' r = A_load" "fa_ati s' = fa_ati s" for s'
    using that g le wrap by (simp add: numeral_3_eq_3 fa_pass_def)
  show ?thesis
  proof (cases "fa_th s r")
    case A_load
    then show ?thesis using load by (intro exI [of _ 3]) simp
  next
    case (A_check t)
    show ?thesis
    proof (cases "t = fa_ati s")
      case True
      then have "fa_ati ((fa_pass n r ^^ 2) s) = fa_ati s + 1"
        using A_check g le wrap by (simp add: numeral_2_eq_2 fa_pass_def)
      then show ?thesis by (intro exI [of _ 2]) simp
    next
      case False
      then have "t \<le> n" "\<not> fa_guard r t" using I A_check le fa_guard_turn [of t r] by fastforce+
      then have "fa_ati ((fa_pass n r ^^ 3) (fa_pass n r s)) = fa_ati s + 1"
        using A_check by (intro load) (simp_all add: fa_pass_def)
      then have "fa_ati ((fa_pass n r ^^ Suc 3) s) = fa_ati s + 1" by (simp only: funpow_Suc_right o_apply)
      then show ?thesis by (intro exI [of _ "Suc 3"]) simp
    qed
  next
    case A_add
    then show ?thesis using wrap by (intro exI [of _ 1]) (simp add: fa_pass_def)
  next
    case A_returned
    then show ?thesis using I le by fastforce
  qed
qed

lemma fa_all_return:
  assumes inv: "fa_inv n s" and gt: "fa_ati s > n"
  shows "\<exists>k\<le>3. fa_th ((fa_pass n r ^^ k) s) r = A_returned"
proof -
  note I = inv [unfolded fa_inv_def]
  have load: "fa_th ((fa_pass n r ^^ 2) s') r = A_returned"
    if "fa_th s' r = A_load" "fa_ati s' = fa_ati s" for s'
    using that gt by (simp add: numeral_2_eq_2 fa_pass_def)
  show ?thesis
  proof (cases "fa_th s r")
    case A_load
    then show ?thesis using load by (intro exI [of _ 2]) simp
  next
    case (A_check t)
    show ?thesis
    proof (cases "t > n")
      case True
      then show ?thesis using A_check by (intro exI [of _ 1]) (simp add: fa_pass_def)
    next
      case False
      then have "\<not> fa_guard r t" using I A_check gt fa_guard_turn [of t r] by fastforce
      then have "fa_th ((fa_pass n r ^^ 2) (fa_pass n r s)) r = A_returned"
        using A_check False by (intro load) (simp_all add: fa_pass_def)
      then have "fa_th ((fa_pass n r ^^ Suc 2) s) r = A_returned" by (simp only: funpow_Suc_right o_apply)
      then show ?thesis by (intro exI [of _ "Suc 2"] conjI) simp_all
    qed
  next
    case A_add
    then show ?thesis using I gt by fastforce
  next
    case A_returned
    then show ?thesis by (intro exI [of _ 0]) simp
  qed
qed

text \<open>
  C14. FizzBuzz, for \<open>n\<close> below the largest \<^verbatim>\<open>int\<close>. Under every schedule of the four threads, spurious
  wakeups included, both solutions print an initial part of the required sequence, and once any
  thread has returned the whole of it. Neither gets stuck. With the condition variable: while numbers
  are left, the thread whose turn it is is not asleep and its next pass prints; afterwards no thread
  is asleep and each pass returns. With the atomic counter: while numbers are left, the thread whose
  turn it is moves the counter on within four passes of its own; afterwards every thread returns
  within three.
\<close>

theorem fizzbuzz_correct:
  assumes bound: "n < 2 ^ 31 - 1"
  shows "((fb_step n)\<^sup>*\<^sup>* fizzbuzz_new s \<longrightarrow>
      fb_printed s = map fizzbuzz_spec [0..<length (fb_printed s)] \<and> length (fb_printed s) \<le> nat n \<and>
      ((\<exists>r. fb_th s r = Returned) \<longrightarrow> length (fb_printed s) = nat n) \<and>
      (fb_idx s \<le> n \<longrightarrow> fb_th s (fb_turn (fb_idx s)) = Running \<and>
         length (fb_printed (fb_pass n (fb_turn (fb_idx s)) w s)) = Suc (length (fb_printed s))) \<and>
      (fb_idx s > n \<longrightarrow> (\<forall>r. fb_th s r \<noteq> Blocked) \<and> (\<forall>r. fb_th (fb_pass n r w s) r = Returned))) \<and>
    ((fa_step n)\<^sup>*\<^sup>* fizzbuzz_atomic_new a \<longrightarrow>
      fa_printed a = map fizzbuzz_spec [0..<length (fa_printed a)] \<and> length (fa_printed a) \<le> nat n \<and>
      ((\<exists>r. fa_th a r = A_returned) \<longrightarrow> length (fa_printed a) = nat n) \<and>
      (fa_ati a \<le> n \<longrightarrow> (\<exists>k\<le>4. fa_ati ((fa_pass n (fb_turn (fa_ati a)) ^^ k) a) = fa_ati a + 1)) \<and>
      (fa_ati a > n \<longrightarrow> (\<forall>r. \<exists>k\<le>3. fa_th ((fa_pass n r ^^ k) a) r = A_returned)))"
proof (intro conjI impI)
  assume reach: "(fb_step n)\<^sup>*\<^sup>* fizzbuzz_new s"
  note I = fizzbuzz_cv.reach_inv [OF reach bound, unfolded fb_inv_def]
  show "fb_printed s = map fizzbuzz_spec [0..<length (fb_printed s)]" "length (fb_printed s) \<le> nat n"
    using fizzbuzz_cv.in_sequence [OF reach bound] by simp_all
  show "length (fb_printed s) = nat n" if "\<exists>r. fb_th s r = Returned" using that I by auto
  have turn: "fb_guard (fb_turn (fb_idx s)) (fb_idx s)" using I fb_guard_turn by auto
  show "fb_th s (fb_turn (fb_idx s)) = Running" if "fb_idx s \<le> n"
    using that I by (cases "fb_th s (fb_turn (fb_idx s))") auto
  show "length (fb_printed (fb_pass n (fb_turn (fb_idx s)) w s)) = Suc (length (fb_printed s))" if "fb_idx s \<le> n"
    using that turn by (simp add: fb_pass_def)
  show "\<forall>r. fb_th s r \<noteq> Blocked" if "fb_idx s > n" using that I by auto
  show "\<forall>r. fb_th (fb_pass n r w s) r = Returned" if "fb_idx s > n" using that by (simp add: fb_pass_def Let_def)
next
  assume reach: "(fa_step n)\<^sup>*\<^sup>* fizzbuzz_atomic_new a"
  note inv = fizzbuzz_at.reach_inv [OF reach bound]
  show "fa_printed a = map fizzbuzz_spec [0..<length (fa_printed a)]" "length (fa_printed a) \<le> nat n"
    using fizzbuzz_at.in_sequence [OF reach bound] by simp_all
  show "length (fa_printed a) = nat n" if "\<exists>r. fa_th a r = A_returned"
    using that inv by (auto simp: fa_inv_def split: if_splits)
  show "\<exists>k\<le>4. fa_ati ((fa_pass n (fb_turn (fa_ati a)) ^^ k) a) = fa_ati a + 1" if "fa_ati a \<le> n"
    using fa_turn_advances [OF inv that] by simp
  show "\<forall>r. \<exists>k\<le>3. fa_th ((fa_pass n r ^^ k) a) r = A_returned" if "fa_ati a > n"
    using fa_all_return [OF inv that] by simp
qed

theorem fizzbuzz_correct_witness:
  "fb_printed (fb_pass 1 Number Fizz fizzbuzz_new) = [Print_number 1] \<and>
   (\<exists>k\<le>4. fa_ati ((fa_pass 7 Number ^^ k) fizzbuzz_atomic_new) = 2)"
proof
  have "(fb_step 1)\<^sup>*\<^sup>* fizzbuzz_new (fb_pass 1 Number Fizz fizzbuzz_new)"
    by (rule r_into_rtranclp) (rule fb_step.pass, simp_all add: fizzbuzz_new_def)
  then have "fb_printed (fb_pass 1 Number Fizz fizzbuzz_new) =
      map fizzbuzz_spec [0..<length (fb_printed (fb_pass 1 Number Fizz fizzbuzz_new))]"
    using fizzbuzz_correct [of 1 "fb_pass 1 Number Fizz fizzbuzz_new"] by simp
  moreover have "length (fb_printed (fb_pass 1 Number Fizz fizzbuzz_new)) = 1"
    by (simp add: fb_pass_def fizzbuzz_new_def c_mod_def c_div_def)
  ultimately show "fb_printed (fb_pass 1 Number Fizz fizzbuzz_new) = [Print_number 1]"
    by (simp add: fizzbuzz_spec_def)
next
  have "fb_turn 1 = Number" by (simp add: fb_turn_def)
  then show "\<exists>k\<le>4. fa_ati ((fa_pass 7 Number ^^ k) fizzbuzz_atomic_new) = 2"
    using fizzbuzz_correct [of 7 _ _ fizzbuzz_atomic_new] by (simp add: fizzbuzz_atomic_new_def)
qed

section \<open>FooBar\<close>

datatype foobar_out = Foo | Bar

definition foobar_spec :: "nat \<Rightarrow> foobar_out" where
  "foobar_spec i = (if even i then Foo else Bar)"

datatype fb_pc = At_wait | At_print | At_signal

subsection \<open>With semaphores\<close>

record foobar_sem =
  semf :: nat
  semb :: nat
  sem_printed :: "foobar_out list"
  sem_fi :: nat
  sem_fpc :: fb_pc
  sem_bi :: nat
  sem_bpc :: fb_pc

definition foobar_sem_new :: foobar_sem where
  "foobar_sem_new = \<lparr>semf = 1, semb = 0, sem_printed = [], sem_fi = 0, sem_fpc = At_wait, sem_bi = 0, sem_bpc = At_wait\<rparr>"

inductive foobar_sem_step :: "nat \<Rightarrow> foobar_sem \<Rightarrow> foobar_sem \<Rightarrow> bool" for n where
  "sem_fpc s = At_wait \<Longrightarrow> sem_fi s < n \<Longrightarrow> 0 < semf s \<Longrightarrow>
     foobar_sem_step n s (s\<lparr>semf := semf s - 1, sem_fpc := At_print\<rparr>)"
| "sem_fpc s = At_print \<Longrightarrow>
     foobar_sem_step n s (s\<lparr>sem_printed := sem_printed s @ [Foo], sem_fpc := At_signal\<rparr>)"
| "sem_fpc s = At_signal \<Longrightarrow>
     foobar_sem_step n s (s\<lparr>semb := semb s + 1, sem_fi := sem_fi s + 1, sem_fpc := At_wait\<rparr>)"
| "sem_bpc s = At_wait \<Longrightarrow> sem_bi s < n \<Longrightarrow> 0 < semb s \<Longrightarrow>
     foobar_sem_step n s (s\<lparr>semb := semb s - 1, sem_bpc := At_print\<rparr>)"
| "sem_bpc s = At_print \<Longrightarrow>
     foobar_sem_step n s (s\<lparr>sem_printed := sem_printed s @ [Bar], sem_bpc := At_signal\<rparr>)"
| "sem_bpc s = At_signal \<Longrightarrow>
     foobar_sem_step n s (s\<lparr>semf := semf s + 1, sem_bi := sem_bi s + 1, sem_bpc := At_wait\<rparr>)"

text \<open>Exactly one of the two threads holds the turn, as a token or inside its iteration.\<close>

fun sem_phase :: "nat \<Rightarrow> nat \<Rightarrow> fb_pc \<Rightarrow> nat \<Rightarrow> nat \<Rightarrow> fb_pc \<Rightarrow> nat \<Rightarrow> bool" where
  "sem_phase f b fp fi bi bp len =
     ((f = 1 \<and> b = 0 \<and> fp = At_wait \<and> bp = At_wait \<and> fi = bi \<and> len = 2 * fi) \<or>
      (f = 0 \<and> b = 0 \<and> fp = At_print \<and> bp = At_wait \<and> fi = bi \<and> len = 2 * fi) \<or>
      (f = 0 \<and> b = 0 \<and> fp = At_signal \<and> bp = At_wait \<and> fi = bi \<and> len = 2 * fi + 1) \<or>
      (f = 0 \<and> b = 1 \<and> fp = At_wait \<and> bp = At_wait \<and> fi = bi + 1 \<and> len = 2 * bi + 1) \<or>
      (f = 0 \<and> b = 0 \<and> fp = At_wait \<and> bp = At_print \<and> fi = bi + 1 \<and> len = 2 * bi + 1) \<or>
      (f = 0 \<and> b = 0 \<and> fp = At_wait \<and> bp = At_signal \<and> fi = bi + 1 \<and> len = 2 * bi + 2))"

definition sem_inv :: "nat \<Rightarrow> foobar_sem \<Rightarrow> bool" where
  "sem_inv n s \<longleftrightarrow> sem_printed s = map foobar_spec [0..<length (sem_printed s)] \<and>
     sem_fi s \<le> n \<and> sem_bi s \<le> n \<and> (sem_fpc s \<noteq> At_wait \<longrightarrow> sem_fi s < n) \<and> (sem_bpc s \<noteq> At_wait \<longrightarrow> sem_bi s < n) \<and>
     sem_phase (semf s) (semb s) (sem_fpc s) (sem_fi s) (sem_bi s) (sem_bpc s) (length (sem_printed s))"

interpretation foobar_semaphores: sequenced True foobar_sem_new "foobar_sem_step n" "sem_inv n" sem_printed foobar_spec "2 * n" for n
proof
  show "sem_inv n foobar_sem_new" by (simp add: sem_inv_def foobar_sem_new_def)
next
  fix s s' assume "sem_inv n s" "foobar_sem_step n s s'"
  from this(2,1) show "sem_inv n s'" by cases (auto simp: sem_inv_def foobar_spec_def)
next
  fix s assume "sem_inv n s"
  then show "sem_printed s = map foobar_spec [0..<length (sem_printed s)] \<and> length (sem_printed s) \<le> 2 * n"
    by (auto simp: sem_inv_def)
qed

lemma foobar_sem_live:
  assumes "sem_inv n s" and "sem_fi s < n \<or> sem_bi s < n"
  shows "\<exists>s'. foobar_sem_step n s s'"
proof -
  have "(sem_fpc s = At_wait \<and> sem_fi s < n \<and> 0 < semf s) \<or> sem_fpc s = At_print \<or> sem_fpc s = At_signal \<or>
      (sem_bpc s = At_wait \<and> sem_bi s < n \<and> 0 < semb s) \<or> sem_bpc s = At_print \<or> sem_bpc s = At_signal"
    using assms by (auto simp: sem_inv_def)
  then show ?thesis by (metis foobar_sem_step.intros)
qed

lemma foobar_sem_end: "sem_inv n s \<Longrightarrow> sem_fi s = n \<Longrightarrow> sem_bi s = n \<Longrightarrow> length (sem_printed s) = 2 * n"
  by (auto simp: sem_inv_def)

subsection \<open>With a condition variable\<close>

record foobar_cv =
  cv_cnt :: int
  cv_printed :: "foobar_out list"
  cv_fi :: nat
  cv_bi :: nat
  cv_fwaits :: bool
  cv_bwaits :: bool

definition foobar_cv_new :: foobar_cv where
  "foobar_cv_new = \<lparr>cv_cnt = 0, cv_printed = [], cv_fi = 0, cv_bi = 0, cv_fwaits = False, cv_bwaits = False\<rparr>"

text \<open>An iteration under the mutex; \<^verbatim>\<open>notify_one\<close> can only reach the other thread.\<close>

definition cv_foo :: "foobar_cv \<Rightarrow> foobar_cv" where
  "cv_foo s = (if c_mod (cv_cnt s) 2 = 0
     then s\<lparr>cv_printed := cv_printed s @ [Foo], cv_cnt := int32 (cv_cnt s + 1), cv_bwaits := False, cv_fi := cv_fi s + 1\<rparr>
     else s\<lparr>cv_fwaits := True\<rparr>)"

definition cv_bar :: "foobar_cv \<Rightarrow> foobar_cv" where
  "cv_bar s = (if c_mod (cv_cnt s) 2 = 1
     then s\<lparr>cv_printed := cv_printed s @ [Bar], cv_cnt := int32 (cv_cnt s + 1), cv_fwaits := False, cv_bi := cv_bi s + 1\<rparr>
     else s\<lparr>cv_bwaits := True\<rparr>)"

inductive foobar_cv_step :: "nat \<Rightarrow> foobar_cv \<Rightarrow> foobar_cv \<Rightarrow> bool" for n where
  "cv_fi s < n \<Longrightarrow> \<not> cv_fwaits s \<Longrightarrow> foobar_cv_step n s (cv_foo s)"
| "cv_bi s < n \<Longrightarrow> \<not> cv_bwaits s \<Longrightarrow> foobar_cv_step n s (cv_bar s)"
| "cv_fwaits s \<Longrightarrow> foobar_cv_step n s (s\<lparr>cv_fwaits := False\<rparr>)"
| "cv_bwaits s \<Longrightarrow> foobar_cv_step n s (s\<lparr>cv_bwaits := False\<rparr>)"

text \<open>The parity test of the language on a counter that is not negative.\<close>

lemma c_mod_parity [simp]: "c_mod (int k) 2 = (if even k then 0 else 1)"
proof -
  have "int k mod 2 = int (k mod 2)" by (simp add: of_nat_mod)
  then show ?thesis by (cases "even k") (simp_all add: even_iff_mod_2_eq_zero odd_iff_mod_2_eq_one)
qed

definition cv_inv :: "nat \<Rightarrow> foobar_cv \<Rightarrow> bool" where
  "cv_inv n s \<longleftrightarrow> 2 * n < 2 ^ 31 \<and>
     cv_printed s = map foobar_spec [0..<length (cv_printed s)] \<and> cv_cnt s = int (length (cv_printed s)) \<and>
     cv_fi s = (length (cv_printed s) + 1) div 2 \<and> cv_bi s = length (cv_printed s) div 2 \<and> cv_fi s \<le> n \<and> cv_bi s \<le> n \<and>
     (cv_fwaits s \<longrightarrow> odd (length (cv_printed s))) \<and> (cv_bwaits s \<longrightarrow> even (length (cv_printed s)))"

lemma cv_foo_inv:
  assumes inv: "cv_inv n s" and lt: "cv_fi s < n"
  shows "cv_inv n (cv_foo s)"
proof (cases "even (length (cv_printed s))")
  case True
  then obtain k where k: "length (cv_printed s) = 2 * k" by (elim evenE)
  with inv have p: "cv_printed s = map foobar_spec [0..<2 * k]" and c: "cv_cnt s = int (2 * k)" "2 * n < 2 ^ 31"
    and "cv_fi s = k" "cv_bi s = k" "\<not> cv_fwaits s"
    unfolding cv_inv_def by (metis, simp, simp, simp, simp, simp)
  moreover have "c_mod (cv_cnt s) 2 = 0" unfolding c c_mod_parity by simp
  moreover have "int32 (cv_cnt s + 1) = cv_cnt s + 1" using c lt \<open>cv_fi s = k\<close> by simp
  ultimately show ?thesis using k lt by (simp add: cv_inv_def cv_foo_def foobar_spec_def)
next
  case False
  with inv show ?thesis by (auto simp: cv_inv_def cv_foo_def)
qed

lemma cv_bar_inv:
  assumes inv: "cv_inv n s" and lt: "cv_bi s < n"
  shows "cv_inv n (cv_bar s)"
proof (cases "odd (length (cv_printed s))")
  case True
  then obtain k where k: "length (cv_printed s) = 2 * k + 1" by (elim oddE)
  with inv have p: "cv_printed s = map foobar_spec [0..<2 * k + 1]" and c: "cv_cnt s = int (2 * k + 1)" "2 * n < 2 ^ 31"
    and "cv_fi s = k + 1" "cv_bi s = k" "\<not> cv_bwaits s" "cv_fi s \<le> n"
    unfolding cv_inv_def by (metis, simp, simp, simp, simp, simp, simp)
  moreover have "c_mod (cv_cnt s) 2 = 1" unfolding c c_mod_parity by simp
  moreover have "int32 (cv_cnt s + 1) = cv_cnt s + 1" using c lt \<open>cv_bi s = k\<close> by simp
  ultimately show ?thesis using k lt by (simp add: cv_inv_def cv_bar_def foobar_spec_def)
next
  case False
  with inv show ?thesis by (auto simp: cv_inv_def cv_bar_def)
qed

interpretation foobar_condvar: sequenced "2 * n < 2 ^ 31" foobar_cv_new "foobar_cv_step n" "cv_inv n" cv_printed foobar_spec "2 * n" for n
proof
  show "cv_inv n foobar_cv_new" if "2 * n < 2 ^ 31" using that by (simp add: cv_inv_def foobar_cv_new_def)
next
  fix s s' assume "cv_inv n s" "foobar_cv_step n s s'"
  from this(2,1) show "cv_inv n s'"
    by cases (auto simp: cv_foo_inv cv_bar_inv, auto simp: cv_inv_def)
next
  fix s assume "cv_inv n s"
  then show "cv_printed s = map foobar_spec [0..<length (cv_printed s)] \<and> length (cv_printed s) \<le> 2 * n"
    by (auto simp: cv_inv_def)
qed

lemma foobar_cv_live:
  assumes inv: "cv_inv n s" and left: "cv_fi s < n \<or> cv_bi s < n"
  shows "\<exists>s'. foobar_cv_step n s s' \<and> length (cv_printed s') = length (cv_printed s) + 1"
proof (cases "even (length (cv_printed s))")
  case True
  then have "cv_fi s < n" "\<not> cv_fwaits s" using inv left by (auto simp: cv_inv_def elim!: evenE)
  then have "foobar_cv_step n s (cv_foo s)" by (rule foobar_cv_step.intros)
  then show ?thesis using inv True by (intro exI [of _ "cv_foo s"]) (simp add: cv_foo_def cv_inv_def)
next
  case False
  then have "cv_bi s < n" "\<not> cv_bwaits s" using inv left by (auto simp: cv_inv_def elim!: oddE)
  then have "foobar_cv_step n s (cv_bar s)" by (rule foobar_cv_step.intros)
  then show ?thesis using inv False by (intro exI [of _ "cv_bar s"]) (simp add: cv_bar_def cv_inv_def)
qed

lemma foobar_cv_end: "cv_inv n s \<Longrightarrow> cv_fi s = n \<Longrightarrow> cv_bi s = n \<Longrightarrow> length (cv_printed s) = 2 * n"
  by (auto simp: cv_inv_def)

subsection \<open>With an atomic counter\<close>

record foobar_at =
  at_ati :: int
  at_printed :: "foobar_out list"
  at_fi :: nat
  at_fpc :: fb_pc
  at_bi :: nat
  at_bpc :: fb_pc

definition foobar_at_new :: foobar_at where
  "foobar_at_new = \<lparr>at_ati = 0, at_printed = [], at_fi = 0, at_fpc = At_wait, at_bi = 0, at_bpc = At_wait\<rparr>"

definition at_foo :: "foobar_at \<Rightarrow> foobar_at" where
  "at_foo s = (case at_fpc s of
     At_wait \<Rightarrow> (if c_mod (at_ati s) 2 = 1 then s else s\<lparr>at_fpc := At_print\<rparr>)
   | At_print \<Rightarrow> s\<lparr>at_printed := at_printed s @ [Foo], at_fpc := At_signal\<rparr>
   | At_signal \<Rightarrow> s\<lparr>at_ati := int32 (at_ati s + 1), at_fi := at_fi s + 1, at_fpc := At_wait\<rparr>)"

definition at_bar :: "foobar_at \<Rightarrow> foobar_at" where
  "at_bar s = (case at_bpc s of
     At_wait \<Rightarrow> (if c_mod (at_ati s) 2 = 0 then s else s\<lparr>at_bpc := At_print\<rparr>)
   | At_print \<Rightarrow> s\<lparr>at_printed := at_printed s @ [Bar], at_bpc := At_signal\<rparr>
   | At_signal \<Rightarrow> s\<lparr>at_ati := int32 (at_ati s + 1), at_bi := at_bi s + 1, at_bpc := At_wait\<rparr>)"

inductive foobar_at_step :: "nat \<Rightarrow> foobar_at \<Rightarrow> foobar_at \<Rightarrow> bool" for n where
  "at_fi s < n \<Longrightarrow> foobar_at_step n s (at_foo s)"
| "at_bi s < n \<Longrightarrow> foobar_at_step n s (at_bar s)"

fun at_phase :: "fb_pc \<Rightarrow> nat \<Rightarrow> nat \<Rightarrow> fb_pc \<Rightarrow> nat \<Rightarrow> bool" where
  "at_phase fp fi bi bp len =
     ((fi = bi \<and> bp = At_wait \<and> len = 2 * fi + (if fp = At_signal then 1 else 0)) \<or>
      (fi = bi + 1 \<and> fp = At_wait \<and> len = 2 * bi + 1 + (if bp = At_signal then 1 else 0)))"

definition in_turn :: "foobar_out list \<Rightarrow> bool" where
  "in_turn xs \<longleftrightarrow> xs = map foobar_spec [0..<length xs]"

lemma in_turn_snoc: "in_turn xs \<Longrightarrow> in_turn (xs @ [x]) \<longleftrightarrow> x = foobar_spec (length xs)"
  by (auto simp: in_turn_def)

definition at_inv :: "nat \<Rightarrow> foobar_at \<Rightarrow> bool" where
  "at_inv n s \<longleftrightarrow> 2 * n < 2 ^ 31 \<and> at_ati s = int (at_fi s + at_bi s) \<and> in_turn (at_printed s) \<and>
     at_fi s \<le> n \<and> at_bi s \<le> n \<and> (at_fpc s \<noteq> At_wait \<longrightarrow> at_fi s < n) \<and> (at_bpc s \<noteq> At_wait \<longrightarrow> at_bi s < n) \<and>
     at_phase (at_fpc s) (at_fi s) (at_bi s) (at_bpc s) (length (at_printed s))"

lemma at_inv_turn: "at_inv n s \<Longrightarrow> c_mod (at_ati s) 2 = (if at_fi s = at_bi s then 0 else 1)"
  unfolding at_inv_def by (auto simp: c_mod_parity simp del: of_nat_add)

lemma at_foo_inv:
  assumes inv: "at_inv n s" and lt: "at_fi s < n"
  shows "at_inv n (at_foo s)"
proof -
  have wrap: "int32 (at_ati s + 1) = at_ati s + 1" using inv lt by (simp add: at_inv_def)
  show ?thesis
  proof (cases "at_fpc s")
    case At_wait
    show ?thesis
    proof (cases "at_fi s = at_bi s")
      case True
      then have "at_foo s = s\<lparr>at_fpc := At_print\<rparr>" using at_inv_turn [OF inv] At_wait by (simp add: at_foo_def)
      moreover have "at_inv n (s\<lparr>at_fpc := At_print\<rparr>)" using inv lt At_wait True by (auto simp: at_inv_def)
      ultimately show ?thesis by simp
    next
      case False
      then have "at_foo s = s" using at_inv_turn [OF inv] At_wait by (simp add: at_foo_def)
      then show ?thesis using inv by simp
    qed
  next
    case At_print
    then show ?thesis using inv lt by (auto simp: at_inv_def at_foo_def foobar_spec_def in_turn_snoc)
  next
    case At_signal
    then show ?thesis using inv lt wrap by (auto simp: at_inv_def at_foo_def)
  qed
qed

lemma at_bar_inv:
  assumes inv: "at_inv n s" and lt: "at_bi s < n"
  shows "at_inv n (at_bar s)"
proof -
  have wrap: "int32 (at_ati s + 1) = at_ati s + 1" using inv lt by (simp add: at_inv_def)
  show ?thesis
  proof (cases "at_bpc s")
    case At_wait
    show ?thesis
    proof (cases "at_fi s \<noteq> at_bi s")
      case True
      then have "at_bar s = s\<lparr>at_bpc := At_print\<rparr>" using at_inv_turn [OF inv] At_wait by (simp add: at_bar_def)
      moreover have "at_inv n (s\<lparr>at_bpc := At_print\<rparr>)" using inv lt At_wait True by (auto simp: at_inv_def)
      ultimately show ?thesis by simp
    next
      case False
      then have "at_bar s = s" using at_inv_turn [OF inv] At_wait by (simp add: at_bar_def)
      then show ?thesis using inv by simp
    qed
  next
    case At_print
    then show ?thesis using inv lt by (auto simp: at_inv_def at_bar_def foobar_spec_def in_turn_snoc)
  next
    case At_signal
    then show ?thesis using inv lt wrap by (auto simp: at_inv_def at_bar_def)
  qed
qed

interpretation foobar_atomic: sequenced "2 * n < 2 ^ 31" foobar_at_new "foobar_at_step n" "at_inv n" at_printed foobar_spec "2 * n" for n
proof
  show "at_inv n foobar_at_new" if "2 * n < 2 ^ 31" using that by (simp add: at_inv_def foobar_at_new_def in_turn_def)
next
  fix s s' assume "at_inv n s" "foobar_at_step n s s'"
  from this(2,1) show "at_inv n s'" by cases (simp_all add: at_foo_inv at_bar_inv)
next
  fix s assume "at_inv n s"
  then have "in_turn (at_printed s)" "length (at_printed s) \<le> 2 * n" by (auto simp: at_inv_def split: if_splits)
  then show "at_printed s = map foobar_spec [0..<length (at_printed s)] \<and> length (at_printed s) \<le> 2 * n"
    unfolding in_turn_def by blast
qed

lemma foobar_at_end: "at_inv n s \<Longrightarrow> at_fi s = n \<Longrightarrow> at_bi s = n \<Longrightarrow> length (at_printed s) = 2 * n"
  by (auto simp: at_inv_def)

text \<open>The thread whose turn it is prints and passes the turn on within three steps of its own.\<close>

definition at_turn :: "foobar_at \<Rightarrow> foobar_at \<Rightarrow> foobar_at" where
  "at_turn s = (if at_fi s = at_bi s then at_foo else at_bar)"

lemma foobar_at_live:
  assumes inv: "at_inv n s" and left: "at_fi s < n \<or> at_bi s < n"
  shows "foobar_at_step n s (at_turn s s) \<and> (\<exists>k\<le>3. at_ati ((at_turn s ^^ k) s) = at_ati s + 1)"
proof (cases "at_fi s = at_bi s")
  case True
  then have step: "foobar_at_step n s (at_turn s s)"
    using left by (auto simp: at_turn_def intro: foobar_at_step.intros)
  have wrap: "int32 (at_ati s + 1) = at_ati s + 1" using inv True left by (simp add: at_inv_def)
  have "at_ati ((at_foo ^^ (case at_fpc s of At_wait \<Rightarrow> 3 | At_print \<Rightarrow> 2 | At_signal \<Rightarrow> 1)) s) = at_ati s + 1"
    using True at_inv_turn [OF inv] wrap
    by (cases "at_fpc s") (simp_all add: numeral_3_eq_3 numeral_2_eq_2 at_foo_def)
  moreover have "(case at_fpc s of At_wait \<Rightarrow> 3 | At_print \<Rightarrow> 2 | At_signal \<Rightarrow> 1) \<le> (3::nat)"
    by (cases "at_fpc s") simp_all
  ultimately show ?thesis using step True unfolding at_turn_def by auto
next
  case False
  then have lt: "at_bi s < n" and step: "foobar_at_step n s (at_turn s s)"
    using inv by (auto simp: at_inv_def at_turn_def intro: foobar_at_step.intros)
  have wrap: "int32 (at_ati s + 1) = at_ati s + 1" using inv lt by (simp add: at_inv_def)
  have "at_ati ((at_bar ^^ (case at_bpc s of At_wait \<Rightarrow> 3 | At_print \<Rightarrow> 2 | At_signal \<Rightarrow> 1)) s) = at_ati s + 1"
    using False at_inv_turn [OF inv] wrap
    by (cases "at_bpc s") (simp_all add: numeral_3_eq_3 numeral_2_eq_2 at_bar_def)
  moreover have "(case at_bpc s of At_wait \<Rightarrow> 3 | At_print \<Rightarrow> 2 | At_signal \<Rightarrow> 1) \<le> (3::nat)"
    by (cases "at_bpc s") simp_all
  ultimately show ?thesis using step False unfolding at_turn_def by auto
qed

text \<open>
  C15. FooBar, for \<open>n\<close> up to \<open>2 ^ 30 - 1\<close>, so that the counters stay in their 32 bits. In each of
  the three solutions, under every schedule of the two threads, the output is an initial part of
  \<open>foo bar foo bar \<dots>\<close>, and of length \<open>2 * n\<close> once both have finished. They never block each
  other: until both have finished there is a step, with the condition variable one that prints, and
  with the atomic counter the thread whose turn it is, which can take a step, passes the turn on
  within three of its own.
\<close>

theorem foobar_correct:
  assumes bound: "2 * n < 2 ^ 31"
  shows "((foobar_sem_step n)\<^sup>*\<^sup>* foobar_sem_new s \<longrightarrow>
      sem_printed s = map foobar_spec [0..<length (sem_printed s)] \<and> length (sem_printed s) \<le> 2 * n \<and>
      (sem_fi s < n \<or> sem_bi s < n \<longrightarrow> (\<exists>s'. foobar_sem_step n s s')) \<and>
      (sem_fi s = n \<and> sem_bi s = n \<longrightarrow> length (sem_printed s) = 2 * n)) \<and>
   ((foobar_cv_step n)\<^sup>*\<^sup>* foobar_cv_new c \<longrightarrow>
      cv_printed c = map foobar_spec [0..<length (cv_printed c)] \<and> length (cv_printed c) \<le> 2 * n \<and>
      (cv_fi c < n \<or> cv_bi c < n \<longrightarrow>
         (\<exists>c'. foobar_cv_step n c c' \<and> length (cv_printed c') = length (cv_printed c) + 1)) \<and>
      (cv_fi c = n \<and> cv_bi c = n \<longrightarrow> length (cv_printed c) = 2 * n)) \<and>
   ((foobar_at_step n)\<^sup>*\<^sup>* foobar_at_new a \<longrightarrow>
      at_printed a = map foobar_spec [0..<length (at_printed a)] \<and> length (at_printed a) \<le> 2 * n \<and>
      (at_fi a < n \<or> at_bi a < n \<longrightarrow> foobar_at_step n a (at_turn a a) \<and>
         (\<exists>k\<le>3. at_ati ((at_turn a ^^ k) a) = at_ati a + 1)) \<and>
      (at_fi a = n \<and> at_bi a = n \<longrightarrow> length (at_printed a) = 2 * n))"
proof (intro conjI impI)
  assume reach: "(foobar_sem_step n)\<^sup>*\<^sup>* foobar_sem_new s"
  note S = foobar_semaphores.in_sequence [OF reach TrueI] and I = foobar_semaphores.reach_inv [OF reach TrueI]
  show "sem_printed s = map foobar_spec [0..<length (sem_printed s)]" "length (sem_printed s) \<le> 2 * n" using S by simp_all
  show "\<exists>s'. foobar_sem_step n s s'" if "sem_fi s < n \<or> sem_bi s < n" by (rule foobar_sem_live [OF I that])
  show "length (sem_printed s) = 2 * n" if "sem_fi s = n \<and> sem_bi s = n" using foobar_sem_end [OF I] that by simp
next
  assume reach: "(foobar_cv_step n)\<^sup>*\<^sup>* foobar_cv_new c"
  note S = foobar_condvar.in_sequence [OF reach bound] and I = foobar_condvar.reach_inv [OF reach bound]
  show "cv_printed c = map foobar_spec [0..<length (cv_printed c)]" "length (cv_printed c) \<le> 2 * n" using S by simp_all
  show "\<exists>c'. foobar_cv_step n c c' \<and> length (cv_printed c') = length (cv_printed c) + 1" if "cv_fi c < n \<or> cv_bi c < n"
    by (rule foobar_cv_live [OF I that])
  show "length (cv_printed c) = 2 * n" if "cv_fi c = n \<and> cv_bi c = n" using foobar_cv_end [OF I] that by simp
next
  assume reach: "(foobar_at_step n)\<^sup>*\<^sup>* foobar_at_new a"
  note S = foobar_atomic.in_sequence [OF reach bound] and I = foobar_atomic.reach_inv [OF reach bound]
  show "at_printed a = map foobar_spec [0..<length (at_printed a)]" "length (at_printed a) \<le> 2 * n" using S by simp_all
  show "foobar_at_step n a (at_turn a a)" "\<exists>k\<le>3. at_ati ((at_turn a ^^ k) a) = at_ati a + 1"
    if "at_fi a < n \<or> at_bi a < n" using foobar_at_live [OF I that] by simp_all
  show "length (at_printed a) = 2 * n" if "at_fi a = n \<and> at_bi a = n" using foobar_at_end [OF I] that by simp
qed

theorem foobar_correct_witness:
  "cv_printed (cv_bar (cv_foo foobar_cv_new)) = [Foo, Bar] \<and>
   (\<exists>k\<le>3. at_ati ((at_turn foobar_at_new ^^ k) foobar_at_new) = 1)"
proof
  let ?c = "cv_bar (cv_foo foobar_cv_new)"
  have "foobar_cv_step 3 foobar_cv_new (cv_foo foobar_cv_new)" "foobar_cv_step 3 (cv_foo foobar_cv_new) ?c"
    by (intro foobar_cv_step.intros; simp add: foobar_cv_new_def cv_foo_def)+
  then have "(foobar_cv_step 3)\<^sup>*\<^sup>* foobar_cv_new ?c" by simp
  then have "cv_printed ?c = map foobar_spec [0..<length (cv_printed ?c)]"
    using foobar_correct [of 3 _ ?c] by simp
  moreover have "length (cv_printed ?c) = 2" by (simp add: foobar_cv_new_def cv_foo_def cv_bar_def)
  ultimately show "cv_printed ?c = [Foo, Bar]" by (simp add: foobar_spec_def upt_rec)
next
  show "\<exists>k\<le>3. at_ati ((at_turn foobar_at_new ^^ k) foobar_at_new) = 1"
    using foobar_correct [of 3 _ _ foobar_at_new] by (simp add: foobar_at_new_def)
qed

text \<open>
  Past the bound the atomic counter wraps around to negative values, whose remainder by 2 is never
  1, so \<^verbatim>\<open>foo\<close> no longer waits for \<^verbatim>\<open>bar\<close>: there is a schedule in which it prints twice in a row.
\<close>

definition at_round :: "nat \<Rightarrow> foobar_at" where
  "at_round k = \<lparr>at_ati = int32 (2 * int k), at_printed = map foobar_spec [0..<2 * k], at_fi = k, at_fpc = At_wait,
     at_bi = k, at_bpc = At_wait\<rparr>"

lemma at_foo3: "at_fpc s = At_wait \<Longrightarrow> c_mod (at_ati s) 2 \<noteq> 1 \<Longrightarrow>
  at_foo (at_foo (at_foo s)) = s\<lparr>at_printed := at_printed s @ [Foo], at_ati := int32 (at_ati s + 1),
    at_fi := at_fi s + 1\<rparr>"
  by (cases s) (simp add: at_foo_def)

lemma at_bar3: "at_bpc s = At_wait \<Longrightarrow> c_mod (at_ati s) 2 \<noteq> 0 \<Longrightarrow>
  at_bar (at_bar (at_bar s)) = s\<lparr>at_printed := at_printed s @ [Bar], at_ati := int32 (at_ati s + 1),
    at_bi := at_bi s + 1\<rparr>"
  by (cases s) (simp add: at_bar_def)

lemma at_foo_run: "at_fi s < n \<Longrightarrow> at_fpc s = At_wait \<Longrightarrow> (foobar_at_step n)\<^sup>*\<^sup>* s (at_foo (at_foo (at_foo s)))"
proof -
  assume lt: "at_fi s < n" and w: "at_fpc s = At_wait"
  have "foobar_at_step n s (at_foo s)" "foobar_at_step n (at_foo s) (at_foo (at_foo s))"
    "foobar_at_step n (at_foo (at_foo s)) (at_foo (at_foo (at_foo s)))"
    using lt w by (intro foobar_at_step.intros; simp add: at_foo_def)+
  then show ?thesis by simp
qed

lemma at_bar_run: "at_bi s < n \<Longrightarrow> at_bpc s = At_wait \<Longrightarrow> (foobar_at_step n)\<^sup>*\<^sup>* s (at_bar (at_bar (at_bar s)))"
proof -
  assume lt: "at_bi s < n" and w: "at_bpc s = At_wait"
  have "foobar_at_step n s (at_bar s)" "foobar_at_step n (at_bar s) (at_bar (at_bar s))"
    "foobar_at_step n (at_bar (at_bar s)) (at_bar (at_bar (at_bar s)))"
    using lt w by (intro foobar_at_step.intros; simp add: at_bar_def)+
  then show ?thesis by simp
qed

lemma at_round_reach: "k \<le> n \<Longrightarrow> k \<le> 2 ^ 30 \<Longrightarrow> (foobar_at_step n)\<^sup>*\<^sup>* foobar_at_new (at_round k)"
proof (induction k)
  case 0
  show ?case by (simp add: at_round_def foobar_at_new_def)
next
  case (Suc k)
  let ?s = "at_round k"
  let ?t = "at_foo (at_foo (at_foo ?s))"
  have ati: "at_ati ?s = int (2 * k)" using Suc.prems by (simp add: at_round_def)
  have "c_mod (at_ati ?s) 2 \<noteq> 1" unfolding ati c_mod_parity by simp
  then have t: "?t = ?s\<lparr>at_printed := at_printed ?s @ [Foo], at_ati := int (2 * k + 1), at_fi := k + 1\<rparr>"
    using at_foo3 [of ?s] ati Suc.prems by (simp add: at_round_def)
  have "at_ati ?t = int (2 * k + 1)" unfolding t by simp
  then have "c_mod (at_ati ?t) 2 \<noteq> 0" by (simp only: c_mod_parity) simp
  then have "at_bar (at_bar (at_bar ?t)) = at_round (Suc k)"
    using at_bar3 [of ?t] unfolding t by (simp add: at_round_def foobar_spec_def ac_simps)
  moreover have "(foobar_at_step n)\<^sup>*\<^sup>* ?s ?t" using at_foo_run [of ?s] Suc.prems by (simp add: at_round_def)
  moreover have "(foobar_at_step n)\<^sup>*\<^sup>* ?t (at_bar (at_bar (at_bar ?t)))"
    using Suc.prems unfolding t by (intro at_bar_run) (simp_all add: at_round_def)
  ultimately show ?case using Suc by (metis Suc_leD rtranclp_trans)
qed

theorem foobar_counter_wraps:
  assumes "2 ^ 30 + 2 \<le> n"
  shows "\<exists>a. (foobar_at_step n)\<^sup>*\<^sup>* foobar_at_new a \<and>
    at_printed a = map foobar_spec [0..<2 ^ 31] @ [Foo, Foo]"
proof -
  let ?s = "at_round (2 ^ 30)"
  let ?t = "at_foo (at_foo (at_foo ?s))"
  let ?u = "at_foo (at_foo (at_foo ?t))"
  have w: "int32 (2 ^ 31) = - (2 ^ 31)" "int32 (1 - 2 ^ 31) = 1 - 2 ^ 31"
    by (simp_all add: int32_def signed_take_bit_eq_take_bit_shift take_bit_eq_mod)
  have ati: "at_ati ?s = - (2 ^ 31)" using w by (simp add: at_round_def)
  have t: "?t = ?s\<lparr>at_printed := at_printed ?s @ [Foo], at_ati := 1 - 2 ^ 31, at_fi := 2 ^ 30 + 1\<rparr>"
    using at_foo3 [of ?s] ati w by (simp add: at_round_def)
  have u: "at_printed ?u = map foobar_spec [0..<2 ^ 31] @ [Foo, Foo]"
    using at_foo3 [of ?t] unfolding t by (simp add: at_round_def)
  have "(foobar_at_step n)\<^sup>*\<^sup>* foobar_at_new ?s" using assms by (intro at_round_reach) simp_all
  moreover have "(foobar_at_step n)\<^sup>*\<^sup>* ?s ?t" using assms by (intro at_foo_run) (simp_all add: at_round_def)
  moreover have "(foobar_at_step n)\<^sup>*\<^sup>* ?t ?u"
    using assms unfolding t by (intro at_foo_run) (simp_all add: at_round_def)
  ultimately show ?thesis using u by (meson rtranclp_trans)
qed

end
