(* ===== verification/Parallel_Algorithms.thy ===== *)
theory Parallel_Algorithms
  imports Prelude "HOL-Library.Multiset"
begin

text \<open>
  The parallel algorithms of \<^verbatim>\<open>cpp_concurrency_2nd/parallel_find_accu_async_for_each.cpp\<close> (reduction,
  \<^verbatim>\<open>for_each\<close>, search) and the two quick sorts of
  \<^verbatim>\<open>cpp_concurrency_2nd/cv_promise_future_packaged_task_quick_sort.cpp\<close>. An iterator is a position of
  the list it walks over, \<^verbatim>\<open>lst\<close> its length. \<open>hw\<close> is \<^verbatim>\<open>std::thread::hardware_concurrency()\<close>. What the
  scheduler decides is an argument (the order in which threads finish, an interleaving of their
  calls) or, where threads talk to each other, a step relation.
\<close>

section \<open>Dividing a range into blocks\<close>

definition subrange :: "nat \<Rightarrow> nat \<Rightarrow> 'a list \<Rightarrow> 'a list" where
  "subrange st en xs = take (en - st) (drop st xs)"

definition num_threads :: "nat \<Rightarrow> nat \<Rightarrow> nat" where
  "num_threads hw len =
     (let min_per_thread = 25;
          max_threads = (len + min_per_thread - 1) div min_per_thread
      in min (if hw = 0 then 2 else hw) max_threads)"

text \<open>The loop that starts the threads: their ranges, and where the calling thread goes on.\<close>

primrec spawn_blocks :: "nat \<Rightarrow> nat \<Rightarrow> nat \<Rightarrow> (nat \<times> nat) list \<times> nat" where
  "spawn_blocks 0 block_size st = ([], st)"
| "spawn_blocks (Suc k) block_size st =
     (let en = st + block_size; (rs, st') = spawn_blocks k block_size en in ((st, en) # rs, st'))"

definition thread_ranges :: "nat \<Rightarrow> nat \<Rightarrow> (nat \<times> nat) list" where
  "thread_ranges hw len =
     (let num = num_threads hw len; (rs, st) = spawn_blocks (num - 1) (len div num) 0 in rs @ [(st, len)])"

definition blocks :: "nat \<Rightarrow> 'a list \<Rightarrow> 'a list list" where
  "blocks hw xs = map (\<lambda>(st, en). subrange st en xs) (thread_ranges hw (length xs))"

lemma num_threads_pos: "0 < len \<Longrightarrow> 0 < num_threads hw len"
  by (auto simp: num_threads_def Let_def div_greater_zero_iff)

lemma num_threads_min: "num_threads hw len \<noteq> 0 \<Longrightarrow> num_threads hw len \<le> hw \<or> hw = 0 \<and> num_threads hw len \<le> 2"
  by (auto simp: num_threads_def Let_def)

lemma spawn_blocks_eq:
  "spawn_blocks k b st = (map (\<lambda>i. (st + i * b, st + Suc i * b)) [0..<k], st + k * b)"
proof (induction k arbitrary: st)
  case 0
  then show ?case by simp
next
  case (Suc k)
  have "map (\<lambda>i. (st + i * b, st + Suc i * b)) [0..<Suc k] =
      (st, st + b) # map (\<lambda>i. (st + b + i * b, st + b + Suc i * b)) [0..<k]"
    by (simp only: upt_conv_Cons zero_less_Suc list.map map_Suc_upt [symmetric] map_map o_def)
      (simp add: algebra_simps)
  with Suc show ?case by (simp add: Let_def algebra_simps)
qed

lemma thread_ranges_eq:
  fixes hw :: nat
  assumes "0 < len"
  defines "num \<equiv> num_threads hw len"
  shows "thread_ranges hw len =
    map (\<lambda>i. (i * (len div num), if Suc i = num then len else Suc i * (len div num))) [0..<num]"
proof -
  have "0 < num" using num_threads_pos assms by simp
  then obtain k where k: "num = Suc k" using gr0_implies_Suc by blast
  then show ?thesis
    unfolding thread_ranges_def num_def [symmetric] by (simp add: Let_def spawn_blocks_eq k)
qed

lemma length_thread_ranges [simp]: "0 < len \<Longrightarrow> length (thread_ranges hw len) = num_threads hw len"
  by (simp add: thread_ranges_eq)

lemma subrange_append: "a \<le> b \<Longrightarrow> b \<le> c \<Longrightarrow> subrange a b xs @ subrange b c xs = subrange a c xs"
proof -
  assume ab: "a \<le> b" and bc: "b \<le> c"
  have "subrange a c xs = take ((b - a) + (c - b)) (drop a xs)" using ab bc by (simp add: subrange_def)
  also have "\<dots> = take (b - a) (drop a xs) @ take (c - b) (drop (b - a) (drop a xs))" by (simp add: take_add)
  also have "\<dots> = subrange a b xs @ subrange b c xs" using ab by (simp add: subrange_def)
  finally show ?thesis by simp
qed

lemma concat_subranges: "concat (map (\<lambda>i. subrange (i * b) (Suc i * b) xs) [0..<k]) = subrange 0 (k * b) xs"
proof (induction k)
  case 0
  then show ?case by (simp add: subrange_def)
next
  case (Suc k)
  then show ?case using subrange_append [of 0 "k * b" "Suc k * b" xs] by simp
qed

text \<open>Every element is in exactly one block, in order.\<close>

lemma concat_blocks: "xs \<noteq> [] \<Longrightarrow> concat (blocks hw xs) = xs"
proof -
  assume xs: "xs \<noteq> []"
  define num where "num = num_threads hw (length xs)"
  define b where "b = length xs div num"
  have "0 < num" using num_threads_pos xs by (simp add: num_def)
  then obtain k where k: "num = Suc k" using gr0_implies_Suc by blast
  have "k * b \<le> length xs"
    using div_times_less_eq_dividend [of "length xs" num] by (simp add: b_def k algebra_simps)
  moreover have "blocks hw xs = map (\<lambda>i. subrange (i * b) (Suc i * b) xs) [0..<k] @ [subrange (k * b) (length xs) xs]"
  proof -
    have "num_threads hw (length xs) = Suc k" "length xs div Suc k = b" using k by (simp_all add: num_def b_def)
    then show ?thesis using xs by (simp add: blocks_def thread_ranges_eq)
  qed
  ultimately have "concat (blocks hw xs) = subrange 0 (k * b) xs @ subrange (k * b) (length xs) xs"
    by (simp only: concat_append concat_subranges concat.simps append_Nil2)
  also have "\<dots> = subrange 0 (length xs) xs" using \<open>k * b \<le> length xs\<close> by (intro subrange_append) simp_all
  finally show ?thesis by (simp add: subrange_def)
qed

lemma length_blocks [simp]: "xs \<noteq> [] \<Longrightarrow> length (blocks hw xs) = num_threads hw (length xs)"
  by (simp add: blocks_def)

lemma blocks_snoc: "xs \<noteq> [] \<Longrightarrow> \<exists>bs b. blocks hw xs = bs @ [b]"
  using num_threads_pos [of "length xs" hw] by (metis length_0_conv length_blocks neq0_conv rev_exhaust)

section \<open>Reduction\<close>

definition std_accumulate :: "'a::monoid_add list \<Rightarrow> 'a \<Rightarrow> 'a" where
  "std_accumulate xs init = foldl (+) init xs"

definition accumulate_block :: "'a::monoid_add list \<Rightarrow> 'a \<Rightarrow> 'a" where
  "accumulate_block xs result = std_accumulate xs result"

text \<open>
  \<open>order\<close>: the threads, the calling one as number \<open>num_threads - 1\<close>, in the order in which they store
  their result. Each reads and writes its own element of \<^verbatim>\<open>results\<close>.
\<close>

definition parallel_accumulate :: "nat \<Rightarrow> nat list \<Rightarrow> 'a::monoid_add list \<Rightarrow> 'a \<Rightarrow> 'a" where
  "parallel_accumulate hw order xs init =
     (if length xs = 0 then init
      else let results = replicate (num_threads hw (length xs)) 0;
               results' = foldl (\<lambda>res i. res[i := accumulate_block (blocks hw xs ! i) (res ! i)]) results order
           in std_accumulate results' init)"

definition accu_block :: "'a::monoid_add list \<Rightarrow> 'a" where
  "accu_block xs = std_accumulate xs 0"

text \<open>The loop over the futures; a future that is not ready would block for ever.\<close>

fun add_futures :: "'a::monoid_add option list \<Rightarrow> 'a \<Rightarrow> 'a option" where
  "add_futures [] result = Some result"
| "add_futures (None # fs) result = None"
| "add_futures (Some v # fs) result = add_futures fs (result + v)"

definition parallel_accu :: "nat \<Rightarrow> nat list \<Rightarrow> 'a::monoid_add list \<Rightarrow> 'a \<Rightarrow> 'a option" where
  "parallel_accu hw order xs init =
     (if length xs = 0 then Some init
      else let num = num_threads hw (length xs);
               futures = foldl (\<lambda>fs i. fs[i := Some (accu_block (blocks hw xs ! i))]) (replicate (num - 1) None) order;
               lst_res = accu_block (blocks hw xs ! (num - 1))
           in map_option (\<lambda>result. result + lst_res) (add_futures futures init))"

lemma std_accumulate_shift: "std_accumulate xs a = a + std_accumulate xs (0 :: 'a::monoid_add)"
  unfolding std_accumulate_def
proof (induction xs arbitrary: a)
  case (Cons x xs)
  show ?case using Cons [of "a + x"] Cons [of x] by (simp add: add.assoc)
qed simp

lemma std_accumulate_concat:
  "std_accumulate (map (\<lambda>b. std_accumulate b 0) bs) init = std_accumulate (concat bs) (init :: 'a::monoid_add)"
proof (induction bs arbitrary: init)
  case (Cons b bs)
  have "std_accumulate (map (\<lambda>b. std_accumulate b 0) (b # bs)) init =
      std_accumulate (map (\<lambda>b. std_accumulate b 0) bs) (init + std_accumulate b 0)"
    by (simp add: std_accumulate_def)
  also have "\<dots> = std_accumulate (concat bs) (std_accumulate b init)"
    using Cons std_accumulate_shift [of b init] by simp
  finally show ?case by (simp add: std_accumulate_def)
qed simp

lemma foldl_updates_length [simp]: "length (foldl (\<lambda>res i. res[i := g i (res ! i)]) rs order) = length rs"
  by (induction order arbitrary: rs) auto

text \<open>Updates of distinct positions: the order does not matter.\<close>

lemma foldl_updates_nth:
  assumes "distinct order" "set order \<subseteq> {..<length rs}" "k < length rs"
  shows "foldl (\<lambda>res i. res[i := g i (res ! i)]) rs order ! k = (if k \<in> set order then g k (rs ! k) else rs ! k)"
  using assms
proof (induction order arbitrary: rs)
  case (Cons a order)
  then show ?case by (cases "k = a") auto
qed simp

lemma foldl_updates_all:
  assumes "mset order = mset [0..<n]" "length rs = n"
  shows "foldl (\<lambda>res i. res[i := g i (res ! i)]) rs order = map (\<lambda>i. g i (rs ! i)) [0..<n]"
proof -
  have "distinct order" "set order = {..<n}"
    using assms(1) mset_eq_imp_distinct_iff mset_eq_setD by fastforce+
  then show ?thesis using assms(2) by (intro nth_equalityI) (simp_all add: foldl_updates_nth)
qed

lemma add_futures_Some: "add_futures (map Some vs) r = Some (std_accumulate vs r)"
  by (induction vs arbitrary: r) (auto simp: std_accumulate_def)

lemma map_nth_blocks: "n = length bs \<Longrightarrow> map (\<lambda>i. g (bs ! i)) [0..<n] = map g bs"
  by (intro nth_equalityI) auto


lemma parallel_accumulate_eq:
  assumes order: "mset order = mset [0..<num_threads hw (length xs)]"
  shows "parallel_accumulate hw order xs init = std_accumulate xs init"
proof (cases "xs = []")
  case False
  let ?bs = "blocks hw xs" and ?n = "num_threads hw (length xs)"
  have "foldl (\<lambda>res i. res[i := accumulate_block (?bs ! i) (res ! i)]) (replicate ?n 0) order =
      map (\<lambda>b. std_accumulate b 0) ?bs"
    using foldl_updates_all [OF order, of "replicate ?n 0" "\<lambda>i. accumulate_block (?bs ! i)"] False
    by (simp add: accumulate_block_def map_nth_blocks [of ?n ?bs, symmetric])
  then show ?thesis
    using False by (simp add: parallel_accumulate_def std_accumulate_concat concat_blocks)
qed (simp add: parallel_accumulate_def std_accumulate_def)

lemma parallel_accu_eq:
  assumes order: "mset order = mset [0..<num_threads hw (length xs) - 1]"
  shows "parallel_accu hw order xs init = Some (std_accumulate xs init)"
proof (cases "xs = []")
  case False
  let ?bs = "blocks hw xs"
  obtain k where k: "num_threads hw (length xs) = Suc k" using num_threads_pos False gr0_implies_Suc by blast
  let ?f = "\<lambda>b. std_accumulate b 0"
  have bs: "length ?bs = Suc k" using False k by simp
  have "foldl (\<lambda>fs i. fs[i := Some (accu_block (?bs ! i))]) (replicate k None) order =
      map Some (map (\<lambda>i. ?f (?bs ! i)) [0..<k])"
    using foldl_updates_all [of order k "replicate k None" "\<lambda>i _. Some (accu_block (?bs ! i))"] order k
    by (simp add: accu_block_def)
  then have "parallel_accu hw order xs init =
      map_option (\<lambda>r. r + ?f (?bs ! k)) (add_futures (map Some (map (\<lambda>i. ?f (?bs ! i)) [0..<k])) init)"
    using False k by (simp add: parallel_accu_def Let_def accu_block_def)
  also have "\<dots> = Some (std_accumulate (map (\<lambda>i. ?f (?bs ! i)) [0..<k]) init + ?f (?bs ! k))"
    by (simp only: add_futures_Some option.map)
  also have "\<dots> = Some (std_accumulate (map (\<lambda>i. ?f (?bs ! i)) [0..<Suc k]) init)"
    by (simp add: std_accumulate_def)
  also have "\<dots> = Some (std_accumulate (concat ?bs) init)"
    using map_nth_blocks [OF bs [symmetric], of ?f] by (simp only: std_accumulate_concat)
  finally show ?thesis using False by (simp add: concat_blocks)
qed (simp add: parallel_accu_def std_accumulate_def)

text \<open>
  C16. Parallel reduction. For every number of hardware threads and every order in which the threads
  finish, both versions return what \<^verbatim>\<open>std::accumulate\<close> over the whole range returns, for
  every element type whose \<^verbatim>\<open>+\<close> is associative with \<^verbatim>\<open>T()\<close> as its unit
  (it need not be commutative); no future is waited for in vain; and the blocks cut the range into
  at least one and at most \<^verbatim>\<open>hardware_concurrency()\<close> (2 when that is unknown) pieces.
\<close>

theorem parallel_reduction:
  "(mset order = mset [0..<num_threads hw (length xs)] \<longrightarrow> parallel_accumulate hw order xs init = foldl (+) init xs) \<and>
   (mset order = mset [0..<num_threads hw (length xs) - 1] \<longrightarrow> parallel_accu hw order xs init = Some (foldl (+) init xs)) \<and>
   (xs \<noteq> [] \<longrightarrow> concat (blocks hw xs) = xs \<and> 0 < length (blocks hw xs) \<and> length (blocks hw xs) \<le> (if hw = 0 then 2 else hw))"
  using parallel_accumulate_eq [of order hw xs init] parallel_accu_eq [of order hw xs init]
    num_threads_pos [of "length xs" hw] num_threads_min [of hw "length xs"]
  by (auto simp: concat_blocks std_accumulate_def)

theorem parallel_reduction_witness:
  "parallel_accumulate 4 [2, 0, 1] [1..60::int] 10 = 1840 \<and> parallel_accu 4 [1, 0] [1..60::int] 10 = Some 1840"
proof -
  have n: "num_threads 4 (length [1..60::int]) = 3" by (simp add: num_threads_def)
  have m: "mset [2, 0, 1] = mset [0..<num_threads 4 (length [1..60::int])]"
    "mset [1, 0] = mset [0..<num_threads 4 (length [1..60::int]) - 1]"
    by (simp_all only: n, simp_all add: upt_rec)
  have "foldl (+) 10 [1..60::int] = 1840" by code_simp
  then show ?thesis
    using parallel_reduction [of "[2, 0, 1]" 4 "[1..60::int]" 10] parallel_reduction [of "[1, 0]" 4 "[1..60::int]" 10] m
    by metis
qed

section \<open>For each\<close>

text \<open>
  \<open>f x\<close> is \<open>None\<close>, or the exception that the call throws. The result: the elements \<^verbatim>\<open>f\<close> was called
  on, and the exception that ended the loop.
\<close>

fun std_for_each :: "('a \<Rightarrow> 'e option) \<Rightarrow> 'a list \<Rightarrow> 'a list \<times> 'e option" where
  "std_for_each f [] = ([], None)"
| "std_for_each f (x # xs) =
     (case f x of Some e \<Rightarrow> ([x], Some e) | None \<Rightarrow> (let (calls, r) = std_for_each f xs in (x # calls, r)))"

text \<open>The loop of \<^verbatim>\<open>get\<close>: the first exception stored in a future is thrown again.\<close>

fun get_futures :: "'e option list \<Rightarrow> 'e option" where
  "get_futures [] = None"
| "get_futures (Some e # fs) = Some e"
| "get_futures (None # fs) = get_futures fs"

text \<open>
  The calls of each thread, the calling thread last, and the exception that leaves the function. An
  exception in the calling thread leaves at once, through \<^verbatim>\<open>~join_threads\<close>, which waits
  for all threads.
\<close>

definition parallel_for_each :: "nat \<Rightarrow> ('a \<Rightarrow> 'e option) \<Rightarrow> 'a list \<Rightarrow> 'a list list \<times> 'e option" where
  "parallel_for_each hw f xs =
     (if length xs = 0 then ([], None)
      else let runs = map (std_for_each f) (blocks hw xs); futures = map snd (butlast runs) in
        (map fst runs, (case snd (last runs) of Some e \<Rightarrow> Some e | None \<Rightarrow> get_futures futures)))"

text \<open>
  The recursive version. \<open>deferred lo hi\<close>: what \<^verbatim>\<open>std::async\<close>, with its default policy, decides for
  the range. A deferred first half runs in \<^verbatim>\<open>get\<close>, and not at all when the second half
  throws; a concurrent one is waited for by the destructor of its future.
\<close>

function parallel_for_each_async ::
  "(nat \<Rightarrow> nat \<Rightarrow> bool) \<Rightarrow> ('a \<Rightarrow> 'e option) \<Rightarrow> 'a list \<Rightarrow> nat \<Rightarrow> nat \<Rightarrow> 'a list list \<times> 'e option" where
  "parallel_for_each_async deferred f xs lo hi =
     (if hi - lo = 0 then ([], None)
      else if hi - lo < 2 * 25 then (let (calls, r) = std_for_each f (subrange lo hi xs) in ([calls], r))
      else let md = lo + (hi - lo) div 2;
               (calls1, r1) = parallel_for_each_async deferred f xs lo md;
               (calls2, r2) = parallel_for_each_async deferred f xs md hi
           in (case r2 of
                 Some e \<Rightarrow> (if deferred lo md then calls2 else calls1 @ calls2, Some e)
               | None \<Rightarrow> (calls1 @ calls2, r1)))"
  by pat_completeness auto
termination by (relation "measure (\<lambda>(_, _, _, lo, hi). hi - lo)") auto

declare parallel_for_each_async.simps [simp del]

text \<open>Induction along the halving.\<close>

lemma halving_induct [case_names halve]:
  assumes "\<And>lo hi. (\<not> hi - lo < 50 \<Longrightarrow> P lo (lo + (hi - lo) div 2)) \<Longrightarrow>
      (\<not> hi - lo < 50 \<Longrightarrow> P (lo + (hi - lo) div 2) hi) \<Longrightarrow> P lo (hi :: nat)"
  shows "P lo hi"
proof (induction "hi - lo" arbitrary: lo hi rule: less_induct)
  case less
  show ?case
  proof (rule assms)
    show "P lo (lo + (hi - lo) div 2)" if "\<not> hi - lo < 50" by (rule less) (use that in linarith)
    show "P (lo + (hi - lo) div 2) hi" if "\<not> hi - lo < 50" by (rule less) (use that in linarith)
  qed
qed

text \<open>What the calls of all threads look like together.\<close>

inductive interleaving :: "'a list list \<Rightarrow> 'a list \<Rightarrow> bool" where
  finished: "\<forall>t \<in> set ts. t = [] \<Longrightarrow> interleaving ts []"
| next_call: "i < length ts \<Longrightarrow> ts ! i = x # rest \<Longrightarrow> interleaving (ts[i := rest]) tr \<Longrightarrow> interleaving ts (x # tr)"

lemma interleaving_mset: "interleaving ts tr \<Longrightarrow> mset tr = mset (concat ts)"
proof (induction rule: interleaving.induct)
  case (finished ts)
  then show ?case by (simp add: concat_eq_Nil_conv [THEN iffD2])
next
  case (next_call i ts x rest tr)
  then have "concat ts = concat (take i ts) @ (x # rest) @ concat (drop (Suc i) ts)"
    by (metis append.assoc concat.simps(2) concat_append id_take_nth_drop)
  moreover have "concat (ts[i := rest]) = concat (take i ts) @ rest @ concat (drop (Suc i) ts)"
    using next_call by (simp add: upd_conv_take_nth_drop)
  ultimately show ?case using next_call by simp
qed

lemma std_for_each_ok: "\<forall>x \<in> set xs. f x = None \<Longrightarrow> std_for_each f xs = (xs, None)"
  by (induction xs) auto

lemma std_for_each_prefix: "\<exists>rest. xs = fst (std_for_each f xs) @ rest"
  by (induction xs) (auto split: option.splits prod.splits)

lemma std_for_each_calls: "mset (fst (std_for_each f xs)) \<subseteq># mset xs"
  using std_for_each_prefix [of xs f] by (metis mset_append mset_subset_eq_add_left)

lemma std_for_each_throws: "snd (std_for_each f xs) = Some e \<Longrightarrow> \<exists>x \<in> set xs. f x = Some e"
  by (induction xs) (auto split: option.splits prod.splits)

lemma std_for_each_None: "snd (std_for_each f xs) = None \<longleftrightarrow> (\<forall>x \<in> set xs. f x = None)"
  by (induction xs) (auto split: option.splits prod.splits)

lemma get_futures_None: "get_futures fs = None \<longleftrightarrow> (\<forall>r \<in> set fs. r = None)"
  by (induction fs rule: get_futures.induct) auto

lemma get_futures_Some: "get_futures fs = Some e \<Longrightarrow> Some e \<in> set fs"
  by (induction fs rule: get_futures.induct) auto

lemma concat_calls: "mset (concat (map (\<lambda>b. fst (std_for_each f b)) bs)) \<subseteq># mset (concat bs)"
  by (induction bs) (auto intro: subset_mset.add_mono std_for_each_calls)


lemma parallel_for_each_spec:
  "parallel_for_each hw f xs = (map (\<lambda>b. fst (std_for_each f b)) (if xs = [] then [] else blocks hw xs),
     snd (parallel_for_each hw f xs))"
  by (simp add: parallel_for_each_def Let_def)

lemma parallel_for_each_None:
  "snd (parallel_for_each hw f xs) = None \<longleftrightarrow> (\<forall>x \<in> set xs. f x = None)"
proof (cases "xs = []")
  case False
  then obtain bs b where bs: "blocks hw xs = bs @ [b]" using blocks_snoc by blast
  have "snd (parallel_for_each hw f xs) = None \<longleftrightarrow> (\<forall>b \<in> set (bs @ [b]). snd (std_for_each f b) = None)"
    using False by (auto simp: parallel_for_each_def Let_def bs get_futures_None split: option.splits)
  also have "\<dots> \<longleftrightarrow> (\<forall>x \<in> set (concat (blocks hw xs)). f x = None)" by (auto simp: bs std_for_each_None)
  finally show ?thesis using False by (simp add: concat_blocks)
qed (simp add: parallel_for_each_def)

lemma parallel_for_each_Some:
  assumes "snd (parallel_for_each hw f xs) = Some e"
  shows "\<exists>x \<in> set xs. f x = Some e"
proof -
  have ne: "xs \<noteq> []" using assms by (auto simp: parallel_for_each_def)
  then obtain bs b where bs: "blocks hw xs = bs @ [b]" using blocks_snoc by blast
  have "Some e \<in> set (map (\<lambda>b. snd (std_for_each f b)) (bs @ [b]))"
  proof (cases "snd (std_for_each f b)")
    case None
    then have "get_futures (map (\<lambda>b. snd (std_for_each f b)) bs) = Some e"
      using assms ne by (simp add: parallel_for_each_def bs o_def)
    then show ?thesis by (auto dest: get_futures_Some)
  next
    case (Some e')
    then show ?thesis using assms ne by (simp add: parallel_for_each_def bs)
  qed
  then have "\<exists>b \<in> set (blocks hw xs). snd (std_for_each f b) = Some e" unfolding bs set_map by (elim imageE) (metis)
  then obtain b' where b': "b' \<in> set (blocks hw xs)" "snd (std_for_each f b') = Some e" ..
  obtain x where "x \<in> set b'" "f x = Some e" using std_for_each_throws [OF b'(2)] ..
  moreover from this b' have "x \<in> set (concat (blocks hw xs))" by auto
  ultimately show ?thesis using concat_blocks [OF ne, of hw] by auto
qed

lemma async_node:
  assumes "\<not> hi - lo < 50" "md = lo + (hi - lo) div 2"
    and "parallel_for_each_async deferred f xs lo md = (c1, r1)" "parallel_for_each_async deferred f xs md hi = (c2, r2)"
  shows "parallel_for_each_async deferred f xs lo hi =
    (case r2 of Some e \<Rightarrow> (if deferred lo md then c2 else c1 @ c2, Some e) | None \<Rightarrow> (c1 @ c2, r1))"
proof -
  have "\<not> hi - lo = 0" using assms(1) by linarith
  then show ?thesis using assms unfolding parallel_for_each_async.simps [of deferred f xs lo hi] by (simp add: Let_def)
qed

lemma async_ok:
  assumes "\<forall>x \<in> set xs. f x = None" "lo \<le> hi" "hi \<le> length xs"
  shows "snd (parallel_for_each_async deferred f xs lo hi) = None \<and>
    concat (fst (parallel_for_each_async deferred f xs lo hi)) = subrange lo hi xs"
  using assms
proof (induction lo hi rule: halving_induct)
  case (halve lo hi)
  consider (empty) "hi - lo = 0" | (leaf) "hi - lo \<noteq> 0" "hi - lo < 50" | (node) "\<not> hi - lo < 50" by linarith
  then show ?case
  proof cases
    case leaf
    have "\<forall>x \<in> set (subrange lo hi xs). f x = None"
      using \<open>\<forall>x \<in> set xs. f x = None\<close> by (auto simp: subrange_def dest: in_set_takeD in_set_dropD)
    then show ?thesis using leaf by (simp add: parallel_for_each_async.simps [of deferred f xs lo hi] std_for_each_ok)
  next
    case node
    define md where "md = lo + (hi - lo) div 2"
    have "lo \<le> md" "md \<le> hi" using \<open>lo \<le> hi\<close> by (auto simp: md_def)
    with halve node have
      "snd (parallel_for_each_async deferred f xs lo md) = None" "concat (fst (parallel_for_each_async deferred f xs lo md)) = subrange lo md xs"
      "snd (parallel_for_each_async deferred f xs md hi) = None" "concat (fst (parallel_for_each_async deferred f xs md hi)) = subrange md hi xs"
      unfolding md_def by simp_all
    then show ?thesis using node \<open>lo \<le> md\<close> \<open>md \<le> hi\<close>
      by (simp add: async_node [OF node md_def surjective_pairing surjective_pairing] subrange_append)
  qed (simp add: parallel_for_each_async.simps subrange_def)
qed

lemma async_calls:
  assumes "lo \<le> hi"
  shows "mset (concat (fst (parallel_for_each_async deferred f xs lo hi))) \<subseteq># mset (subrange lo hi xs) \<and>
    (\<forall>e. snd (parallel_for_each_async deferred f xs lo hi) = Some e \<longrightarrow> (\<exists>x \<in> set (subrange lo hi xs). f x = Some e))"
  using assms
proof (induction lo hi rule: halving_induct)
  case (halve lo hi)
  consider (empty) "hi - lo = 0" | (leaf) "hi - lo \<noteq> 0" "hi - lo < 50" | (node) "\<not> hi - lo < 50" by linarith
  then show ?case
  proof cases
    case leaf
    then show ?thesis using std_for_each_calls [of f "subrange lo hi xs"] std_for_each_throws [of f "subrange lo hi xs"]
      by (auto simp: parallel_for_each_async.simps [of deferred f xs lo hi] split: prod.split)
  next
    case node
    define md where "md = lo + (hi - lo) div 2"
    have md: "lo \<le> md" "md \<le> hi" using \<open>lo \<le> hi\<close> by (auto simp: md_def)
    obtain c1 r1 c2 r2 where r: "parallel_for_each_async deferred f xs lo md = (c1, r1)"
      "parallel_for_each_async deferred f xs md hi = (c2, r2)" by fastforce
    have IH: "mset (concat c1) \<subseteq># mset (subrange lo md xs)" "\<And>e. r1 = Some e \<Longrightarrow> \<exists>x \<in> set (subrange lo md xs). f x = Some e"
      "mset (concat c2) \<subseteq># mset (subrange md hi xs)" "\<And>e. r2 = Some e \<Longrightarrow> \<exists>x \<in> set (subrange md hi xs). f x = Some e"
      using halve(1,2) [OF node, folded md_def] md r by simp_all
    have split: "subrange lo hi xs = subrange lo md xs @ subrange md hi xs" using md by (simp add: subrange_append)
    have "mset (concat c1) + mset (concat c2) \<subseteq># mset (subrange lo hi xs)"
      using IH split by (simp add: subset_mset.add_mono)
    moreover from this have "mset (concat c2) \<subseteq># mset (subrange lo hi xs)"
      using mset_subset_eq_add_right subset_mset.order_trans by blast
    ultimately show ?thesis using IH(2,4) split
      unfolding async_node [OF node md_def r] by (cases r2) auto
  qed (simp add: parallel_for_each_async.simps subrange_def)
qed

text \<open>
  Parallel for-each. However the calls of the threads interleave: when no call throws, the function
  is called exactly once on each element and nothing is thrown; when some call does, the function is
  called at most once on each element and what comes out is an exception that one of the calls threw
  (never a silent return). The same for the recursive version, whatever \<^verbatim>\<open>std::async\<close> defers.
\<close>

theorem parallel_for_each_once:
  assumes "interleaving (fst (parallel_for_each hw f xs)) tr"
    and "interleaving (fst (parallel_for_each_async deferred f xs 0 (length xs))) tr'"
  shows "((\<forall>x \<in> set xs. f x = None) \<longrightarrow>
       mset tr = mset xs \<and> snd (parallel_for_each hw f xs) = None \<and>
       mset tr' = mset xs \<and> snd (parallel_for_each_async deferred f xs 0 (length xs)) = None) \<and>
     mset tr \<subseteq># mset xs \<and> mset tr' \<subseteq># mset xs \<and>
     (snd (parallel_for_each hw f xs) = None \<longrightarrow> (\<forall>x \<in> set xs. f x = None)) \<and>
     (\<forall>e. snd (parallel_for_each hw f xs) = Some e \<or> snd (parallel_for_each_async deferred f xs 0 (length xs)) = Some e \<longrightarrow>
        (\<exists>x \<in> set xs. f x = Some e))"
proof -
  note T = interleaving_mset [OF assms(1)] interleaving_mset [OF assms(2)]
  have sub: "subrange 0 (length xs) xs = xs" by (simp add: subrange_def)
  have calls: "concat (fst (parallel_for_each hw f xs)) = concat (map (\<lambda>b. fst (std_for_each f b)) (if xs = [] then [] else blocks hw xs))"
    by (subst parallel_for_each_spec) simp
  have once: "mset tr \<subseteq># mset xs"
    using T(1) concat_calls [of f "blocks hw xs"] concat_blocks [of xs hw] unfolding calls by (cases "xs = []") simp_all
  have all: "mset tr = mset xs" if ok: "\<forall>x \<in> set xs. f x = None"
  proof (cases "xs = []")
    case False
    then have "\<forall>b \<in> set (blocks hw xs). \<forall>x \<in> set b. f x = None"
      using ok concat_blocks [OF False, of hw] by (metis UN_I set_concat)
    then have "map (\<lambda>b. fst (std_for_each f b)) (blocks hw xs) = blocks hw xs"
      by (simp add: std_for_each_ok map_idI)
    then show ?thesis using T(1) False by (simp add: calls concat_blocks)
  qed (use T(1) in \<open>simp add: parallel_for_each_def\<close>)
  show ?thesis
    using once all T(2) async_ok [of xs f 0 "length xs" deferred] async_calls [of 0 "length xs" deferred f xs]
      parallel_for_each_None [of hw f xs] parallel_for_each_Some [of hw f xs] sub by auto
qed

theorem parallel_for_each_once_witness:
  "snd (parallel_for_each 4 (\<lambda>x. None :: unit option) [1, 2 :: nat]) = None \<and>
   mset [1, 2 :: nat] \<subseteq># mset [1, 2]"
proof -
  have l: "interleaving [[1, 2]] [1, 2 :: nat]"
    by (rule interleaving.next_call [of 0]; simp; rule interleaving.next_call [of 0]; simp; rule interleaving.finished; simp)
  have "fst (parallel_for_each 4 (\<lambda>x. None :: unit option) [1, 2 :: nat]) = [[1, 2]]" by code_simp
  moreover have "fst (parallel_for_each_async (\<lambda>_ _. False) (\<lambda>x. None :: unit option) [1, 2 :: nat] 0 (length [1, 2 :: nat])) = [[1, 2]]"
    by (simp add: parallel_for_each_async.simps subrange_def)
  ultimately show ?thesis
    using parallel_for_each_once [of 4 "\<lambda>x. None :: unit option" "[1, 2 :: nat]" "[1, 2]" "\<lambda>_ _. False" "[1, 2]"] l by simp
qed

section \<open>Search\<close>

text \<open>
  \<^verbatim>\<open>find_ele\<close>, one access of shared data per step: the load of \<^verbatim>\<open>done\<close>, the comparison with
  \<^verbatim>\<open>set_value\<close>, the store of \<^verbatim>\<open>done\<close>. The second \<^verbatim>\<open>set_value\<close> on the promise throws
  \<^verbatim>\<open>future_error\<close>; then \<^verbatim>\<open>set_exception\<close> throws as well and is swallowed.
\<close>

datatype find_pc = F_test nat | F_compare nat | F_store | F_over

record pfind =
  pf_done :: bool
  pf_promise :: "nat option"
  pf_th :: "nat \<Rightarrow> find_pc"

definition pfind_init :: "(nat \<times> nat) list \<Rightarrow> pfind" where
  "pfind_init rs = \<lparr>pf_done = False, pf_promise = None, pf_th = (\<lambda>i. F_test (fst (rs ! i)))\<rparr>"

definition find_ele :: "'a list \<Rightarrow> 'a \<Rightarrow> nat \<Rightarrow> nat \<Rightarrow> pfind \<Rightarrow> pfind" where
  "find_ele xs m en i s =
     (let goto = (\<lambda>pc. (pf_th s)(i := pc)) in
      case pf_th s i of
        F_test st \<Rightarrow> s\<lparr>pf_th := goto (if st \<noteq> en \<and> \<not> pf_done s then F_compare st else F_over)\<rparr>
      | F_compare st \<Rightarrow>
          (if xs ! st = m then
             (case pf_promise s of
                None \<Rightarrow> s\<lparr>pf_promise := Some st, pf_th := goto F_store\<rparr>
              | Some _ \<Rightarrow> s\<lparr>pf_th := goto F_over\<rparr>)
           else s\<lparr>pf_th := goto (F_test (st + 1))\<rparr>)
      | F_store \<Rightarrow> s\<lparr>pf_done := True, pf_th := goto F_over\<rparr>
      | F_over \<Rightarrow> s)"

inductive find_step :: "'a list \<Rightarrow> 'a \<Rightarrow> (nat \<times> nat) list \<Rightarrow> pfind \<Rightarrow> pfind \<Rightarrow> bool" for xs m rs where
  "i < length rs \<Longrightarrow> pf_th s i \<noteq> F_over \<Longrightarrow> find_step xs m rs s (find_ele xs m (snd (rs ! i)) i s)"

text \<open>
  The value that is returned; \<open>None\<close> would be waiting for ever for a promise that nobody keeps. The
  threads are joined before.
\<close>

definition find_result :: "'a list \<Rightarrow> pfind \<Rightarrow> nat option" where
  "find_result xs s = (if \<not> pf_done s then Some (length xs) else pf_promise s)"

text \<open>\<^verbatim>\<open>~join_threads\<close> returns when every thread has ended.\<close>

definition join_threads :: "(nat \<times> nat) list \<Rightarrow> pfind \<Rightarrow> bool" where
  "join_threads rs s \<longleftrightarrow> (\<forall>i < length rs. pf_th s i = F_over)"

inductive parallel_find :: "nat \<Rightarrow> 'a list \<Rightarrow> 'a \<Rightarrow> nat option \<Rightarrow> bool" for hw xs m where
  "length xs = 0 \<Longrightarrow> parallel_find hw xs m (Some (length xs))"
| "length xs \<noteq> 0 \<Longrightarrow> rs = thread_ranges hw (length xs) \<Longrightarrow> (find_step xs m rs)\<^sup>*\<^sup>* (pfind_init rs) s \<Longrightarrow>
     join_threads rs s \<Longrightarrow> parallel_find hw xs m (find_result xs s)"

definition absent :: "'a list \<Rightarrow> 'a \<Rightarrow> nat \<Rightarrow> nat \<Rightarrow> bool" where
  "absent xs m lo hi \<longleftrightarrow> (\<forall>p. lo \<le> p \<and> p < hi \<longrightarrow> xs ! p \<noteq> m)"

lemma absent_empty [simp]: "absent xs m lo lo"
  by (auto simp: absent_def)

lemma absent_Suc: "absent xs m lo p \<Longrightarrow> xs ! p \<noteq> m \<Longrightarrow> absent xs m lo (Suc p)"
  by (auto simp: absent_def less_Suc_eq)

fun find_thread_ok :: "'a list \<Rightarrow> 'a \<Rightarrow> bool \<Rightarrow> nat \<times> nat \<Rightarrow> find_pc \<Rightarrow> bool" where
  "find_thread_ok xs m found (a, b) (F_test st) = (a \<le> st \<and> st \<le> b \<and> absent xs m a st)"
| "find_thread_ok xs m found (a, b) (F_compare st) = (a \<le> st \<and> st < b \<and> absent xs m a st)"
| "find_thread_ok xs m found (a, b) F_store = found"
| "find_thread_ok xs m found (a, b) F_over = (found \<or> absent xs m a b)"

definition find_inv :: "'a list \<Rightarrow> 'a \<Rightarrow> (nat \<times> nat) list \<Rightarrow> pfind \<Rightarrow> bool" where
  "find_inv xs m rs s \<longleftrightarrow>
     (\<forall>p. pf_promise s = Some p \<longrightarrow> p < length xs \<and> xs ! p = m) \<and>
     (pf_done s \<longrightarrow> pf_promise s \<noteq> None) \<and>
     (pf_promise s \<noteq> None \<longrightarrow> pf_done s \<or> (\<exists>i < length rs. pf_th s i = F_store)) \<and>
     (\<forall>i < length rs. find_thread_ok xs m (pf_promise s \<noteq> None) (rs ! i) (pf_th s i))"

lemma find_thread_ok_mono: "find_thread_ok xs m found r pc \<Longrightarrow> find_thread_ok xs m True r pc"
  by (cases "(xs, m, found, r, pc)" rule: find_thread_ok.cases) auto

lemma find_inv_init:
  assumes "\<forall>(a, b) \<in> set rs. a \<le> b"
  shows "find_inv xs m rs (pfind_init rs)"
proof -
  have "find_thread_ok xs m False (rs ! i) (F_test (fst (rs ! i)))" if "i < length rs" for i
    using assms nth_mem [OF that] by (cases "rs ! i") auto
  then show ?thesis by (simp add: find_inv_def pfind_init_def)
qed

lemma find_inv_goto:
  assumes inv: "find_inv xs m rs s" and i: "pf_th s i \<noteq> F_store"
    and pc: "find_thread_ok xs m (pf_promise s \<noteq> None) (rs ! i) pc"
  shows "find_inv xs m rs (s\<lparr>pf_th := (pf_th s)(i := pc)\<rparr>)"
proof -
  have "\<exists>j < length rs. ((pf_th s)(i := pc)) j = F_store" if "\<exists>j < length rs. pf_th s j = F_store"
    using that i by (metis fun_upd_apply)
  then have "pf_promise s \<noteq> None \<longrightarrow> pf_done s \<or> (\<exists>j < length rs. ((pf_th s)(i := pc)) j = F_store)"
    using inv unfolding find_inv_def by blast
  moreover have "\<forall>j < length rs. find_thread_ok xs m (pf_promise s \<noteq> None) (rs ! j) (((pf_th s)(i := pc)) j)"
    using inv pc by (simp add: find_inv_def)
  ultimately show ?thesis using inv by (simp add: find_inv_def)
qed

lemma find_inv_thread:
  "find_inv xs m rs s \<Longrightarrow> i < length rs \<Longrightarrow> rs ! i = (a, b) \<Longrightarrow>
     find_thread_ok xs m (pf_promise s \<noteq> None) (a, b) (pf_th s i)"
  unfolding find_inv_def by (elim conjE allE [of _ i]) simp

lemma find_inv_step:
  assumes rs: "\<forall>(a, b) \<in> set rs. a \<le> b \<and> b \<le> length xs"
    and inv: "find_inv xs m rs s" and step: "find_step xs m rs s s'"
  shows "find_inv xs m rs s'"
proof -
  from step obtain i where i: "i < length rs" "pf_th s i \<noteq> F_over" and s': "s' = find_ele xs m (snd (rs ! i)) i s"
    by cases auto
  obtain a b where r: "rs ! i = (a, b)" by fastforce
  have b: "b \<le> length xs" using rs nth_mem [OF i(1)] r by auto
  have ok: "find_thread_ok xs m (pf_promise s \<noteq> None) (a, b) (pf_th s i)" using find_inv_thread [OF inv i(1) r] .
  have found: "find_thread_ok xs m True (rs ! j) (pf_th s j)" if "j < length rs" for j
    by (cases "rs ! j") (metis find_inv_thread [OF inv that] find_thread_ok_mono)
  show ?thesis
  proof (cases "pf_th s i")
    case (F_test st)
    then have "find_inv xs m rs (s\<lparr>pf_th := (pf_th s)(i := if st \<noteq> b \<and> \<not> pf_done s then F_compare st else F_over)\<rparr>)"
      using ok r inv by (intro find_inv_goto [OF inv]) (auto simp: find_inv_def)
    then show ?thesis using F_test r unfolding s' by (simp add: find_ele_def)
  next
    case (F_compare st)
    then have st: "a \<le> st" "st < b" "absent xs m a st" using ok by simp_all
    show ?thesis
    proof (cases "xs ! st = m \<and> pf_promise s = None")
      case True
      then have "find_inv xs m rs (s\<lparr>pf_promise := Some st, pf_th := (pf_th s)(i := F_store)\<rparr>)"
        using found st b i r unfolding find_inv_def by auto
      then show ?thesis using F_compare True unfolding s' by (simp add: find_ele_def)
    next
      case False
      then have "find_inv xs m rs (s\<lparr>pf_th := (pf_th s)(i := if xs ! st = m then F_over else F_test (st + 1))\<rparr>)"
        using F_compare r st by (intro find_inv_goto [OF inv]) (auto intro: absent_Suc)
      then show ?thesis using False F_compare r unfolding s'
        by (cases "xs ! st = m"; cases "pf_promise s") (simp_all add: find_ele_def Let_def)
    qed
  next
    case F_store
    then have "pf_promise s \<noteq> None" using ok by simp
    then have "find_inv xs m rs (s\<lparr>pf_done := True, pf_th := (pf_th s)(i := F_over)\<rparr>)"
      using inv found r unfolding find_inv_def by auto
    then show ?thesis using F_store unfolding s' by (simp add: find_ele_def)
  qed (use i in simp)
qed

text \<open>Every run is finite.\<close>

fun find_rank :: "nat \<Rightarrow> find_pc \<Rightarrow> nat" where
  "find_rank b (F_test st) = 2 * (b - st) + 3"
| "find_rank b (F_compare st) = 2 * (b - st) + 2"
| "find_rank b F_store = 1"
| "find_rank b F_over = 0"

definition find_work :: "(nat \<times> nat) list \<Rightarrow> pfind \<Rightarrow> nat" where
  "find_work rs s = (\<Sum>i < length rs. find_rank (snd (rs ! i)) (pf_th s i))"

lemma sum_less_at:
  fixes f g :: "'i \<Rightarrow> nat"
  assumes "finite A" "i \<in> A" "f i < g i" "\<And>j. j \<in> A \<Longrightarrow> j \<noteq> i \<Longrightarrow> f j = g j"
  shows "sum f A < sum g A"
  using assms by (intro sum_strict_mono_ex1) (auto, metis less_or_eq_imp_le)

lemma bounded_run:
  assumes "\<And>s s'. I s \<Longrightarrow> step s s' \<Longrightarrow> I s' \<and> \<mu> s' < (\<mu> s :: nat)"
    and "(step ^^ k) s t" "I s"
  shows "I t \<and> k + \<mu> t \<le> \<mu> s"
  using assms(2,3)
proof (induction k arbitrary: t)
  case (Suc k)
  then obtain u where "(step ^^ k) s u" "step u t" by auto
  then show ?case using Suc.IH [of u] Suc.prems(2) assms(1) [of u t] by force
qed simp

lemma find_work_decreases:
  assumes inv: "find_inv xs m rs s" and step: "find_step xs m rs s s'"
  shows "find_work rs s' < find_work rs s"
proof -
  from step obtain i where i: "i < length rs" "pf_th s i \<noteq> F_over" and s': "s' = find_ele xs m (snd (rs ! i)) i s"
    by cases auto
  obtain a b where r: "rs ! i = (a, b)" by fastforce
  have ok: "find_thread_ok xs m (pf_promise s \<noteq> None) (a, b) (pf_th s i)" using find_inv_thread [OF inv i(1) r] .
  have "find_rank b (pf_th s' i) < find_rank b (pf_th s i)"
    using ok i r unfolding s' by (cases "pf_th s i") (auto simp: find_ele_def Let_def split: option.split)
  moreover have "pf_th s' j = pf_th s j" if "j \<noteq> i" for j
    using that unfolding s' by (cases "pf_th s i") (auto simp: find_ele_def Let_def split: option.split)
  ultimately show ?thesis unfolding find_work_def using i r by (intro sum_less_at [of _ i]) auto
qed

lemma in_thread_ranges:
  assumes "0 < len" "num = num_threads hw len" "d = len div num"
  shows "(a, b) \<in> set (thread_ranges hw len) \<longleftrightarrow> (\<exists>i < num. a = i * d \<and> b = (if Suc i = num then len else Suc i * d))"
  unfolding thread_ranges_eq [OF assms(1)] assms(2,3) by auto

lemma thread_ranges_ok:
  assumes len: "0 < len" and r: "(a, b) \<in> set (thread_ranges hw len)"
  shows "a \<le> b \<and> b \<le> len"
proof -
  define num where "num = num_threads hw len"
  define d where "d = len div num"
  obtain i where i: "i < num" "a = i * d" "b = (if Suc i = num then len else Suc i * d)"
    using r in_thread_ranges [OF len num_def d_def] by blast
  have "i * d \<le> Suc i * d" "Suc i * d \<le> num * d" "num * d \<le> len"
    using i(1) mult_le_mono1 [of "Suc i" num d] by (simp_all add: d_def)
  then have "a \<le> num * d" "a \<le> Suc i * d" "Suc i * d \<le> len" "num * d \<le> len" using i(2) by linarith+
  then show ?thesis unfolding i(3) by (cases "Suc i = num") simp_all
qed

lemma thread_ranges_cover:
  assumes "p < len"
  shows "\<exists>(a, b) \<in> set (thread_ranges hw len). a \<le> p \<and> p < b"
proof -
  define num where "num = num_threads hw len"
  define d where "d = len div num"
  have num: "0 < num" using num_threads_pos assms by (simp add: num_def)
  define i where "i = (if d = 0 then num - 1 else min (p div d) (num - 1))"
  have i: "i < num" using num by (auto simp: i_def)
  have "i * d \<le> p"
    by (cases "d = 0") (auto simp: i_def min_def intro: order_trans [OF mult_le_mono1 div_times_less_eq_dividend])
  moreover have "p < Suc i * d" if "Suc i \<noteq> num"
  proof -
    have "d \<noteq> 0" "i = p div d" using that i by (auto simp: i_def min_def split: if_splits)
    then show ?thesis by (metis dividend_less_div_times mult.commute mult_Suc neq0_conv)
  qed
  moreover have "(i * d, if Suc i = num then len else Suc i * d) \<in> set (thread_ranges hw len)"
    using i assms by (subst in_thread_ranges [OF _ num_def d_def]) auto
  ultimately show ?thesis using assms by (intro bexI [of _ "(i * d, if Suc i = num then len else Suc i * d)"]) auto
qed

lemma find_finished:
  assumes inv: "find_inv xs m (thread_ranges hw (length xs)) s"
    and over: "\<forall>i < length (thread_ranges hw (length xs)). pf_th s i = F_over"
  shows "\<exists>p. find_result xs s = Some p \<and> (if m \<in> set xs then p < length xs \<and> xs ! p = m else p = length xs)"
proof (cases "pf_promise s")
  case None
  then have nd: "\<not> pf_done s" using inv by (auto simp: find_inv_def)
  have "xs ! q \<noteq> m" if q: "q < length xs" for q
  proof -
    obtain a b where ab: "(a, b) \<in> set (thread_ranges hw (length xs))" "a \<le> q" "q < b"
      using thread_ranges_cover [OF q, of hw] by auto
    then obtain i where i: "i < length (thread_ranges hw (length xs))" "thread_ranges hw (length xs) ! i = (a, b)"
      by (auto simp: in_set_conv_nth)
    show ?thesis using find_inv_thread [OF inv i] over i(1) None ab by (simp add: absent_def)
  qed
  then have "m \<notin> set xs" by (auto simp: in_set_conv_nth)
  then show ?thesis using nd by (simp add: find_result_def)
next
  case (Some p)
  then have "pf_done s" using inv over by (auto simp: find_inv_def)
  moreover have "p < length xs" "xs ! p = m" using inv Some by (auto simp: find_inv_def)
  ultimately show ?thesis using Some by (auto simp: find_result_def)
qed

lemma find_reach:
  assumes "length xs \<noteq> 0" "(find_step xs m (thread_ranges hw (length xs)) ^^ k) (pfind_init (thread_ranges hw (length xs))) s"
  shows "find_inv xs m (thread_ranges hw (length xs)) s \<and>
    k + find_work (thread_ranges hw (length xs)) s \<le> num_threads hw (length xs) * (2 * length xs + 3)"
proof -
  let ?rs = "thread_ranges hw (length xs)"
  have rs: "\<forall>(a, b) \<in> set ?rs. a \<le> b \<and> b \<le> length xs" using assms(1) by (auto dest: thread_ranges_ok [rotated])
  then have "find_inv xs m ?rs (pfind_init ?rs)" by (intro find_inv_init) auto
  then have "find_inv xs m ?rs s \<and> k + find_work ?rs s \<le> find_work ?rs (pfind_init ?rs)"
    by (intro bounded_run [OF _ assms(2)] conjI) (rule find_inv_step [OF rs], assumption+, rule find_work_decreases)
  moreover have "find_work ?rs (pfind_init ?rs) \<le> card {..<length ?rs} * (2 * length xs + 3)"
  proof -
    have "snd (?rs ! i) \<le> length xs" if "i < length ?rs" for i using rs nth_mem [OF that] by (cases "?rs ! i") auto
    then have "2 * (snd (?rs ! i) - fst (?rs ! i)) \<le> 2 * length xs" if "i < length ?rs" for i
      using that by (meson diff_le_self le_trans mult_le_mono2)
    then show ?thesis unfolding find_work_def pfind_init_def
      by (intro sum_bounded_above [where K = "2 * length xs + 3", simplified]) auto
  qed
  ultimately show ?thesis using assms(1) by simp
qed

lemma parallel_find_cases:
  "parallel_find hw xs m r \<Longrightarrow>
     \<exists>p. r = Some p \<and> (if m \<in> set xs then p < length xs \<and> xs ! p = m else p = length xs)"
proof (induction rule: parallel_find.induct)
  case (2 rs s)
  then obtain k where "(find_step xs m rs ^^ k) (pfind_init rs) s" by (auto dest: rtranclp_imp_relpowp)
  then show ?case using find_reach [OF 2(1)] find_finished [of xs m hw s] 2 unfolding join_threads_def by blast
qed auto

subsection \<open>With \<^verbatim>\<open>std::async\<close>\<close>

text \<open>
  The recursion of \<^verbatim>\<open>parallel_find_async_impl\<close> ends in leaves of fewer than 50 elements, which share
  \<^verbatim>\<open>done\<close>. A leaf is a thread of control that steps when it is scheduled; one whose future is
  deferred and never asked for takes no step. \<open>find_async_result\<close> is what a call returns once the
  leaves it needs have returned.
\<close>

function find_leaves :: "nat \<Rightarrow> nat \<Rightarrow> (nat \<times> nat) list" where
  "find_leaves lo hi =
     (if hi - lo < 2 * 25 then [(lo, hi)]
      else let md = lo + (hi - lo) div 2 in find_leaves lo md @ find_leaves md hi)"
  by pat_completeness auto
termination by (relation "measure (\<lambda>(lo, hi). hi - lo)") auto

datatype leaf_pc = L_test nat | L_compare nat | L_found nat | L_returned nat

record afind =
  af_done :: bool
  af_th :: "nat \<times> nat \<Rightarrow> leaf_pc"

definition afind_init :: afind where
  "afind_init = \<lparr>af_done = False, af_th = (\<lambda>(lo, hi). L_test lo)\<rparr>"

definition find_leaf :: "'a list \<Rightarrow> 'a \<Rightarrow> nat \<times> nat \<Rightarrow> afind \<Rightarrow> afind" where
  "find_leaf xs need l s =
     (let goto = (\<lambda>pc. (af_th s)(l := pc)) in
      case af_th s l of
        L_test st \<Rightarrow> s\<lparr>af_th := goto (if st \<noteq> snd l \<and> \<not> af_done s then L_compare st else L_returned (snd l))\<rparr>
      | L_compare st \<Rightarrow> s\<lparr>af_th := goto (if xs ! st = need then L_found st else L_test (st + 1))\<rparr>
      | L_found st \<Rightarrow> s\<lparr>af_done := True, af_th := goto (L_returned st)\<rparr>
      | L_returned r \<Rightarrow> s)"

inductive afind_step :: "'a list \<Rightarrow> 'a \<Rightarrow> afind \<Rightarrow> afind \<Rightarrow> bool" for xs need where
  "l \<in> set (find_leaves 0 (length xs)) \<Longrightarrow> \<forall>r. af_th s l \<noteq> L_returned r \<Longrightarrow> afind_step xs need s (find_leaf xs need l s)"

function find_async_result :: "afind \<Rightarrow> nat \<Rightarrow> nat \<Rightarrow> nat option" where
  "find_async_result s lo hi =
     (if hi - lo < 2 * 25 then (case af_th s (lo, hi) of L_returned r \<Rightarrow> Some r | _ \<Rightarrow> None)
      else let md = lo + (hi - lo) div 2 in
        (case find_async_result s lo md of
           None \<Rightarrow> None
         | Some res2 \<Rightarrow> if res2 = md then find_async_result s md hi else Some res2))"
  by pat_completeness auto
termination by (relation "measure (\<lambda>(s, lo, hi). hi - lo)") auto

definition parallel_find_async :: "'a list \<Rightarrow> 'a \<Rightarrow> nat \<Rightarrow> bool" where
  "parallel_find_async xs need r \<longleftrightarrow>
     (\<exists>s. (afind_step xs need)\<^sup>*\<^sup>* afind_init s \<and> find_async_result s 0 (length xs) = Some r)"

declare find_leaves.simps [simp del] find_async_result.simps [simp del]

lemma find_leaves_node:
  "\<not> hi - lo < 50 \<Longrightarrow> find_leaves lo hi = find_leaves lo (lo + (hi - lo) div 2) @ find_leaves (lo + (hi - lo) div 2) hi"
  by (subst find_leaves.simps) (simp add: Let_def)

lemma find_leaves_leaf: "hi - lo < 50 \<Longrightarrow> find_leaves lo hi = [(lo, hi)]"
  by (subst find_leaves.simps) simp

lemma find_async_result_node:
  "\<not> hi - lo < 50 \<Longrightarrow> find_async_result s lo hi =
     (case find_async_result s lo (lo + (hi - lo) div 2) of
        None \<Rightarrow> None
      | Some res2 \<Rightarrow> if res2 = lo + (hi - lo) div 2 then find_async_result s (lo + (hi - lo) div 2) hi else Some res2)"
  by (subst find_async_result.simps) (simp add: Let_def)

lemma find_leaves_bounds: "lo \<le> hi \<Longrightarrow> (a, b) \<in> set (find_leaves lo hi) \<Longrightarrow> lo \<le> a \<and> a \<le> b \<and> b \<le> hi"
proof (induction lo hi rule: halving_induct)
  case (halve lo hi)
  define md where "md = lo + (hi - lo) div 2"
  have "lo \<le> md" "md \<le> hi" using halve.prems(1) by (auto simp: md_def)
  then show ?case using halve
    by (cases "hi - lo < 50") (auto simp: find_leaves_leaf find_leaves_node md_def [symmetric])
qed

lemma find_leaves_cover: "lo \<le> p \<Longrightarrow> p < hi \<Longrightarrow> \<exists>(a, b) \<in> set (find_leaves lo hi). a \<le> p \<and> p < b"
proof (induction lo hi rule: halving_induct)
  case (halve lo hi)
  define md where "md = lo + (hi - lo) div 2"
  show ?case
  proof (cases "hi - lo < 50")
    case False
    then have "\<exists>(a, b) \<in> set (find_leaves lo md @ find_leaves md hi). a \<le> p \<and> p < b"
      using halve.IH [folded md_def] halve.prems by (cases "p < md") auto
    then show ?thesis using False by (simp add: find_leaves_node md_def)
  qed (use halve.prems in \<open>simp add: find_leaves_leaf\<close>)
qed

fun leaf_ok :: "'a list \<Rightarrow> 'a \<Rightarrow> bool \<Rightarrow> nat \<times> nat \<Rightarrow> leaf_pc \<Rightarrow> bool" where
  "leaf_ok xs m done_flag (lo, hi) (L_test st) = (lo \<le> st \<and> st \<le> hi \<and> absent xs m lo st)"
| "leaf_ok xs m done_flag (lo, hi) (L_compare st) = (lo \<le> st \<and> st < hi \<and> absent xs m lo st)"
| "leaf_ok xs m done_flag (lo, hi) (L_found st) = (lo \<le> st \<and> st < hi \<and> xs ! st = m)"
| "leaf_ok xs m done_flag (lo, hi) (L_returned r) =
     (lo \<le> r \<and> r < hi \<and> xs ! r = m \<or> r = hi \<and> (done_flag \<or> absent xs m lo hi))"

definition afind_inv :: "'a list \<Rightarrow> 'a \<Rightarrow> afind \<Rightarrow> bool" where
  "afind_inv xs m s \<longleftrightarrow>
     (\<forall>l \<in> set (find_leaves 0 (length xs)). leaf_ok xs m (af_done s) l (af_th s l)) \<and>
     (af_done s \<longrightarrow> (\<exists>l \<in> set (find_leaves 0 (length xs)). \<exists>r < snd l. af_th s l = L_returned r))"

lemma leaf_ok_mono: "leaf_ok xs m d l pc \<Longrightarrow> leaf_ok xs m True l pc"
  by (cases "(xs, m, d, l, pc)" rule: leaf_ok.cases) auto

lemma afind_inv_init: "afind_inv xs m afind_init"
  by (auto simp: afind_inv_def afind_init_def dest: find_leaves_bounds [rotated])

lemma afind_inv_goto:
  assumes inv: "afind_inv xs m s" and l: "\<forall>r. af_th s l \<noteq> L_returned r"
    and pc: "leaf_ok xs m (af_done s) l pc"
  shows "afind_inv xs m (s\<lparr>af_th := (af_th s)(l := pc)\<rparr>)"
proof -
  have "af_done s \<longrightarrow> (\<exists>k \<in> set (find_leaves 0 (length xs)). \<exists>r < snd k. ((af_th s)(l := pc)) k = L_returned r)"
    using inv l unfolding afind_inv_def by (metis fun_upd_other)
  then show ?thesis using inv pc by (simp add: afind_inv_def)
qed

lemma afind_inv_step:
  assumes inv: "afind_inv xs m s" and step: "afind_step xs m s s'"
  shows "afind_inv xs m s'"
proof -
  from step obtain l where l: "l \<in> set (find_leaves 0 (length xs))" "\<forall>r. af_th s l \<noteq> L_returned r"
    and s': "s' = find_leaf xs m l s" by cases auto
  obtain lo hi where lh: "l = (lo, hi)" by fastforce
  have ok: "leaf_ok xs m (af_done s) (lo, hi) (af_th s l)" using inv l(1) lh by (simp add: afind_inv_def)
  show ?thesis
  proof (cases "af_th s l")
    case (L_test st)
    then have "afind_inv xs m (s\<lparr>af_th := (af_th s)(l := if st \<noteq> hi \<and> \<not> af_done s then L_compare st else L_returned hi)\<rparr>)"
      using ok lh by (intro afind_inv_goto [OF inv l(2)]) auto
    then show ?thesis using L_test unfolding s' find_leaf_def by (simp only: leaf_pc.case Let_def lh snd_conv)
  next
    case (L_compare st)
    then have "afind_inv xs m (s\<lparr>af_th := (af_th s)(l := if xs ! st = m then L_found st else L_test (st + 1))\<rparr>)"
      using ok lh by (intro afind_inv_goto [OF inv l(2)]) (auto intro: absent_Suc)
    then show ?thesis using L_compare unfolding s' by (simp add: find_leaf_def)
  next
    case (L_found st)
    have "leaf_ok xs m True k (((af_th s)(l := L_returned st)) k)" if "k \<in> set (find_leaves 0 (length xs))" for k
      using inv that ok L_found lh by (cases "k = l") (auto simp: afind_inv_def dest: leaf_ok_mono)
    then have "afind_inv xs m (s\<lparr>af_done := True, af_th := (af_th s)(l := L_returned st)\<rparr>)"
      using l ok L_found lh by (auto simp: afind_inv_def)
    then show ?thesis using L_found unfolding s' by (simp add: find_leaf_def)
  qed (use l in simp)
qed

lemma afind_reach: "(afind_step xs m)\<^sup>*\<^sup>* afind_init s \<Longrightarrow> afind_inv xs m s"
  by (induction rule: rtranclp_induct) (auto intro: afind_inv_init afind_inv_step)

text \<open>A call returns a match of its range, or the end of its range when none of its leaves found one.\<close>

lemma find_async_result_cases:
  assumes "afind_inv xs m s" "lo \<le> hi" "set (find_leaves lo hi) \<subseteq> set (find_leaves 0 (length xs))"
    and "find_async_result s lo hi = Some r"
  shows "lo \<le> r \<and> r < hi \<and> xs ! r = m \<or> r = hi \<and> (\<forall>(a, b) \<in> set (find_leaves lo hi). af_th s (a, b) = L_returned b)"
  using assms(2-)
proof (induction lo hi arbitrary: r rule: halving_induct)
  case (halve lo hi)
  show ?case
  proof (cases "hi - lo < 50")
    case True
    then have "af_th s (lo, hi) = L_returned r"
      using halve.prems(3) by (simp add: find_async_result.simps [of s lo hi] split: leaf_pc.splits)
    moreover have "leaf_ok xs m (af_done s) (lo, hi) (af_th s (lo, hi))"
      using assms(1) halve.prems(2) True by (simp add: afind_inv_def find_leaves_leaf)
    ultimately show ?thesis using True by (auto simp: find_leaves_leaf)
  next
    case False
    define md where "md = lo + (hi - lo) div 2"
    have md: "lo \<le> md" "md \<le> hi" using halve.prems(1) by (auto simp: md_def)
    have leaves: "find_leaves lo hi = find_leaves lo md @ find_leaves md hi" using False by (simp add: find_leaves_node md_def)
    obtain res2 where res2: "find_async_result s lo md = Some res2"
      and r: "(if res2 = md then find_async_result s md hi else Some res2) = Some r"
      using halve.prems(3) find_async_result_node [OF False, of s, folded md_def]
      by (cases "find_async_result s lo md") auto
    have IH1: "lo \<le> res2 \<and> res2 < md \<and> xs ! res2 = m \<or>
        res2 = md \<and> (\<forall>(a, b) \<in> set (find_leaves lo md). af_th s (a, b) = L_returned b)"
      using halve.IH(1) [OF False, folded md_def, of res2] md halve.prems(2) res2 leaves by simp
    show ?thesis
    proof (cases "res2 = md")
      case True
      then have "md \<le> r \<and> r < hi \<and> xs ! r = m \<or> r = hi \<and> (\<forall>(a, b) \<in> set (find_leaves md hi). af_th s (a, b) = L_returned b)"
        using halve.IH(2) [OF False, folded md_def, of r] md halve.prems(2) r leaves by simp
      then show ?thesis using True IH1 md leaves by (simp add: ball_Un) linarith
    next
      case False
      then show ?thesis using r IH1 md by auto
    qed
  qed
qed

lemma parallel_find_async_cases:
  assumes "parallel_find_async xs m r"
  shows "if m \<in> set xs then r < length xs \<and> xs ! r = m else r = length xs"
proof -
  obtain s where s: "afind_inv xs m s" "find_async_result s 0 (length xs) = Some r"
    using assms afind_reach [of xs m] unfolding parallel_find_async_def by blast
  consider (found) "r < length xs" "xs ! r = m"
    | (none) "r = length xs" "\<forall>(a, b) \<in> set (find_leaves 0 (length xs)). af_th s (a, b) = L_returned b"
    using find_async_result_cases [OF s(1) _ _ s(2)] by auto
  then show ?thesis
  proof cases
    case none
    then have nd: "\<not> af_done s" using s(1) by (fastforce simp: afind_inv_def)
    have "xs ! q \<noteq> m" if q: "q < length xs" for q
    proof -
      obtain a b where ab: "(a, b) \<in> set (find_leaves 0 (length xs))" "a \<le> q" "q < b"
        using find_leaves_cover [of 0 q "length xs"] q by auto
      then have "leaf_ok xs m False (a, b) (L_returned b)" using s(1) none nd by (force simp: afind_inv_def)
      then show ?thesis using ab by (auto simp: absent_def)
    qed
    then show ?thesis using none by (auto simp: in_set_conv_nth)
  qed (auto simp: in_set_conv_nth)
qed

subsection \<open>Both searches end\<close>

lemma run_to_end:
  assumes dec: "\<And>s s'. I s \<Longrightarrow> step s s' \<Longrightarrow> I s' \<and> \<mu> s' < (\<mu> s :: nat)"
    and prog: "\<And>s. I s \<Longrightarrow> \<not> ended s \<Longrightarrow> \<exists>s'. step s s'" and "I s"
  shows "\<exists>t. step\<^sup>*\<^sup>* s t \<and> I t \<and> ended t"
  using assms(3)
proof (induction "\<mu> s" arbitrary: s rule: less_induct)
  case less
  show ?case
  proof (cases "ended s")
    case False
    then obtain s' where "step s s'" using prog less.prems by blast
    then show ?thesis using less dec by (meson converse_rtranclp_into_rtranclp)
  qed (use less.prems in blast)
qed

lemma parallel_find_ends: "\<exists>r. parallel_find hw xs m r"
proof (cases "length xs = 0")
  case False
  let ?rs = "thread_ranges hw (length xs)"
  have rs: "\<forall>(a, b) \<in> set ?rs. a \<le> b \<and> b \<le> length xs" using False by (auto dest: thread_ranges_ok [rotated])
  then have "find_inv xs m ?rs (pfind_init ?rs)" by (intro find_inv_init) auto
  moreover have "\<exists>s'. find_step xs m ?rs s s'" if "\<not> join_threads ?rs s" for s
    using that by (auto simp: join_threads_def intro: find_step.intros)
  moreover have "find_inv xs m ?rs s' \<and> find_work ?rs s' < find_work ?rs s"
    if "find_inv xs m ?rs s" "find_step xs m ?rs s s'" for s s'
    using find_inv_step [OF rs that] find_work_decreases [OF that] ..
  ultimately have "\<exists>s. (find_step xs m ?rs)\<^sup>*\<^sup>* (pfind_init ?rs) s \<and> find_inv xs m ?rs s \<and> join_threads ?rs s"
    by (intro run_to_end [where \<mu> = "find_work ?rs"])
  then obtain s where "(find_step xs m ?rs)\<^sup>*\<^sup>* (pfind_init ?rs) s" "join_threads ?rs s" by blast
  then show ?thesis using parallel_find.intros(2) [OF False refl] by blast
qed (blast intro: parallel_find.intros(1))

fun leaf_rank :: "nat \<Rightarrow> leaf_pc \<Rightarrow> nat" where
  "leaf_rank b (L_test st) = 2 * (b - st) + 3"
| "leaf_rank b (L_compare st) = 2 * (b - st) + 2"
| "leaf_rank b (L_found st) = 1"
| "leaf_rank b (L_returned r) = 0"

definition leaf_work :: "'a list \<Rightarrow> afind \<Rightarrow> nat" where
  "leaf_work xs s = (\<Sum>l \<in> set (find_leaves 0 (length xs)). leaf_rank (snd l) (af_th s l))"

lemma leaf_work_decreases:
  assumes inv: "afind_inv xs m s" and step: "afind_step xs m s s'"
  shows "leaf_work xs s' < leaf_work xs s"
proof -
  from step obtain l where l: "l \<in> set (find_leaves 0 (length xs))" "\<forall>r. af_th s l \<noteq> L_returned r"
    and s': "s' = find_leaf xs m l s" by cases auto
  obtain lo hi where lh: "l = (lo, hi)" by fastforce
  have ok: "leaf_ok xs m (af_done s) (lo, hi) (af_th s l)" using inv l(1) lh by (simp add: afind_inv_def)
  have "leaf_rank hi (af_th s' l) < leaf_rank hi (af_th s l)"
    using ok l lh unfolding s' by (cases "af_th s l") (auto simp: find_leaf_def Let_def)
  moreover have "af_th s' j = af_th s j" if "j \<noteq> l" for j
    using that unfolding s' by (cases "af_th s l") (auto simp: find_leaf_def Let_def)
  ultimately show ?thesis unfolding leaf_work_def using l lh by (intro sum_less_at [of _ l]) auto
qed

lemma no_result_leaf:
  "find_async_result s lo hi = None \<Longrightarrow> \<exists>l \<in> set (find_leaves lo hi). \<forall>r. af_th s l \<noteq> L_returned r"
proof (induction lo hi rule: halving_induct)
  case (halve lo hi)
  define md where "md = lo + (hi - lo) div 2"
  show ?case
  proof (cases "hi - lo < 50")
    case True
    then show ?thesis using halve.prems
      by (simp add: find_leaves_leaf find_async_result.simps [of s lo hi] split: leaf_pc.splits)
  next
    case False
    then have "find_async_result s lo md = None \<or> find_async_result s md hi = None"
      using halve.prems by (auto simp: find_async_result_node md_def split: option.splits if_splits)
    then have "\<exists>l \<in> set (find_leaves lo md @ find_leaves md hi). \<forall>r. af_th s l \<noteq> L_returned r"
      using halve.IH(1,2) [OF False, folded md_def] by auto
    then show ?thesis using False by (simp add: find_leaves_node md_def)
  qed
qed

lemma afind_progress: "find_async_result s 0 (length xs) = None \<Longrightarrow> \<exists>s'. afind_step xs m s s'"
  using no_result_leaf by (metis afind_step.intros)

lemma afind_decreases:
  "afind_inv xs m s \<Longrightarrow> afind_step xs m s s' \<Longrightarrow> afind_inv xs m s' \<and> leaf_work xs s' < leaf_work xs s"
  using afind_inv_step [of xs m s s'] leaf_work_decreases [of xs m s s'] by simp

lemma parallel_find_async_ends: "\<exists>q. parallel_find_async xs m q"
proof -
  have "\<exists>s. (afind_step xs m)\<^sup>*\<^sup>* afind_init s \<and> afind_inv xs m s \<and> find_async_result s 0 (length xs) \<noteq> None"
  proof (rule run_to_end [where \<mu> = "leaf_work xs"])
    show "afind_inv xs m afind_init" by (rule afind_inv_init)
    show "afind_inv xs m s' \<and> leaf_work xs s' < leaf_work xs s" if "afind_inv xs m s" "afind_step xs m s s'" for s s'
      using that by (rule afind_decreases)
    show "\<exists>s'. afind_step xs m s s'" if "\<not> find_async_result s 0 (length xs) \<noteq> None" for s
      using that afind_progress [of s xs m] by simp
  qed
  then obtain s q where "(afind_step xs m)\<^sup>*\<^sup>* afind_init s" "find_async_result s 0 (length xs) = Some q" by blast
  then show ?thesis unfolding parallel_find_async_def by blast
qed

lemma afind_run_bound:
  assumes "(afind_step xs m ^^ k) afind_init s"
  shows "k \<le> length (find_leaves 0 (length xs)) * (2 * length xs + 3)"
proof -
  let ?L = "set (find_leaves 0 (length xs))"
  have "k + leaf_work xs s \<le> leaf_work xs afind_init"
    using bounded_run [where I = "afind_inv xs m" and step = "afind_step xs m" and \<mu> = "leaf_work xs",
        OF afind_decreases assms afind_inv_init] by blast
  moreover have "leaf_work xs afind_init \<le> card ?L * (2 * length xs + 3)"
    unfolding leaf_work_def
  proof (rule sum_bounded_above [where K = "2 * length xs + 3", simplified])
    fix l assume l: "l \<in> ?L"
    obtain lo hi where lh: "l = (lo, hi)" by fastforce
    have "hi \<le> length xs" using find_leaves_bounds [of 0 "length xs" lo hi] l lh by simp
    then have "2 * (hi - lo) \<le> 2 * length xs" by simp
    then show "leaf_rank (snd l) (af_th afind_init l) \<le> 2 * length xs + 3" by (simp add: lh afind_init_def)
  qed
  moreover have "card ?L * (2 * length xs + 3) \<le> length (find_leaves 0 (length xs)) * (2 * length xs + 3)"
    by (intro mult_le_mono1 card_length)
  ultimately show ?thesis by linarith
qed

text \<open>
  C13. Parallel search. Under every schedule both searches return the position of an element equal to
  \<^verbatim>\<open>match\<close> when there is one (any one of them, not always the first) and the end of the range
  when there is none, and \<^verbatim>\<open>parallel_find\<close> never waits for a promise that is not kept. Both return:
  \<^verbatim>\<open>parallel_find\<close> has a thread that can step until all threads have ended, \<^verbatim>\<open>parallel_find_async\<close> a
  leaf that can step until its result is there, and no run is longer than \<open>2 * length + 3\<close> steps
  for each of the threads, or leaves.
\<close>

theorem parallel_search:
  "(parallel_find hw xs m r \<longrightarrow>
      (\<exists>p. r = Some p \<and> (if m \<in> set xs then p < length xs \<and> xs ! p = m else p = length xs))) \<and>
   (\<exists>r'. parallel_find hw xs m r') \<and>
   (xs \<noteq> [] \<and> rs = thread_ranges hw (length xs) \<and> (find_step xs m rs ^^ k) (pfind_init rs) s \<longrightarrow>
      k \<le> num_threads hw (length xs) * (2 * length xs + 3) \<and>
      ((\<exists>i < length rs. pf_th s i \<noteq> F_over) \<longrightarrow> (\<exists>s'. find_step xs m rs s s'))) \<and>
   (parallel_find_async xs m q \<longrightarrow> (if m \<in> set xs then q < length xs \<and> xs ! q = m else q = length xs)) \<and>
   (\<exists>q'. parallel_find_async xs m q') \<and>
   ((afind_step xs m ^^ k) afind_init a \<longrightarrow>
      k \<le> length (find_leaves 0 (length xs)) * (2 * length xs + 3) \<and>
      (find_async_result a 0 (length xs) = None \<longrightarrow> (\<exists>a'. afind_step xs m a a')))"
proof (intro conjI impI)
  show "\<exists>p. r = Some p \<and> (if m \<in> set xs then p < length xs \<and> xs ! p = m else p = length xs)" if "parallel_find hw xs m r"
    using that by (rule parallel_find_cases)
  show "if m \<in> set xs then q < length xs \<and> xs ! q = m else q = length xs" if "parallel_find_async xs m q"
    using that by (rule parallel_find_async_cases)
  show "\<exists>r'. parallel_find hw xs m r'" by (rule parallel_find_ends)
  show "\<exists>q'. parallel_find_async xs m q'" by (rule parallel_find_async_ends)
  show "k \<le> length (find_leaves 0 (length xs)) * (2 * length xs + 3)" if "(afind_step xs m ^^ k) afind_init a"
    using that by (rule afind_run_bound)
  show "\<exists>a'. afind_step xs m a a'" if "find_async_result a 0 (length xs) = None"
    using that by (rule afind_progress)
next
  assume run: "xs \<noteq> [] \<and> rs = thread_ranges hw (length xs) \<and> (find_step xs m rs ^^ k) (pfind_init rs) s"
  then have "k + find_work rs s \<le> num_threads hw (length xs) * (2 * length xs + 3)"
    using find_reach [where xs = xs and m = m and hw = hw and k = k and s = s] by (metis length_0_conv)
  then show "k \<le> num_threads hw (length xs) * (2 * length xs + 3)" by simp
  show "\<exists>s'. find_step xs m rs s s'" if "\<exists>i < length rs. pf_th s i \<noteq> F_over"
    using that by (blast intro: find_step.intros)
qed

text \<open>A run of the single leaf of a range of two elements, which finds the second.\<close>

lemma sample_async_run: "parallel_find_async [5, 7 :: nat] 7 1"
proof -
  let ?f = "find_leaf [5, 7 :: nat] 7 (0, 2)"
  let ?s = "?f (?f (?f (?f (?f afind_init))))"
  have leaf: "(0, 2) \<in> set (find_leaves 0 (length [5, 7 :: nat]))" by (simp add: find_leaves_leaf)
  have go: "afind_step [5, 7 :: nat] 7 s (?f s)" if "\<forall>r. af_th s (0, 2) \<noteq> L_returned r" for s
    using afind_step.intros [OF leaf that] .
  have "afind_step [5, 7 :: nat] 7 afind_init (?f afind_init)"
    "afind_step [5, 7 :: nat] 7 (?f afind_init) (?f (?f afind_init))"
    "afind_step [5, 7 :: nat] 7 (?f (?f afind_init)) (?f (?f (?f afind_init)))"
    "afind_step [5, 7 :: nat] 7 (?f (?f (?f afind_init))) (?f (?f (?f (?f afind_init))))"
    "afind_step [5, 7 :: nat] 7 (?f (?f (?f (?f afind_init)))) ?s"
    by (rule go, simp add: find_leaf_def afind_init_def)+
  then have "(afind_step [5, 7 :: nat] 7)\<^sup>*\<^sup>* afind_init ?s" by simp
  moreover have "find_async_result ?s 0 (length [5, 7 :: nat]) = Some 1"
    by (simp add: find_async_result.simps [of _ 0] find_leaf_def afind_init_def numeral_2_eq_2)
  ultimately show ?thesis unfolding parallel_find_async_def by blast
qed

theorem parallel_search_witness:
  "parallel_find_async [5, 7 :: nat] 7 1 \<and> [5, 7 :: nat] ! 1 = 7 \<and>
   (\<exists>q. parallel_find_async [5, 7 :: nat] 8 q \<and> q = 2) \<and>
   (\<exists>r. parallel_find 4 [5, 7 :: nat] 8 r \<and> r = Some 2) \<and>
   (\<exists>s'. find_step [5, 7 :: nat] 7 (thread_ranges 4 2) (pfind_init (thread_ranges 4 2)) s')"
proof (intro conjI)
  show "parallel_find_async [5, 7 :: nat] 7 1" by (rule sample_async_run)
  show "[5, 7 :: nat] ! 1 = 7"
    using parallel_search [where xs = "[5, 7 :: nat]" and m = 7 and q = 1] sample_async_run by simp
  obtain q where "parallel_find_async [5, 7 :: nat] 8 q"
    using parallel_search [where xs = "[5, 7 :: nat]" and m = 8] by blast
  then show "\<exists>q. parallel_find_async [5, 7 :: nat] 8 q \<and> q = 2"
    using parallel_search [where xs = "[5, 7 :: nat]" and m = 8 and q = q] by (auto simp: numeral_2_eq_2)
  obtain r where "parallel_find 4 [5, 7 :: nat] 8 r"
    using parallel_search [where xs = "[5, 7 :: nat]" and m = 8 and hw = 4] by blast
  then show "\<exists>r. parallel_find 4 [5, 7 :: nat] 8 r \<and> r = Some 2"
    using parallel_search [where xs = "[5, 7 :: nat]" and m = 8 and hw = 4 and r = r] by (auto simp: numeral_2_eq_2)
  have "0 < length (thread_ranges 4 2)" by (simp add: num_threads_def)
  moreover have "pf_th (pfind_init (thread_ranges 4 2)) 0 \<noteq> F_over" by (simp add: pfind_init_def)
  ultimately show "\<exists>s'. find_step [5, 7 :: nat] 7 (thread_ranges 4 2) (pfind_init (thread_ranges 4 2)) s'"
    using parallel_search [where hw = 4 and xs = "[5, 7 :: nat]" and m = 7 and rs = "thread_ranges 4 2" and k = 0
      and s = "pfind_init (thread_ranges 4 2)" and r = None and q = 0 and a = afind_init]
    by (auto simp: numeral_2_eq_2)
qed

section \<open>Quick sort\<close>

text \<open>
  \<^verbatim>\<open>std::partition\<close> for the bidirectional iterators of \<^verbatim>\<open>std::list\<close>, as libstdc++ has it: skip the good
  elements in front, skip the bad ones at the back, swap, go on in between. The result: the two parts.
\<close>

function std_partition :: "('a \<Rightarrow> bool) \<Rightarrow> 'a list \<Rightarrow> 'a list \<times> 'a list" where
  "std_partition p xs =
     (case dropWhile p xs of
        [] \<Rightarrow> (takeWhile p xs, [])
      | x # ys \<Rightarrow>
          (let bad = rev (takeWhile (\<lambda>y. \<not> p y) (rev ys)); mid = rev (dropWhile (\<lambda>y. \<not> p y) (rev ys)) in
           if mid = [] then (takeWhile p xs, x # bad)
           else let (lower, upper) = std_partition p (butlast mid) in
             (takeWhile p xs @ last mid # lower, upper @ x # bad)))"
  by pat_completeness auto
termination
proof (relation "measure (\<lambda>(p, xs). length xs)")
  fix p :: "'a \<Rightarrow> bool" and xs x ys bad mid
  assume xs: "dropWhile p xs = x # ys" and mid: "mid = rev (dropWhile (\<lambda>y. \<not> p y) (rev ys))"
  have "length mid \<le> length ys" unfolding mid by (metis length_dropWhile_le length_rev)
  moreover have "length (x # ys) \<le> length xs" using xs by (metis length_dropWhile_le)
  ultimately show "((p, butlast mid), (p, xs)) \<in> measure (\<lambda>(p, xs). length xs)" by simp
qed simp

declare std_partition.simps [simp del]

lemma std_partition_props:
  "mset (fst (std_partition p xs)) + mset (snd (std_partition p xs)) = mset xs \<and>
   (\<forall>x \<in> set (fst (std_partition p xs)). p x) \<and> (\<forall>x \<in> set (snd (std_partition p xs)). \<not> p x)"
proof (induction p xs rule: std_partition.induct)
  case (1 p xs)
  show ?case
  proof (cases "dropWhile p xs")
    case Nil
    then have "takeWhile p xs = xs" by (metis append_Nil2 takeWhile_dropWhile_id)
    then have "std_partition p xs = (xs, [])" unfolding std_partition.simps [of p xs] Nil by simp
    moreover have "\<forall>x \<in> set xs. p x" using Nil by (simp add: dropWhile_eq_Nil_conv)
    ultimately show ?thesis by simp
  next
    case (Cons x ys)
    define bad where "bad = rev (takeWhile (\<lambda>y. \<not> p y) (rev ys))"
    define mid where "mid = rev (dropWhile (\<lambda>y. \<not> p y) (rev ys))"
    have px: "\<not> p x" using Cons by (metis hd_dropWhile list.distinct(1) list.sel(1))
    have bad: "\<forall>y \<in> set bad. \<not> p y" by (auto simp: bad_def dest: set_takeWhileD)
    have xs: "xs = takeWhile p xs @ x # ys" using Cons takeWhile_dropWhile_id [of p xs] by simp
    have ys: "ys = mid @ bad" unfolding mid_def bad_def by (metis rev_append rev_rev_ident takeWhile_dropWhile_id)
    have ms: "mset xs = mset (takeWhile p xs) + {#x#} + mset mid + mset bad" by (subst xs, subst ys) simp
    show ?thesis
    proof (cases "mid = []")
      case True
      then have "std_partition p xs = (takeWhile p xs, x # bad)"
        unfolding std_partition.simps [of p xs] Cons by (simp only: list.case Let_def mid_def [symmetric] bad_def [symmetric] if_True refl)
      then show ?thesis using px bad ms True by (auto dest: set_takeWhileD)
    next
      case False
      obtain l u where lu: "std_partition p (butlast mid) = (l, u)" by fastforce
      have eq: "std_partition p xs = (takeWhile p xs @ last mid # l, u @ x # bad)"
        unfolding std_partition.simps [of p xs] Cons using False lu
        by (simp only: list.case Let_def mid_def [symmetric] bad_def [symmetric] if_False prod.case)
      have p_last: "p (last mid)"
      proof -
        have ne: "dropWhile (\<lambda>y. \<not> p y) (rev ys) \<noteq> []" using False unfolding mid_def rev_is_Nil_conv .
        show ?thesis using hd_dropWhile [OF ne] ne by (simp only: mid_def last_rev not_not)
      qed
      have IH: "mset l + mset u = mset (butlast mid)" "\<forall>x \<in> set l. p x" "\<forall>x \<in> set u. \<not> p x"
        using 1 [OF Cons bad_def mid_def False, unfolded lu fst_conv snd_conv] by blast+
      have "mset mid = mset (butlast mid) + mset [last mid]"
        unfolding mset_append [symmetric] append_butlast_last_id [OF False] ..
      then have mid_eq: "mset mid = mset l + mset u + {#last mid#}" unfolding IH(1) by simp
      have "mset (takeWhile p xs @ last mid # l) + mset (u @ x # bad) = mset xs" unfolding ms mid_eq by simp
      then show ?thesis unfolding eq fst_conv snd_conv using IH(2,3) p_last px bad
        by (auto dest: set_takeWhileD)
    qed
  qed
qed

lemma std_partition_lengths:
  "length (fst (std_partition p xs)) \<le> length xs \<and> length (snd (std_partition p xs)) \<le> length xs"
proof -
  have "length (fst (std_partition p xs)) + length (snd (std_partition p xs)) = length xs"
    using std_partition_props [of p xs] by (metis size_mset size_union)
  then show ?thesis by simp
qed

function test_quick_sort_sequence :: "'a::linorder list \<Rightarrow> 'a list" where
  "test_quick_sort_sequence [] = []"
| "test_quick_sort_sequence (pivot # input) =
     (let (lower_part, rest) = std_partition (\<lambda>t. t < pivot) input;
          new_lower = test_quick_sort_sequence lower_part;
          new_higher = test_quick_sort_sequence rest
      in new_lower @ ([pivot] @ new_higher))"
  by pat_completeness auto
termination
proof (relation "measure length")
  fix pivot :: 'a and input lr lower rest
  assume "lr = std_partition (\<lambda>t. t < pivot) input" "(lower, rest) = lr"
  then show "(lower, pivot # input) \<in> measure length"
    using std_partition_lengths [of "\<lambda>t. t < pivot" input] by (metis fst_conv in_measure le_imp_less_Suc length_Cons)
next
  fix pivot :: 'a and input lr lower rest new_lower
  assume "lr = std_partition (\<lambda>t. t < pivot) input" "(lower, rest) = lr"
  then show "(rest, pivot # input) \<in> measure length"
    using std_partition_lengths [of "\<lambda>t. t < pivot" input] by (metis snd_conv in_measure le_imp_less_Suc length_Cons)
qed simp

text \<open>The parallel version: the lower part is sorted by \<^verbatim>\<open>std::async\<close> and spliced in by \<^verbatim>\<open>get\<close>.\<close>

function quick_sort_parallel :: "'a::linorder list \<Rightarrow> 'a list" where
  "quick_sort_parallel [] = []"
| "quick_sort_parallel (pivot # input) =
     (let (lowp, rest) = std_partition (\<lambda>t. t < pivot) input;
          new_higher = quick_sort_parallel rest;
          result = [pivot] @ new_higher
      in quick_sort_parallel lowp @ result)"
  by pat_completeness auto
termination
proof (relation "measure length")
  fix pivot :: 'a and input lr lower rest
  assume "lr = std_partition (\<lambda>t. t < pivot) input" "(lower, rest) = lr"
  then show "(rest, pivot # input) \<in> measure length"
    using std_partition_lengths [of "\<lambda>t. t < pivot" input] by (metis snd_conv in_measure le_imp_less_Suc length_Cons)
next
  fix pivot :: 'a and input lr lower rest new_higher result
  assume "lr = std_partition (\<lambda>t. t < pivot) input" "(lower, rest) = lr"
  then show "(lower, pivot # input) \<in> measure length"
    using std_partition_lengths [of "\<lambda>t. t < pivot" input] by (metis fst_conv in_measure le_imp_less_Suc length_Cons)
qed simp

lemma quick_sort_parallel_eq: "quick_sort_parallel xs = test_quick_sort_sequence xs"
proof (induction xs rule: quick_sort_parallel.induct)
  case (2 pivot input)
  then show ?case by (cases "std_partition (\<lambda>t. t < pivot) input") simp
qed simp

lemma quick_sort_sorts:
  "mset (test_quick_sort_sequence xs) = mset xs \<and> sorted (test_quick_sort_sequence xs)"
proof (induction xs rule: test_quick_sort_sequence.induct)
  case (2 pivot input)
  obtain l u where lu: "std_partition (\<lambda>t. t < pivot) input = (l, u)" by fastforce
  note P = std_partition_props [of "\<lambda>t. t < pivot" input, unfolded lu fst_conv snd_conv]
  have IH: "mset (test_quick_sort_sequence l) = mset l" "sorted (test_quick_sort_sequence l)"
    "mset (test_quick_sort_sequence u) = mset u" "sorted (test_quick_sort_sequence u)"
    using 2 lu by simp_all
  then have "set (test_quick_sort_sequence l) = set l" "set (test_quick_sort_sequence u) = set u"
    by (metis set_mset_mset)+
  then show ?case using IH P lu by (auto simp: sorted_append not_less intro: less_imp_le less_le_trans [THEN less_imp_le])
qed simp

text \<open>
  C17. Quick sort. The sequential and the parallel version compute the same list: the elements of the
  input, each as often as there, in ascending order; that is, what the reference function \<open>sort\<close> gives.
\<close>

theorem quick_sorts_sort:
  "test_quick_sort_sequence xs = sort xs \<and> quick_sort_parallel xs = sort (xs :: 'a::linorder list)"
  using quick_sort_sorts [of xs] properties_for_sort [of "test_quick_sort_sequence xs" xs]
  by (simp add: quick_sort_parallel_eq)

end
