(* ===== verification/Tomato_Clock.thy ===== *)
theory Tomato_Clock
  imports Prelude
begin

text \<open>
  The tomato clock of \<^verbatim>\<open>waybar_tomato_clock/\<close>: the clock process (\<^verbatim>\<open>waybar_tomato_clock.m.cpp\<close>), the
  process that every mouse click starts (\<^verbatim>\<open>waybar_tomato_clock_clicker.m.cpp\<close>), and the named pipe
  between them (\<^verbatim>\<open>common.h\<close>). The pipe is the list of bytes in it; a read that drains it is one step,
  since a byte that arrives between two reads of the loop is read by the same loop. The bound of the
  pipe's capacity (64 KiB of unread clicks) and failing system calls are left out.
\<close>

section \<open>The pipe\<close>

definition LEFT_CLICK :: char where "LEFT_CLICK = CHR ''L''"
definition RIGHT_CLICK :: char where "RIGHT_CLICK = CHR ''R''"
definition MIDDLE_CLICK :: char where "MIDDLE_CLICK = CHR ''M''"
definition NON_CLICK :: char where "NON_CLICK = CHR ''_''"

lemmas click_defs = LEFT_CLICK_def RIGHT_CLICK_def MIDDLE_CLICK_def NON_CLICK_def

definition is_left_click :: "char \<Rightarrow> bool" where "is_left_click ch \<longleftrightarrow> ch = LEFT_CLICK"
definition is_right_click :: "char \<Rightarrow> bool" where "is_right_click ch \<longleftrightarrow> ch = RIGHT_CLICK"
definition is_middle_click :: "char \<Rightarrow> bool" where "is_middle_click ch \<longleftrightarrow> ch = MIDDLE_CLICK"
definition is_non_click :: "char \<Rightarrow> bool" where "is_non_click ch \<longleftrightarrow> NON_CLICK = ch"

lemmas is_click_defs = is_left_click_def is_right_click_def is_middle_click_def is_non_click_def

text \<open>
  The file system and the clock's descriptors: whether this process has made the pipe, the content of
  the pipe when it exists, and whether anybody has it open for reading.
\<close>

record fifo_env =
  fifo_created :: bool
  fifo_file :: "string option"
  fifo_reader :: bool

definition create_fifo :: "fifo_env \<Rightarrow> fifo_env" where
  "create_fifo e = (if \<not> fifo_created e then e\<lparr>fifo_created := True, fifo_file := Some []\<rparr> else e)"

definition open_fifo_read_non_block :: "fifo_env \<Rightarrow> fifo_env" where
  "open_fifo_read_non_block e = (create_fifo e)\<lparr>fifo_reader := True\<rparr>"

definition open_fifo_read_block :: "fifo_env \<Rightarrow> fifo_env" where
  "open_fifo_read_block e = (create_fifo e)\<lparr>fifo_reader := True\<rparr>"

text \<open>Opening for writing without blocking fails when nobody reads.\<close>

definition open_fifo_write_non_block :: "fifo_env \<Rightarrow> bool" where
  "open_fifo_write_non_block e \<longleftrightarrow> fifo_file e \<noteq> None \<and> fifo_reader e"

definition write_click :: "char \<Rightarrow> bool \<Rightarrow> fifo_env \<Rightarrow> fifo_env" where
  "write_click c fd e = (if fd then e\<lparr>fifo_file := map_option (\<lambda>bs. bs @ [c]) (fifo_file e)\<rparr> else e)"

definition write_left_click :: "bool \<Rightarrow> fifo_env \<Rightarrow> fifo_env" where "write_left_click = write_click LEFT_CLICK"
definition write_right_click :: "bool \<Rightarrow> fifo_env \<Rightarrow> fifo_env" where "write_right_click = write_click RIGHT_CLICK"
definition write_middle_click :: "bool \<Rightarrow> fifo_env \<Rightarrow> fifo_env" where "write_middle_click = write_click MIDDLE_CLICK"

text \<open>The comparison \<^verbatim>\<open>tmp >= ' '\<close> on a signed \<^verbatim>\<open>char\<close>.\<close>

definition ge_space :: "char \<Rightarrow> bool" where
  "ge_space c \<longleftrightarrow> 32 \<le> (of_char c :: nat) \<and> (of_char c :: nat) < 128"

text \<open>The loop: the last, failing read leaves \<^verbatim>\<open>tmp\<close> as it is.\<close>

fun read_loop :: "char \<Rightarrow> char \<Rightarrow> string \<Rightarrow> char" where
  "read_loop tmp ch [] = (if ge_space tmp then tmp else ch)"
| "read_loop tmp ch (b # bs) = read_loop b (if ge_space b then b else ch) bs"

definition read_action_non_block :: "string \<Rightarrow> char \<times> string" where
  "read_action_non_block fifo = (read_loop NON_CLICK NON_CLICK fifo, [])"

text \<open>\<open>None\<close>: the read blocks.\<close>

definition read_action_block :: "string \<Rightarrow> (char \<times> string) option" where
  "read_action_block fifo = (case fifo of [] \<Rightarrow> None | c # rest \<Rightarrow> Some (c, rest))"

lemma read_loop_last:
  "(ge_space tmp \<longrightarrow> tmp = ch) \<Longrightarrow> read_loop tmp ch bs = last (ch # filter ge_space bs)"
  by (induction tmp ch bs rule: read_loop.induct) auto

text \<open>The comment's \<^emph>\<open>return latest action\<close>: the last byte that is not a control character.\<close>

lemma read_action_latest: "read_action_non_block fifo = (last (NON_CLICK # filter ge_space fifo), [])"
  by (simp add: read_action_non_block_def read_loop_last)

lemma read_action_click:
  "ge_space c \<Longrightarrow> filter ge_space bs' = [] \<Longrightarrow> read_action_non_block (bs @ c # bs') = (c, [])"
  by (simp add: read_action_latest)

section \<open>The clicker\<close>

datatype exit_code = EXIT_SUCCESS | EXIT_FAILURE

text \<open>\<open>args\<close>: the arguments after the program name. The first character of an empty argument is NUL.\<close>

definition clicker_main :: "string list \<Rightarrow> fifo_env \<Rightarrow> exit_code \<times> fifo_env" where
  "clicker_main args e =
     (case args of
        [] \<Rightarrow> (EXIT_FAILURE, e)
      | arg # _ \<Rightarrow>
          (let fd = open_fifo_write_non_block e; c = (case arg of [] \<Rightarrow> CHR 0x00 | c # _ \<Rightarrow> c) in
           if is_left_click c then (EXIT_SUCCESS, write_left_click fd e)
           else if is_right_click c then (EXIT_SUCCESS, write_right_click fd e)
           else if is_middle_click c then (EXIT_SUCCESS, write_middle_click fd e)
           else (EXIT_FAILURE, e)))"

section \<open>The clock\<close>

definition WORK_MIN :: int where "WORK_MIN = 25"
definition REST_MIN :: int where "REST_MIN = 5"
definition COUNT_PER_MIN :: int where "COUNT_PER_MIN = 60"
definition SLEEP_SEC :: int where "SLEEP_SEC = 10"
definition WORK_DOWN_COUNT :: int where "WORK_DOWN_COUNT = c_div (WORK_MIN * COUNT_PER_MIN) SLEEP_SEC"
definition REST_DOWN_COUNT :: int where "REST_DOWN_COUNT = c_div (REST_MIN * COUNT_PER_MIN) SLEEP_SEC"

lemma down_counts [simp]: "WORK_DOWN_COUNT = 150" "REST_DOWN_COUNT = 30"
  by (simp_all add: WORK_DOWN_COUNT_def REST_DOWN_COUNT_def WORK_MIN_def REST_MIN_def COUNT_PER_MIN_def SLEEP_SEC_def)

text \<open>A line of JSON for the bar; \<^verbatim>\<open>{:2d}\<close> pads with a space.\<close>

definition json_line :: "string \<Rightarrow> string \<Rightarrow> string" where
  "json_line txt cls = ''{'' @ [CHR 0x22] @ ''text'' @ [CHR 0x22] @ '':'' @ [CHR 0x22] @ txt @ [CHR 0x22] @ '','' @
     [CHR 0x22] @ ''class'' @ [CHR 0x22] @ '':'' @ [CHR 0x22] @ cls @ [CHR 0x22] @ ''}'' @ [LF]"

definition minutes :: "int \<Rightarrow> int" where
  "minutes cnt = c_div (cnt * SLEEP_SEC) COUNT_PER_MIN"

definition print_work :: "int \<Rightarrow> string" where
  "print_work work = json_line (''Wk:'' @ pad_left (CHR '' '') 2 (fmt_d (minutes work))) ''work''"

definition print_rest :: "int \<Rightarrow> string" where
  "print_rest rest = json_line (''Rt:'' @ pad_left (CHR '' '') 2 (fmt_d (minutes rest))) ''rest''"

definition print_manual :: string where
  "print_manual = json_line ''Click'' ''manual''"

text \<open>
  Where the process is: at the top of the loop, in the first loop that empties the pipe, in the blocking
  read, in the second loop.
\<close>

datatype tomato_pc = Top | Clean1 | Wait_click | Clean2

record tomato =
  t_pc :: tomato_pc
  is_work :: bool
  worked_cnt :: int
  rested_cnt :: int
  t_fifo :: string
  t_out :: "string list"

definition tomato_start :: tomato where
  "tomato_start = \<lparr>t_pc = Top, is_work = True, worked_cnt = WORK_DOWN_COUNT, rested_cnt = REST_DOWN_COUNT, t_fifo = [], t_out = []\<rparr>"

text \<open>The end of an iteration: print, sleep, go on at the top.\<close>

definition show_clock :: "tomato \<Rightarrow> tomato" where
  "show_clock t = t\<lparr>t_out := t_out t @ [if is_work t then print_work (worked_cnt t) else print_rest (rested_cnt t)], t_pc := Top\<rparr>"

definition apply_action :: "char \<Rightarrow> tomato \<Rightarrow> tomato" where
  "apply_action action t =
     (if is_left_click action then t\<lparr>is_work := True, worked_cnt := WORK_DOWN_COUNT + 1\<rparr>
      else if is_right_click action then t\<lparr>is_work := False, rested_cnt := REST_DOWN_COUNT + 1\<rparr>
      else t)"

definition count_down :: "tomato \<Rightarrow> tomato" where
  "count_down t =
     (if is_work t then
        (let t = t\<lparr>worked_cnt := worked_cnt t - 1\<rparr> in
         show_clock (if worked_cnt t \<le> 0 then t\<lparr>is_work := False, rested_cnt := REST_DOWN_COUNT\<rparr> else t))
      else
        (let t = t\<lparr>rested_cnt := rested_cnt t - 1\<rparr> in
         if rested_cnt t \<le> 0 then t\<lparr>t_pc := Clean1\<rparr> else show_clock t))"

text \<open>\<open>None\<close>: the process is blocked.\<close>

definition main_step :: "tomato \<Rightarrow> tomato option" where
  "main_step t =
     (case t_pc t of
        Top \<Rightarrow> (let (action, fifo) = read_action_non_block (t_fifo t) in Some (count_down (apply_action action (t\<lparr>t_fifo := fifo\<rparr>))))
      | Clean1 \<Rightarrow> (let (action, fifo) = read_action_non_block (t_fifo t); t = t\<lparr>t_fifo := fifo\<rparr> in
          Some (if is_non_click action then t\<lparr>t_out := t_out t @ [print_manual], t_pc := Wait_click\<rparr> else t))
      | Wait_click \<Rightarrow>
          (case read_action_block (t_fifo t) of
             None \<Rightarrow> None
           | Some (ch, fifo) \<Rightarrow>
               (let t = t\<lparr>t_fifo := fifo, t_pc := Clean2\<rparr> in
                Some (if is_left_click ch then t\<lparr>is_work := True, worked_cnt := WORK_DOWN_COUNT\<rparr>
                      else t\<lparr>is_work := False, rested_cnt := REST_DOWN_COUNT\<rparr>)))
      | Clean2 \<Rightarrow> (let (action, fifo) = read_action_non_block (t_fifo t); t = t\<lparr>t_fifo := fifo\<rparr> in
          Some (if is_non_click action then show_clock t else t)))"

text \<open>The clock and the writers of the pipe, in any order.\<close>

inductive tomato_step :: "tomato \<Rightarrow> tomato \<Rightarrow> bool" where
  clock: "main_step t = Some t' \<Longrightarrow> tomato_step t t'"
| click: "tomato_step t (t\<lparr>t_fifo := t_fifo t @ [c]\<rparr>)"

fun main_run :: "nat \<Rightarrow> tomato \<Rightarrow> tomato option" where
  "main_run 0 t = Some t"
| "main_run (Suc k) t = Option.bind (main_step t) (main_run k)"

section \<open>Invariant\<close>

definition shown_ok :: "string \<Rightarrow> bool" where
  "shown_ok l \<longleftrightarrow> (\<exists>c. 1 \<le> c \<and> c \<le> 150 \<and> l = print_work c) \<or> (\<exists>c. 1 \<le> c \<and> c \<le> 30 \<and> l = print_rest c) \<or> l = print_manual"

definition tomato_inv :: "tomato \<Rightarrow> bool" where
  "tomato_inv t \<longleftrightarrow> (\<forall>l \<in> set (t_out t). shown_ok l) \<and>
     (case t_pc t of
        Top \<Rightarrow> if is_work t then 1 \<le> worked_cnt t \<and> worked_cnt t \<le> 150 else 1 \<le> rested_cnt t \<and> rested_cnt t \<le> 30
      | Clean2 \<Rightarrow> if is_work t then worked_cnt t = 150 else rested_cnt t = 30
      | _ \<Rightarrow> \<not> is_work t \<and> rested_cnt t = 0)"

lemma shown_work: "1 \<le> c \<Longrightarrow> c \<le> 150 \<Longrightarrow> shown_ok (print_work c)"
  and shown_rest: "1 \<le> c \<Longrightarrow> c \<le> 30 \<Longrightarrow> shown_ok (print_rest c)"
  and shown_manual: "shown_ok print_manual"
  by (auto simp: shown_ok_def)

lemma main_step_inv:
  assumes "tomato_inv t" "main_step t = Some t'"
  shows "tomato_inv t'"
  using assms
  by (cases "t_pc t")
    (auto simp: tomato_inv_def main_step_def count_down_def apply_action_def show_clock_def read_action_non_block_def Let_def
      shown_work shown_rest shown_manual split: if_splits option.splits)

lemma tomato_reach: "tomato_step\<^sup>*\<^sup>* tomato_start t \<Longrightarrow> tomato_inv t"
proof (induction rule: rtranclp_induct)
  case base
  then show ?case by (simp add: tomato_inv_def tomato_start_def)
next
  case (step t t')
  from step(2,3) show ?case
  proof cases
    case clock
    then show ?thesis using main_step_inv step by blast
  next
    case (click c)
    then show ?thesis using step by (cases "t_pc t") (simp_all add: tomato_inv_def)
  qed
qed

section \<open>A round without clicks\<close>

lemma read_nothing [simp]: "read_action_non_block [] = (NON_CLICK, [])"
  by (simp add: read_action_latest)

lemma apply_none [simp]: "apply_action NON_CLICK t = t"
  by (simp add: apply_action_def is_click_defs click_defs)

lemmas quiet_defs = main_step_def count_down_def show_clock_def is_non_click_def

lemma quiet_work:
  "1 < w \<Longrightarrow> main_step \<lparr>t_pc = Top, is_work = True, worked_cnt = w, rested_cnt = r, t_fifo = [], t_out = out\<rparr> =
     Some \<lparr>t_pc = Top, is_work = True, worked_cnt = w - 1, rested_cnt = r, t_fifo = [], t_out = out @ [print_work (w - 1)]\<rparr>"
  by (simp add: quiet_defs)

lemma quiet_turn:
  "main_step \<lparr>t_pc = Top, is_work = True, worked_cnt = 1, rested_cnt = r, t_fifo = [], t_out = out\<rparr> =
     Some \<lparr>t_pc = Top, is_work = False, worked_cnt = 0, rested_cnt = 30, t_fifo = [], t_out = out @ [print_rest 30]\<rparr>"
  by (simp add: quiet_defs)

lemma quiet_rest:
  "1 < r \<Longrightarrow> main_step \<lparr>t_pc = Top, is_work = False, worked_cnt = w, rested_cnt = r, t_fifo = [], t_out = out\<rparr> =
     Some \<lparr>t_pc = Top, is_work = False, worked_cnt = w, rested_cnt = r - 1, t_fifo = [], t_out = out @ [print_rest (r - 1)]\<rparr>"
  by (simp add: quiet_defs)

lemma quiet_end:
  "main_run 2 \<lparr>t_pc = Top, is_work = False, worked_cnt = w, rested_cnt = 1, t_fifo = [], t_out = out\<rparr> =
     Some \<lparr>t_pc = Wait_click, is_work = False, worked_cnt = w, rested_cnt = 0, t_fifo = [], t_out = out @ [print_manual]\<rparr>"
  by (simp add: quiet_defs numeral_2_eq_2)

lemma map_countdown: "map f [0..<Suc k] = f 0 # map (\<lambda>i. f (Suc i)) [0..<k]"
  by (simp only: upt_conv_Cons zero_less_Suc list.map map_Suc_upt [symmetric] map_map o_def)

lemma work_phase:
  "int k < w \<Longrightarrow> main_run k \<lparr>t_pc = Top, is_work = True, worked_cnt = w, rested_cnt = r, t_fifo = [], t_out = out\<rparr> =
     Some \<lparr>t_pc = Top, is_work = True, worked_cnt = w - int k, rested_cnt = r, t_fifo = [],
       t_out = out @ map (\<lambda>i. print_work (w - 1 - int i)) [0..<k]\<rparr>"
proof (induction k arbitrary: w out)
  case (Suc k)
  then show ?case by (simp add: quiet_work map_countdown algebra_simps del: upt_Suc)
qed simp

lemma rest_phase:
  "int k < r \<Longrightarrow> main_run k \<lparr>t_pc = Top, is_work = False, worked_cnt = w, rested_cnt = r, t_fifo = [], t_out = out\<rparr> =
     Some \<lparr>t_pc = Top, is_work = False, worked_cnt = w, rested_cnt = r - int k, t_fifo = [],
       t_out = out @ map (\<lambda>i. print_rest (r - 1 - int i)) [0..<k]\<rparr>"
proof (induction k arbitrary: r out)
  case (Suc k)
  then show ?case by (simp add: quiet_rest map_countdown algebra_simps del: upt_Suc)
qed simp

lemma main_run_add: "main_run (a + b) t = Option.bind (main_run a t) (main_run b)"
proof (induction a arbitrary: t)
  case (Suc a)
  then show ?case by (cases "main_step t") simp_all
qed simp

definition round_lines :: "string list" where
  "round_lines = map (\<lambda>i. print_work (149 - int i)) [0..<149] @ [print_rest 30] @ map (\<lambda>i. print_rest (29 - int i)) [0..<29] @ [print_manual]"

lemma quiet_round:
  "main_run 181 tomato_start =
     Some \<lparr>t_pc = Wait_click, is_work = False, worked_cnt = 0, rested_cnt = 0, t_fifo = [], t_out = round_lines\<rparr>"
proof -
  have "main_run (149 + (1 + (29 + 2))) tomato_start =
     Some \<lparr>t_pc = Wait_click, is_work = False, worked_cnt = 0, rested_cnt = 0, t_fifo = [], t_out = round_lines\<rparr>"
    unfolding main_run_add tomato_start_def
    by (simp add: work_phase quiet_turn rest_phase quiet_end round_lines_def del: main_run.simps(2))
      (simp add: quiet_turn rest_phase quiet_end)
  then show ?thesis by simp
qed

section \<open>Clicks\<close>

lemma click_starts_work:
  assumes "t_pc t = Top" "last (NON_CLICK # filter ge_space (t_fifo t)) = LEFT_CLICK"
  shows "\<exists>t'. main_step t = Some t' \<and> t_pc t' = Top \<and> is_work t' \<and> worked_cnt t' = 150 \<and> t_fifo t' = [] \<and>
    t_out t' = t_out t @ [print_work 150]"
  using assms
  by (simp add: main_step_def read_action_latest apply_action_def count_down_def show_clock_def is_click_defs)

lemma click_starts_rest:
  assumes "t_pc t = Top" "last (NON_CLICK # filter ge_space (t_fifo t)) = RIGHT_CLICK"
  shows "\<exists>t'. main_step t = Some t' \<and> t_pc t' = Top \<and> \<not> is_work t' \<and> rested_cnt t' = 30 \<and> t_fifo t' = [] \<and>
    t_out t' = t_out t @ [print_rest 30]"
  using assms
  by (simp add: main_step_def read_action_latest apply_action_def count_down_def show_clock_def is_click_defs) (simp add: click_defs)

lemma main_step_blocked: "main_step t = None \<longleftrightarrow> t_pc t = Wait_click \<and> t_fifo t = []"
  by (auto simp: main_step_def read_action_block_def Let_def split: tomato_pc.splits option.splits list.splits prod.splits)

text \<open>Emptying the pipe takes one read, or two when there was a click in it.\<close>

lemma clean1_asks:
  assumes "t_pc t = Clean1"
  shows "\<exists>k\<le>2. main_run k t = Some (t\<lparr>t_fifo := [], t_out := t_out t @ [print_manual], t_pc := Wait_click\<rparr>)"
proof (cases "is_non_click (last (NON_CLICK # filter ge_space (t_fifo t)))")
  case True
  then show ?thesis using assms
    by (intro exI [of _ 1]) (simp add: main_step_def read_action_latest)
next
  case False
  then show ?thesis using assms
    by (intro exI [of _ 2]) (simp add: numeral_2_eq_2 main_step_def read_action_latest is_non_click_def)
qed

lemma clean2_shows:
  assumes "t_pc t = Clean2"
  shows "\<exists>k\<le>2. main_run k t = Some (show_clock (t\<lparr>t_fifo := []\<rparr>))"
proof (cases "is_non_click (last (NON_CLICK # filter ge_space (t_fifo t)))")
  case True
  then show ?thesis using assms
    by (intro exI [of _ 1]) (simp add: main_step_def read_action_latest)
next
  case False
  then show ?thesis using assms
    by (intro exI [of _ 2]) (simp add: numeral_2_eq_2 main_step_def read_action_latest is_non_click_def)
qed

lemma awaited_click:
  assumes "t_pc t = Wait_click" "t_fifo t = ch # rest"
  shows "\<exists>k\<le>3. \<exists>t'. main_run k t = Some t' \<and> t_pc t' = Top \<and> t_fifo t' = [] \<and>
    (if ch = LEFT_CLICK then is_work t' \<and> worked_cnt t' = 150 \<and> t_out t' = t_out t @ [print_work 150]
     else \<not> is_work t' \<and> rested_cnt t' = 30 \<and> t_out t' = t_out t @ [print_rest 30])"
proof -
  let ?t = "(if ch = LEFT_CLICK then t\<lparr>t_fifo := rest, t_pc := Clean2, is_work := True, worked_cnt := 150\<rparr>
    else t\<lparr>t_fifo := rest, t_pc := Clean2, is_work := False, rested_cnt := 30\<rparr>)"
  have step: "main_step t = Some ?t"
    using assms by (simp add: main_step_def read_action_block_def is_left_click_def Let_def)
  have "t_pc ?t = Clean2" by simp
  from clean2_shows [OF this] obtain k where k: "k \<le> 2" "main_run k ?t = Some (show_clock (?t\<lparr>t_fifo := []\<rparr>))"
    by blast
  have "main_run (Suc k) t = Some (show_clock (?t\<lparr>t_fifo := []\<rparr>))" using step k(2) by simp
  then show ?thesis using k(1) by (intro exI [of _ "Suc k"]) (simp add: show_clock_def)
qed

lemma click_delivered:
  assumes "\<not> fifo_created e" "c \<in> {LEFT_CLICK, RIGHT_CLICK, MIDDLE_CLICK}"
  shows "clicker_main ((c # cs) # args) (open_fifo_read_block (open_fifo_read_non_block e)) =
    (EXIT_SUCCESS, e\<lparr>fifo_created := True, fifo_file := Some [c], fifo_reader := True\<rparr>)"
  using assms
  by (auto simp: clicker_main_def open_fifo_read_block_def open_fifo_read_non_block_def create_fifo_def
      open_fifo_write_non_block_def write_left_click_def write_right_click_def write_middle_click_def write_click_def
      is_click_defs click_defs Let_def)

text \<open>
  C30. The tomato clock. In every reachable state, whatever is written to the pipe and when: the counter
  that runs is between 1 and its full count at the top of the loop, so that every line shown is a work
  line, a rest line or the request to click, with counts in these bounds; and the only state in which
  the process blocks is the wait for a click with an empty pipe. A round without clicks shows 149 work
  lines and 30 rest lines, counting down, then asks for a click and blocks. When the latest action in the
  pipe is a left (right) click, the next iteration shows a full work (rest) period. When a rest is over
  the pipe is emptied and a click asked for; the first byte that then arrives decides: a left click
  starts a full work period, anything else a full rest, and the rest of the pipe is dropped. The click
  of a clicker started after the clock has opened the pipe is in the pipe.
\<close>

theorem tomato_clock:
  "(tomato_step\<^sup>*\<^sup>* tomato_start t \<longrightarrow>
      (\<forall>l \<in> set (t_out t). shown_ok l) \<and>
      (t_pc t = Top \<longrightarrow> (if is_work t then 1 \<le> worked_cnt t \<and> worked_cnt t \<le> 150 else 1 \<le> rested_cnt t \<and> rested_cnt t \<le> 30)) \<and>
      (main_step t = None \<longleftrightarrow> t_pc t = Wait_click \<and> t_fifo t = [])) \<and>
   (\<exists>t'. main_run 181 tomato_start = Some t' \<and> main_step t' = None \<and>
      t_out t' = map (\<lambda>i. print_work (149 - int i)) [0..<149] @ [print_rest 30] @ map (\<lambda>i. print_rest (29 - int i)) [0..<29] @ [print_manual]) \<and>
   (t_pc u = Top \<and> last (NON_CLICK # filter ge_space (t_fifo u)) = LEFT_CLICK \<longrightarrow>
      (\<exists>u'. main_step u = Some u' \<and> is_work u' \<and> worked_cnt u' = 150 \<and> t_out u' = t_out u @ [print_work 150])) \<and>
   (t_pc u = Top \<and> last (NON_CLICK # filter ge_space (t_fifo u)) = RIGHT_CLICK \<longrightarrow>
      (\<exists>u'. main_step u = Some u' \<and> \<not> is_work u' \<and> rested_cnt u' = 30 \<and> t_out u' = t_out u @ [print_rest 30])) \<and>
   (t_pc u = Clean1 \<longrightarrow>
      (\<exists>k\<le>2. main_run k u = Some (u\<lparr>t_fifo := [], t_out := t_out u @ [print_manual], t_pc := Wait_click\<rparr>))) \<and>
   (t_pc u = Wait_click \<and> t_fifo u = ch # rest \<longrightarrow>
      (\<exists>k\<le>3. \<exists>u'. main_run k u = Some u' \<and> t_pc u' = Top \<and> t_fifo u' = [] \<and>
         (if ch = LEFT_CLICK then is_work u' \<and> worked_cnt u' = 150 \<and> t_out u' = t_out u @ [print_work 150]
          else \<not> is_work u' \<and> rested_cnt u' = 30 \<and> t_out u' = t_out u @ [print_rest 30]))) \<and>
   (\<not> fifo_created e \<and> c \<in> {LEFT_CLICK, RIGHT_CLICK, MIDDLE_CLICK} \<longrightarrow>
      fifo_file (snd (clicker_main ((c # cs) # args) (open_fifo_read_block (open_fifo_read_non_block e)))) = Some [c])"
proof (intro conjI)
  show "tomato_step\<^sup>*\<^sup>* tomato_start t \<longrightarrow>
      (\<forall>l \<in> set (t_out t). shown_ok l) \<and>
      (t_pc t = Top \<longrightarrow> (if is_work t then 1 \<le> worked_cnt t \<and> worked_cnt t \<le> 150 else 1 \<le> rested_cnt t \<and> rested_cnt t \<le> 30)) \<and>
      (main_step t = None \<longleftrightarrow> t_pc t = Wait_click \<and> t_fifo t = [])"
    using tomato_reach [of t] main_step_blocked [of t] by (auto simp: tomato_inv_def)
  show "\<exists>t'. main_run 181 tomato_start = Some t' \<and> main_step t' = None \<and>
      t_out t' = map (\<lambda>i. print_work (149 - int i)) [0..<149] @ [print_rest 30] @ map (\<lambda>i. print_rest (29 - int i)) [0..<29] @ [print_manual]"
    by (simp only: quiet_round main_step_blocked) (simp add: round_lines_def)
  show "t_pc u = Clean1 \<longrightarrow>
      (\<exists>k\<le>2. main_run k u = Some (u\<lparr>t_fifo := [], t_out := t_out u @ [print_manual], t_pc := Wait_click\<rparr>))"
    using clean1_asks [of u] by blast
  show "t_pc u = Wait_click \<and> t_fifo u = ch # rest \<longrightarrow>
      (\<exists>k\<le>3. \<exists>u'. main_run k u = Some u' \<and> t_pc u' = Top \<and> t_fifo u' = [] \<and>
         (if ch = LEFT_CLICK then is_work u' \<and> worked_cnt u' = 150 \<and> t_out u' = t_out u @ [print_work 150]
          else \<not> is_work u' \<and> rested_cnt u' = 30 \<and> t_out u' = t_out u @ [print_rest 30]))"
    using awaited_click [of u ch rest] by blast
qed (use click_starts_work [of u] click_starts_rest [of u] click_delivered [of e c cs args] in auto)

theorem tomato_clock_witness:
  "\<exists>u'. main_step (tomato_start\<lparr>t_fifo := ''RL'' @ [LF]\<rparr>) = Some u' \<and> is_work u' \<and> worked_cnt u' = 150 \<and>
     t_out u' = [print_work 150] \<and>
   (\<exists>k\<le>3. \<exists>v'. main_run k (tomato_start\<lparr>t_pc := Wait_click, t_fifo := ''LR''\<rparr>) = Some v' \<and> is_work v')"
proof -
  have "\<exists>k\<le>3. \<exists>v'. main_run k (tomato_start\<lparr>t_pc := Wait_click, t_fifo := ''LR''\<rparr>) = Some v' \<and> is_work v'"
    using tomato_clock [where u = "tomato_start\<lparr>t_pc := Wait_click, t_fifo := ''LR''\<rparr>" and ch = LEFT_CLICK and rest = "''R''"
        and t = tomato_start and c = LEFT_CLICK and cs = "[]" and args = "[]"
        and e = "\<lparr>fifo_created = False, fifo_file = None, fifo_reader = False\<rparr>"]
    by (auto simp: click_defs)
  moreover
  have "last (NON_CLICK # filter ge_space (''RL'' @ [LF])) = LEFT_CLICK" by code_simp
  ultimately show ?thesis
    using tomato_clock [where u = "tomato_start\<lparr>t_fifo := ''RL'' @ [LF]\<rparr>"] by (simp add: tomato_start_def)
qed

end
