(* ===== verification/Spreadsheet_Heap.thy ===== *)
theory Spreadsheet_Heap
  imports Prelude "HOL-Library.Multiset"
begin

text \<open>
  The class \<^verbatim>\<open>Spreadsheet\<close> of \<^verbatim>\<open>professional_cpp/src/ch09/\<close>, which owns its cells through raw pointers:
  constructor, destructor, copying, moving by \<^verbatim>\<open>swap\<close>, and checked access. The heap is explicit: the
  arrays of column pointers (\<^verbatim>\<open>SpreadsheetCell**\<close>) and the columns (\<^verbatim>\<open>SpreadsheetCell*\<close>), as partial maps
  from addresses; a freed array is absent. An operation is \<open>None\<close> where the C++ program has undefined
  behaviour (access to or deletion of an array that is not allocated, an index outside of it). The
  cell type is any type with a zero, the value of a fresh cell; running out of memory is left out.
\<close>

section \<open>Heap and objects\<close>

record 'c cell_heap =
  tabs :: "nat \<rightharpoonup> nat list"
  cols :: "nat \<rightharpoonup> 'c list"
  next_addr :: nat
  ms_counter :: nat

record sheet =
  m_id :: nat
  m_width :: nat
  m_height :: nat
  m_cells :: "nat option"

definition new_column :: "nat \<Rightarrow> 'c::zero cell_heap \<Rightarrow> nat \<times> 'c cell_heap" where
  "new_column h H = (next_addr H, H\<lparr>cols := (cols H)(next_addr H \<mapsto> replicate h 0), next_addr := next_addr H + 1\<rparr>)"

primrec new_columns :: "nat \<Rightarrow> nat \<Rightarrow> 'c::zero cell_heap \<Rightarrow> nat list \<times> 'c cell_heap" where
  "new_columns 0 h H = ([], H)"
| "new_columns (Suc k) h H = (let (c, H) = new_column h H; (cs, H) = new_columns k h H in (c # cs, H))"

definition Spreadsheet_new :: "nat \<Rightarrow> nat \<Rightarrow> 'c::zero cell_heap \<Rightarrow> sheet \<times> 'c cell_heap" where
  "Spreadsheet_new width height H =
     (let H = H\<lparr>ms_counter := uadd (ms_counter H) 1\<rparr>;
          t = next_addr H;
          (cs, H) = new_columns width height (H\<lparr>next_addr := t + 1\<rparr>)
      in (\<lparr>m_id = ms_counter H, m_width = width, m_height = height, m_cells = Some t\<rparr>, H\<lparr>tabs := (tabs H)(t \<mapsto> cs)\<rparr>))"

text \<open>\<^verbatim>\<open>m_cells[x][y]\<close>, read and written.\<close>

definition cell_column :: "sheet \<Rightarrow> nat \<Rightarrow> 'c cell_heap \<Rightarrow> nat option" where
  "cell_column s x H = Option.bind (m_cells s) (\<lambda>t. Option.bind (tabs H t) (\<lambda>cs. if x < length cs then Some (cs ! x) else None))"

definition read_cell :: "sheet \<Rightarrow> nat \<Rightarrow> nat \<Rightarrow> 'c cell_heap \<Rightarrow> 'c option" where
  "read_cell s x y H =
     Option.bind (cell_column s x H) (\<lambda>c. Option.bind (cols H c) (\<lambda>col. if y < length col then Some (col ! y) else None))"

definition write_cell :: "sheet \<Rightarrow> nat \<Rightarrow> nat \<Rightarrow> 'c \<Rightarrow> 'c cell_heap \<Rightarrow> 'c cell_heap option" where
  "write_cell s x y v H =
     Option.bind (cell_column s x H) (\<lambda>c. Option.bind (cols H c) (\<lambda>col.
       if y < length col then Some (H\<lparr>cols := (cols H)(c \<mapsto> col[y := v])\<rparr>) else None))"

definition delete_column :: "nat \<Rightarrow> 'c cell_heap \<Rightarrow> 'c cell_heap option" where
  "delete_column c H = (if cols H c = None then None else Some (H\<lparr>cols := (cols H)(c := None)\<rparr>))"

text \<open>The loop of the destructor over the columns; \<^verbatim>\<open>delete[]\<close> of a null pointer does nothing.\<close>

definition delete_cells :: "sheet \<Rightarrow> 'c cell_heap \<Rightarrow> 'c cell_heap option" where
  "delete_cells s H =
     (case m_cells s of
        None \<Rightarrow> (if m_width s = 0 then Some H else None)
      | Some t \<Rightarrow> Option.bind (tabs H t) (\<lambda>cs.
          if m_width s \<le> length cs
          then map_option (\<lambda>H. H\<lparr>tabs := (tabs H)(t := None)\<rparr>) (foldM delete_column (take (m_width s) cs) H)
          else None))"

definition Spreadsheet_destroy :: "sheet \<Rightarrow> 'c cell_heap \<Rightarrow> (sheet \<times> 'c cell_heap) option" where
  "Spreadsheet_destroy s H = map_option (\<lambda>H. (s\<lparr>m_cells := None\<rparr>, H)) (delete_cells s H)"

text \<open>The nested loops of the copy constructor.\<close>

definition copy_cell :: "sheet \<Rightarrow> sheet \<Rightarrow> nat \<times> nat \<Rightarrow> 'c cell_heap \<Rightarrow> 'c cell_heap option" where
  "copy_cell src s = (\<lambda>(i, j) H. Option.bind (read_cell src i j H) (\<lambda>v. write_cell s i j v H))"

definition Spreadsheet_copy :: "sheet \<Rightarrow> 'c::zero cell_heap \<Rightarrow> (sheet \<times> 'c cell_heap) option" where
  "Spreadsheet_copy src H =
     (let (s, H) = Spreadsheet_new (m_width src) (m_height src) H in
      map_option (\<lambda>H. (s, H)) (foldM (copy_cell src s) (List.product [0..<m_width s] [0..<m_height s]) H))"

definition sheet_swap :: "sheet \<Rightarrow> sheet \<Rightarrow> sheet \<times> sheet" where
  "sheet_swap s other =
     (s\<lparr>m_width := m_width other, m_height := m_height other, m_cells := m_cells other\<rparr>,
      other\<lparr>m_width := m_width s, m_height := m_height s, m_cells := m_cells s\<rparr>)"

text \<open>The temporary takes what \<open>*this\<close> had and destroys it.\<close>

definition copy_assign :: "sheet \<Rightarrow> sheet \<Rightarrow> 'c::zero cell_heap \<Rightarrow> (sheet \<times> 'c cell_heap) option" where
  "copy_assign s rhs H =
     Option.bind (Spreadsheet_copy rhs H) (\<lambda>(tmp, H).
       let (s, tmp) = sheet_swap s tmp in map_option (\<lambda>(_, H). (s, H)) (Spreadsheet_destroy tmp H))"

text \<open>A moved-to object starts from the default member initialisers.\<close>

definition sheet_default :: sheet where
  "sheet_default = \<lparr>m_id = 223344, m_width = 0, m_height = 0, m_cells = None\<rparr>"

definition Spreadsheet_move :: "sheet \<Rightarrow> sheet \<times> sheet" where
  "Spreadsheet_move src = sheet_swap sheet_default src"

definition move_assign :: "sheet \<Rightarrow> sheet \<Rightarrow> sheet \<times> sheet" where
  "move_assign s rhs = sheet_swap s rhs"

text \<open>The two helpers that the class keeps but no longer calls.\<close>

definition cleanup :: "sheet \<Rightarrow> 'c cell_heap \<Rightarrow> (sheet \<times> 'c cell_heap) option" where
  "cleanup s H = map_option (\<lambda>H. (s\<lparr>m_cells := None, m_width := 0, m_height := 0\<rparr>, H)) (delete_cells s H)"

definition moveFrom :: "sheet \<Rightarrow> sheet \<Rightarrow> sheet \<times> sheet" where
  "moveFrom s src =
     (s\<lparr>m_width := m_width src, m_height := m_height src, m_cells := m_cells src\<rparr>,
      src\<lparr>m_width := 0, m_height := 0, m_cells := None\<rparr>)"

datatype sheet_error = Out_of_range string

definition verify :: "sheet \<Rightarrow> nat \<Rightarrow> nat \<Rightarrow> sheet_error option" where
  "verify s x y =
     (if x \<ge> m_width s then Some (Out_of_range ''bad x'')
      else if y \<ge> m_height s then Some (Out_of_range ''bad y'')
      else None)"

definition setCellAt :: "sheet \<Rightarrow> nat \<Rightarrow> nat \<Rightarrow> 'c \<Rightarrow> 'c cell_heap \<Rightarrow> (sheet_error + 'c cell_heap) option" where
  "setCellAt s x y cell H = (case verify s x y of Some e \<Rightarrow> Some (Inl e) | None \<Rightarrow> map_option Inr (write_cell s x y cell H))"

definition getCellAt :: "sheet \<Rightarrow> nat \<Rightarrow> nat \<Rightarrow> 'c cell_heap \<Rightarrow> (sheet_error + 'c) option" where
  "getCellAt s x y H = (case verify s x y of Some e \<Rightarrow> Some (Inl e) | None \<Rightarrow> map_option Inr (read_cell s x y H))"

section \<open>Programs\<close>

text \<open>
  What a program does with its spreadsheets: they are its variables, in order of construction, and an
  operation that throws has no effect.
\<close>

datatype 'c sheet_op =
  New nat nat
| Copy nat
| Copy_assign nat nat
| Move nat
| Move_assign nat nat
| Set nat nat nat 'c
| Destroy nat

fun sheet_exec :: "'c::zero sheet_op \<Rightarrow> 'c cell_heap \<times> sheet list \<Rightarrow> ('c cell_heap \<times> sheet list) option" where
  "sheet_exec (New w h) (H, ss) = (let (s, H) = Spreadsheet_new w h H in Some (H, ss @ [s]))"
| "sheet_exec (Copy i) (H, ss) = map_option (\<lambda>(s, H). (H, ss @ [s])) (Spreadsheet_copy (ss ! i) H)"
| "sheet_exec (Copy_assign i j) (H, ss) = map_option (\<lambda>(s, H). (H, ss[i := s])) (copy_assign (ss ! i) (ss ! j) H)"
| "sheet_exec (Move i) (H, ss) = (let (s, src) = Spreadsheet_move (ss ! i) in Some (H, ss[i := src] @ [s]))"
| "sheet_exec (Move_assign i j) (H, ss) = (let (s, rhs) = move_assign (ss ! i) (ss ! j) in Some (H, (ss[j := rhs])[i := s]))"
| "sheet_exec (Set i x y v) (H, ss) =
     map_option (\<lambda>r. case r of Inl e \<Rightarrow> (H, ss) | Inr H \<Rightarrow> (H, ss)) (setCellAt (ss ! i) x y v H)"
| "sheet_exec (Destroy i) (H, ss) = map_option (\<lambda>(s, H). (H, take i ss @ drop (Suc i) ss)) (Spreadsheet_destroy (ss ! i) H)"

section \<open>Ownership\<close>

definition sheet_tabs :: "sheet \<Rightarrow> nat list" where
  "sheet_tabs s = (case m_cells s of None \<Rightarrow> [] | Some t \<Rightarrow> [t])"

definition sheet_cols :: "'c cell_heap \<Rightarrow> sheet \<Rightarrow> nat list" where
  "sheet_cols H s = concat (map (\<lambda>t. the (tabs H t)) (sheet_tabs s))"

definition sheet_wf :: "'c cell_heap \<Rightarrow> sheet \<Rightarrow> bool" where
  "sheet_wf H s \<longleftrightarrow>
     (m_cells s = None \<longrightarrow> m_width s = 0 \<and> m_height s = 0) \<and>
     length (sheet_cols H s) = m_width s \<and>
     (\<forall>c \<in> set (sheet_cols H s). length (the (cols H c)) = m_height s)"

text \<open>Every allocated array belongs to exactly one of the objects.\<close>

definition heap_inv :: "'c cell_heap \<Rightarrow> sheet list \<Rightarrow> bool" where
  "heap_inv H ss \<longleftrightarrow>
     distinct (concat (map sheet_tabs ss)) \<and> set (concat (map sheet_tabs ss)) = dom (tabs H) \<and>
     distinct (concat (map (sheet_cols H) ss)) \<and> set (concat (map (sheet_cols H) ss)) = dom (cols H) \<and>
     (\<forall>a \<in> dom (tabs H) \<union> dom (cols H). a < next_addr H) \<and>
     (\<forall>s \<in> set ss. sheet_wf H s)"

text \<open>The value of an object: its height and its columns.\<close>

definition sheet_value :: "'c cell_heap \<Rightarrow> sheet \<Rightarrow> nat \<times> 'c list list" where
  "sheet_value H s = (m_height s, map (\<lambda>c. the (cols H c)) (sheet_cols H s))"

lemma mset_concat_map_cong: "mset xs = mset ys \<Longrightarrow> mset (concat (map f xs)) = mset (concat (map f ys))"
  by (simp add: mset_concat mset_map flip: sum_mset_sum_list map_map)

text \<open>The order of the objects does not matter.\<close>

lemma heap_inv_mset:
  assumes eq: "mset ss = mset ss'" and inv: "heap_inv H ss"
  shows "heap_inv H ss'"
proof -
  note T = mset_concat_map_cong [OF eq, of sheet_tabs] and C = mset_concat_map_cong [OF eq, of "sheet_cols H"]
  show ?thesis
    using inv mset_eq_imp_distinct_iff [OF T] mset_eq_setD [OF T] mset_eq_imp_distinct_iff [OF C] mset_eq_setD [OF C] mset_eq_setD [OF eq]
    unfolding heap_inv_def by metis
qed

lemma heap_inv_front: "i < length ss \<Longrightarrow> heap_inv H ss = heap_inv H (ss ! i # take i ss @ drop (Suc i) ss)"
proof -
  assume "i < length ss"
  then have "mset ss = mset (ss ! i # take i ss @ drop (Suc i) ss)"
    by (metis id_take_nth_drop mset.simps(2) mset_append union_mset_add_mset_right)
  then show ?thesis using heap_inv_mset by metis
qed

text \<open>An object is not affected by changes of arrays that it does not own.\<close>

lemma sheet_frame:
  assumes "\<And>t. t \<in> set (sheet_tabs s) \<Longrightarrow> tabs H' t = tabs H t" "\<And>c. c \<in> set (sheet_cols H s) \<Longrightarrow> cols H' c = cols H c"
  shows "sheet_cols H' s = sheet_cols H s \<and> sheet_wf H' s = sheet_wf H s \<and> sheet_value H' s = sheet_value H s"
proof -
  have "sheet_cols H' s = sheet_cols H s" using assms(1) by (simp add: sheet_cols_def sheet_tabs_def split: option.splits)
  then show ?thesis using assms(2) by (simp add: sheet_wf_def sheet_value_def)
qed

lemma sheet_owned:
  assumes "heap_inv H ss" "s \<in> set ss"
  shows "set (sheet_tabs s) \<subseteq> dom (tabs H)" "set (sheet_cols H s) \<subseteq> dom (cols H)" "sheet_wf H s"
  using assms by (auto simp: heap_inv_def)

lemma new_columns_eq:
  "new_columns k h H =
     ([next_addr H..<next_addr H + k],
      H\<lparr>cols := (\<lambda>a. if next_addr H \<le> a \<and> a < next_addr H + k then Some (replicate h 0) else cols H a), next_addr := next_addr H + k\<rparr>)"
proof (induction k arbitrary: H)
  case (Suc k)
  show ?case by (simp add: Suc new_column_def upt_conv_Cons fun_eq_iff del: upt_Suc)
next
  case 0
  have "(\<lambda>a. if next_addr H \<le> a \<and> a < next_addr H + 0 then Some (replicate h 0) else cols H a) = cols H" by (auto simp: fun_eq_iff)
  then show ?case by simp
qed

lemma Spreadsheet_new_inv:
  assumes inv: "heap_inv H ss" and new: "Spreadsheet_new w h H = (s, H')"
  shows "heap_inv H' (s # ss) \<and> sheet_value H' s = (h, replicate w (replicate h 0)) \<and> m_width s = w \<and> m_height s = h \<and>
    (\<forall>s' \<in> set ss. sheet_value H' s' = sheet_value H s')"
proof -
  define t where "t = next_addr H"
  define cs where "cs = [Suc t..<Suc t + w]"
  have s: "m_width s = w" "m_height s = h" "m_cells s = Some t"
    and tabs': "tabs H' = (tabs H)(t \<mapsto> cs)"
    and cols': "cols H' = (\<lambda>a. if Suc t \<le> a \<and> a < Suc t + w then Some (replicate h 0) else cols H a)"
    and next': "next_addr H' = Suc t + w"
    using new by (auto simp: Spreadsheet_new_def new_columns_eq Let_def t_def cs_def)
  have fresh: "a < t" if "a \<in> dom (tabs H) \<union> dom (cols H)" for a using inv that by (auto simp: heap_inv_def t_def)
  have frame: "sheet_cols H' s' = sheet_cols H s' \<and> sheet_wf H' s' = sheet_wf H s' \<and> sheet_value H' s' = sheet_value H s'"
    if "s' \<in> set ss" for s'
  proof (rule sheet_frame)
    show "tabs H' u = tabs H u" if "u \<in> set (sheet_tabs s')" for u
      using sheet_owned(1) [OF inv \<open>s' \<in> set ss\<close>] that fresh [of u] by (auto simp: tabs')
    show "cols H' c = cols H c" if "c \<in> set (sheet_cols H s')" for c
    proof -
      have "c < t" using subsetD [OF sheet_owned(2) [OF inv \<open>s' \<in> set ss\<close>] that] by (intro fresh) simp
      then show ?thesis by (simp add: cols')
    qed
  qed
  have cs: "sheet_cols H' s = cs" by (simp add: sheet_cols_def sheet_tabs_def s tabs')
  have val: "sheet_value H' s = (h, replicate w (replicate h 0))" "sheet_wf H' s"
  proof -
    have const: "the (cols H' c) = replicate h 0" if "c \<in> set cs" for c using that by (simp add: cols' cs_def del: upt_Suc)
    then have "map (\<lambda>c. the (cols H' c)) cs = map (\<lambda>_. replicate h 0) cs" by simp
    then have "map (\<lambda>c. the (cols H' c)) cs = replicate w (replicate h 0)"
      by (simp only: map_replicate_const) (simp add: cs_def del: upt_Suc)
    then show "sheet_value H' s = (h, replicate w (replicate h 0))" by (simp add: sheet_value_def cs s)
    show "sheet_wf H' s" using const by (simp add: sheet_wf_def cs s) (simp add: cs_def del: upt_Suc)
  qed
  have cols_old: "map (sheet_cols H') ss = map (sheet_cols H) ss" using frame by simp
  have "heap_inv H' (s # ss)"
    unfolding heap_inv_def
  proof (intro conjI)
    show "distinct (concat (map sheet_tabs (s # ss)))" "set (concat (map sheet_tabs (s # ss))) = dom (tabs H')"
      using inv fresh by (auto simp: heap_inv_def sheet_tabs_def s tabs')
    show "distinct (concat (map (sheet_cols H') (s # ss)))"
      using inv fresh unfolding list.map concat.simps cols_old cs by (fastforce simp: heap_inv_def cs_def)
    show "set (concat (map (sheet_cols H') (s # ss))) = dom (cols H')"
      using inv fresh unfolding list.map concat.simps cols_old cs by (auto simp: heap_inv_def cs_def cols' split: if_splits)
    show "\<forall>a \<in> dom (tabs H') \<union> dom (cols H'). a < next_addr H'"
      using fresh unfolding tabs' cols' next'
      by (auto split: if_splits intro: less_trans [OF fresh] simp: domI) (metis UnI1 UnI2 domI fresh less_Suc_eq trans_less_add1)+
    show "\<forall>s' \<in> set (s # ss). sheet_wf H' s'" using inv frame val by (auto simp: heap_inv_def)
  qed
  then show ?thesis using val s frame by simp
qed

lemma delete_columns:
  "distinct cs \<Longrightarrow> set cs \<subseteq> dom (cols H) \<Longrightarrow>
     foldM delete_column cs H = Some (H\<lparr>cols := (\<lambda>a. if a \<in> set cs then None else cols H a)\<rparr>)"
proof (induction cs arbitrary: H)
  case (Cons c cs)
  then have "delete_column c H = Some (H\<lparr>cols := (cols H)(c := None)\<rparr>)" by (auto simp: delete_column_def)
  moreover have "set cs \<subseteq> dom (cols (H\<lparr>cols := (cols H)(c := None)\<rparr>))" using Cons.prems by auto
  moreover have "(\<lambda>a. if a \<in> set cs then None else cols (H\<lparr>cols := (cols H)(c := None)\<rparr>) a) = (\<lambda>a. if a \<in> set (c # cs) then None else cols H a)"
    by auto
  moreover have "distinct cs" using Cons.prems by simp
  ultimately show ?case using Cons.IH [of "H\<lparr>cols := (cols H)(c := None)\<rparr>"]
    by (simp only: foldM.simps bind.bind_lunit) simp
qed simp

lemma sheet_cols_Some: "m_cells s = Some t \<Longrightarrow> tabs H t = Some cs \<Longrightarrow> sheet_cols H s = cs"
  by (simp add: sheet_cols_def sheet_tabs_def)

lemma owned_table:
  assumes "heap_inv H ss" "s \<in> set ss" "m_cells s = Some t"
  shows "tabs H t = Some (sheet_cols H s)"
proof -
  have "t \<in> dom (tabs H)" using sheet_owned(1) [OF assms(1,2)] assms(3) by (simp add: sheet_tabs_def)
  then show ?thesis using assms(3) by (auto simp: sheet_cols_Some)
qed

lemma heap_inv_disjoint:
  assumes "heap_inv H (s # ss)" "s' \<in> set ss"
  shows "distinct (sheet_cols H s) \<and> set (sheet_cols H s) \<inter> set (sheet_cols H s') = {}"
  using assms unfolding heap_inv_def list.map concat.simps distinct_append set_concat set_map by blast

lemma delete_cells_inv:
  assumes inv: "heap_inv H (s # ss)"
  shows "\<exists>H'. delete_cells s H = Some H' \<and> heap_inv H' ss \<and> (\<forall>s' \<in> set ss. sheet_value H' s' = sheet_value H s')"
proof (cases "m_cells s")
  case None
  then have "m_width s = 0" using inv by (simp add: heap_inv_def sheet_wf_def)
  then have "delete_cells s H = Some H" using None by (simp add: delete_cells_def)
  moreover have "heap_inv H ss" using inv None by (simp add: heap_inv_def sheet_tabs_def sheet_cols_def)
  ultimately show ?thesis by blast
next
  case (Some t)
  define cs where "cs = sheet_cols H s"
  define H' where "H' = H\<lparr>cols := (\<lambda>a. if a \<in> set cs then None else cols H a), tabs := (tabs H)(t := None)\<rparr>"
  have t: "tabs H t = Some cs" using owned_table [OF inv _ Some] by (simp add: cs_def)
  have w: "length cs = m_width s" using inv by (simp add: heap_inv_def sheet_wf_def cs_def)
  have d: "distinct cs" "set cs \<subseteq> dom (cols H)" using inv by (auto simp: heap_inv_def cs_def)
  have del: "delete_cells s H = Some H'"
    using t w by (simp add: delete_cells_def Some delete_columns [OF d] H'_def)
  have frame: "sheet_cols H' s' = sheet_cols H s' \<and> sheet_wf H' s' = sheet_wf H s' \<and> sheet_value H' s' = sheet_value H s'"
    if "s' \<in> set ss" for s'
  proof (rule sheet_frame)
    show "tabs H' u = tabs H u" if "u \<in> set (sheet_tabs s')" for u
      using inv \<open>s' \<in> set ss\<close> that Some by (auto simp: heap_inv_def sheet_tabs_def H'_def)
    show "cols H' c = cols H c" if "c \<in> set (sheet_cols H s')" for c
      using inv \<open>s' \<in> set ss\<close> that by (auto simp: heap_inv_def H'_def cs_def)
  qed
  then have cols_old: "map (sheet_cols H') ss = map (sheet_cols H) ss" by simp
  have "heap_inv H' ss"
    unfolding heap_inv_def cols_old
  proof (intro conjI)
    show "distinct (concat (map sheet_tabs ss))" "distinct (concat (map (sheet_cols H) ss))"
      using inv by (auto simp: heap_inv_def)
    show "set (concat (map sheet_tabs ss)) = dom (tabs H')"
      using inv Some by (auto simp: heap_inv_def sheet_tabs_def H'_def)
    have dc: "dom (cols H') = dom (cols H) - set cs" by (auto simp: H'_def split: if_splits)
    have "set cs \<inter> set (concat (map (sheet_cols H) ss)) = {}" "dom (cols H) = set cs \<union> set (concat (map (sheet_cols H) ss))"
      using inv by (simp_all add: heap_inv_def cs_def)
    then show "set (concat (map (sheet_cols H) ss)) = dom (cols H')" unfolding dc by blast
    show "\<forall>a \<in> dom (tabs H') \<union> dom (cols H'). a < next_addr H'"
      using inv by (auto simp: heap_inv_def H'_def split: if_splits)
    show "\<forall>s' \<in> set ss. sheet_wf H' s'" using inv frame by (simp add: heap_inv_def)
  qed
  then show ?thesis using del frame by blast
qed

text \<open>Cells of an object.\<close>

lemma owned_cell:
  assumes inv: "heap_inv H ss" and s: "s \<in> set ss" and xy: "x < m_width s" "y < m_height s"
  shows "\<exists>col. cell_column s x H = Some (sheet_cols H s ! x) \<and> cols H (sheet_cols H s ! x) = Some col \<and> length col = m_height s \<and>
    snd (sheet_value H s) ! x = col"
proof -
  have wf: "sheet_wf H s" using sheet_owned(3) [OF inv s] .
  then obtain t where t: "m_cells s = Some t" using xy by (cases "m_cells s") (auto simp: sheet_wf_def)
  have x: "x < length (sheet_cols H s)" using wf xy by (simp add: sheet_wf_def)
  then have "sheet_cols H s ! x \<in> dom (cols H)" using sheet_owned(2) [OF inv s] nth_mem by blast
  then obtain col where col: "cols H (sheet_cols H s ! x) = Some col" by blast
  then have "length col = m_height s" using wf x nth_mem unfolding sheet_wf_def by (metis option.sel)
  then show ?thesis using col x t owned_table [OF inv s t] by (simp add: cell_column_def sheet_value_def)
qed

lemma read_cell_value:
  assumes "heap_inv H ss" "s \<in> set ss" "x < m_width s" "y < m_height s"
  shows "read_cell s x y H = Some (snd (sheet_value H s) ! x ! y)"
  using owned_cell [OF assms] assms(4) by (auto simp: read_cell_def)

lemma write_cell_inv:
  assumes inv: "heap_inv H (s # ss)" and xy: "x < m_width s" "y < m_height s"
  shows "\<exists>H'. write_cell s x y v H = Some H' \<and> heap_inv H' (s # ss) \<and>
    snd (sheet_value H' s) = (snd (sheet_value H s))[x := (snd (sheet_value H s) ! x)[y := v]] \<and>
    (\<forall>s' \<in> set ss. sheet_value H' s' = sheet_value H s')"
proof -
  let ?c = "sheet_cols H s ! x"
  obtain col where cc: "cell_column s x H = Some ?c" and col: "cols H ?c = Some col" "length col = m_height s"
    and val: "snd (sheet_value H s) ! x = col"
    using owned_cell [OF inv _ xy] by auto
  define H' where "H' = H\<lparr>cols := (cols H)(?c \<mapsto> col[y := v])\<rparr>"
  have wr: "write_cell s x y v H = Some H'" using cc col xy by (simp add: write_cell_def H'_def)
  have wf: "sheet_wf H s" using inv by (simp add: heap_inv_def)
  have x: "x < length (sheet_cols H s)" using wf xy by (simp add: sheet_wf_def)
  have H': "cols H' = (cols H)(?c \<mapsto> col[y := v])" "tabs H' = tabs H" "next_addr H' = next_addr H" by (simp_all add: H'_def)
  have cols_eq: "sheet_cols H' = sheet_cols H" by (simp add: fun_eq_iff sheet_cols_def H')
  have dist: "?c \<notin> set (sheet_cols H s')" if "s' \<in> set ss" for s'
    using heap_inv_disjoint [OF inv that] nth_mem [OF x] by blast
  have frame: "sheet_wf H' s' = sheet_wf H s' \<and> sheet_value H' s' = sheet_value H s'" if "s' \<in> set ss" for s'
  proof -
    have "sheet_cols H' s' = sheet_cols H s' \<and> sheet_wf H' s' = sheet_wf H s' \<and> sheet_value H' s' = sheet_value H s'"
      using dist [OF that] by (intro sheet_frame) (auto simp: H')
    then show ?thesis by simp
  qed
  have d: "distinct (sheet_cols H s)" using inv by (simp add: heap_inv_def)
  have "snd (sheet_value H' s) = (snd (sheet_value H s))[x := (snd (sheet_value H s) ! x)[y := v]]"
    unfolding val using x d by (intro nth_equalityI) (auto simp: sheet_value_def cols_eq H' nth_list_update nth_eq_iff_index_eq)
  moreover have "sheet_wf H' s" using wf col by (auto simp: sheet_wf_def cols_eq H')
  moreover have "dom (cols H') = dom (cols H)" using col by (auto simp: H')
  ultimately show ?thesis using wr inv frame
    by (simp add: heap_inv_def cols_eq H'(2,3))
qed

lemma value_lengths:
  assumes "heap_inv H ss" "s \<in> set ss"
  shows "length (snd (sheet_value H s)) = m_width s" "x < m_width s \<Longrightarrow> length (snd (sheet_value H s) ! x) = m_height s"
  using sheet_owned(3) [OF assms] nth_mem by (auto simp: sheet_wf_def sheet_value_def)

lemma copy_cells_inv:
  assumes "heap_inv H (s # ss)" and src: "src \<in> set ss" and dims: "m_width s = m_width src" "m_height s = m_height src"
    and "\<forall>(x, y) \<in> set ps. x < m_width s \<and> y < m_height s"
  shows "\<exists>H'. foldM (copy_cell src s) ps H = Some H' \<and> heap_inv H' (s # ss) \<and>
    (\<forall>s' \<in> set ss. sheet_value H' s' = sheet_value H s') \<and>
    (\<forall>x y. x < m_width s \<and> y < m_height s \<longrightarrow>
       snd (sheet_value H' s) ! x ! y = (if (x, y) \<in> set ps then snd (sheet_value H src) ! x ! y else snd (sheet_value H s) ! x ! y))"
  using assms(1,5)
proof (induction ps arbitrary: H)
  case (Cons p ps)
  obtain i j where p: "p = (i, j)" by fastforce
  have ij: "i < m_width s" "j < m_height s" using Cons.prems(2) p by auto
  let ?v = "snd (sheet_value H src) ! i ! j" and ?M = "snd (sheet_value H s)"
  have rd: "read_cell src i j H = Some ?v" using read_cell_value [OF Cons.prems(1), of src] src ij dims by simp
  obtain H1 where H1: "write_cell s i j ?v H = Some H1" "heap_inv H1 (s # ss)" "snd (sheet_value H1 s) = ?M[i := (?M ! i)[j := ?v]]"
      "\<forall>s' \<in> set ss. sheet_value H1 s' = sheet_value H s'"
    using write_cell_inv [OF Cons.prems(1) ij] by blast
  obtain H' where H': "foldM (copy_cell src s) ps H1 = Some H'" "heap_inv H' (s # ss)"
      "\<forall>s' \<in> set ss. sheet_value H' s' = sheet_value H1 s'"
      "\<forall>x y. x < m_width s \<and> y < m_height s \<longrightarrow>
         snd (sheet_value H' s) ! x ! y = (if (x, y) \<in> set ps then snd (sheet_value H1 src) ! x ! y else snd (sheet_value H1 s) ! x ! y)"
    using Cons.IH [OF H1(2)] Cons.prems(2) by auto
  have len: "length ?M = m_width s" "length (?M ! i) = m_height s" using value_lengths [OF Cons.prems(1), of s] ij by auto
  have upd: "?M[i := (?M ! i)[j := ?v]] ! x ! y = (if (x, y) = (i, j) then ?v else ?M ! x ! y)"
    if "x < m_width s" "y < m_height s" for x y using that len by (cases "x = i") (auto simp: nth_list_update)
  have "foldM (copy_cell src s) (p # ps) H = Some H'" using rd H1(1) H'(1) by (simp add: copy_cell_def p)
  moreover have "\<forall>s' \<in> set ss. sheet_value H' s' = sheet_value H s'" using H1(4) H'(3) by simp
  moreover have "snd (sheet_value H' s) ! x ! y = (if (x, y) \<in> set (p # ps) then snd (sheet_value H src) ! x ! y else ?M ! x ! y)"
    if "x < m_width s" "y < m_height s" for x y
    using H'(4) that upd [OF that] H1(3,4) src by (auto simp: p)
  ultimately show ?case using H'(2) by blast
qed simp

lemma Spreadsheet_copy_inv:
  assumes inv: "heap_inv H ss" and src: "src \<in> set ss"
  shows "\<exists>s H'. Spreadsheet_copy src H = Some (s, H') \<and> heap_inv H' (s # ss) \<and> sheet_value H' s = sheet_value H src \<and>
    (\<forall>s' \<in> set ss. sheet_value H' s' = sheet_value H s')"
proof -
  let ?w = "m_width src" and ?h = "m_height src"
  obtain s H1 where new: "Spreadsheet_new ?w ?h H = (s, H1)" by fastforce
  note N = Spreadsheet_new_inv [OF inv new]
  have ps: "\<forall>(x, y) \<in> set (List.product [0..<m_width s] [0..<m_height s]). x < m_width s \<and> y < m_height s" by auto
  obtain H' where H': "foldM (copy_cell src s) (List.product [0..<m_width s] [0..<m_height s]) H1 = Some H'" "heap_inv H' (s # ss)"
      "\<forall>s' \<in> set ss. sheet_value H' s' = sheet_value H1 s'"
      "\<forall>x y. x < m_width s \<and> y < m_height s \<longrightarrow> snd (sheet_value H' s) ! x ! y = snd (sheet_value H1 src) ! x ! y"
    using copy_cells_inv [OF _ src _ _ ps, of H1] N by auto
  have v: "\<forall>s' \<in> set ss. sheet_value H' s' = sheet_value H s'" using H'(3) N by simp
  have ls: "length (snd (sheet_value H' s)) = ?w" "\<And>x. x < ?w \<Longrightarrow> length (snd (sheet_value H' s) ! x) = ?h"
    using value_lengths [OF H'(2), of s] N by auto
  have lr: "length (snd (sheet_value H src)) = ?w" "\<And>x. x < ?w \<Longrightarrow> length (snd (sheet_value H src) ! x) = ?h"
    using value_lengths [OF inv src] by auto
  have "snd (sheet_value H' s) = snd (sheet_value H src)"
    using H'(4) N src ls lr by (intro nth_equalityI) auto
  moreover have "fst (sheet_value H' s) = fst (sheet_value H src)" using N by (simp add: sheet_value_def)
  ultimately have "sheet_value H' s = sheet_value H src" by (simp add: prod_eq_iff)
  moreover have "Spreadsheet_copy src H = Some (s, H')" using new H'(1) by (simp add: Spreadsheet_copy_def)
  ultimately show ?thesis using H'(2) v by blast
qed

text \<open>The invariant does not look at the identifiers.\<close>

lemma sheet_same:
  assumes "m_width s = m_width s'" "m_height s = m_height s'" "m_cells s = m_cells s'"
  shows "sheet_tabs s = sheet_tabs s' \<and> sheet_cols H s = sheet_cols H s' \<and> sheet_wf H s = sheet_wf H s' \<and> sheet_value H s = sheet_value H s'"
proof -
  have "sheet_tabs s = sheet_tabs s'" using assms by (simp add: sheet_tabs_def)
  moreover from this have "sheet_cols H s = sheet_cols H s'" by (simp add: sheet_cols_def)
  ultimately show ?thesis using assms by (simp add: sheet_wf_def sheet_value_def)
qed

lemma sheet_swap_inv:
  assumes inv: "heap_inv H (s # t # ss)" and swap: "sheet_swap s t = (s', t')"
  shows "heap_inv H (s' # t' # ss) \<and> sheet_value H s' = sheet_value H t \<and> sheet_value H t' = sheet_value H s"
proof -
  have s': "sheet_tabs s' = sheet_tabs t" "sheet_cols H s' = sheet_cols H t" "sheet_wf H s' = sheet_wf H t" "sheet_value H s' = sheet_value H t"
    using swap sheet_same [of s' t H] by (auto simp: sheet_swap_def)
  have t': "sheet_tabs t' = sheet_tabs s" "sheet_cols H t' = sheet_cols H s" "sheet_wf H t' = sheet_wf H s" "sheet_value H t' = sheet_value H s"
    using swap sheet_same [of t' s H] by (auto simp: sheet_swap_def)
  have "heap_inv H (t # s # ss)" using heap_inv_mset [OF _ inv, of "t # s # ss"] by simp
  then show ?thesis using s' t' by (simp add: heap_inv_def)
qed

definition core :: "sheet \<Rightarrow> nat \<times> nat \<times> nat option" where
  "core s = (m_width s, m_height s, m_cells s)"

lemma map_core:
  assumes "\<And>s s'. core s = core s' \<Longrightarrow> g s = g s'" "map core ss = map core ss'"
  shows "map g ss = map g ss'"
proof -
  have "length ss = length ss'" using assms(2) by (rule map_eq_imp_length_eq)
  then show ?thesis using assms(2) by (induction ss ss' rule: list_induct2) (auto intro: assms(1))
qed

lemma heap_inv_core:
  assumes eq: "map core ss = map core ss'" and inv: "heap_inv H ss"
  shows "heap_inv H ss' \<and> map (sheet_value H) ss = map (sheet_value H) ss'"
proof -
  have same: "sheet_tabs s = sheet_tabs s' \<and> sheet_cols H s = sheet_cols H s' \<and> sheet_wf H s = sheet_wf H s' \<and> sheet_value H s = sheet_value H s'"
    if "core s = core s'" for s s' using that by (intro sheet_same) (auto simp: core_def)
  have m: "map sheet_tabs ss = map sheet_tabs ss'" "map (sheet_cols H) ss = map (sheet_cols H) ss'" "map (sheet_value H) ss = map (sheet_value H) ss'"
    using same by (auto intro!: map_core [OF _ eq])
  have "map (sheet_wf H) ss = map (sheet_wf H) ss'" using same by (intro map_core [OF _ eq]) blast
  then have "(\<forall>s \<in> set ss. sheet_wf H s) \<longleftrightarrow> (\<forall>s \<in> set ss'. sheet_wf H s)"
    by (metis (no_types, lifting) image_iff list.set_map)
  then show ?thesis using inv m by (simp add: heap_inv_def)
qed

lemma sheet_default_inv: "heap_inv H ss \<Longrightarrow> heap_inv H (sheet_default # ss) \<and> sheet_value H sheet_default = (0, [])"
  by (simp add: heap_inv_def sheet_default_def sheet_tabs_def sheet_cols_def sheet_wf_def sheet_value_def)

section \<open>Value semantics\<close>

text \<open>What the operations are to do: the program has plain values.\<close>

fun sheet_spec :: "'c::zero sheet_op \<Rightarrow> (nat \<times> 'c list list) list \<Rightarrow> (nat \<times> 'c list list) list" where
  "sheet_spec (New w h) vs = vs @ [(h, replicate w (replicate h 0))]"
| "sheet_spec (Copy i) vs = vs @ [vs ! i]"
| "sheet_spec (Copy_assign i j) vs = vs[i := vs ! j]"
| "sheet_spec (Move i) vs = vs[i := (0, [])] @ [vs ! i]"
| "sheet_spec (Move_assign i j) vs = vs[j := vs ! i, i := vs ! j]"
| "sheet_spec (Set i x y v) vs =
     (let (h, M) = vs ! i in if x < length M \<and> y < h then vs[i := (h, M[x := (M ! x)[y := v]])] else vs)"
| "sheet_spec (Destroy i) vs = take i vs @ drop (Suc i) vs"

fun sheet_ok :: "'c sheet_op \<Rightarrow> 'v list \<Rightarrow> bool" where
  "sheet_ok (New w h) vs = True"
| "sheet_ok (Copy i) vs = (i < length vs)"
| "sheet_ok (Copy_assign i j) vs = (i < length vs \<and> j < length vs)"
| "sheet_ok (Move i) vs = (i < length vs)"
| "sheet_ok (Move_assign i j) vs = (i < length vs \<and> j < length vs)"
| "sheet_ok (Set i x y v) vs = (i < length vs)"
| "sheet_ok (Destroy i) vs = (i < length vs)"

primrec ops_ok :: "('o \<Rightarrow> 'a \<Rightarrow> bool) \<Rightarrow> ('o \<Rightarrow> 'a \<Rightarrow> 'a) \<Rightarrow> 'o list \<Rightarrow> 'a \<Rightarrow> bool" where
  "ops_ok ok spec [] a = True"
| "ops_ok ok spec (op # ops) a = (ok op a \<and> ops_ok ok spec ops (spec op a))"

text \<open>An implementation that can fail simulates a total specification.\<close>

locale op_simulation =
  fixes exec :: "'o \<Rightarrow> 's \<Rightarrow> 's option" and spec :: "'o \<Rightarrow> 'a \<Rightarrow> 'a" and ok :: "'o \<Rightarrow> 'a \<Rightarrow> bool"
    and inv :: "'s \<Rightarrow> bool" and abs :: "'s \<Rightarrow> 'a"
  assumes sim: "inv s \<Longrightarrow> ok op (abs s) \<Longrightarrow> \<exists>s'. exec op s = Some s' \<and> inv s' \<and> abs s' = spec op (abs s)"
begin

lemma run:
  "inv s \<Longrightarrow> ops_ok ok spec ops (abs s) \<Longrightarrow> \<exists>s'. foldM exec ops s = Some s' \<and> inv s' \<and> abs s' = fold spec ops (abs s)"
proof (induction ops arbitrary: s)
  case (Cons op ops)
  then obtain s' where "exec op s = Some s'" "inv s'" "abs s' = spec op (abs s)" using sim by fastforce
  then show ?case using Cons.IH [of s'] Cons.prems by simp
qed simp

end

lemma mset_front: "i < length xs \<Longrightarrow> mset (xs[i := x]) = mset (x # take i xs @ drop (Suc i) xs)"
  by (simp add: upd_conv_take_nth_drop)

lemma heap_inv_update: "i < length ss \<Longrightarrow> heap_inv H (ss[i := s]) = heap_inv H (s # take i ss @ drop (Suc i) ss)"
  using heap_inv_mset mset_front by metis

lemma map_update_rest:
  assumes "i < length ss" "\<forall>s' \<in> set (take i ss @ drop (Suc i) ss). g s' = f s'" "g s = v"
  shows "map g (ss[i := s]) = (map f ss)[i := v]"
  using assms by (simp add: upd_conv_take_nth_drop take_map drop_map)

lemma copy_assign_inv:
  assumes inv: "heap_inv H ss" and i: "i < length ss" and rhs: "rhs \<in> set ss"
  shows "\<exists>s' H'. copy_assign (ss ! i) rhs H = Some (s', H') \<and> heap_inv H' (ss[i := s']) \<and>
    map (sheet_value H') (ss[i := s']) = (map (sheet_value H) ss)[i := sheet_value H rhs]"
proof -
  let ?rest = "take i ss @ drop (Suc i) ss"
  obtain tmp H1 where c: "Spreadsheet_copy rhs H = Some (tmp, H1)" "heap_inv H1 (tmp # ss)" "sheet_value H1 tmp = sheet_value H rhs"
      "\<forall>s' \<in> set ss. sheet_value H1 s' = sheet_value H s'"
    using Spreadsheet_copy_inv [OF inv rhs] by blast
  obtain s' tmp' where sw: "sheet_swap (ss ! i) tmp = (s', tmp')" by fastforce
  have "mset (tmp # ss) = mset (ss ! i # tmp # ?rest)" using mset_front [OF i, of "ss ! i"] by simp
  from heap_inv_mset [OF this c(2)] have sw_inv: "heap_inv H1 (s' # tmp' # ?rest)" "sheet_value H1 s' = sheet_value H1 tmp"
    using sheet_swap_inv [OF _ sw] by blast+
  have "heap_inv H1 (tmp' # s' # ?rest)" by (rule heap_inv_mset [OF _ sw_inv(1)]) simp
  then obtain H' where d: "delete_cells tmp' H1 = Some H'" "heap_inv H' (s' # ?rest)"
      "\<forall>s \<in> set (s' # ?rest). sheet_value H' s = sheet_value H1 s"
    using delete_cells_inv by blast
  have "copy_assign (ss ! i) rhs H = Some (s', H')" using c(1) sw d(1) by (simp add: copy_assign_def Spreadsheet_destroy_def)
  moreover have "map (sheet_value H') (ss[i := s']) = (map (sheet_value H) ss)[i := sheet_value H rhs]"
    using i d(3) c(3,4) sw_inv(2) by (intro map_update_rest) (auto dest: in_set_takeD in_set_dropD)
  ultimately show ?thesis using d(2) i by (auto simp: heap_inv_update)
qed

lemma move_inv:
  assumes inv: "heap_inv H ss" and i: "i < length ss" and mv: "Spreadsheet_move (ss ! i) = (s, src)"
  shows "heap_inv H (ss[i := src] @ [s]) \<and>
    map (sheet_value H) (ss[i := src] @ [s]) = (map (sheet_value H) ss)[i := (0, [])] @ [sheet_value H (ss ! i)]"
proof -
  let ?rest = "take i ss @ drop (Suc i) ss"
  have "heap_inv H (sheet_default # ss ! i # ?rest)" "sheet_value H sheet_default = (0, [])"
    using sheet_default_inv inv heap_inv_front [OF i] by blast+
  then have *: "heap_inv H (s # src # ?rest)" "sheet_value H s = sheet_value H (ss ! i)" "sheet_value H src = (0, [])"
    using sheet_swap_inv [OF _ mv [unfolded Spreadsheet_move_def], of H ?rest] by simp_all
  have "heap_inv H (ss[i := src] @ [s])" by (rule heap_inv_mset [OF _ *(1)]) (simp add: mset_front [OF i])
  then show ?thesis using * map_update_rest [OF i, of "sheet_value H" "sheet_value H" src] by simp
qed

lemma move_assign_inv:
  assumes inv: "heap_inv H ss" and ij: "i < length ss" "j < length ss" and mv: "move_assign (ss ! i) (ss ! j) = (s, rhs)"
  shows "heap_inv H (ss[j := rhs, i := s]) \<and>
    map (sheet_value H) (ss[j := rhs, i := s]) = (map (sheet_value H) ss)[j := sheet_value H (ss ! i), i := sheet_value H (ss ! j)]"
proof -
  let ?ss = "ss[j := ss ! i, i := ss ! j]"
  have "core s = core (ss ! j)" "core rhs = core (ss ! i)" using mv by (auto simp: core_def move_assign_def sheet_swap_def)
  then have "map core ?ss = map core (ss[j := rhs, i := s])" by (simp add: map_update)
  moreover have "heap_inv H ?ss" by (rule heap_inv_mset [OF _ inv]) (simp add: mset_swap ij)
  ultimately show ?thesis using heap_inv_core [of ?ss "ss[j := rhs, i := s]" H] by (simp add: map_update)
qed

lemma set_cell_inv:
  assumes inv: "heap_inv H ss" and i: "i < length ss"
  shows "\<exists>r. setCellAt (ss ! i) x y v H = Some r \<and>
    (case r of Inl e \<Rightarrow> \<not> (x < m_width (ss ! i) \<and> y < m_height (ss ! i))
     | Inr H' \<Rightarrow> x < m_width (ss ! i) \<and> y < m_height (ss ! i) \<and> heap_inv H' ss \<and>
         map (sheet_value H') ss = (map (sheet_value H) ss)[i := (m_height (ss ! i),
           (snd (sheet_value H (ss ! i)))[x := (snd (sheet_value H (ss ! i)) ! x)[y := v]])])"
proof (cases "x < m_width (ss ! i) \<and> y < m_height (ss ! i)")
  case True
  let ?rest = "take i ss @ drop (Suc i) ss"
  obtain H' where H': "write_cell (ss ! i) x y v H = Some H'" "heap_inv H' (ss ! i # ?rest)"
      "snd (sheet_value H' (ss ! i)) = (snd (sheet_value H (ss ! i)))[x := (snd (sheet_value H (ss ! i)) ! x)[y := v]]"
      "\<forall>s' \<in> set ?rest. sheet_value H' s' = sheet_value H s'"
    using write_cell_inv [of H "ss ! i" ?rest x y v] inv heap_inv_front [OF i] True by blast
  have "sheet_value H' (ss ! i) = (m_height (ss ! i), (snd (sheet_value H (ss ! i)))[x := (snd (sheet_value H (ss ! i)) ! x)[y := v]])"
    using H'(3) by (simp add: sheet_value_def)
  from map_update_rest [OF i H'(4) this]
  have "map (sheet_value H') ss = (map (sheet_value H) ss)[i := (m_height (ss ! i),
      (snd (sheet_value H (ss ! i)))[x := (snd (sheet_value H (ss ! i)) ! x)[y := v]])]" by simp
  then show ?thesis using True H'(1,2) heap_inv_front [OF i, of H'] by (simp add: setCellAt_def verify_def)
qed (auto simp: setCellAt_def verify_def)

interpretation sheets: op_simulation sheet_exec sheet_spec sheet_ok "\<lambda>(H, ss). heap_inv H ss" "\<lambda>(H, ss). map (sheet_value H) ss"
proof
  fix p :: "'c::zero cell_heap \<times> sheet list" and op :: "'c sheet_op"
  assume "case p of (H, ss) \<Rightarrow> heap_inv H ss" "sheet_ok op (case p of (H, ss) \<Rightarrow> map (sheet_value H) ss)"
  then obtain H ss where p: "p = (H, ss)" and inv: "heap_inv H ss" and ok: "sheet_ok op (map (sheet_value H) ss)" by (cases p) auto
  have "\<exists>H' ss'. sheet_exec op (H, ss) = Some (H', ss') \<and> heap_inv H' ss' \<and> map (sheet_value H') ss' = sheet_spec op (map (sheet_value H) ss)"
  proof (cases op)
    case (New w h)
    obtain s H' where n: "Spreadsheet_new w h H = (s, H')" by fastforce
    have "heap_inv H' (ss @ [s])" by (rule heap_inv_mset [of "s # ss"]) (use Spreadsheet_new_inv [OF inv n] in auto)
    then show ?thesis using New n Spreadsheet_new_inv [OF inv n] by simp
  next
    case (Copy i)
    then have i: "i < length ss" using ok by simp
    then obtain s H' where c: "Spreadsheet_copy (ss ! i) H = Some (s, H')" "heap_inv H' (s # ss)" "sheet_value H' s = sheet_value H (ss ! i)"
        "\<forall>s' \<in> set ss. sheet_value H' s' = sheet_value H s'" using Spreadsheet_copy_inv [OF inv nth_mem] by blast
    have "heap_inv H' (ss @ [s])" by (rule heap_inv_mset [OF _ c(2)]) simp
    then show ?thesis using Copy c i by simp
  next
    case (Copy_assign i j)
    then have ij: "i < length ss" "j < length ss" using ok by simp_all
    then show ?thesis using Copy_assign copy_assign_inv [OF inv ij(1) nth_mem [OF ij(2)]] by auto
  next
    case (Move i)
    then have i: "i < length ss" using ok by simp
    obtain s src where "Spreadsheet_move (ss ! i) = (s, src)" by fastforce
    then show ?thesis using Move i move_inv [OF inv i] by simp
  next
    case (Move_assign i j)
    then have ij: "i < length ss" "j < length ss" using ok by simp_all
    obtain s rhs where "move_assign (ss ! i) (ss ! j) = (s, rhs)" by fastforce
    then show ?thesis using Move_assign ij move_assign_inv [OF inv ij] by simp
  next
    case (Set i x y v)
    then have i: "i < length ss" using ok by simp
    have len: "length (snd (sheet_value H (ss ! i))) = m_width (ss ! i)" using value_lengths(1) [OF inv nth_mem [OF i]] .
    have v: "sheet_value H (ss ! i) = (m_height (ss ! i), snd (sheet_value H (ss ! i)))" by (simp add: sheet_value_def)
    obtain r where r: "setCellAt (ss ! i) x y v H = Some r" and c: "case r of Inl e \<Rightarrow> \<not> (x < m_width (ss ! i) \<and> y < m_height (ss ! i))
       | Inr H' \<Rightarrow> x < m_width (ss ! i) \<and> y < m_height (ss ! i) \<and> heap_inv H' ss \<and>
           map (sheet_value H') ss = (map (sheet_value H) ss)[i := (m_height (ss ! i),
             (snd (sheet_value H (ss ! i)))[x := (snd (sheet_value H (ss ! i)) ! x)[y := v]])]"
      using set_cell_inv [OF inv i, of x y v] by blast
    have spec: "sheet_spec op (map (sheet_value H) ss) =
        (if x < m_width (ss ! i) \<and> y < m_height (ss ! i)
         then (map (sheet_value H) ss)[i := (m_height (ss ! i), (snd (sheet_value H (ss ! i)))[x := (snd (sheet_value H (ss ! i)) ! x)[y := v]])]
         else map (sheet_value H) ss)"
      unfolding Set sheet_spec.simps nth_map [OF i] by (subst v) (simp only: Let_def prod.case len)
    show ?thesis using r c inv unfolding spec by (cases r) (auto simp: Set)
  next
    case (Destroy i)
    then have i: "i < length ss" using ok by simp
    then show ?thesis
      using Destroy delete_cells_inv [of H "ss ! i" "take i ss @ drop (Suc i) ss"] inv heap_inv_front [OF i, of H]
      by (auto simp: Spreadsheet_destroy_def take_map drop_map)
  qed
  then show "\<exists>s'. sheet_exec op p = Some s' \<and> (case s' of (H, ss) \<Rightarrow> heap_inv H ss) \<and>
      (case s' of (H, ss) \<Rightarrow> map (sheet_value H) ss) = sheet_spec op (case p of (H, ss) \<Rightarrow> map (sheet_value H) ss)"
    unfolding p by auto
qed

definition empty_heap :: "nat \<Rightarrow> nat \<Rightarrow> 'c cell_heap" where
  "empty_heap a c = \<lparr>tabs = Map.empty, cols = Map.empty, next_addr = a, ms_counter = c\<rparr>"

lemma empty_heap_inv: "heap_inv (empty_heap a c) []"
  by (simp add: heap_inv_def empty_heap_def)

lemma getCellAt_value:
  assumes "heap_inv H ss" "s \<in> set ss"
  shows "getCellAt s x y H =
    Some (if m_width s \<le> x then Inl (Out_of_range ''bad x'')
          else if m_height s \<le> y then Inl (Out_of_range ''bad y'')
          else Inr (snd (sheet_value H s) ! x ! y))"
  using read_cell_value [OF assms, of x y] by (simp add: getCellAt_def verify_def)

text \<open>
  C29. Spreadsheets are values. Whatever sequence of constructions, copies, copy assignments, moves, move
  assignments, cell updates and destructions a program performs on existing objects: it never touches
  an array that is not allocated and never deletes one twice; the objects have the values that the same
  operations give on plain values, so that a copy is deep and no two objects share a cell (moving out
  leaves an empty sheet, move assignment exchanges); an access outside the bounds throws, naming the
  first bad coordinate, and one inside returns the cell; and when all objects are destroyed nothing is
  left on the heap.
\<close>

theorem spreadsheet_value_semantics:
  assumes "ops_ok sheet_ok sheet_spec ops []"
  shows "\<exists>H ss. foldM sheet_exec ops (empty_heap a c, []) = Some (H, ss) \<and>
    map (sheet_value H) ss = fold sheet_spec ops [] \<and>
    (ss = [] \<longrightarrow> tabs H = Map.empty \<and> cols H = Map.empty) \<and>
    (\<forall>s \<in> set ss. \<forall>x y. getCellAt s x y H =
       Some (if m_width s \<le> x then Inl (Out_of_range ''bad x'')
             else if m_height s \<le> y then Inl (Out_of_range ''bad y'')
             else Inr (snd (sheet_value H s) ! x ! y)))"
proof -
  obtain H ss where run: "foldM sheet_exec ops (empty_heap a c, []) = Some (H, ss)" "heap_inv H ss"
      "map (sheet_value H) ss = fold sheet_spec ops []"
    using sheets.run [of "(empty_heap a c, [])" ops] assms empty_heap_inv by auto
  moreover have "tabs H = Map.empty \<and> cols H = Map.empty" if "ss = []" using run(2) that by (simp add: heap_inv_def flip: dom_eq_empty_conv)
  ultimately show ?thesis using getCellAt_value by blast
qed

theorem spreadsheet_value_semantics_witness:
  "\<exists>H ss. foldM sheet_exec [New 1 2, Copy 0, Set 0 0 1 (7 :: int), Copy_assign 1 0, Set 1 0 0 5, Destroy 0] (empty_heap 0 0, []) = Some (H, ss) \<and>
     map (sheet_value H) ss = [(2, [[5, 7]])]"
proof -
  let ?ops = "[New 1 2, Copy 0, Set 0 0 1 (7 :: int), Copy_assign 1 0, Set 1 0 0 5, Destroy 0]"
  have "ops_ok sheet_ok sheet_spec ?ops []" by (simp add: numeral_2_eq_2)
  moreover have "fold sheet_spec ?ops [] = [(2, [[5, 7]])]" by (simp add: numeral_2_eq_2)
  ultimately show ?thesis using spreadsheet_value_semantics [of ?ops 0 0] by metis
qed

section \<open>Grid\<close>

text \<open>
  The template \<^verbatim>\<open>Grid\<close> of \<^verbatim>\<open>professional_cpp/src/ch12_template/grid.cc\<close>, whose cells are a vector of vectors of
  \<^verbatim>\<open>std::optional\<close>. The defaulted move constructor moves the vector, which leaves the source empty, and
  copies the two sizes. \<open>at\<close> is \<open>None\<close> where the unchecked index is outside of the vector.
\<close>

record 'c grid =
  g_cells :: "'c option list list"
  g_width :: nat
  g_height :: nat

definition Grid_new :: "nat \<Rightarrow> nat \<Rightarrow> 'c grid" where
  "Grid_new w h = \<lparr>g_cells = replicate w (replicate h None), g_width = w, g_height = h\<rparr>"

definition Grid_move :: "'c grid \<Rightarrow> 'c grid \<times> 'c grid" where
  "Grid_move src = (\<lparr>g_cells = g_cells src, g_width = g_width src, g_height = g_height src\<rparr>, src\<lparr>g_cells := []\<rparr>)"

text \<open>The converting constructor; the loop that would copy the cells is commented out.\<close>

definition Grid_convert :: "'e grid \<Rightarrow> 'c grid" where
  "Grid_convert src = Grid_new (g_width src) (g_height src)"

definition verifyCoordinate :: "'c grid \<Rightarrow> nat \<Rightarrow> nat \<Rightarrow> sheet_error option" where
  "verifyCoordinate g x y =
     (if x \<ge> g_width g then Some (Out_of_range ''x > m_w'')
      else if y \<ge> g_height g then Some (Out_of_range ''y < m_height'')
      else None)"

definition Grid_at :: "'c grid \<Rightarrow> nat \<Rightarrow> nat \<Rightarrow> (sheet_error + 'c option) option" where
  "Grid_at g x y =
     (case verifyCoordinate g x y of
        Some e \<Rightarrow> Some (Inl e)
      | None \<Rightarrow> (if x < length (g_cells g) \<and> y < length (g_cells g ! x) then Some (Inr (g_cells g ! x ! y)) else None))"

lemma Grid_new_at: "Grid_at (Grid_new w h) x y \<noteq> None"
  by (auto simp: Grid_at_def Grid_new_def verifyCoordinate_def)

text \<open>A grid that has been moved from still accepts its old coordinates, and then reads outside of the vector.\<close>

lemma Grid_moved_from: "x < g_width g \<Longrightarrow> y < g_height g \<Longrightarrow> Grid_at (snd (Grid_move g)) x y = None"
  by (simp add: Grid_at_def Grid_move_def verifyCoordinate_def)

lemma Grid_convert_drops_cells:
  "x < g_width g \<Longrightarrow> y < g_height g \<Longrightarrow> Grid_at (Grid_convert g) x y = Some (Inr None)"
  by (simp add: Grid_at_def Grid_convert_def Grid_new_def verifyCoordinate_def)

end
