(* ===== verification/Prefix_Function.thy ===== *)
theory Prefix_Function
  imports Prelude
begin

text \<open>
  \<^verbatim>\<open>any/kmp.cpp\<close>: the function \<^verbatim>\<open>checkPrefixSuffix\<close>, which computes the prefix function of a string, and the class
  \<^verbatim>\<open>KMP\<close>, whose search is meant to use it. The inner loops are \<^verbatim>\<open>while\<close> loops whose end depends on the
  table, so they are partial functions: \<open>None\<close> is a loop that does not end (in \<open>kmp_find\<close>, an access outside
  of the table). Strings are shorter than \<open>2 ^ 31\<close>.
\<close>

section \<open>The program\<close>

text \<open>\<^verbatim>\<open>while (str[i] != str[j] && i > 0) i = nxt[i - 1];\<close>\<close>

partial_function (option) fall_back :: "string \<Rightarrow> nat list \<Rightarrow> nat \<Rightarrow> nat \<Rightarrow> nat option" where
  "fall_back str nxt j i = (if str ! i \<noteq> str ! j \<and> i > 0 then fall_back str nxt j (nxt ! (i - 1)) else Some i)"

definition prefix_step :: "string \<Rightarrow> nat \<Rightarrow> nat \<times> nat list \<Rightarrow> (nat \<times> nat list) option" where
  "prefix_step str j = (\<lambda>(i, nxt). Option.bind (fall_back str nxt j i) (\<lambda>i.
     if str ! i = str ! j then Some (i + 1, nxt[j := i + 1]) else Some (i, nxt[j := 0])))"

definition checkPrefixSuffix :: "string \<Rightarrow> nat list option" where
  "checkPrefixSuffix str =
     map_option snd (foldM (prefix_step str) [1..<length str] (0, replicate (length str) 0))"

text \<open>The class: \<^verbatim>\<open>while (p[i] != p[j] && i > 0) i = nxt[i];\<close>\<close>

partial_function (option) kmp_fall_back :: "string \<Rightarrow> nat list \<Rightarrow> nat \<Rightarrow> nat \<Rightarrow> nat option" where
  "kmp_fall_back p nxt j i = (if p ! i \<noteq> p ! j \<and> i > 0 then kmp_fall_back p nxt j (nxt ! i) else Some i)"

definition initNext_step :: "string \<Rightarrow> nat \<Rightarrow> nat \<times> nat list \<Rightarrow> (nat \<times> nat list) option" where
  "initNext_step p j = (\<lambda>(i, nxt). Option.bind (kmp_fall_back p nxt j i) (\<lambda>i.
     if p ! i = p ! j then Some (i + 1, nxt[j := i + 1]) else Some (i, nxt)))"

definition initNext :: "string \<Rightarrow> nat list option" where
  "initNext p = map_option snd (foldM (initNext_step p) [1..<length p] (0, replicate (length p) 0))"

text \<open>\<open>s\<close>: what is left of the text from position \<open>i\<close> on. The character behind the end of \<open>p\<close> is NUL.\<close>

fun find_loop :: "string \<Rightarrow> nat list \<Rightarrow> string \<Rightarrow> nat \<Rightarrow> nat \<Rightarrow> int option" where
  "find_loop p nxt [] i j = Some (- 1)"
| "find_loop p nxt (c # s) i j =
     (if c = (if j < length p then p ! j else CHR 0x00)
      then (if j + 1 = length p then Some (int i - int (length p) + 1) else find_loop p nxt s (i + 1) (j + 1))
      else if j < length nxt then find_loop p nxt s (i + 1) (nxt ! j) else None)"

definition kmp_find :: "string \<Rightarrow> string \<Rightarrow> nat list \<Rightarrow> nat \<Rightarrow> int option" where
  "kmp_find s p nxt ist = find_loop p nxt (drop ist s) ist 0"

section \<open>Borders\<close>

text \<open>The prefix of length \<open>k\<close> is a proper prefix and a suffix of the prefix of length \<open>n\<close>.\<close>

definition border :: "'a list \<Rightarrow> nat \<Rightarrow> nat \<Rightarrow> bool" where
  "border s n k \<longleftrightarrow> k < n \<and> (\<forall>x < k. s ! x = s ! (n - k + x))"

definition longest_border :: "'a list \<Rightarrow> nat \<Rightarrow> nat \<Rightarrow> bool" where
  "longest_border s n k \<longleftrightarrow> border s n k \<and> (\<forall>m. border s n m \<longrightarrow> m \<le> k)"

lemma border_suffix: "n \<le> length s \<Longrightarrow> border s n k \<longleftrightarrow> k < n \<and> drop (n - k) (take n s) = take k s"
  by (auto simp: border_def list_eq_iff_nth_eq)

lemma border_0 [simp]: "0 < n \<Longrightarrow> border s n 0"
  by (simp add: border_def)

lemma border_trans: "border s i k \<Longrightarrow> border s n i \<Longrightarrow> border s n k"
proof -
  assume k: "border s i k" and i: "border s n i"
  have "s ! x = s ! (n - k + x)" if x: "x < k" for x
  proof -
    have "s ! x = s ! (i - k + x)" using k x by (simp add: border_def)
    also have "\<dots> = s ! (n - i + (i - k + x))"
    proof -
      have "k < i" using k by (simp add: border_def)
      then have "i - k + x < i" using x by linarith
      then show ?thesis using i unfolding border_def by blast
    qed
    also have "n - i + (i - k + x) = n - k + x" using i k by (simp add: border_def)
    finally show ?thesis .
  qed
  then show ?thesis using i k by (simp add: border_def)
qed

lemma border_smaller: "border s n m \<Longrightarrow> border s n k \<Longrightarrow> m < k \<Longrightarrow> border s k m"
proof -
  assume m: "border s n m" and k: "border s n k" and mk: "m < k"
  have "s ! x = s ! (k - m + x)" if x: "x < m" for x
  proof -
    have "k - m + x < k" using x mk by simp
    then have "s ! (k - m + x) = s ! (n - k + (k - m + x))" using k unfolding border_def by blast
    also have "n - k + (k - m + x) = n - m + x" using k mk by (simp add: border_def)
    also have "s ! (n - m + x) = s ! x" using m x by (simp add: border_def)
    finally show ?thesis by simp
  qed
  then show ?thesis using mk by (simp add: border_def)
qed

lemma border_Suc: "border s (Suc n) (Suc k) \<longleftrightarrow> border s n k \<and> s ! k = s ! n"
  by (auto simp: border_def less_Suc_eq)

section \<open>The prefix function\<close>

text \<open>Enough of the table, and a candidate that bounds every border of the next prefix.\<close>

lemma fall_back_longest:
  assumes tab: "\<forall>q < j. longest_border s (Suc q) (nxt ! q)" and i: "border s j i"
    and bound: "\<forall>m. border s (Suc j) (Suc m) \<longrightarrow> m \<le> i"
  shows "\<exists>r. fall_back s nxt j i = Some r \<and>
    (if s ! r = s ! j then longest_border s (Suc j) (Suc r) else r = 0 \<and> longest_border s (Suc j) 0)"
  using i bound
proof (induction i rule: less_induct)
  case (less i)
  show ?case
  proof (cases "s ! i \<noteq> s ! j \<and> i > 0")
    case True
    then obtain q where q: "i = Suc q" using gr0_implies_Suc by blast
    have "i < j" using less.prems(1) by (simp add: border_def)
    then have lb: "longest_border s i (nxt ! q)" using tab q by simp
    then have b: "border s i (nxt ! q)" "nxt ! q < i" by (auto simp: longest_border_def border_def)
    have "m \<le> nxt ! q" if m: "border s (Suc j) (Suc m)" for m
    proof -
      have "border s j m" "s ! m = s ! j" using m by (simp_all add: border_Suc)
      moreover have "m \<le> i" using m less.prems(2) by blast
      ultimately have "m < i" using True by (cases "m = i") auto
      then have "border s i m" using border_smaller \<open>border s j m\<close> less.prems(1) by blast
      then show ?thesis using lb by (simp add: longest_border_def)
    qed
    then have "\<exists>r. fall_back s nxt j (nxt ! q) = Some r \<and>
        (if s ! r = s ! j then longest_border s (Suc j) (Suc r) else r = 0 \<and> longest_border s (Suc j) 0)"
      using less.IH [OF b(2)] border_trans [OF b(1) less.prems(1)] by blast
    then show ?thesis using True q by (subst fall_back.simps) simp
  next
    case False
    have ret: "fall_back s nxt j i = Some i" using False by (subst fall_back.simps) auto
    show ?thesis
    proof (cases "s ! i = s ! j")
      case True
      have "m \<le> Suc i" if "border s (Suc j) m" for m using that less.prems(2) by (cases m) auto
      then have "longest_border s (Suc j) (Suc i)"
        using less.prems(1) True by (simp add: longest_border_def border_Suc)
      then show ?thesis using ret True by simp
    next
      case neq: False
      then have i0: "i = 0" using False by simp
      have "m \<le> 0" if m: "border s (Suc j) m" for m
      proof (cases m)
        case (Suc k)
        then have "k \<le> 0" "s ! k = s ! j" using m less.prems(2) i0 by (auto simp: border_Suc)
        then show ?thesis using neq i0 by simp
      qed simp
      then show ?thesis using ret neq i0 by (simp add: longest_border_def)
    qed
  qed
qed

text \<open>The invariant of the outer loop: the table up to \<open>j\<close> is right, and \<open>i\<close> is its last entry.\<close>

definition prefix_inv :: "string \<Rightarrow> nat \<Rightarrow> nat \<times> nat list \<Rightarrow> bool" where
  "prefix_inv s j = (\<lambda>(i, nxt). length nxt = length s \<and> longest_border s j i \<and> (\<forall>q < j. longest_border s (Suc q) (nxt ! q)))"

lemma prefix_step_inv:
  assumes inv: "prefix_inv s j st" and j: "0 < j" "j < length s"
  shows "\<exists>st'. prefix_step s j st = Some st' \<and> prefix_inv s (Suc j) st'"
proof -
  obtain i nxt where st: "st = (i, nxt)" by fastforce
  have len: "length nxt = length s" and i: "longest_border s j i" and tab: "\<forall>q < j. longest_border s (Suc q) (nxt ! q)"
    using inv by (auto simp: prefix_inv_def st)
  have "\<forall>m. border s (Suc j) (Suc m) \<longrightarrow> m \<le> i" using i by (auto simp: border_Suc longest_border_def)
  then obtain r where r: "fall_back s nxt j i = Some r"
    and lb: "if s ! r = s ! j then longest_border s (Suc j) (Suc r) else r = 0 \<and> longest_border s (Suc j) 0"
    using fall_back_longest [OF tab, of i] i unfolding longest_border_def [of s j] by blast
  show ?thesis
    using r lb len j tab
    by (auto simp: prefix_step_def st prefix_inv_def nth_list_update less_Suc_eq)
qed

lemma prefix_loop:
  assumes "prefix_inv s j st" "0 < j" "j \<le> length s"
  shows "\<exists>st'. foldM (prefix_step s) [j..<length s] st = Some st' \<and> prefix_inv s (length s) st'"
  using assms
proof (induction "length s - j" arbitrary: j st)
  case (Suc d)
  then have j: "j < length s" by simp
  obtain st' where "prefix_step s j st = Some st'" "prefix_inv s (Suc j) st'" using prefix_step_inv Suc.prems j by blast
  moreover from this obtain st'' where "foldM (prefix_step s) [Suc j..<length s] st' = Some st''" "prefix_inv s (length s) st''"
  proof -
    have "d = length s - Suc j" using Suc.hyps(2) by simp
    from Suc.hyps(1) [OF this \<open>prefix_inv s (Suc j) st'\<close>] j that show thesis by auto
  qed
  ultimately show ?case using j by (simp add: upt_conv_Cons del: upt_Suc)
qed simp

text \<open>
  C38. The prefix function. \<^verbatim>\<open>checkPrefixSuffix\<close> returns, for every string, a table as long as the string
  whose entry \<open>j\<close> is the length of the longest proper prefix of \<open>str[0..j]\<close> that is also a suffix of it.
\<close>

theorem checkPrefixSuffix_correct:
  "\<exists>nxt. checkPrefixSuffix str = Some nxt \<and> length nxt = length str \<and>
     (\<forall>j < length str. nxt ! j \<le> j \<and> drop (Suc j - nxt ! j) (take (Suc j) str) = take (nxt ! j) str \<and>
        (\<forall>k \<le> j. drop (Suc j - k) (take (Suc j) str) = take k str \<longrightarrow> k \<le> nxt ! j))"
proof (cases "str = []")
  case True
  then show ?thesis by (simp add: checkPrefixSuffix_def)
next
  case False
  have "border str 1 k \<longleftrightarrow> k = 0" for k by (auto simp: border_def)
  then have "prefix_inv str 1 (0, replicate (length str) 0)" using False by (auto simp: prefix_inv_def longest_border_def)
  then obtain i nxt where "foldM (prefix_step str) [1..<length str] (0, replicate (length str) 0) = Some (i, nxt)"
    "prefix_inv str (length str) (i, nxt)"
    using prefix_loop [of str 1 "(0, replicate (length str) 0)"] False by (auto simp: Suc_le_eq)
  moreover from this have "longest_border str (Suc j) (nxt ! j)" if "j < length str" for j using that by (simp add: prefix_inv_def)
  ultimately show ?thesis
    by (auto simp: checkPrefixSuffix_def prefix_inv_def longest_border_def border_suffix less_Suc_eq_le)
qed

theorem checkPrefixSuffix_correct_witness:
  "\<exists>nxt. checkPrefixSuffix ''abab'' = Some nxt \<and> length nxt = 4 \<and> nxt ! 3 \<le> 3"
  using checkPrefixSuffix_correct [of "''abab''"] by force

section \<open>The class\<close>

text \<open>On \<open>aab\<close> the constructor does not return: the table is read at the wrong index, and \<open>nxt[1] = 1\<close>.\<close>

lemma kmp_fall_back_stuck:
  assumes "p ! i \<noteq> p ! j" "i > 0" "nxt ! i = i"
  shows "kmp_fall_back p nxt j i = None"
proof -
  have "\<not> (p ! i \<noteq> p ! j \<and> i > 0 \<and> nxt ! i = i)" if ret: "kmp_fall_back p nxt j i = Some r" for r
  proof (rule kmp_fall_back.raw_induct [where P = "\<lambda>p nxt j i r. \<not> (p ! i \<noteq> p ! j \<and> i > 0 \<and> nxt ! i = i)", OF _ ret])
    fix f :: "string \<Rightarrow> nat list \<Rightarrow> nat \<Rightarrow> nat \<Rightarrow> nat option" and p nxt j i r
    assume IH: "\<And>p nxt j i r. f p nxt j i = Some r \<Longrightarrow> \<not> (p ! i \<noteq> p ! j \<and> i > 0 \<and> nxt ! i = i)"
      and eq: "(if p ! i \<noteq> p ! j \<and> 0 < i then f p nxt j (nxt ! i) else Some i) = Some r"
    show "\<not> (p ! i \<noteq> p ! j \<and> i > 0 \<and> nxt ! i = i)"
    proof
      assume stuck: "p ! i \<noteq> p ! j \<and> i > 0 \<and> nxt ! i = i"
      then have "f p nxt j i = Some r" using eq by simp
      then show False using IH stuck by blast
    qed
  qed
  then show ?thesis using assms by (cases "kmp_fall_back p nxt j i") auto
qed

lemma initNext_hangs: "initNext ''aab'' = None"
proof -
  have "kmp_fall_back ''aab'' [0, 1, 0] 2 1 = None" by (rule kmp_fall_back_stuck) simp_all
  moreover have "kmp_fall_back ''aab'' [0, 0, 0] 1 0 = Some 0" by (subst kmp_fall_back.simps) simp
  ultimately show ?thesis by (simp add: initNext_def initNext_step_def upt_rec numeral_3_eq_3 numeral_2_eq_2)
qed

text \<open>The search misses an occurrence, since a character is not compared again after falling back, and reports a false one.\<close>

lemma kmp_find_misses: "initNext ''ab'' = Some [0, 0] \<and> kmp_find ''aab'' ''ab'' [0, 0] 0 = Some (- 1) \<and> take 2 (drop 1 ''aab'') = ''ab''"
proof -
  have "kmp_fall_back ''ab'' [0, 0] 1 0 = Some 0" by (subst kmp_fall_back.simps) simp
  then show ?thesis by (simp add: initNext_def initNext_step_def kmp_find_def upt_rec)
qed

lemma kmp_find_invents:
  "initNext ''abac'' = Some [0, 0, 1, 0] \<and> kmp_find ''abxbac'' ''abac'' [0, 0, 1, 0] 0 = Some 2 \<and> take 4 (drop 2 ''abxbac'') \<noteq> ''abac''"
proof -
  have "kmp_fall_back ''abac'' [0, 0, 0, 0] 1 0 = Some 0" "kmp_fall_back ''abac'' [0, 0, 0, 0] 2 0 = Some 0"
    "kmp_fall_back ''abac'' [0, 0, 1, 0] 3 0 = Some 0"
    by (subst kmp_fall_back.simps; simp)+
  moreover have "kmp_fall_back ''abac'' [0, 0, 1, 0] 3 1 = Some 0"
    using calculation(3) by (subst kmp_fall_back.simps) simp
  ultimately show ?thesis by (simp add: initNext_def initNext_step_def kmp_find_def upt_rec numeral_3_eq_3 numeral_2_eq_2)
qed

end
