(* ===== verification/Rss_Collector.thy ===== *)
theory Rss_Collector
  imports Time_Base "HOL-Library.Word" "HOL-Library.Monad_Syntax" "HOL-Library.Sublist"
begin

unbundle bit_operations_syntax

text \<open>
  The RSS collector \<^verbatim>\<open>rss_b/src/main.cpp\<close>: it reads the sources that are due from MySQL, fetches each feed over
  HTTP, turns the XML into entries, stores the new ones in MySQL and MongoDB and reschedules the source.
  The services it calls are parameters over a state of the world: the HTTP client, the XML parser, the
  databases, the clock and the calendar. The tree that the XML parser returns and the functions of
  pugixml that walk over it are modelled. A time point is its count of nanoseconds.
\<close>

section \<open>Variable-length integers\<close>

text \<open>The inner \<^verbatim>\<open>do while\<close> loop of \<^verbatim>\<open>mysqlx_raw_as_u64_vector\<close>, from its start on a byte.\<close>

fun decode_u64 :: "8 word list \<Rightarrow> 64 word \<Rightarrow> nat \<Rightarrow> 64 word \<times> 8 word list" where
  "decode_u64 [] v shift = (v, [])"
| "decode_u64 (byte # ptr) v shift =
     (let is_carry = (byte AND 0x80 = 0x80);
          v = v OR push_bit shift (ucast (byte AND 0x7F));
          shift = shift + 7
      in if is_carry \<and> ptr \<noteq> [] \<and> shift \<le> 63 then decode_u64 ptr v shift else (v, ptr))"

lemma decode_u64_shorter: "length (snd (decode_u64 bs v shift)) \<le> length bs - 1"
proof (induction bs v shift rule: decode_u64.induct)
  case (2 byte ptr v shift)
  show ?case
  proof (cases "byte AND 0x80 = 0x80 \<and> ptr \<noteq> [] \<and> shift + 7 \<le> 63")
    case True
    then show ?thesis using 2 [OF refl refl refl True] by (simp add: Let_def)
  next
    case False
    then show ?thesis by (auto simp: Let_def)
  qed
qed simp

function mysqlx_raw_as_u64_vector :: "8 word list \<Rightarrow> 64 word list" where
  "mysqlx_raw_as_u64_vector ptr =
     (if ptr = [] then [] else (let (v, ptr) = decode_u64 ptr 0 0 in v # mysqlx_raw_as_u64_vector ptr))"
  by pat_completeness auto
termination
proof (relation "measure length")
  fix ptr :: "8 word list" and p v rest
  assume "ptr \<noteq> []" "p = decode_u64 ptr 0 0" "(v, rest) = p"
  moreover from this have "rest = snd (decode_u64 ptr 0 0)" by (metis snd_conv)
  ultimately have "length rest \<le> length ptr - 1" "0 < length ptr" using decode_u64_shorter [of ptr 0 0] by simp_all
  then show "(rest, ptr) \<in> measure length" unfolding in_measure by linarith
qed simp

declare mysqlx_raw_as_u64_vector.simps [simp del]

text \<open>The encoding, as the X protocol has it: seven bits per byte, the lowest first.\<close>

fun varint :: "nat \<Rightarrow> 8 word list" where
  "varint n = (if n < 128 then [of_nat n] else of_nat (128 + n mod 128) # varint (n div 128))"

declare varint.simps [simp del]

lemma varint_nonempty [simp]: "varint n \<noteq> []"
  by (subst varint.simps) simp

lemma low_byte:
  "n < 128 \<Longrightarrow> (of_nat n :: 8 word) AND 0x80 \<noteq> 0x80 \<and> ucast ((of_nat n :: 8 word) AND 0x7F) = (of_nat n :: 64 word)"
proof -
  assume n: "n < 128"
  have "list_all (\<lambda>n. (of_nat n :: 8 word) AND 0x80 \<noteq> 0x80 \<and> ucast ((of_nat n :: 8 word) AND 0x7F) = (of_nat n :: 64 word)) [0..<128]"
    by code_simp
  then show ?thesis using n unfolding list_all_iff set_upt by (elim ballE [where x = n]) simp_all
qed

lemma high_byte:
  "n < 128 \<Longrightarrow> (of_nat (128 + n) :: 8 word) AND 0x80 = 0x80 \<and> ucast ((of_nat (128 + n) :: 8 word) AND 0x7F) = (of_nat n :: 64 word)"
proof -
  assume n: "n < 128"
  have "list_all (\<lambda>n. (of_nat (128 + n) :: 8 word) AND 0x80 = 0x80 \<and> ucast ((of_nat (128 + n) :: 8 word) AND 0x7F) = (of_nat n :: 64 word)) [0..<128]"
    by code_simp
  then show ?thesis using n unfolding list_all_iff set_upt by (elim ballE [where x = n]) simp_all
qed

lemma or_shifted:
  assumes a: "a < 2 ^ shift"
  shows "(of_nat a :: 64 word) OR push_bit shift (of_nat m) = of_nat (a + m * 2 ^ shift)"
proof -
  have "\<not> bit a n" if "shift \<le> n" for n
    using a that by (metis bit_take_bit_iff leD take_bit_nat_eq_self)
  then have "(of_nat a :: 64 word) AND push_bit shift (of_nat m) = 0"
    by (auto simp: bit_eq_iff bit_simps)
  then have "(of_nat a :: 64 word) OR push_bit shift (of_nat m) = of_nat a + push_bit shift (of_nat m)"
    by (simp add: disjunctive_add_eq_or)
  then show ?thesis by (simp add: push_bit_eq_mult)
qed

lemma decode_varint:
  assumes "n * 2 ^ shift < 2 ^ 64" "a < 2 ^ shift"
  shows "decode_u64 (varint n @ rest) (of_nat a) shift = (of_nat (a + n * 2 ^ shift), rest)"
  using assms
proof (induction n arbitrary: a shift rule: varint.induct)
  case (1 n)
  show ?case
  proof (cases "n < 128")
    case True
    then show ?thesis using low_byte [OF True] or_shifted [OF 1(3), of n] by (subst varint.simps) (simp add: Let_def)
  next
    case False
    define m where "m = n mod 128"
    define q where "q = n div 128"
    have n: "n = 128 * q + m" by (simp add: m_def q_def)
    have m: "m < 128" by (simp add: m_def)
    have "2 ^ (shift + 7) \<le> n * 2 ^ shift" using False by (simp add: power_add)
    then have "(2::nat) ^ (shift + 7) < 2 ^ 64" using 1(2) by linarith
    then have shift: "shift + 7 \<le> 63" using power_less_imp_less_exp [of "2::nat" "shift + 7" 64] by simp
    have a: "a + m * 2 ^ shift < 2 ^ (shift + 7)"
    proof -
      have "a + m * 2 ^ shift < (m + 1) * 2 ^ shift" using 1(3) by simp
      also have "\<dots> \<le> 128 * 2 ^ shift" using m by (intro mult_right_mono) auto
      finally show ?thesis by (simp add: power_add mult.commute)
    qed
    have q: "q * 2 ^ (shift + 7) < 2 ^ 64"
    proof -
      have "q * 2 ^ (shift + 7) = 128 * q * 2 ^ shift" by (simp add: power_add)
      also have "\<dots> \<le> n * 2 ^ shift" unfolding n by (intro mult_right_mono) auto
      finally show ?thesis using 1(2) by linarith
    qed
    have "decode_u64 (varint n @ rest) (of_nat a) shift = decode_u64 (varint q @ rest) (of_nat (a + m * 2 ^ shift)) (shift + 7)"
      using False high_byte [OF m] or_shifted [OF 1(3), of m] shift
      by (subst varint.simps) (simp add: Let_def m_def [symmetric] q_def [symmetric])
    also have "\<dots> = (of_nat (a + m * 2 ^ shift + q * 2 ^ (shift + 7)), rest)"
      using 1(1) [OF False, folded q_def] q a by blast
    also have "a + m * 2 ^ shift + q * 2 ^ (shift + 7) = a + n * 2 ^ shift" unfolding n by (simp add: power_add algebra_simps)
    finally show ?thesis .
  qed
qed

lemma varint_decode:
  "\<forall>n \<in> set ns. n < 2 ^ 64 \<Longrightarrow> mysqlx_raw_as_u64_vector (concat (map varint ns)) = map of_nat ns"
proof (induction ns)
  case Nil
  then show ?case by (simp add: mysqlx_raw_as_u64_vector.simps)
next
  case (Cons n ns)
  then have "decode_u64 (varint n @ concat (map varint ns)) (of_nat 0) 0 = (of_nat (0 + n * 2 ^ 0), concat (map varint ns))"
    by (intro decode_varint) simp_all
  then show ?case using Cons by (subst mysqlx_raw_as_u64_vector.simps) (simp add: Let_def)
qed

text \<open>
  C21. Decoding. A sequence of 64-bit numbers in the variable-length encoding of the protocol, one after
  the other, is read back exactly.
\<close>

theorem varint_roundtrip:
  "\<forall>n \<in> set ns. n < 2 ^ 64 \<Longrightarrow> mysqlx_raw_as_u64_vector (concat (map varint ns)) = map of_nat ns"
  by (rule varint_decode)

theorem varint_roundtrip_witness:
  "mysqlx_raw_as_u64_vector (concat (map varint [2025, 2, 300])) = [2025, 2, 300]"
  using varint_roundtrip [of "[2025, 2, 300]"] by simp
section \<open>The XML tree\<close>

text \<open>
  A tree as the parser builds it with its default options: elements, texts and CDATA sections under a
  document. A handle \<^verbatim>\<open>xml_node\<close> is a node with the siblings that follow it; the null handle is the
  empty list. Only elements have a name and attributes, only texts have a value.
\<close>

datatype xml_node_struct =
    node_document "xml_node_struct list"
  | node_element string "(string \<times> string) list" "xml_node_struct list"
  | node_pcdata string
  | node_cdata string

type_synonym xml_node = "xml_node_struct list"

fun node_name :: "xml_node_struct \<Rightarrow> string option" where
  "node_name (node_element name _ _) = Some name"
| "node_name _ = None"

fun node_children :: "xml_node_struct \<Rightarrow> xml_node" where
  "node_children (node_document cs) = cs"
| "node_children (node_element _ _ cs) = cs"
| "node_children _ = []"

fun node_attributes :: "xml_node_struct \<Rightarrow> (string \<times> string) list" where
  "node_attributes (node_element _ as _) = as"
| "node_attributes _ = []"

fun node_text :: "xml_node_struct \<Rightarrow> string option" where
  "node_text (node_pcdata s) = Some s"
| "node_text (node_cdata s) = Some s"
| "node_text _ = None"

fun xml_child :: "xml_node \<Rightarrow> string \<Rightarrow> xml_node" where
  "xml_child [] name = []"
| "xml_child (n # _) name = dropWhile (\<lambda>i. node_name i \<noteq> Some name) (node_children n)"

fun next_sibling :: "xml_node \<Rightarrow> string \<Rightarrow> xml_node" where
  "next_sibling [] name = []"
| "next_sibling (n # ns) name = dropWhile (\<lambda>i. node_name i \<noteq> Some name) ns"

text \<open>\<^verbatim>\<open>attribute(name).value()\<close>: the empty text for a null attribute.\<close>

fun attribute_value :: "xml_node \<Rightarrow> string \<Rightarrow> string" where
  "attribute_value [] name = []"
| "attribute_value (n # _) name =
     (case find (\<lambda>a. fst a = name) (node_attributes n) of None \<Rightarrow> [] | Some a \<Rightarrow> snd a)"

fun child_value :: "xml_node \<Rightarrow> string" where
  "child_value [] = []"
| "child_value (n # _) =
     (case List.map_filter node_text (node_children n) of [] \<Rightarrow> [] | v # _ \<Rightarrow> v)"

section \<open>Entries\<close>

record RssEntry =
  e_title :: string
  e_link :: string
  e_description :: string
  e_pubdate :: string

definition get_title :: "RssEntry \<Rightarrow> string" where
  "get_title e = (if e_title e = [] then ''no title'' else e_title e)"

text \<open>The loop \<^verbatim>\<open>for (node = first; node; node = node.next_sibling(name))\<close>.\<close>

function sibling_loop :: "(xml_node \<Rightarrow> 'a) \<Rightarrow> string \<Rightarrow> xml_node \<Rightarrow> 'a list" where
  "sibling_loop body name node =
     (if node = [] then [] else body node # sibling_loop body name (next_sibling node name))"
  by pat_completeness auto
termination
proof (relation "measure (\<lambda>(_, _, node). length node)")
  fix body :: "xml_node \<Rightarrow> 'a" and name and node :: xml_node
  assume "node \<noteq> []"
  then show "((body, name, next_sibling node name), (body, name, node)) \<in> measure (\<lambda>(_, _, node). length node)"
    by (cases node) (simp_all add: le_imp_less_Suc length_dropWhile_le)
qed simp

declare sibling_loop.simps [simp del]

text \<open>\<^verbatim>\<open>print\<close> into an empty stream: the null node prints nothing.\<close>

fun node_print :: "(xml_node_struct \<Rightarrow> string) \<Rightarrow> xml_node \<Rightarrow> string" where
  "node_print print [] = []"
| "node_print print (n # _) = print n"

definition feed_entry :: "(xml_node_struct \<Rightarrow> string) \<Rightarrow> xml_node \<Rightarrow> RssEntry" where
  "feed_entry print node =
     \<lparr>e_title = child_value (xml_child node ''title''), e_link = attribute_value (xml_child node ''link'') ''href'',
      e_description = node_print print (xml_child node ''content''), e_pubdate = child_value (xml_child node ''published'')\<rparr>"

definition item_entry :: "xml_node \<Rightarrow> RssEntry" where
  "item_entry node =
     \<lparr>e_title = child_value (xml_child node ''title''), e_link = child_value (xml_child node ''link''),
      e_description = child_value (xml_child node ''description''), e_pubdate = child_value (xml_child node ''pubDate'')\<rparr>"

definition convert :: "(string \<Rightarrow> xml_node_struct list option) \<Rightarrow> (xml_node_struct \<Rightarrow> string) \<Rightarrow> string \<Rightarrow> RssEntry list" where
  "convert load print xmlstr =
     (case load xmlstr of
        None \<Rightarrow> []
      | Some roots \<Rightarrow>
          let doc = [node_document roots] in
          if xml_child doc ''feed'' \<noteq> [] then
            sibling_loop (feed_entry print) ''entry'' (xml_child (xml_child doc ''feed'') ''entry'')
          else sibling_loop item_entry ''item'' (xml_child (xml_child (xml_child doc ''rss'') ''channel'') ''item''))"

text \<open>What the conversion means, without handles: the first element of a name, and all of them.\<close>

definition named :: "string \<Rightarrow> xml_node_struct \<Rightarrow> bool" where
  "named name n \<longleftrightarrow> node_name n = Some name"

definition elements :: "string \<Rightarrow> xml_node_struct \<Rightarrow> xml_node_struct list" where
  "elements name n = filter (named name) (node_children n)"

definition text_of :: "string \<Rightarrow> xml_node_struct \<Rightarrow> string" where
  "text_of name n =
     (case elements name n of [] \<Rightarrow> [] | c # _ \<Rightarrow> concat (take 1 (List.map_filter node_text (node_children c))))"

definition spec_item :: "xml_node_struct \<Rightarrow> RssEntry" where
  "spec_item n = \<lparr>e_title = text_of ''title'' n, e_link = text_of ''link'' n,
     e_description = text_of ''description'' n, e_pubdate = text_of ''pubDate'' n\<rparr>"

definition spec_entry :: "(xml_node_struct \<Rightarrow> string) \<Rightarrow> xml_node_struct \<Rightarrow> RssEntry" where
  "spec_entry print n = \<lparr>e_title = text_of ''title'' n,
     e_link = concat (take 1 (map (\<lambda>c. concat (take 1 (map snd (filter (\<lambda>a. fst a = ''href'') (node_attributes c))))) (elements ''link'' n))),
     e_description = concat (take 1 (map print (elements ''content'' n))), e_pubdate = text_of ''published'' n\<rparr>"

definition spec_convert :: "xml_node_struct list option \<Rightarrow> (xml_node_struct \<Rightarrow> string) \<Rightarrow> RssEntry list" where
  "spec_convert doc print =
     (case doc of None \<Rightarrow> []
      | Some roots \<Rightarrow>
          (case filter (named ''feed'') roots of
             feed # _ \<Rightarrow> map (spec_entry print) (elements ''entry'' feed)
           | [] \<Rightarrow> map spec_item (concat (take 1 (map (elements ''item'')
                     (concat (take 1 (map (elements ''channel'') (filter (named ''rss'') roots)))))))))"

lemma dropWhile_filter:
  "dropWhile (\<lambda>x. \<not> P x) xs = [] \<longleftrightarrow> filter P xs = []"
  "filter P xs = x # ys \<Longrightarrow> \<exists>zs. dropWhile (\<lambda>x. \<not> P x) xs = x # zs \<and> filter P zs = ys"
  by (induction xs) (auto split: if_splits simp: filter_empty_conv)

lemma xml_child_eq:
  "xml_child (n # ns) name = dropWhile (\<lambda>x. \<not> named name x) (node_children n)"
  by (simp add: named_def)

lemma xml_child_cases:
  obtains "elements name n = []" "xml_child (n # ns) name = []"
  | c cs zs where "elements name n = c # cs" "xml_child (n # ns) name = c # zs"
  using dropWhile_filter [of "named name" "node_children n"] unfolding xml_child_eq elements_def
  by (cases "filter (named name) (node_children n)") blast+

lemma child_value_text_of: "child_value (xml_child (n # ns) name) = text_of name n"
  by (rule xml_child_cases [of name n ns]) (auto simp: text_of_def simp del: xml_child.simps split: list.splits)

lemma item_entry_eq: "item_entry (n # ns) = spec_item n"
  by (simp add: item_entry_def spec_item_def child_value_text_of del: xml_child.simps)

lemma sibling_loop_filter:
  assumes "\<And>n ns. body (n # ns) = f n"
  shows "sibling_loop body name (dropWhile (\<lambda>x. \<not> named name x) ns) = map f (filter (named name) ns)"
proof (induction ns)
  case Nil
  then show ?case by (simp add: sibling_loop.simps)
next
  case (Cons n ns)
  then show ?case using assms
    by (cases "named name n") (auto simp: sibling_loop.simps [where node = "n # ns"] named_def)
qed

lemma sibling_loop_elements:
  "(\<And>n ns. body (n # ns) = f n) \<Longrightarrow> sibling_loop body name (xml_child (n # ns) name) = map f (elements name n)"
  unfolding xml_child_eq elements_def by (rule sibling_loop_filter)

lemma find_filter: "find P xs = (case filter P xs of [] \<Rightarrow> None | x # _ \<Rightarrow> Some x)"
  by (induction xs) auto

lemma feed_entry_eq: "feed_entry print (n # ns) = spec_entry print n"
proof -
  have "attribute_value (xml_child (n # ns) ''link'') ''href'' = e_link (spec_entry print n)"
    by (rule xml_child_cases [of "''link''" n ns]) (auto simp: spec_entry_def find_filter simp del: xml_child.simps split: list.splits)
  moreover have "node_print print (xml_child (n # ns) ''content'') = e_description (spec_entry print n)"
    by (rule xml_child_cases [of "''content''" n ns]) (auto simp: spec_entry_def simp del: xml_child.simps)
  ultimately show ?thesis by (simp add: feed_entry_def spec_entry_def child_value_text_of del: xml_child.simps)
qed

lemma elements_document: "elements name (node_document roots) = filter (named name) roots"
  by (simp add: elements_def)

lemma sibling_loop_Nil: "sibling_loop body name (xml_child [] name') = []"
  by (simp add: sibling_loop.simps)

text \<open>
  C20. Conversion. The entries of a document are exactly its \<open>entry\<close> elements under the first \<open>feed\<close>,
  or without a feed the \<open>item\<close> elements of the first channel of the first \<open>rss\<close>, in document order,
  each with the first text of the first element of each name; a document that does not parse has none.
\<close>

theorem convert_entries: "convert load print xmlstr = spec_convert (load xmlstr) print"
proof (cases "load xmlstr")
  case None
  then show ?thesis by (simp add: convert_def spec_convert_def)
next
  case (Some roots)
  let ?d = "node_document roots"
  show ?thesis
  proof (rule xml_child_cases [of "''feed''" ?d "[]"])
    fix c cs zs assume "elements ''feed'' ?d = c # cs" "xml_child [?d] ''feed'' = c # zs"
    then show ?thesis using Some
      by (simp add: convert_def spec_convert_def elements_document sibling_loop_elements [where f = "spec_entry print", OF feed_entry_eq] del: xml_child.simps)
  next
    assume feed: "elements ''feed'' ?d = []" "xml_child [?d] ''feed'' = []"
    show ?thesis
    proof (rule xml_child_cases [of "''rss''" ?d "[]"])
      assume "elements ''rss'' ?d = []" "xml_child [?d] ''rss'' = []"
      then show ?thesis using Some feed
        by (simp add: convert_def spec_convert_def elements_document sibling_loop.simps del: xml_child.simps(2))
    next
      fix r rs zs assume r: "elements ''rss'' ?d = r # rs" "xml_child [?d] ''rss'' = r # zs"
      show ?thesis using Some feed r
        by (rule_tac xml_child_cases [of "''channel''" r zs])
          (simp_all add: convert_def spec_convert_def elements_document sibling_loop.simps [where node = "[]"]
             sibling_loop_elements [where f = spec_item, OF item_entry_eq] del: xml_child.simps(2))
    qed
  qed
qed

section \<open>Time\<close>

type_synonym time_point = int

definition seconds :: "int \<Rightarrow> int" where "seconds n = n * 1000000000"
definition hours :: "int \<Rightarrow> int" where "hours n = seconds (n * 3600)"

text \<open>\<^verbatim>\<open>std::chrono::round<hours>\<close>: the nearest whole hour, an even one in the middle.\<close>

definition round_hours :: "time_point \<Rightarrow> time_point" where
  "round_hours t =
     (let t0 = t div hours 1; t1 = t0 + 1; diff0 = t - hours t0; diff1 = hours t1 - t in
      if diff0 = diff1 then (if odd t0 then hours t1 else hours t0)
      else if diff0 < diff1 then hours t0 else hours t1)"

lemma hours_linear: "hours n = n * hours 1"
  by (simp add: hours_def seconds_def)

lemma round_hours_near: "2 * \<bar>round_hours t - t\<bar> \<le> hours 1"
proof -
  define q r where "q = t div hours 1" and "r = t mod hours 1"
  have h: "0 < hours 1" by (simp add: hours_def seconds_def)
  have t: "t = q * hours 1 + r" by (simp add: q_def r_def)
  have r: "0 \<le> r" "r < hours 1" using h by (simp_all add: r_def)
  have eqs: "t - hours q = r" "hours (q + 1) - t = hours 1 - r"
    unfolding t hours_linear [of q] hours_linear [of "q + 1"] by (simp_all add: algebra_simps)
  have "round_hours t = hours q \<and> 2 * r \<le> hours 1 \<or> round_hours t = hours (q + 1) \<and> hours 1 \<le> 2 * r"
    unfolding round_hours_def Let_def q_def [symmetric] eqs by auto
  then show ?thesis using eqs r by (auto simp: abs_if)
qed

lemma round_hours_whole: "round_hours t mod hours 1 = 0"
  unfolding round_hours_def Let_def
  by (simp only: hours_linear [of "t div hours 1"] hours_linear [of "t div hours 1 + 1"] split: if_splits) simp

section \<open>Sources, items and statements\<close>

record RssSource =
  rs_id :: int
  rs_name :: string
  rs_path :: string
  rs_status :: int
  rs_last :: time_point
  rs_next :: time_point
  rs_gap :: int

record RssItem =
  i_sourceid :: int
  i_title :: string
  i_link :: string
  i_pubdate :: string

record RssMongo =
  m_itemid :: int
  m_title :: string
  m_link :: string
  m_description :: string

datatype sql_stmt =
    Select_due string
  | Select_links int int
  | Insert_item RssItem
  | Select_max_id string
  | Update_source RssSource string string

text \<open>A text between single quotes.\<close>

definition quoted :: "string \<Rightarrow> string" where "quoted s = [CHR 0x27] @ s @ [CHR 0x27]"

fun sql_text :: "sql_stmt \<Rightarrow> string" where
  "sql_text (Select_due tp_s) = ''select * from rss.rss_source where active=1 and next_execute<='' @ quoted tp_s"
| "sql_text (Select_links sourceid count) =
     ''select link from rss.rss_item where sourceid='' @ fmt_d sourceid @ '' order by id desc limit '' @ fmt_d count"
| "sql_text (Insert_item i) =
     ''insert into rss.rss_item (sourceid,title,link,pubdate) values ('' @ fmt_d (i_sourceid i) @ '','' @
     quoted (i_title i) @ '','' @ quoted (i_link i) @ '','' @ quoted (i_pubdate i) @ '');''"
| "sql_text (Select_max_id link) = ''select max(id) from rss.rss_item where link='' @ quoted link"
| "sql_text (Update_source rss last_exe_s next_exe_s) =
     ''update rss.rss_source'' @ '' set status='' @ fmt_d (rs_status rss) @ '',gap='' @ fmt_d (rs_gap rss) @
     '',last_execute='' @ quoted last_exe_s @ '',next_execute='' @ quoted next_exe_s @ '' where id='' @ fmt_d (rs_id rss)"

section \<open>Services\<close>

text \<open>
  What the program calls, over a state \<open>'w\<close> of the outside world: the clock, the calendar (\<^verbatim>\<open>mktime\<close>
  also reads and writes the daylight flag of the global \<^verbatim>\<open>tm2\<close>), the HTTP client (status and body of an
  answer), the XML parser and printer, MySQL (\<open>None\<close> is a thrown \<^verbatim>\<open>mysqlx::Error\<close>; rows are lists of
  values of type \<open>'v\<close> with their conversions) and MongoDB (false for a thrown exception and for a missing
  result, which fails the assertion). \<open>svc_overfull\<close> is what the buffer holds when a text does not fit.
\<close>

record ('w, 'v) services =
  svc_now :: "'w \<Rightarrow> time_point \<times> 'w"
  svc_localtime :: "int \<Rightarrow> tm"
  svc_overfull :: "string \<Rightarrow> string"
  svc_mktime :: "tm \<Rightarrow> 'w \<Rightarrow> int \<times> 'w"
  svc_sleep :: "int \<Rightarrow> 'w \<Rightarrow> 'w"
  svc_get :: "string \<Rightarrow> string \<Rightarrow> 'w \<Rightarrow> (int \<times> string) option \<times> 'w"
  svc_load :: "string \<Rightarrow> xml_node_struct list option"
  svc_print :: "xml_node_struct \<Rightarrow> string"
  svc_session :: "'w \<Rightarrow> bool \<times> 'w"
  svc_sql :: "string \<Rightarrow> 'w \<Rightarrow> 'v list list option \<times> 'w"
  svc_get_int :: "'v \<Rightarrow> int option"
  svc_get_string :: "'v \<Rightarrow> string option"
  svc_getRawBytes :: "'v \<Rightarrow> 8 word list"
  svc_mongo :: "RssMongo \<Rightarrow> 'w \<Rightarrow> bool \<times> 'w"

text \<open>
  The state of the program: the world, the calls it has made so far, and (a ghost field) the items
  MySQL has accepted with the ids it gave them, as \<^verbatim>\<open>insert_2_db\<close> returned them.
\<close>

datatype rss_call = Http_get string string | Sql sql_stmt | Mongo RssMongo | Sleep_for int

record 'w rss_state =
  rs_world :: 'w
  rs_trace :: "rss_call list"
  rs_accepted :: "(RssItem \<times> int) list"

definition call_now :: "('w, 'v) services \<Rightarrow> 'w rss_state \<Rightarrow> time_point \<times> 'w rss_state" where
  "call_now S st = (let (t, w) = svc_now S (rs_world st) in (t, st\<lparr>rs_world := w\<rparr>))"

definition new_session :: "('w, 'v) services \<Rightarrow> 'w rss_state \<Rightarrow> bool \<times> 'w rss_state" where
  "new_session S st = (let (ok, w) = svc_session S (rs_world st) in (ok, st\<lparr>rs_world := w\<rparr>))"

definition execute_sql :: "('w, 'v) services \<Rightarrow> sql_stmt \<Rightarrow> 'w rss_state \<Rightarrow> 'v list list option \<times> 'w rss_state" where
  "execute_sql S stmt st =
     (let (r, w) = svc_sql S (sql_text stmt) (rs_world st) in
      (r, st\<lparr>rs_world := w, rs_trace := rs_trace st @ [Sql stmt]\<rparr>))"

text \<open>A new session and one statement; \<open>None\<close> when either throws.\<close>

definition query :: "('w, 'v) services \<Rightarrow> sql_stmt \<Rightarrow> 'w rss_state \<Rightarrow> 'v list list option \<times> 'w rss_state" where
  "query S stmt st = (let (ok, st) = new_session S st in if ok then execute_sql S stmt st else (None, st))"

definition row_int :: "('w, 'v) services \<Rightarrow> 'v list \<Rightarrow> nat \<Rightarrow> int option" where
  "row_int S r i = (if i < length r then svc_get_int S (r ! i) else None)"

definition row_string :: "('w, 'v) services \<Rightarrow> 'v list \<Rightarrow> nat \<Rightarrow> string option" where
  "row_string S r i = (if i < length r then svc_get_string S (r ! i) else None)"

section \<open>Operations\<close>

definition getRSS :: "('w, 'v) services \<Rightarrow> string \<Rightarrow> string \<Rightarrow> 'w rss_state \<Rightarrow> string option \<times> 'w rss_state" where
  "getRSS S server url_path st =
     (let (res, w) = svc_get S server url_path (rs_world st);
          st = st\<lparr>rs_world := w, rs_trace := rs_trace st @ [Http_get server url_path]\<rparr>
      in case res of Some (status, body) \<Rightarrow> (if status = 200 then Some body else None, st) | None \<Rightarrow> (None, st))"

definition sleep_to_next_hour :: "('w, 'v) services \<Rightarrow> 'w rss_state \<Rightarrow> 'w rss_state" where
  "sleep_to_next_hour S st =
     (let (now2, st) = call_now S st;
          next = round_hours (now2 + hours 1) + seconds 5;
          snds = c_div (next - now2) (seconds 1)
      in st\<lparr>rs_world := svc_sleep S snds (rs_world st), rs_trace := rs_trace st @ [Sleep_for snds]\<rparr>)"

definition format_datetime :: "tm \<Rightarrow> string" where
  "format_datetime t =
     fmt_d (tm_year t + 1900) @ ''-'' @ pad2 (tm_mon t + 1) @ ''-'' @ pad2 (tm_mday t) @ '' '' @
     pad2 (tm_hour t) @ '':'' @ pad2 (tm_min t) @ '':'' @ pad2 (tm_sec t)"

definition time_point_2_string :: "('w, 'v) services \<Rightarrow> time_point \<Rightarrow> string" where
  "time_point_2_string S tp =
     (let s = format_datetime (svc_localtime S (c_div tp (seconds 1)))
      in if length s < 20 then s else svc_overfull S s)"

text \<open>Fewer than six numbers are read out of bounds: undefined.\<close>

definition word_int :: "64 word \<Rightarrow> int" where "word_int v = sint (ucast v :: 32 word)"

definition mysqlx_column_2_time_point :: "('w, 'v) services \<Rightarrow> 'v \<Rightarrow> 'w rss_state \<Rightarrow> (time_point \<times> 'w rss_state) option" where
  "mysqlx_column_2_time_point S value st =
     (let vu64 = mysqlx_raw_as_u64_vector (svc_getRawBytes S value) in
      if length vu64 < 6 then None
      else let t = \<lparr>tm_year = word_int (vu64 ! 0 - 1900), tm_mon = word_int (vu64 ! 1 - 1), tm_mday = word_int (vu64 ! 2),
                    tm_hour = word_int (vu64 ! 3), tm_min = word_int (vu64 ! 4), tm_sec = word_int (vu64 ! 5)\<rparr>;
               (tt, w) = svc_mktime S t (rs_world st)
           in Some (seconds tt, st\<lparr>rs_world := w\<rparr>))"

definition MAX_GAP :: int where "MAX_GAP = 7 * 24"

text \<open>The first half of \<^verbatim>\<open>update_2_db\<close>: status and gap.\<close>

definition reschedule :: "bool \<Rightarrow> bool \<Rightarrow> RssSource \<Rightarrow> RssSource" where
  "reschedule success new_data rss =
     (let status =
        (if success then (if new_data then int32 (max 0 (rs_status rss) + 1) else 0)
         else if rs_status rss \<ge> 0 then -1 else int32 (rs_status rss - 1))
      in if status < -3 then rss\<lparr>rs_gap := min (int32 (rs_gap rss * 2)) MAX_GAP, rs_status := 0\<rparr>
         else if status > 3 then rss\<lparr>rs_gap := max 1 (rs_gap rss div 2), rs_status := 0\<rparr>
         else rss\<lparr>rs_status := status\<rparr>)"

definition update_2_db ::
    "('w, 'v) services \<Rightarrow> bool \<Rightarrow> bool \<Rightarrow> RssSource \<Rightarrow> 'w rss_state \<Rightarrow> (RssSource \<times> 'w rss_state) option" where
  "update_2_db S success new_data rss st =
     (let rss = reschedule success new_data rss;
          (now, st) = call_now S st;
          rss = rss\<lparr>rs_last := now, rs_next := now + hours (rs_gap rss)\<rparr>;
          rss = rss\<lparr>rs_next := round_hours (rs_next rss)\<rparr>;
          last_exe_s = time_point_2_string S (rs_last rss);
          next_exe_s = time_point_2_string S (rs_next rss)
      in case query S (Update_source rss last_exe_s next_exe_s) st of
           (None, _) \<Rightarrow> None
         | (Some _, st) \<Rightarrow> Some (rss, st))"

fun fetch_sources :: "('w, 'v) services \<Rightarrow> 'v list list \<Rightarrow> 'w rss_state \<Rightarrow> (RssSource list \<times> 'w rss_state) option" where
  "fetch_sources S [] st = Some ([], st)"
| "fetch_sources S (r # rows) st =
     do { rsid \<leftarrow> row_int S r 0;
          rsname \<leftarrow> row_string S r 1;
          rspath \<leftarrow> row_string S r 2;
          rsstatus \<leftarrow> row_int S r 3;
          (rslast, st) \<leftarrow> (if 4 < length r then mysqlx_column_2_time_point S (r ! 4) st else None);
          (rsnext, st) \<leftarrow> (if 5 < length r then mysqlx_column_2_time_point S (r ! 5) st else None);
          rsgap \<leftarrow> row_int S r 6;
          (vrs, st) \<leftarrow> fetch_sources S rows st;
          Some (\<lparr>rs_id = rsid, rs_name = rsname, rs_path = rspath, rs_status = rsstatus, rs_last = rslast,
                 rs_next = rsnext, rs_gap = rsgap\<rparr> # vrs, st) }"

definition getRssSources :: "('w, 'v) services \<Rightarrow> 'w rss_state \<Rightarrow> (RssSource list \<times> 'w rss_state) option" where
  "getRssSources S st =
     (let (tp, st) = call_now S st in
      case query S (Select_due (time_point_2_string S tp)) st of
        (None, _) \<Rightarrow> None
      | (Some rows, st) \<Rightarrow> fetch_sources S rows st)"

fun fetch_links :: "('w, 'v) services \<Rightarrow> 'v list list \<Rightarrow> string set \<Rightarrow> string set option" where
  "fetch_links S [] set2 = Some set2"
| "fetch_links S (r # rows) set2 =
     (case row_string S r 0 of None \<Rightarrow> None | Some link \<Rightarrow> fetch_links S rows (insert link set2))"

definition get_latest_links ::
    "('w, 'v) services \<Rightarrow> int \<Rightarrow> int \<Rightarrow> 'w rss_state \<Rightarrow> (string set \<times> 'w rss_state) option" where
  "get_latest_links S sourceid count st =
     (case query S (Select_links sourceid count) st of
        (None, _) \<Rightarrow> None
      | (Some rows, st) \<Rightarrow> map_option (\<lambda>set2. (set2, st)) (fetch_links S rows {}))"

fun fetch_id :: "('w, 'v) services \<Rightarrow> 'v list list \<Rightarrow> int \<Rightarrow> int option" where
  "fetch_id S [] dbid = Some dbid"
| "fetch_id S (r # rows) dbid = (case row_int S r 0 of None \<Rightarrow> None | Some i \<Rightarrow> fetch_id S rows i)"

definition insert_2_db :: "('w, 'v) services \<Rightarrow> RssItem \<Rightarrow> 'w rss_state \<Rightarrow> int option \<times> 'w rss_state" where
  "insert_2_db S item st =
     (case query S (Insert_item item) st of
        (None, st) \<Rightarrow> (None, st)
      | (Some _, st) \<Rightarrow>
          (case execute_sql S (Select_max_id (i_link item)) st of
             (None, st) \<Rightarrow> (None, st)
           | (Some rows, st) \<Rightarrow>
               (case fetch_id S rows (-1) of
                  None \<Rightarrow> (None, st)
                | Some dbid \<Rightarrow> (Some dbid, st\<lparr>rs_accepted := rs_accepted st @ [(item, dbid)]\<rparr>))))"

definition insert_2_mongo :: "('w, 'v) services \<Rightarrow> RssMongo \<Rightarrow> 'w rss_state \<Rightarrow> 'w rss_state option" where
  "insert_2_mongo S m st =
     (let (ok, w) = svc_mongo S m (rs_world st)
      in if ok then Some (st\<lparr>rs_world := w, rs_trace := rs_trace st @ [Mongo m]\<rparr>) else None)"

text \<open>
  The body of the loop over the entries, from the last to the first: an entry whose link is known is
  skipped, and one that MySQL refuses is reported and left out. An exception of MongoDB ends the program.
\<close>

definition RssItem_of :: "int \<Rightarrow> RssEntry \<Rightarrow> RssItem" where
  "RssItem_of sourceid e = \<lparr>i_sourceid = sourceid, i_title = get_title e, i_link = e_link e, i_pubdate = e_pubdate e\<rparr>"

definition RssMongo_of :: "int \<Rightarrow> RssEntry \<Rightarrow> RssMongo" where
  "RssMongo_of itemid e = \<lparr>m_itemid = itemid, m_title = get_title e, m_link = e_link e, m_description = e_description e\<rparr>"

definition store_entry ::
    "('w, 'v) services \<Rightarrow> int \<Rightarrow> string set \<Rightarrow> RssEntry \<Rightarrow> bool \<times> 'w rss_state \<Rightarrow> (bool \<times> 'w rss_state) option" where
  "store_entry S sourceid latest e = (\<lambda>(hasNew, st).
     if e_link e \<in> latest then Some (hasNew, st)
     else case insert_2_db S (RssItem_of sourceid e) st of
            (None, st) \<Rightarrow> Some (hasNew, st)
          | (Some itemid, st) \<Rightarrow>
              map_option (\<lambda>st. (True, st)) (insert_2_mongo S (RssMongo_of itemid e) st))"

definition process_source :: "('w, 'v) services \<Rightarrow> RssSource \<Rightarrow> 'w rss_state \<Rightarrow> 'w rss_state option" where
  "process_source S rss st =
     (case getRSS S (rs_name rss) (rs_path rss) st of
        (None, st) \<Rightarrow> map_option snd (update_2_db S False False rss st)
      | (Some rssXml, st) \<Rightarrow>
          let vre = convert (svc_load S) (svc_print S) rssXml in
          do { (latest, st) \<leftarrow> get_latest_links S (rs_id rss) (int_of_size (length vre)) st;
               (hasNew, st) \<leftarrow> foldM (store_entry S (rs_id rss) latest) (rev vre) (False, st);
               (_, st) \<leftarrow> update_2_db S True hasNew rss st;
               Some st })"

text \<open>One round of the loop of \<^verbatim>\<open>main\<close>, and the state after some rounds; the loop itself never ends.\<close>

definition main_round :: "('w, 'v) services \<Rightarrow> 'w rss_state \<Rightarrow> 'w rss_state option" where
  "main_round S st =
     do { (vrs, st) \<leftarrow> getRssSources S st;
          st \<leftarrow> foldM (process_source S) vrs st;
          Some (sleep_to_next_hour S st) }"

fun main_rounds :: "('w, 'v) services \<Rightarrow> nat \<Rightarrow> 'w rss_state \<Rightarrow> 'w rss_state option" where
  "main_rounds S 0 st = Some st"
| "main_rounds S (Suc n) st = do { st \<leftarrow> main_round S st; main_rounds S n st }"

section \<open>Scheduling\<close>

definition schedule_ok :: "RssSource \<Rightarrow> bool" where
  "schedule_ok rss \<longleftrightarrow> -3 \<le> rs_status rss \<and> rs_status rss \<le> 3 \<and> 1 \<le> rs_gap rss \<and> rs_gap rss \<le> MAX_GAP"

lemma reschedule_ok: "schedule_ok rss \<Longrightarrow> schedule_ok (reschedule success new_data rss)"
  by (auto simp: schedule_ok_def reschedule_def Let_def MAX_GAP_def)

lemma hours_pos: "0 < hours 1"
  by (simp add: hours_def seconds_def)

lemma round_hours_after: "hours 1 \<le> g \<Longrightarrow> t < round_hours (t + g)"
proof -
  have "t < r" if "2 * \<bar>r - (t + g)\<bar> \<le> h" "h \<le> g" "0 < h" for r h :: int
    using that by arith
  then show "hours 1 \<le> g \<Longrightarrow> t < round_hours (t + g)" using round_hours_near hours_pos by blast
qed

lemma query_trace: "query S stmt st = (Some rows, st') \<Longrightarrow> rs_trace st' = rs_trace st @ [Sql stmt]"
  by (auto simp: query_def new_session_def execute_sql_def Let_def split: prod.splits if_splits)

lemma call_now_trace: "call_now S st = (t, st') \<Longrightarrow> rs_trace st' = rs_trace st"
  by (auto simp: call_now_def split: prod.splits)

text \<open>Only \<^verbatim>\<open>insert_2_db\<close> adds to the accepted items.\<close>

lemma query_accepted: "query S stmt st = (r, st') \<Longrightarrow> rs_accepted st' = rs_accepted st"
  by (auto simp: query_def new_session_def execute_sql_def Let_def split: prod.splits if_splits)

lemma getRSS_accepted: "getRSS S server url st = (r, st') \<Longrightarrow> rs_accepted st' = rs_accepted st"
  by (auto simp: getRSS_def Let_def split: prod.splits option.splits if_splits)

lemma get_latest_links_accepted:
  "get_latest_links S sid n st = Some (latest, st') \<Longrightarrow> rs_accepted st' = rs_accepted st"
  by (auto simp: get_latest_links_def split: prod.splits option.splits dest: query_accepted)

lemma update_2_db_accepted:
  "update_2_db S success new_data rss st = Some (rss', st') \<Longrightarrow> rs_accepted st' = rs_accepted st"
  by (auto simp: update_2_db_def call_now_def Let_def split: prod.splits option.splits dest!: query_accepted)

lemma update_2_db_trace:
  assumes "update_2_db S success new_data rss st = Some (rss', st')"
  shows "\<exists>now. rss' = (reschedule success new_data rss)\<lparr>rs_last := now,
             rs_next := round_hours (now + hours (rs_gap (reschedule success new_data rss)))\<rparr> \<and>
           rs_trace st' = rs_trace st @
             [Sql (Update_source rss' (time_point_2_string S (rs_last rss')) (time_point_2_string S (rs_next rss')))]"
proof -
  obtain now st1 where now: "call_now S st = (now, st1)" by (cases "call_now S st")
  then show ?thesis using assms call_now_trace [OF now]
    by (fastforce simp: update_2_db_def Let_def split: prod.splits option.splits dest: query_trace)
qed

text \<open>
  C19. Scheduling. Whatever the outcome, a stored schedule stays within its bounds (at most three
  outcomes of a kind counted, a gap between an hour and a week), the next execution is a whole hour, after
  the present one and at most half an hour from the gap, and exactly this schedule is written to the database.
\<close>

theorem schedule_invariant:
  assumes ok: "schedule_ok rss" and up: "update_2_db S success new_data rss st = Some (rss', st')"
  shows "schedule_ok rss' \<and> rs_id rss' = rs_id rss \<and> rs_next rss' mod hours 1 = 0 \<and> rs_last rss' < rs_next rss' \<and>
    2 * \<bar>rs_next rss' - (rs_last rss' + hours (rs_gap rss'))\<bar> \<le> hours 1 \<and>
    rs_trace st' = rs_trace st @
      [Sql (Update_source rss' (time_point_2_string S (rs_last rss')) (time_point_2_string S (rs_next rss')))]"
proof -
  let ?r = "reschedule success new_data rss"
  from update_2_db_trace [OF up] obtain now where
    rss': "rss' = ?r\<lparr>rs_last := now, rs_next := round_hours (now + hours (rs_gap ?r))\<rparr>" and
    tr: "rs_trace st' = rs_trace st @
      [Sql (Update_source rss' (time_point_2_string S (rs_last rss')) (time_point_2_string S (rs_next rss')))]" by blast
  have ok': "schedule_ok ?r" using ok by (rule reschedule_ok)
  then have "hours 1 \<le> hours (rs_gap ?r)" by (simp add: schedule_ok_def hours_def seconds_def)
  then have "now < round_hours (now + hours (rs_gap ?r))" by (rule round_hours_after)
  moreover note near = round_hours_near [of "now + hours (rs_gap ?r)"]
  moreover have "rs_id ?r = rs_id rss" by (simp add: reschedule_def Let_def)
  moreover have "schedule_ok rss'" using ok' by (simp add: rss' schedule_ok_def)
  ultimately show ?thesis using near tr by (simp add: rss' round_hours_whole)
qed

lemma reschedule_fail4:
  "schedule_ok rss \<Longrightarrow> rs_status rss = 0 \<Longrightarrow>
   (reschedule False new_data ^^ 4) rss = rss\<lparr>rs_gap := min (rs_gap rss * 2) MAX_GAP\<rparr>"
  by (simp add: numeral_eq_Suc reschedule_def Let_def schedule_ok_def MAX_GAP_def)

lemma reschedule_new4:
  "schedule_ok rss \<Longrightarrow> rs_status rss = 0 \<Longrightarrow>
   (reschedule True True ^^ 4) rss = rss\<lparr>rs_gap := max 1 (rs_gap rss div 2)\<rparr>"
  by (simp add: numeral_eq_Suc reschedule_def Let_def)

lemma min_double: "1 \<le> g \<Longrightarrow> 1 \<le> m \<Longrightarrow> min (min g m * 2) m = min (g * 2) (m :: int)"
  by (auto simp: min_def)

lemma max_halve: "max 1 (max 1 g div 2) = max 1 (g div 2 :: int)"
  by (auto simp: max_def)

text \<open>
  Backing off. Of a source whose count is at zero, four failed visits in a row double the gap, up to a
  week, and four visits in a row with new entries halve it, down to an hour; and so on for every further four.
\<close>

theorem schedule_backoff:
  assumes "schedule_ok rss" and "rs_status rss = 0"
  shows "(reschedule False False ^^ (4 * n)) rss = rss\<lparr>rs_gap := min (rs_gap rss * 2 ^ n) MAX_GAP\<rparr> \<and>
    (reschedule True True ^^ (4 * n)) rss = rss\<lparr>rs_gap := max 1 (rs_gap rss div 2 ^ n)\<rparr>"
proof (induction n)
  case 0
  then show ?case using assms by (simp add: schedule_ok_def MAX_GAP_def)
next
  case (Suc n)
  have g: "1 \<le> rs_gap rss" "rs_gap rss \<le> MAX_GAP" using assms by (simp_all add: schedule_ok_def)
  let ?f = "rss\<lparr>rs_gap := min (rs_gap rss * 2 ^ n) MAX_GAP\<rparr>" and ?s = "rss\<lparr>rs_gap := max 1 (rs_gap rss div 2 ^ n)\<rparr>"
  have p: "1 \<le> rs_gap rss * 2 ^ n" using g(1) by (metis mult_mono' one_le_power one_le_numeral mult_1 zero_le_one)
  have "rs_gap rss div 2 ^ n \<le> rs_gap rss" using zdiv_mono2 [of "rs_gap rss" 1 "2 ^ n"] g by simp
  then have "schedule_ok ?f" "schedule_ok ?s" using assms p by (auto simp: schedule_ok_def MAX_GAP_def)
  then have "(reschedule False False ^^ 4) ?f = rss\<lparr>rs_gap := min (rs_gap rss * 2 ^ n * 2) MAX_GAP\<rparr>"
    "(reschedule True True ^^ 4) ?s = rss\<lparr>rs_gap := max 1 (rs_gap rss div 2 ^ n div 2)\<rparr>"
    using assms(2) p min_double [OF p, of MAX_GAP] by (simp_all add: MAX_GAP_def reschedule_fail4 reschedule_new4 min_double max_halve)
  moreover have "(h ^^ (4 * Suc n)) x = (h ^^ 4) ((h ^^ (4 * n)) x)" for h :: "RssSource \<Rightarrow> RssSource" and x
    by (simp add: funpow_add [symmetric, THEN fun_cong, simplified comp_def] add.commute)
  ultimately show ?case using Suc by (simp add: zdiv_zmult2_eq [symmetric] mult.commute mult.left_commute)
qed

section \<open>Collection\<close>

text \<open>The items a trace tries to insert, and the documents it stores.\<close>

fun inserts :: "rss_call list \<Rightarrow> RssItem list" where
  "inserts [] = []"
| "inserts (Sql (Insert_item i) # ts) = i # inserts ts"
| "inserts (_ # ts) = inserts ts"

fun documents :: "rss_call list \<Rightarrow> RssMongo list" where
  "documents [] = []"
| "documents (Mongo m # ts) = m # documents ts"
| "documents (_ # ts) = documents ts"

lemma inserts_append [simp]: "inserts (ts @ us) = inserts ts @ inserts us"
  by (induction ts rule: inserts.induct) auto

lemma documents_append [simp]: "documents (ts @ us) = documents ts @ documents us"
  by (induction ts rule: documents.induct) auto

definition mysql_up :: "('w, 'v) services \<Rightarrow> bool" where
  "mysql_up S \<longleftrightarrow> (\<forall>w. fst (svc_session S w)) \<and>
     (\<forall>rss a b w. fst (svc_sql S (sql_text (Update_source rss a b)) w) \<noteq> None)"

definition mongo_up :: "('w, 'v) services \<Rightarrow> bool" where
  "mongo_up S \<longleftrightarrow> (\<forall>m w. fst (svc_mongo S m w))"

lemma query_up: "mysql_up S \<Longrightarrow> \<exists>r st'. query S stmt st = (r, st') \<and> rs_trace st' = rs_trace st @ [Sql stmt]"
  unfolding mysql_up_def query_def new_session_def execute_sql_def Let_def
  by (cases "svc_session S (rs_world st)") (auto split: prod.splits dest: spec [where x = "rs_world st"])

lemma execute_trace:
  "\<exists>r st'. execute_sql S stmt st = (r, st') \<and> rs_trace st' = rs_trace st @ [Sql stmt] \<and> rs_accepted st' = rs_accepted st"
  by (cases "svc_sql S (sql_text stmt) (rs_world st)") (simp add: execute_sql_def)

lemma insert_2_db_trace:
  assumes up: "mysql_up S"
  shows "\<exists>r st' ts. insert_2_db S item st = (r, st') \<and> rs_trace st' = rs_trace st @ Sql (Insert_item item) # ts \<and>
    inserts ts = [] \<and> documents ts = [] \<and>
    rs_accepted st' = rs_accepted st @ (case r of None \<Rightarrow> [] | Some dbid \<Rightarrow> [(item, dbid)])"
proof -
  obtain r st1 where q: "query S (Insert_item item) st = (r, st1)" "rs_trace st1 = rs_trace st @ [Sql (Insert_item item)]"
    using query_up [OF up] by blast
  note qa = query_accepted [OF q(1)]
  obtain r' st2 where e: "execute_sql S (Select_max_id (i_link item)) st1 = (r', st2)"
    "rs_trace st2 = rs_trace st1 @ [Sql (Select_max_id (i_link item))]" "rs_accepted st2 = rs_accepted st1"
    using execute_trace by blast
  show ?thesis
  proof (cases r)
    case None
    then show ?thesis using q qa by (auto simp: insert_2_db_def intro: exI [where x = "[]"])
  next
    case (Some rows)
    then show ?thesis using q qa e
      by (auto simp: insert_2_db_def intro: exI [where x = "[Sql (Select_max_id (i_link item))]"] split: option.splits)
  qed
qed

lemma mongo_trace:
  "mongo_up S \<Longrightarrow> \<exists>st'. insert_2_mongo S m st = Some st' \<and> rs_trace st' = rs_trace st @ [Mongo m] \<and>
     rs_accepted st' = rs_accepted st"
  unfolding mongo_up_def insert_2_mongo_def
  by (cases "svc_mongo S m (rs_world st)") (simp, metis fst_conv)

lemma store_entry_new:
  assumes up: "mysql_up S" "mongo_up S" and new: "e_link e \<notin> latest"
  shows "\<exists>r st' ts. store_entry S sid latest e (hasNew, st) = Some (hasNew \<or> r \<noteq> None, st') \<and>
    rs_trace st' = rs_trace st @ ts \<and> inserts ts = [RssItem_of sid e] \<and>
    documents ts = (case r of None \<Rightarrow> [] | Some itemid \<Rightarrow> [RssMongo_of itemid e]) \<and>
    rs_accepted st' = rs_accepted st @ (case r of None \<Rightarrow> [] | Some itemid \<Rightarrow> [(RssItem_of sid e, itemid)])"
proof -
  obtain r st1 ts where i: "insert_2_db S (RssItem_of sid e) st = (r, st1)"
    "rs_trace st1 = rs_trace st @ Sql (Insert_item (RssItem_of sid e)) # ts" "inserts ts = []" "documents ts = []"
    "rs_accepted st1 = rs_accepted st @ (case r of None \<Rightarrow> [] | Some dbid \<Rightarrow> [(RssItem_of sid e, dbid)])"
    using insert_2_db_trace [OF up(1)] by blast
  show ?thesis
  proof (cases r)
    case None
    then show ?thesis using i new by (intro exI [of _ None]) (auto simp: store_entry_def)
  next
    case (Some itemid)
    obtain st2 where "insert_2_mongo S (RssMongo_of itemid e) st1 = Some st2"
      "rs_trace st2 = rs_trace st1 @ [Mongo (RssMongo_of itemid e)]" "rs_accepted st2 = rs_accepted st1"
      using mongo_trace [OF up(2)] by blast
    then show ?thesis using i new Some by (intro exI [of _ "Some itemid"]) (auto simp: store_entry_def)
  qed
qed

text \<open>The accepted items of some entries with their ids.\<close>

definition accepted_as :: "int \<Rightarrow> int list \<Rightarrow> RssEntry list \<Rightarrow> (RssItem \<times> int) list" where
  "accepted_as sid ids stored = map2 (\<lambda>i e. (RssItem_of sid e, i)) ids stored"

lemma store_entries:
  assumes up: "mysql_up S" "mongo_up S"
  shows "\<exists>hasNew' st' ts stored ids. foldM (store_entry S sid latest) es (hasNew, st) = Some (hasNew', st') \<and>
    rs_trace st' = rs_trace st @ ts \<and> inserts ts = map (RssItem_of sid) (filter (\<lambda>e. e_link e \<notin> latest) es) \<and>
    subseq stored (filter (\<lambda>e. e_link e \<notin> latest) es) \<and> length ids = length stored \<and>
    rs_accepted st' = rs_accepted st @ accepted_as sid ids stored \<and>
    documents ts = map2 RssMongo_of ids stored \<and> (hasNew' \<longleftrightarrow> hasNew \<or> stored \<noteq> [])"
proof (induction es arbitrary: hasNew st)
  case Nil
  then show ?case by (auto simp: accepted_as_def)
next
  case (Cons e es)
  show ?case
  proof (cases "e_link e \<in> latest")
    case True
    then show ?thesis using Cons by (simp add: store_entry_def)
  next
    case False
    then obtain r st1 ts where e: "store_entry S sid latest e (hasNew, st) = Some (hasNew \<or> r \<noteq> None, st1)"
      "rs_trace st1 = rs_trace st @ ts" "inserts ts = [RssItem_of sid e]"
      "documents ts = (case r of None \<Rightarrow> [] | Some itemid \<Rightarrow> [RssMongo_of itemid e])"
      "rs_accepted st1 = rs_accepted st @ (case r of None \<Rightarrow> [] | Some itemid \<Rightarrow> [(RssItem_of sid e, itemid)])"
      using store_entry_new [OF up False] by blast
    obtain hasNew' st' ts' stored ids where es:
      "foldM (store_entry S sid latest) es (hasNew \<or> r \<noteq> None, st1) = Some (hasNew', st')" "rs_trace st' = rs_trace st1 @ ts'"
      "inserts ts' = map (RssItem_of sid) (filter (\<lambda>e. e_link e \<notin> latest) es)"
      "subseq stored (filter (\<lambda>e. e_link e \<notin> latest) es)" "length ids = length stored"
      "rs_accepted st' = rs_accepted st1 @ accepted_as sid ids stored"
      "documents ts' = map2 RssMongo_of ids stored" "hasNew' \<longleftrightarrow> (hasNew \<or> r \<noteq> None) \<or> stored \<noteq> []"
      using Cons by blast
    define stored' ids' where "stored' = (if r = None then stored else e # stored)"
      and "ids' = (case r of None \<Rightarrow> ids | Some i \<Rightarrow> i # ids)"
    show ?thesis
      using e es False
      by (intro exI [of _ hasNew'] exI [of _ st'] exI [of _ "ts @ ts'"] exI [of _ stored'] exI [of _ ids'])
        (auto simp: stored'_def ids'_def accepted_as_def split: option.splits)
  qed
qed

lemma getRSS_trace: "getRSS S server url st = (r, st') \<Longrightarrow> rs_trace st' = rs_trace st @ [Http_get server url]"
  by (auto simp: getRSS_def Let_def split: prod.splits option.splits if_splits)

lemma get_latest_links_trace:
  "get_latest_links S sid n st = Some (latest, st') \<Longrightarrow> rs_trace st' = rs_trace st @ [Sql (Select_links sid n)]"
  by (auto simp: get_latest_links_def split: prod.splits option.splits dest: query_trace)

lemma update_2_db_up: "mysql_up S \<Longrightarrow> \<exists>rss' st'. update_2_db S success new_data rss st = Some (rss', st')"
proof -
  assume up: "mysql_up S"
  have q: "\<exists>rows st'. query S (Update_source r a b) st = (Some rows, st')" for r a b and st :: "'a rss_state"
  proof -
    obtain w where w: "svc_session S (rs_world st) = (True, w)"
      using up unfolding mysql_up_def by (metis prod.collapse)
    obtain rows w' where "svc_sql S (sql_text (Update_source r a b)) w = (Some rows, w')"
      using up unfolding mysql_up_def by (metis option.exhaust prod.collapse)
    then show ?thesis using w by (simp add: query_def new_session_def execute_sql_def del: sql_text.simps)
  qed
  obtain now st1 where now: "call_now S st = (now, st1)" by fastforce
  let ?r = "reschedule success new_data rss"
  let ?rss = "?r\<lparr>rs_last := now, rs_next := round_hours (now + hours (rs_gap ?r))\<rparr>"
  obtain rows st' where
    "query S (Update_source ?rss (time_point_2_string S now) (time_point_2_string S (rs_next ?rss))) st1 = (Some rows, st')"
    using q by blast
  then show ?thesis by (simp add: update_2_db_def Let_def now)
qed

text \<open>
  C18. Collection. With the databases up, a source whose feed was fetched is processed to the end: the
  entries whose link is not among the latest ones, and no others, are offered to MySQL once each, the
  oldest first; those that MySQL accepted, that is for which \<^verbatim>\<open>insert_2_db\<close> returned an id, get one
  document each, with this id, in the same order, and no other document is written; and the source is
  rescheduled as a success, with new data exactly if an entry was accepted.
\<close>

theorem collect_source:
  assumes up: "mysql_up S" "mongo_up S"
    and get: "getRSS S (rs_name rss) (rs_path rss) st = (Some xml, st1)"
    and vre: "vre = convert (svc_load S) (svc_print S) xml"
    and links: "get_latest_links S (rs_id rss) (int_of_size (length vre)) st1 = Some (latest, st2)"
  shows "\<exists>st' ts stored ids now rss'. process_source S rss st = Some st' \<and>
    rs_trace st' = rs_trace st @ [Http_get (rs_name rss) (rs_path rss), Sql (Select_links (rs_id rss) (int_of_size (length vre)))] @ ts @
      [Sql (Update_source rss' (time_point_2_string S (rs_last rss')) (time_point_2_string S (rs_next rss')))] \<and>
    inserts ts = map (RssItem_of (rs_id rss)) (filter (\<lambda>e. e_link e \<notin> latest) (rev vre)) \<and>
    subseq stored (filter (\<lambda>e. e_link e \<notin> latest) (rev vre)) \<and> length ids = length stored \<and>
    rs_accepted st' = rs_accepted st @ accepted_as (rs_id rss) ids stored \<and>
    documents ts = map2 RssMongo_of ids stored \<and>
    rss' = (reschedule True (stored \<noteq> []) rss)\<lparr>rs_last := now,
      rs_next := round_hours (now + hours (rs_gap (reschedule True (stored \<noteq> []) rss)))\<rparr>"
proof -
  obtain hasNew st3 ts stored ids where s:
    "foldM (store_entry S (rs_id rss) latest) (rev vre) (False, st2) = Some (hasNew, st3)" "rs_trace st3 = rs_trace st2 @ ts"
    "inserts ts = map (RssItem_of (rs_id rss)) (filter (\<lambda>e. e_link e \<notin> latest) (rev vre))"
    "subseq stored (filter (\<lambda>e. e_link e \<notin> latest) (rev vre))" "length ids = length stored"
    "rs_accepted st3 = rs_accepted st2 @ accepted_as (rs_id rss) ids stored"
    "documents ts = map2 RssMongo_of ids stored" "hasNew \<longleftrightarrow> stored \<noteq> []"
    using store_entries [OF up, of "rs_id rss" latest "rev vre" False st2] by auto
  obtain rss' st4 where u: "update_2_db S True hasNew rss st3 = Some (rss', st4)"
    using update_2_db_up [OF up(1)] by blast
  have "process_source S rss st = Some st4"
    using get links s(1) u by (simp add: process_source_def Let_def vre)
  moreover from update_2_db_trace [OF u] obtain now where
    "rss' = (reschedule True hasNew rss)\<lparr>rs_last := now, rs_next := round_hours (now + hours (rs_gap (reschedule True hasNew rss)))\<rparr>"
    "rs_trace st4 = rs_trace st3 @
      [Sql (Update_source rss' (time_point_2_string S (rs_last rss')) (time_point_2_string S (rs_next rss')))]" by blast
  moreover have "rs_accepted st4 = rs_accepted st @ accepted_as (rs_id rss) ids stored"
    using s(6) update_2_db_accepted [OF u] get_latest_links_accepted [OF links] getRSS_accepted [OF get] by simp
  ultimately show ?thesis
    using s(2-5,7,8) getRSS_trace [OF get] get_latest_links_trace [OF links] by auto
qed

definition rss_demo :: "(unit, string) services" where
  "rss_demo = \<lparr>svc_now = (\<lambda>w. (seconds 60, w)),
     svc_localtime = (\<lambda>s. \<lparr>tm_year = 70, tm_mon = 0, tm_mday = 1, tm_hour = s div 3600, tm_min = s div 60 mod 60, tm_sec = s mod 60\<rparr>),
     svc_overfull = id, svc_mktime = (\<lambda>t w. (0, w)), svc_sleep = (\<lambda>_ w. w), svc_get = (\<lambda>_ _ w. (Some (200, ''xml''), w)),
     svc_load = (\<lambda>_. Some [node_element ''rss'' [] [node_element ''channel'' []
       [node_element ''item'' [] [node_element ''link'' [] [node_pcdata ''c'']],
        node_element ''item'' [] [node_element ''link'' [] [node_pcdata ''a'']],
        node_element ''item'' [] [node_element ''link'' [] [node_cdata ''b'']]]]]),
     svc_print = (\<lambda>_. []), svc_session = (\<lambda>w. (True, w)), svc_sql = (\<lambda>_ w. (Some [[''a'']], w)),
     svc_get_int = (\<lambda>_. Some 7), svc_get_string = Some, svc_getRawBytes = (\<lambda>_. []), svc_mongo = (\<lambda>_ w. (True, w))\<rparr>"

definition rss_start :: "unit rss_state" where
  "rss_start = \<lparr>rs_world = (), rs_trace = [], rs_accepted = []\<rparr>"

definition source_demo :: RssSource where
  "source_demo = \<lparr>rs_id = 1, rs_name = ''https://example.org'', rs_path = ''/feed'', rs_status = 3, rs_last = 0, rs_next = 0, rs_gap = 8\<rparr>"

lemma rss_demo_entries:
  "map e_link (convert (svc_load rss_demo) (svc_print rss_demo) ''xml'') = [''c'', ''a'', ''b'']"
  by code_simp

theorem collect_source_witness:
  "\<exists>st'. process_source rss_demo source_demo rss_start = Some st' \<and>
     map i_link (inserts (rs_trace st')) = [''b'', ''c'']"
proof -
  let ?st1 = "\<lparr>rs_world = (), rs_trace = [Http_get ''https://example.org'' ''/feed''], rs_accepted = []\<rparr>"
  let ?vre = "convert (svc_load rss_demo) (svc_print rss_demo) ''xml''"
  have up: "mysql_up rss_demo" "mongo_up rss_demo" by (simp_all add: mysql_up_def mongo_up_def rss_demo_def)
  have get: "getRSS rss_demo (rs_name source_demo) (rs_path source_demo) rss_start = (Some ''xml'', ?st1)"
    by (simp add: getRSS_def rss_demo_def source_demo_def rss_start_def)
  have links: "\<exists>st2. get_latest_links rss_demo (rs_id source_demo) n ?st1 = Some ({''a''}, st2)" for n
    by (simp add: get_latest_links_def query_def new_session_def execute_sql_def row_string_def rss_demo_def)
  have f: "map i_link (map (RssItem_of k) (filter (\<lambda>e. e_link e \<notin> {''a''}) (rev vre))) = filter (\<lambda>l. l \<noteq> ''a'') (rev (map e_link vre))" for k vre
    by (simp add: RssItem_of_def filter_map comp_def rev_map)
  obtain st2 where l2: "get_latest_links rss_demo (rs_id source_demo) (int_of_size (length ?vre)) ?st1 = Some ({''a''}, st2)" using links by blast
  from collect_source [OF up get refl l2] obtain st' ts stored ids now rss' where
    "process_source rss_demo source_demo rss_start = Some st'"
    "rs_trace st' = rs_trace rss_start @ [Http_get (rs_name source_demo) (rs_path source_demo), Sql (Select_links (rs_id source_demo) (int_of_size (length ?vre)))] @ ts @
      [Sql (Update_source rss' (time_point_2_string rss_demo (rs_last rss')) (time_point_2_string rss_demo (rs_next rss')))]"
    "inserts ts = map (RssItem_of (rs_id source_demo)) (filter (\<lambda>e. e_link e \<notin> {''a''}) (rev ?vre))" by (elim exE conjE)
  moreover from this(3) have "map i_link (inserts ts) = [''b'', ''c'']" by (simp only: f rss_demo_entries) simp
  ultimately show ?thesis by (simp add: rss_start_def)
qed

theorem schedule_invariant_witness:
  "\<exists>rss' st'. update_2_db rss_demo True True source_demo rss_start = Some (rss', st') \<and>
     schedule_ok rss' \<and> rs_next rss' mod hours 1 = 0"
proof -
  have up: "mysql_up rss_demo" by (simp add: mysql_up_def rss_demo_def)
  have ok: "schedule_ok source_demo" by (simp add: schedule_ok_def source_demo_def MAX_GAP_def)
  obtain rss' st' where u: "update_2_db rss_demo True True source_demo rss_start = Some (rss', st')"
    using update_2_db_up [OF up] by blast
  from schedule_invariant [OF ok u] u show ?thesis by (intro exI [of _ rss'] exI [of _ st']) simp
qed

theorem schedule_backoff_witness:
  "rs_gap ((reschedule False False ^^ (4 * 3)) (source_demo\<lparr>rs_status := 0\<rparr>)) = 64"
proof -
  have "schedule_ok (source_demo\<lparr>rs_status := 0\<rparr>)" "rs_status (source_demo\<lparr>rs_status := 0\<rparr>) = 0"
    by (simp_all add: schedule_ok_def source_demo_def MAX_GAP_def)
  from schedule_backoff [OF this, of 3] show ?thesis by (simp add: source_demo_def MAX_GAP_def)
qed

section \<open>The wake-up and the statements\<close>

text \<open>In the second half of an hour, the loop sleeps past the next whole hour.\<close>

lemma sleep_skips_hour: "hours 1 < 2 * (t mod hours 1) \<Longrightarrow> round_hours (t + hours 1) = hours (t div hours 1 + 2)"
proof -
  assume r: "hours 1 < 2 * (t mod hours 1)"
  have q: "(t + hours 1) div hours 1 = t div hours 1 + 1" using hours_pos by simp
  have "t + hours 1 - hours (t div hours 1 + 1) = t mod hours 1"
    unfolding hours_linear [of "t div hours 1 + 1"] by (simp add: algebra_simps minus_div_mult_eq_mod [symmetric])
  moreover have "hours (t div hours 1 + 2) - (t + hours 1) = hours 1 - t mod hours 1"
    unfolding hours_linear [of "t div hours 1 + 2"] by (simp add: algebra_simps minus_div_mult_eq_mod [symmetric])
  ultimately show ?thesis using r unfolding round_hours_def Let_def q by (simp add: add.assoc)
qed

text \<open>
  The texts of the fields stand in a statement as they are: without single quotes they determine the item
  that is inserted, with them two different items have the same statement.
\<close>

lemma fmt_d_no_comma: "CHR '','' \<notin> set (fmt_d i)"
proof -
  have "CHR '','' \<noteq> digit d" if "d < 10" for d
  proof
    assume "CHR '','' = digit d"
    then have "(of_char (CHR '','') :: nat) = of_char (digit d)" by simp
    then show False using that by (simp add: digit_def)
  qed
  then have "CHR '','' \<notin> set (dec_nat n)" for n using dec_nat_digits by blast
  then show ?thesis by (simp add: fmt_d_def)
qed

lemma fmt_d_inj: "fmt_d i = fmt_d j \<Longrightarrow> i = j"
proof -
  have minus: "CHR ''-'' \<notin> set (dec_nat n)" for n
  proof
    assume "CHR ''-'' \<in> set (dec_nat n)"
    then obtain d where "d < 10" "CHR ''-'' = digit d" using dec_nat_digits by blast
    then have "(of_char (CHR ''-'') :: nat) = 48 + d" by (simp add: digit_def)
    then show False by simp
  qed
  assume e: "fmt_d i = fmt_d j"
  have "(i < 0) = (j < 0)" using e minus by (metis fmt_d_def list.set_intros(1))
  then have "\<bar>i\<bar> = \<bar>j\<bar>" using e dec_nat_inj [of "nat \<bar>i\<bar>" "nat \<bar>j\<bar>"] by (auto simp: fmt_d_def split: if_splits)
  then show "i = j" using \<open>(i < 0) = (j < 0)\<close> by linarith
qed

definition quote_free :: "RssItem \<Rightarrow> bool" where
  "quote_free i \<longleftrightarrow> CHR 0x27 \<notin> set (i_title i) \<union> set (i_link i) \<union> set (i_pubdate i)"

lemma quoted_append: "quoted s @ t = CHR 0x27 # s @ CHR 0x27 # t"
  by (simp add: quoted_def)

lemma split_unique: "x \<notin> set s \<Longrightarrow> x \<notin> set s' \<Longrightarrow> s @ x # t = s' @ x # t' \<Longrightarrow> s = s' \<and> t = t'"
proof (induction s arbitrary: s')
  case Nil
  then show ?case by (cases s') auto
next
  case (Cons a s)
  then show ?case by (cases s') auto
qed

lemma quoted_inj:
  "CHR 0x27 \<notin> set s \<Longrightarrow> CHR 0x27 \<notin> set s' \<Longrightarrow> quoted s @ t = quoted s' @ t' \<Longrightarrow> s = s' \<and> t = t'"
  unfolding quoted_append using split_unique [of _ s s' t t'] by simp

text \<open>
  Among items without a single quote in their texts, the text of the statement determines
  the item that it inserts.
\<close>

lemma insert_text_inj:
  assumes free: "quote_free i" "quote_free j" and eq: "sql_text (Insert_item i) = sql_text (Insert_item j)"
  shows "i = j"
proof -
  have q: "quoted s @ t = quoted s' @ t' \<Longrightarrow> s = s' \<and> t = t'"
    if "s \<in> {i_title i, i_link i, i_pubdate i}" "s' \<in> {i_title j, i_link j, i_pubdate j}" for s s' t t'
    using that free by (intro quoted_inj) (auto simp: quote_free_def)
  have "fmt_d (i_sourceid i) @ CHR '','' # quoted (i_title i) @ '','' @ quoted (i_link i) @ '','' @ quoted (i_pubdate i) @ '');'' =
    fmt_d (i_sourceid j) @ CHR '','' # quoted (i_title j) @ '','' @ quoted (i_link j) @ '','' @ quoted (i_pubdate j) @ '');''"
    using eq [unfolded sql_text.simps append_assoc same_append_eq] by (simp only: append.simps)
  from split_unique [OF fmt_d_no_comma fmt_d_no_comma this] have a: "fmt_d (i_sourceid i) = fmt_d (i_sourceid j)"
    and b: "quoted (i_title i) @ '','' @ quoted (i_link i) @ '','' @ quoted (i_pubdate i) @ '');'' =
      quoted (i_title j) @ '','' @ quoted (i_link j) @ '','' @ quoted (i_pubdate j) @ '');''"
    by (simp_all only: append.simps)
  from q [OF _ _ b] have c: "i_title i = i_title j"
    "quoted (i_link i) @ '','' @ quoted (i_pubdate i) @ '');'' = quoted (i_link j) @ '','' @ quoted (i_pubdate j) @ '');''" by simp_all
  from q [OF _ _ c(2)] have d: "i_link i = i_link j" "quoted (i_pubdate i) @ '');'' = quoted (i_pubdate j) @ '');''" by simp_all
  from q [OF _ _ d(2)] have "i_pubdate i = i_pubdate j" by simp
  then show ?thesis using fmt_d_inj [OF a] c(1) d(1) by simp
qed

lemma insert_text_ambiguous:
  "\<exists>i j. i \<noteq> j \<and> sql_text (Insert_item i) = sql_text (Insert_item j)"
proof -
  let ?sep = "[CHR 0x27] @ '','' @ [CHR 0x27]"
  define i where "i = \<lparr>i_sourceid = 1, i_title = ''a'' @ ?sep @ ''b'', i_link = ''c'', i_pubdate = ''d''\<rparr>"
  define j where "j = \<lparr>i_sourceid = 1, i_title = ''a'', i_link = ''b'' @ ?sep @ ''c'', i_pubdate = ''d''\<rparr>"
  have q: "quoted (i_title i) @ '','' @ quoted (i_link i) @ r = quoted (i_title j) @ '','' @ quoted (i_link j) @ r" for r
    by (simp add: quoted_def i_def j_def)
  have f: "i_sourceid i = i_sourceid j" "i_pubdate i = i_pubdate j" "i_title i \<noteq> i_title j" by (simp_all add: i_def j_def)
  have "sql_text (Insert_item i) = sql_text (Insert_item j)" unfolding sql_text.simps f(1,2) q ..
  moreover have "i \<noteq> j" using f(3) by blast
  ultimately show ?thesis by blast
qed

text \<open>A stored time with fewer than six numbers, as for one without a time of day, is read out of bounds.\<close>

lemma short_time_out_of_bounds:
  "\<forall>n \<in> set ns. n < 2 ^ 64 \<Longrightarrow> length ns < 6 \<Longrightarrow> svc_getRawBytes S v = concat (map varint ns) \<Longrightarrow>
   mysqlx_column_2_time_point S v st = None"
  by (simp add: mysqlx_column_2_time_point_def varint_decode)

end
