(* ===== verification/Locked_Containers.thy ===== *)
theory Locked_Containers
  imports Prelude "HOL-Library.Multiset"
begin

text \<open>
  The stack and the queue guarded by a mutex (\<^verbatim>\<open>cpp_concurrency_2nd/thread_safe_stack_queue.cpp\<close>), the work stealing
  queue (\<^verbatim>\<open>cpp_concurrency_2nd/thread_pool.cpp\<close>) and the spin lock (\<^verbatim>\<open>cpp_concurrency_2nd/atomic_spinlock.cpp\<close>).
  A member function holds the mutex from its first to its last line, so it is one step; only \<^verbatim>\<open>cv.wait\<close> releases it,
  and a thread that waits is in the set of waiting threads until it is notified or wakes by itself. The moved-from
  argument and the two ways to return a value (by reference or as a shared pointer) make no difference here.
\<close>

section \<open>The stack\<close>

datatype stack_error = Empty_stack

definition ts_push :: "'a \<Rightarrow> 'a list \<Rightarrow> 'a list" where
  "ts_push v stk = v # stk"

definition ts_pop :: "'a list \<Rightarrow> (stack_error + 'a) \<times> 'a list" where
  "ts_pop stk = (case stk of [] \<Rightarrow> (Inl Empty_stack, stk) | v # rest \<Rightarrow> (Inr v, rest))"

definition ts_empty :: "'a list \<Rightarrow> bool" where
  "ts_empty stk \<longleftrightarrow> stk = []"

section \<open>The queue\<close>

type_synonym thread_id = nat

record 'a ts_queue =
  tq_que :: "'a list"
  tq_waiting :: "thread_id set"
  tq_woken :: "thread_id set"
  tq_pushed :: "'a list"
  tq_popped :: "(thread_id \<times> 'a) list"

definition ts_queue_new :: "'a ts_queue" where
  "ts_queue_new = \<lparr>tq_que = [], tq_waiting = {}, tq_woken = {}, tq_pushed = [], tq_popped = []\<rparr>"

definition notify :: "thread_id \<Rightarrow> 'a ts_queue \<Rightarrow> 'a ts_queue" where
  "notify t s = s\<lparr>tq_waiting := tq_waiting s - {t}, tq_woken := insert t (tq_woken s)\<rparr>"

text \<open>\<^verbatim>\<open>push\<close>; \<open>w\<close> is the waiting thread that \<^verbatim>\<open>notify_one\<close> chooses, if there is one.\<close>

definition tq_push :: "'a \<Rightarrow> thread_id option \<Rightarrow> 'a ts_queue \<Rightarrow> 'a ts_queue" where
  "tq_push v w s =
     (let s = s\<lparr>tq_que := tq_que s @ [v], tq_pushed := tq_pushed s @ [v]\<rparr>
      in case w of None \<Rightarrow> s | Some t \<Rightarrow> notify t s)"

definition take_front :: "thread_id \<Rightarrow> 'a ts_queue \<Rightarrow> 'a option \<times> 'a ts_queue" where
  "take_front t s =
     (case tq_que s of
        [] \<Rightarrow> (None, s)
      | v # rest \<Rightarrow> (Some v, s\<lparr>tq_que := rest, tq_popped := tq_popped s @ [(t, v)]\<rparr>))"

text \<open>
  \<^verbatim>\<open>wait_and_pop\<close> from its start, or from a wake-up, with the mutex held: the thread waits (again) while the
  queue is empty, and otherwise takes the front.
\<close>

definition wait_and_pop :: "thread_id \<Rightarrow> 'a ts_queue \<Rightarrow> 'a option \<times> 'a ts_queue" where
  "wait_and_pop t s =
     (let s = s\<lparr>tq_woken := tq_woken s - {t}\<rparr>
      in if tq_que s = [] then (None, s\<lparr>tq_waiting := insert t (tq_waiting s)\<rparr>) else take_front t s)"

definition tq_try_pop :: "thread_id \<Rightarrow> 'a ts_queue \<Rightarrow> 'a option \<times> 'a ts_queue" where
  "tq_try_pop t s = take_front t s"

definition tq_empty :: "'a ts_queue \<Rightarrow> bool" where
  "tq_empty s \<longleftrightarrow> tq_que s = []"

definition may_notify :: "thread_id option \<Rightarrow> 'a ts_queue \<Rightarrow> bool" where
  "may_notify w s \<longleftrightarrow> (case w of None \<Rightarrow> tq_waiting s = {} | Some t \<Rightarrow> t \<in> tq_waiting s)"

inductive tq_step :: "'a ts_queue \<Rightarrow> 'a ts_queue \<Rightarrow> bool" where
  push: "may_notify w s \<Longrightarrow> tq_step s (tq_push v w s)"
| pop: "t \<notin> tq_waiting s \<Longrightarrow> tq_step s (snd (wait_and_pop t s))"
| try_pop: "t \<notin> tq_waiting s \<Longrightarrow> t \<notin> tq_woken s \<Longrightarrow> tq_step s (snd (tq_try_pop t s))"
| spurious: "t \<in> tq_waiting s \<Longrightarrow> tq_step s (notify t s)"

inductive_cases tq_stepE: "tq_step s s'"

definition tq_inv :: "'a ts_queue \<Rightarrow> bool" where
  "tq_inv s \<longleftrightarrow> tq_pushed s = map snd (tq_popped s) @ tq_que s \<and> finite (tq_woken s) \<and>
     tq_waiting s \<inter> tq_woken s = {} \<and> (tq_waiting s \<noteq> {} \<longrightarrow> length (tq_que s) \<le> card (tq_woken s))"

lemma tq_inv_push:
  assumes inv: "tq_inv s" and w: "may_notify w s"
  shows "tq_inv (tq_push v w s)"
proof (cases w)
  case None
  then show ?thesis using inv w by (simp add: tq_inv_def tq_push_def may_notify_def)
next
  case (Some t)
  then have t: "t \<in> tq_waiting s" "t \<notin> tq_woken s" using inv w by (auto simp: may_notify_def tq_inv_def)
  then have "length (tq_que s) \<le> card (tq_woken s)" "card (insert t (tq_woken s)) = Suc (card (tq_woken s))"
    using inv by (auto simp: tq_inv_def)
  then show ?thesis using inv t Some by (auto simp: tq_inv_def tq_push_def notify_def)
qed

lemma tq_inv_take:
  "tq_inv s \<Longrightarrow> t \<notin> tq_woken s \<Longrightarrow> tq_inv (snd (take_front t s))"
  by (auto simp: tq_inv_def take_front_def split: list.splits)

lemma tq_inv_wait:
  assumes inv: "tq_inv s" and t: "t \<notin> tq_waiting s"
  shows "tq_inv (snd (wait_and_pop t s))"
proof (cases "tq_que s")
  case Nil
  then show ?thesis using inv by (auto simp: tq_inv_def wait_and_pop_def)
next
  case (Cons v rest)
  have "length rest \<le> card (tq_woken s - {t})" if "tq_waiting s \<noteq> {}"
    using inv that Cons card_Diff_singleton_if [of "tq_woken s" t] by (auto simp: tq_inv_def)
  then show ?thesis using inv Cons by (auto simp: tq_inv_def wait_and_pop_def take_front_def)
qed

lemma tq_inv_notify:
  assumes inv: "tq_inv s" and t: "t \<in> tq_waiting s"
  shows "tq_inv (notify t s)"
proof -
  have "t \<notin> tq_woken s" "length (tq_que s) \<le> card (tq_woken s)" using inv t by (auto simp: tq_inv_def)
  then show ?thesis using inv by (auto simp: tq_inv_def notify_def)
qed

lemma tq_inv_step: "tq_step s s' \<Longrightarrow> tq_inv s \<Longrightarrow> tq_inv s'"
  by (erule tq_stepE) (auto simp: tq_try_pop_def intro: tq_inv_push tq_inv_wait tq_inv_take tq_inv_notify)

lemma tq_inv_reach: "tq_step\<^sup>*\<^sup>* ts_queue_new s \<Longrightarrow> tq_inv s"
  by (erule rtranclp_invariant) (simp add: tq_inv_def ts_queue_new_def, rule tq_inv_step)

lemma wait_and_pop_front: "tq_que s \<noteq> [] \<Longrightarrow> fst (wait_and_pop t s) = Some (hd (tq_que s))"
  by (cases "tq_que s") (simp_all add: wait_and_pop_def take_front_def)

text \<open>
  C28. The queue. Under every interleaving of threads, the values taken so far, in the order of the takes,
  followed by those in the queue are the values pushed: nothing is lost, doubled or reordered. And no waiting
  thread is forgotten: while one waits, at least as many threads are on their way to the queue as it has values,
  and each of them takes the front when it gets the mutex.
\<close>

theorem ts_queue_correct:
  assumes "tq_step\<^sup>*\<^sup>* ts_queue_new s"
  shows "tq_pushed s = map snd (tq_popped s) @ tq_que s \<and>
    (tq_waiting s \<noteq> {} \<longrightarrow> length (tq_que s) \<le> card (tq_woken s)) \<and>
    (\<forall>t. tq_que s \<noteq> [] \<longrightarrow> fst (wait_and_pop t s) = Some (hd (tq_que s)))"
  using tq_inv_reach [OF assms] by (simp add: tq_inv_def wait_and_pop_front)

theorem ts_queue_correct_witness:
  "tq_pushed (tq_push (5::int) (Some 1) (snd (wait_and_pop 1 ts_queue_new))) = [5] \<and>
   fst (wait_and_pop 1 (tq_push (5::int) (Some 1) (snd (wait_and_pop 1 ts_queue_new)))) = Some 5"
proof -
  let ?s1 = "snd (wait_and_pop 1 (ts_queue_new :: int ts_queue))" and ?s2 = "tq_push (5::int) (Some 1) (snd (wait_and_pop 1 ts_queue_new))"
  have "tq_step ts_queue_new ?s1" by (rule tq_step.pop) (simp add: ts_queue_new_def)
  moreover have "tq_step ?s1 ?s2" by (rule tq_step.push) (simp add: may_notify_def wait_and_pop_def ts_queue_new_def)
  ultimately have "tq_step\<^sup>*\<^sup>* ts_queue_new ?s2" by simp
  from ts_queue_correct [OF this] show ?thesis
    by (simp add: tq_push_def notify_def wait_and_pop_def take_front_def ts_queue_new_def)
qed

section \<open>The work stealing queue\<close>

definition ws_push :: "'a \<Rightarrow> 'a list \<Rightarrow> 'a list" where
  "ws_push d q = d # q"

definition ws_empty :: "'a list \<Rightarrow> bool" where
  "ws_empty q \<longleftrightarrow> q = []"

definition ws_try_pop :: "'a list \<Rightarrow> 'a option \<times> 'a list" where
  "ws_try_pop q = (case q of [] \<Rightarrow> (None, q) | d # rest \<Rightarrow> (Some d, rest))"

definition ws_try_steal :: "'a list \<Rightarrow> 'a option \<times> 'a list" where
  "ws_try_steal q = (if q = [] then (None, q) else (Some (last q), butlast q))"

datatype 'a ws_op = Ws_push 'a | Ws_pop | Ws_steal

text \<open>A sequence of operations: the tasks handed out, and the queue that is left.\<close>

fun ws_run :: "'a ws_op list \<Rightarrow> 'a list \<Rightarrow> 'a list \<times> 'a list" where
  "ws_run [] q = ([], q)"
| "ws_run (Ws_push d # ops) q = ws_run ops (ws_push d q)"
| "ws_run (Ws_pop # ops) q =
     (let (r, q) = ws_try_pop q; (out, q) = ws_run ops q in (case r of None \<Rightarrow> out | Some d \<Rightarrow> d # out, q))"
| "ws_run (Ws_steal # ops) q =
     (let (r, q) = ws_try_steal q; (out, q) = ws_run ops q in (case r of None \<Rightarrow> out | Some d \<Rightarrow> d # out, q))"

fun ws_pushes :: "'a ws_op list \<Rightarrow> 'a list" where
  "ws_pushes [] = []"
| "ws_pushes (Ws_push d # ops) = d # ws_pushes ops"
| "ws_pushes (_ # ops) = ws_pushes ops"

lemma ws_tasks_conserved:
  "ws_run ops q = (out, q') \<Longrightarrow> mset out + mset q' = mset q + mset (ws_pushes ops)"
proof (induction ops q arbitrary: out q' rule: ws_run.induct)
  case (4 ops q)
  then show ?case
    by (cases q rule: rev_cases) (auto simp: ws_try_steal_def Let_def split: prod.splits)
qed (auto simp: ws_push_def ws_try_pop_def Let_def split: prod.splits list.splits)

section \<open>The spin lock\<close>

datatype lock_pc = Outside | Spinning | Critical

record spinlock =
  sl_flg :: bool
  sl_pc :: "thread_id \<Rightarrow> lock_pc"

definition spinlock_new :: spinlock where
  "spinlock_new = \<lparr>sl_flg = False, sl_pc = (\<lambda>_. Outside)\<rparr>"

definition test_and_set :: "spinlock \<Rightarrow> bool \<times> spinlock" where
  "test_and_set s = (sl_flg s, s\<lparr>sl_flg := True\<rparr>)"

definition set_pc :: "thread_id \<Rightarrow> lock_pc \<Rightarrow> spinlock \<Rightarrow> spinlock" where
  "set_pc t p s = s\<lparr>sl_pc := (sl_pc s)(t := p)\<rparr>"

text \<open>One turn of the loop of \<^verbatim>\<open>lock\<close>, and \<^verbatim>\<open>unlock\<close>.\<close>

definition spin_lock :: "thread_id \<Rightarrow> spinlock \<Rightarrow> spinlock" where
  "spin_lock t s = (let (old, s) = test_and_set s in set_pc t (if old then Spinning else Critical) s)"

definition spin_unlock :: "thread_id \<Rightarrow> spinlock \<Rightarrow> spinlock" where
  "spin_unlock t s = set_pc t Outside (s\<lparr>sl_flg := False\<rparr>)"

inductive lock_step :: "spinlock \<Rightarrow> spinlock \<Rightarrow> bool" where
  lock: "sl_pc s t \<noteq> Critical \<Longrightarrow> lock_step s (spin_lock t s)"
| unlock: "sl_pc s t = Critical \<Longrightarrow> lock_step s (spin_unlock t s)"

definition lock_inv :: "spinlock \<Rightarrow> bool" where
  "lock_inv s \<longleftrightarrow> (if sl_flg s then \<exists>!t. sl_pc s t = Critical else \<forall>t. sl_pc s t \<noteq> Critical)"

lemmas lock_defs = lock_inv_def spin_lock_def spin_unlock_def test_and_set_def set_pc_def

lemma lock_inv_step: "lock_step s s' \<Longrightarrow> lock_inv s \<Longrightarrow> lock_inv s'"
proof (induction rule: lock_step.induct)
  case (lock s t)
  then show ?case by (cases "sl_flg s") (auto simp: lock_defs)
next
  case (unlock s t)
  then show ?case by (cases "sl_flg s") (auto simp: lock_defs)
qed

lemma lock_inv_reach: "lock_step\<^sup>*\<^sup>* spinlock_new s \<Longrightarrow> lock_inv s"
  by (erule rtranclp_invariant) (simp add: lock_inv_def spinlock_new_def, rule lock_inv_step)

text \<open>
  The spin lock. In every interleaving at most one thread is in its critical section, and a turn of the
  loop enters it exactly when no thread is.
\<close>

theorem spinlock_exclusive:
  assumes "lock_step\<^sup>*\<^sup>* spinlock_new s"
  shows "(\<forall>t u. sl_pc s t = Critical \<and> sl_pc s u = Critical \<longrightarrow> t = u) \<and>
    (\<forall>t. sl_pc s t \<noteq> Critical \<longrightarrow> (sl_pc (spin_lock t s) t = Critical \<longleftrightarrow> (\<forall>u. sl_pc s u \<noteq> Critical)))"
  using lock_inv_reach [OF assms] by (auto simp: lock_defs split: if_splits)

theorem spinlock_exclusive_witness:
  "sl_pc (spin_lock 1 spinlock_new) 1 = Critical \<and> sl_pc (spin_lock 2 (spin_lock 1 spinlock_new)) 2 \<noteq> Critical"
proof -
  have "lock_step spinlock_new (spin_lock 1 spinlock_new)" by (rule lock_step.lock) (simp add: spinlock_new_def)
  then have "lock_step\<^sup>*\<^sup>* spinlock_new (spin_lock 1 spinlock_new)" by simp
  from spinlock_exclusive [OF this] show ?thesis by (auto simp: lock_defs spinlock_new_def)
qed

end
