(* ===== verification/Socket_Servers.thy ===== *)
theory Socket_Servers
  imports Prelude
begin

text \<open>
  Five small servers that wait for many descriptors at once: with \<^verbatim>\<open>select\<close> (\<^verbatim>\<open>io_multiplexing/select_01.cpp\<close>,
  \<^verbatim>\<open>socket/02_server_select.c\<close>), \<^verbatim>\<open>poll\<close> (\<^verbatim>\<open>io_multiplexing/poll_01.cpp\<close>), \<^verbatim>\<open>epoll\<close> (\<^verbatim>\<open>io_multiplexing/epoll_01.cpp\<close>) and
  libev (\<^verbatim>\<open>libev/01_server_epoll.cpp\<close>). One round of the loop of each is a function of the answers of the kernel; what
  it asks the kernel for is a trace of calls, from which the open connections are read off. \<open>None\<close> is an access
  outside of an array or a call of \<^verbatim>\<open>exit\<close>. What the servers print is left out.
\<close>

section \<open>The kernel\<close>

datatype recv_result = Recv_error | Recv_data string

datatype wait_result = Wait_error | Wait_timeout | Wait_ready "nat list"

text \<open>
  The answers of one round: which of the given descriptors are ready, what \<^verbatim>\<open>accept\<close> returns when the given
  descriptors are open, and what \<^verbatim>\<open>recv\<close> yields on a descriptor for at most so many bytes; no bytes at all is
  the end of the stream. \<open>k_everr\<close> is the error bit of an event of libev.
\<close>

record kernel =
  k_wait :: "nat list \<Rightarrow> wait_result"
  k_accept :: "nat set \<Rightarrow> int"
  k_recv :: "nat \<Rightarrow> nat \<Rightarrow> recv_result"
  k_everr :: "nat \<Rightarrow> bool"

datatype sock_call = Accept int | Recv nat | Send nat string | Close nat

fun conn_effect :: "sock_call \<Rightarrow> nat set \<Rightarrow> nat set" where
  "conn_effect (Accept n) T = (if n < 0 then T else insert (nat n) T)"
| "conn_effect (Close i) T = T - {i}"
| "conn_effect _ T = T"

definition opened :: "sock_call list \<Rightarrow> nat set" where
  "opened cs = fold conn_effect cs {}"

definition ready :: "kernel \<Rightarrow> nat list \<Rightarrow> nat list" where
  "ready k fds = (case k_wait k fds of Wait_ready r \<Rightarrow> r | _ \<Rightarrow> [])"

text \<open>What the manual pages say: only given descriptors are reported, each once; a new descriptor was not open.\<close>

definition kernel_ok :: "kernel \<Rightarrow> bool" where
  "kernel_ok k \<longleftrightarrow>
     (\<forall>fds r. k_wait k fds = Wait_ready r \<longrightarrow> distinct r \<and> set r \<subseteq> set fds) \<and>
     (\<forall>T. 0 \<le> k_accept k T \<longrightarrow> 3 \<le> k_accept k T \<and> nat (k_accept k T) \<notin> T) \<and>
     (\<forall>i n bs. k_recv k i n = Recv_data bs \<longrightarrow> length bs \<le> n)"

lemma ready_given: "kernel_ok k \<Longrightarrow> distinct (ready k fds) \<and> set (ready k fds) \<subseteq> set fds"
  by (cases "k_wait k fds") (auto simp: kernel_ok_def ready_def)

lemma accept_fresh: "kernel_ok k \<Longrightarrow> 0 \<le> k_accept k T \<Longrightarrow> 3 \<le> k_accept k T \<and> nat (k_accept k T) \<notin> T"
  unfolding kernel_ok_def by blast

lemma recv_length: "kernel_ok k \<Longrightarrow> k_recv k i n = Recv_data bs \<Longrightarrow> length bs \<le> n"
  unfolding kernel_ok_def by blast

text \<open>How a server deals with one connection, and with the listening socket.\<close>

fun serve :: "(string \<Rightarrow> string) \<Rightarrow> nat \<Rightarrow> recv_result \<Rightarrow> sock_call list" where
  "serve answer i Recv_error = [Recv i]"
| "serve answer i (Recv_data bs) = (if bs = [] then [Recv i, Close i] else [Recv i, Send i (answer bs)])"

definition handled ::
    "(string \<Rightarrow> string) \<Rightarrow> string list \<Rightarrow> nat \<Rightarrow> kernel \<Rightarrow> nat \<Rightarrow> nat \<Rightarrow> sock_call list \<Rightarrow> bool" where
  "handled answer greeting lim k L i cs \<longleftrightarrow>
     (if i = L then \<exists>n. cs = Accept n # (if n < 0 then [] else map (Send (nat n)) greeting)
      else cs = serve answer i (k_recv k i lim))"

lemma opened_append: "opened (cs @ ds) = fold conn_effect ds (opened cs)"
  by (simp add: opened_def)

lemma fold_sends [simp]: "fold conn_effect (map (Send n) msgs) T = T"
  by (induction msgs) auto

lemma opened_accept:
  "opened (cs @ Accept n # (if n < 0 then [] else map (Send (nat n)) g)) = (if n < 0 then opened cs else insert (nat n) (opened cs))"
  by (simp add: opened_append)

lemma opened_serve:
  "opened (cs @ serve answer i r) = (if r = Recv_data [] then opened cs - {i} else opened cs)"
  by (cases r) (auto simp: opened_append)

lemma handled_keeps:
  "handled answer greeting lim k L i ds \<Longrightarrow> j \<noteq> i \<Longrightarrow> j \<in> insert L (opened cs) \<Longrightarrow> j \<in> insert L (opened (cs @ ds))"
proof (cases "i = L")
  case True
  then show "handled answer greeting lim k L i ds \<Longrightarrow> j \<noteq> i \<Longrightarrow> j \<in> insert L (opened cs) \<Longrightarrow> j \<in> insert L (opened (cs @ ds))"
    by (auto simp: handled_def opened_append)
next
  case False
  then show "handled answer greeting lim k L i ds \<Longrightarrow> j \<noteq> i \<Longrightarrow> j \<in> insert L (opened cs) \<Longrightarrow> j \<in> insert L (opened (cs @ ds))"
    by (auto simp: handled_def opened_serve)
qed

text \<open>A pass over distinct descriptors, each of them open or the listening one.\<close>

lemma visit_all:
  assumes visit: "\<And>i rest s. i \<in> R \<Longrightarrow> i \<notin> set rest \<Longrightarrow> J (i # rest) s \<Longrightarrow> i \<in> insert L (opened (calls s)) \<Longrightarrow>
      \<exists>s' cs. visit i s = Some s' \<and> J rest s' \<and> calls s' = calls s @ cs \<and> handled answer greeting lim k L i cs"
    and "J order s" and "set order \<subseteq> R" and "distinct order" and "set order \<subseteq> insert L (opened (calls s))"
  shows "\<exists>s' css. foldM visit order s = Some s' \<and> J [] s' \<and>
    list_all2 (handled answer greeting lim k L) order css \<and> calls s' = calls s @ concat css"
  using assms(2-)
proof (induction order arbitrary: s)
  case Nil
  then show ?case by (auto intro: exI [of _ "[]"])
next
  case (Cons i order)
  from Cons.prems visit obtain s1 cs where 1: "visit i s = Some s1" "J order s1" "calls s1 = calls s @ cs"
    "handled answer greeting lim k L i cs" by (metis distinct.simps(2) list.set_intros(1) subset_iff)
  have "set order \<subseteq> insert L (opened (calls s1))"
    using Cons.prems handled_keeps [OF 1(4)] 1(3) by (metis distinct.simps(2) list.set_intros(2) subset_iff)
  with Cons.IH [OF 1(2)] Cons.prems obtain s' css where "foldM visit order s1 = Some s'" "J [] s'"
    "list_all2 (handled answer greeting lim k L) order css" "calls s' = calls s1 @ concat css" by auto
  with 1 show ?case by (intro exI [of _ s'] exI [of _ "cs # css"]) simp
qed

text \<open>Visits that pass over everything which is not ready.\<close>

lemma foldM_filter:
  "(\<And>i s. i \<in> set is \<Longrightarrow> \<not> P i \<Longrightarrow> visit i s = Some s) \<Longrightarrow> foldM visit is s = foldM visit (filter P is) s"
  by (induction "is" arbitrary: s) (auto intro!: arg_cong2 [where f = Option.bind])

lemma pass_ok:
  assumes k: "kernel_ok k" and fds: "set fds = insert L (opened (calls s))" and J: "J (filter (\<lambda>i. i \<in> set (ready k fds)) is) s"
    and "is": "distinct is" "set (ready k fds) \<subseteq> set is"
    and skip: "\<And>i t. i \<in> set is \<Longrightarrow> i \<notin> set (ready k fds) \<Longrightarrow> visit i t = Some t"
    and visit: "\<And>i rest t. i \<in> set (ready k fds) \<Longrightarrow> i \<notin> set rest \<Longrightarrow> J (i # rest) t \<Longrightarrow> i \<in> insert L (opened (calls t)) \<Longrightarrow>
      \<exists>s' cs. visit i t = Some s' \<and> J rest s' \<and> calls s' = calls t @ cs \<and> handled answer greeting lim k L i cs"
  shows "\<exists>s' order css. foldM visit is s = Some s' \<and> J [] s' \<and> distinct order \<and> set order = set (ready k fds) \<and>
    list_all2 (handled answer greeting lim k L) order css \<and> calls s' = calls s @ concat css"
proof -
  define order where "order = filter (\<lambda>i. i \<in> set (ready k fds)) is"
  have order: "distinct order" "set order = set (ready k fds)" using "is" by (auto simp: order_def)
  have sub: "set order \<subseteq> insert L (opened (calls s))" using ready_given [OF k] fds order(2) by blast
  have "\<exists>s' css. foldM visit order s = Some s' \<and> J [] s' \<and>
    list_all2 (handled answer greeting lim k L) order css \<and> calls s' = calls s @ concat css"
    by (rule visit_all [where R = "set (ready k fds)" and J = J and calls = calls, OF visit J [folded order_def] _ order(1) sub])
      (simp_all add: order(2))
  moreover have "foldM visit is s = foldM visit order s"
    unfolding order_def by (rule foldM_filter) (rule skip)
  ultimately show ?thesis using order by auto
qed

section \<open>The interface\<close>

text \<open>A sequence of rounds, which stops when a round says so; and that each is within the limits of the server.\<close>

fun rounds :: "(kernel \<Rightarrow> 's \<Rightarrow> (bool \<times> 's) option) \<Rightarrow> kernel list \<Rightarrow> 's \<Rightarrow> 's option" where
  "rounds round [] s = Some s"
| "rounds round (k # ks) s = do { (go, s) \<leftarrow> round k s; if go then rounds round ks s else Some s }"

fun all_fit :: "(kernel \<Rightarrow> 's \<Rightarrow> (bool \<times> 's) option) \<Rightarrow> (kernel \<Rightarrow> 's \<Rightarrow> bool) \<Rightarrow> kernel list \<Rightarrow> 's \<Rightarrow> bool" where
  "all_fit round fits [] s = True"
| "all_fit round fits (k # ks) s =
     (kernel_ok k \<and> fits k s \<and> (case round k s of Some (True, s') \<Rightarrow> all_fit round fits ks s' | _ \<Rightarrow> True))"

locale fd_server =
  fixes round :: "kernel \<Rightarrow> 's \<Rightarrow> (bool \<times> 's) option"
    and inv :: "'s \<Rightarrow> bool"
    and listener :: "'s \<Rightarrow> nat"
    and table :: "'s \<Rightarrow> nat set"
    and watched :: "'s \<Rightarrow> nat list"
    and calls :: "'s \<Rightarrow> sock_call list"
    and fits :: "kernel \<Rightarrow> 's \<Rightarrow> bool"
    and answer :: "string \<Rightarrow> string"
    and greeting :: "string list"
    and lim :: nat
  assumes table: "inv s \<Longrightarrow> table s = opened (calls s)"
    and round: "inv s \<Longrightarrow> kernel_ok k \<Longrightarrow> fits k s \<Longrightarrow>
      \<exists>go s' order css. round k s = Some (go, s') \<and> inv s' \<and> listener s' = listener s \<and>
        set (watched s) = insert (listener s) (table s) \<and> distinct order \<and> set order = set (ready k (watched s)) \<and>
        list_all2 (handled answer greeting lim k (listener s)) order css \<and> calls s' = calls s @ concat css"
begin

lemma rounds_ok: "inv s \<Longrightarrow> all_fit round fits ks s \<Longrightarrow> \<exists>s'. rounds round ks s = Some s' \<and> inv s' \<and> listener s' = listener s \<and> table s' = opened (calls s')"
proof (induction ks arbitrary: s)
  case Nil
  then show ?case by (simp add: table)
next
  case (Cons k ks)
  then obtain go s1 where 1: "round k s = Some (go, s1)" "inv s1" "listener s1 = listener s"
    using round [of s k] by auto
  then show ?case
  proof (cases go)
    case True
    with 1 Cons.prems have "all_fit round fits ks s1" by simp
    with Cons.IH [OF 1(2)] 1 True show ?thesis by auto
  next
    case False
    with 1 show ?thesis by (simp add: table)
  qed
qed

end

text \<open>A server whose limits are exact: a round beyond them has no result.\<close>

locale exact_server = fd_server +
  assumes fails: "inv s \<Longrightarrow> kernel_ok k \<Longrightarrow> \<not> fits k s \<Longrightarrow> round k s = None"
begin

lemma rounds_none: "inv s \<Longrightarrow> \<forall>k\<in>set ks. kernel_ok k \<Longrightarrow> \<not> all_fit round fits ks s \<Longrightarrow> rounds round ks s = None"
proof (induction ks arbitrary: s)
  case (Cons k ks)
  show ?case
  proof (cases "fits k s")
    case False
    then show ?thesis using fails [of s k] Cons.prems by simp
  next
    case True
    then obtain go s1 where 1: "round k s = Some (go, s1)" "inv s1" using round [of s k] Cons.prems by auto
    with Cons.prems True have "go" "\<not> all_fit round fits ks s1" by (auto split: bool.splits)
    with Cons.IH [OF 1(2)] Cons.prems 1 show ?thesis by simp
  qed
qed simp

end

section \<open>The select server\<close>

record fd_array =
  sel_fd :: nat
  sel_arr :: "int list"
  sel_mxfd :: nat
  sel_calls :: "sock_call list"

definition select_start :: "nat \<Rightarrow> fd_array option" where
  "select_start fd =
     (if fd < 100 then Some \<lparr>sel_fd = fd, sel_arr = (replicate 100 0)[fd := 1], sel_mxfd = fd, sel_calls = []\<rparr> else None)"

definition select_fds :: "fd_array \<Rightarrow> nat list" where
  "select_fds s = filter (\<lambda>i. sel_arr s ! i \<noteq> 0) [3..<Suc (sel_mxfd s)]"

definition select_accept :: "kernel \<Rightarrow> fd_array \<Rightarrow> fd_array option" where
  "select_accept k s =
     (let n = k_accept k (insert (sel_fd s) (opened (sel_calls s)));
          s = s\<lparr>sel_calls := sel_calls s @ [Accept n]\<rparr>
      in if n < 0 then Some s
         else if nat n < length (sel_arr s)
         then Some (s\<lparr>sel_arr := (sel_arr s)[nat n := 1], sel_mxfd := (if nat n > sel_mxfd s then nat n else sel_mxfd s)\<rparr>)
         else None)"

definition select_recv :: "kernel \<Rightarrow> nat \<Rightarrow> fd_array \<Rightarrow> fd_array option" where
  "select_recv k i s =
     (let res = k_recv k i 99; s = s\<lparr>sel_calls := sel_calls s @ [Recv i]\<rparr>
      in case res of
           Recv_error \<Rightarrow> Some s
         | Recv_data buf \<Rightarrow>
             if buf = [] then Some (s\<lparr>sel_arr := (sel_arr s)[i := 0], sel_calls := sel_calls s @ [Close i]\<rparr>)
             else if length buf < 100 then Some (s\<lparr>sel_calls := sel_calls s @ [Send i '' AA msg from server'']\<rparr>)
             else None)"

definition select_visit :: "kernel \<Rightarrow> nat list \<Rightarrow> nat \<Rightarrow> fd_array \<Rightarrow> fd_array option" where
  "select_visit k fds i s =
     (if i \<le> sel_mxfd s \<and> sel_arr s ! i \<noteq> 0 \<and> i \<in> set fds
      then if i = sel_fd s then select_accept k s else select_recv k i s
      else Some s)"

text \<open>
  The loop over \<open>i\<close> ends after \<open>mxfd\<close>, which an accepted connection may raise; all indices are below 100, the length
  of the array, so it is a pass over these that does nothing beyond \<open>mxfd\<close>.
\<close>

definition all_fds :: "nat list" where "all_fds = [3..<100]"

definition select_round :: "kernel \<Rightarrow> fd_array \<Rightarrow> (bool \<times> fd_array) option" where
  "select_round k s =
     (case k_wait k (select_fds s) of
        Wait_error \<Rightarrow> Some (True, s)
      | Wait_ready fds \<Rightarrow> map_option (Pair True) (foldM (select_visit k fds) all_fds s)
      | Wait_timeout \<Rightarrow> Some (False, s))"

text \<open>At most 60 rounds.\<close>

definition select_main :: "kernel list \<Rightarrow> nat \<Rightarrow> fd_array option" where
  "select_main ks fd =
     do { s \<leftarrow> select_start fd;
          s \<leftarrow> rounds select_round (take 60 ks) s;
          Some (s\<lparr>sel_calls := sel_calls s @ [Close (sel_fd s)]\<rparr>) }"

definition select_table :: "fd_array \<Rightarrow> nat set" where
  "select_table s = {i. i < length (sel_arr s) \<and> sel_arr s ! i \<noteq> 0} - {sel_fd s}"

definition select_inv :: "fd_array \<Rightarrow> bool" where
  "select_inv s \<longleftrightarrow> length (sel_arr s) = 100 \<and> sel_mxfd s < 100 \<and> sel_fd s \<notin> opened (sel_calls s) \<and>
     (\<forall>i<100. sel_arr s ! i \<noteq> 0 \<longleftrightarrow> i \<in> insert (sel_fd s) (opened (sel_calls s))) \<and>
     insert (sel_fd s) (opened (sel_calls s)) \<subseteq> {3..sel_mxfd s}"

text \<open>
  The limit of the array: the \<^verbatim>\<open>accept\<close> of this round, if there is one, returns less than 100. It comes after the
  visits to the descriptors below the listening one.
\<close>

definition select_fits :: "kernel \<Rightarrow> fd_array \<Rightarrow> bool" where
  "select_fits k s \<longleftrightarrow>
     (let r = ready k (select_fds s) in
      sel_fd s \<in> set r \<longrightarrow>
        (case foldM (select_visit k r) [3..<sel_fd s] s of
           None \<Rightarrow> False
         | Some t \<Rightarrow> k_accept k (insert (sel_fd s) (opened (sel_calls t))) < 100))"

lemma select_visit_ok:
  assumes k: "kernel_ok k" and acc: "i = L \<Longrightarrow> k_accept k (insert L (opened (sel_calls s))) < 100"
    and J: "select_inv s \<and> sel_fd s = L" and i: "i \<in> insert L (opened (sel_calls s))" "i \<in> set fds"
  shows "\<exists>s' cs. select_visit k fds i s = Some s' \<and> (select_inv s' \<and> sel_fd s' = L) \<and> sel_calls s' = sel_calls s @ cs \<and>
    handled (\<lambda>_. '' AA msg from server'') [] 99 k L i cs"
proof -
  have "i \<le> sel_mxfd s" using J i by (auto simp: select_inv_def)
  moreover from this have "sel_arr s ! i \<noteq> 0" using J i by (simp add: select_inv_def)
  ultimately have v: "i \<le> sel_mxfd s" "sel_arr s ! i \<noteq> 0" .
  show ?thesis
  proof (cases "i = L")
    case True
    define n where "n = k_accept k (insert L (opened (sel_calls s)))"
    have n: "n < 100" "0 \<le> n \<Longrightarrow> 3 \<le> n \<and> nat n \<notin> insert L (opened (sel_calls s))"
      using acc [OF True] accept_fresh [OF k] unfolding n_def by blast+
    then show ?thesis using v i(2) J True
      by (cases "n < 0")
        (auto simp: select_visit_def select_accept_def handled_def select_inv_def Let_def n_def [symmetric] opened_append nth_list_update)
  next
    case False
    have len: "length bs < 100" if "k_recv k i 99 = Recv_data bs" for bs
      using recv_length [OF k that] by simp
    then show ?thesis using v i J False
      by (cases "k_recv k i 99")
        (auto simp: select_visit_def select_recv_def handled_def select_inv_def Let_def opened_append nth_list_update)
  qed
qed

lemma select_arr: "select_inv s \<Longrightarrow> i < 100 \<Longrightarrow> sel_arr s ! i \<noteq> 0 \<longleftrightarrow> i \<in> insert (sel_fd s) (opened (sel_calls s))"
  by (simp add: select_inv_def)

lemma select_bounds: "select_inv s \<Longrightarrow> i \<in> insert (sel_fd s) (opened (sel_calls s)) \<Longrightarrow> 3 \<le> i \<and> i \<le> sel_mxfd s \<and> i < 100"
  by (auto simp: select_inv_def)

lemma select_fds_set:
  assumes inv: "select_inv s"
  shows "set (select_fds s) = insert (sel_fd s) (opened (sel_calls s))"
proof (rule set_eqI)
  fix i
  have "i < 100" if "i \<le> sel_mxfd s" using inv that by (simp add: select_inv_def)
  then show "i \<in> set (select_fds s) \<longleftrightarrow> i \<in> insert (sel_fd s) (opened (sel_calls s))"
    using select_arr [OF inv, of i] select_bounds [OF inv, of i] by (auto simp: select_fds_def less_Suc_eq_le)
qed

lemma select_table:
  assumes inv: "select_inv s"
  shows "select_table s = opened (sel_calls s)"
proof (rule set_eqI)
  fix i
  show "i \<in> select_table s \<longleftrightarrow> i \<in> opened (sel_calls s)"
    using inv select_arr [OF inv, of i] select_bounds [OF inv, of i] by (auto simp: select_table_def select_inv_def)
qed

text \<open>The part of the pass before the listening descriptor, and the two ways in which the round can go on there.\<close>

lemma select_before:
  assumes inv: "select_inv s" and k: "kernel_ok k" and r: "r = ready k (select_fds s)"
  shows "\<exists>t. foldM (select_visit k r) [3..<sel_fd s] s = Some t \<and> select_inv t \<and> sel_fd t = sel_fd s"
proof -
  let ?L = "sel_fd s" and ?J = "\<lambda>_ t. select_inv t \<and> sel_fd t = sel_fd s" and ?is = "filter (\<lambda>i. i \<in> set r) [3..<sel_fd s]"
  have sub: "set ?is \<subseteq> insert ?L (opened (sel_calls s))"
    using ready_given [OF k, of "select_fds s"] select_fds_set [OF inv] r by auto
  have "\<exists>t css. foldM (select_visit k r) ?is s = Some t \<and> ?J [] t \<and>
      list_all2 (handled (\<lambda>_. '' AA msg from server'') [] 99 k ?L) ?is css \<and> sel_calls t = sel_calls s @ concat css"
  proof (rule visit_all [where R = "set ?is" and J = ?J and calls = sel_calls, OF _ _ subset_refl _ sub])
    fix i and rest :: "nat list" and t
    assume "i \<in> set ?is" "?J (i # rest) t" "i \<in> insert ?L (opened (sel_calls t))"
    then show "\<exists>s' cs. select_visit k r i t = Some s' \<and> ?J rest s' \<and> sel_calls s' = sel_calls t @ cs \<and>
        handled (\<lambda>_. '' AA msg from server'') [] 99 k ?L i cs"
      by (intro select_visit_ok [OF k]) auto
  qed (use inv in simp_all)
  moreover have "foldM (select_visit k r) [3..<?L] s = foldM (select_visit k r) ?is s"
    by (rule foldM_filter) (simp add: select_visit_def)
  ultimately show ?thesis by auto
qed

lemma split_all_fds: "3 \<le> L \<Longrightarrow> L < 100 \<Longrightarrow> all_fds = [3..<L] @ L # [Suc L..<100]"
  unfolding all_fds_def by (metis less_imp_le_nat le_Suc_ex less_or_eq_imp_le upt_add_eq_append upt_conv_Cons)

lemma takeWhile_before: "x \<notin> set as \<Longrightarrow> takeWhile (\<lambda>i. i \<noteq> x) (as @ x # bs) = as"
  by (induction as) auto

lemma select_overflow:
  assumes inv: "select_inv s" and k: "kernel_ok k" and nf: "\<not> select_fits k s"
  shows "select_round k s = None"
proof -
  define r where "r = ready k (select_fds s)"
  obtain t where t: "foldM (select_visit k r) [3..<sel_fd s] s = Some t" "select_inv t" "sel_fd t = sel_fd s"
    using select_before [OF inv k r_def] by blast
  have L: "sel_fd s \<in> set r" "100 \<le> k_accept k (insert (sel_fd s) (opened (sel_calls t)))"
    using nf t(1) by (auto simp: select_fits_def r_def Let_def)
  have b: "3 \<le> sel_fd s" "sel_fd s < 100" "sel_fd t \<le> sel_mxfd t" "sel_arr t ! sel_fd t \<noteq> 0"
    using select_bounds [OF inv, of "sel_fd s"] select_bounds [OF t(2), of "sel_fd t"] select_arr [OF t(2), of "sel_fd t"] by auto
  have len: "length (sel_arr t) = 100" using t(2) by (simp add: select_inv_def)
  then have "select_visit k r (sel_fd s) t = None"
    using L b t(3) by (simp add: select_visit_def select_accept_def Let_def nat_less_iff)
  then have "foldM (select_visit k r) all_fds s = None"
    using t(1) by (simp add: split_all_fds [OF b(1,2)] foldM_append)
  moreover have "k_wait k (select_fds s) = Wait_ready r"
    using L(1) by (auto simp: r_def ready_def split: wait_result.splits)
  ultimately show ?thesis by (simp add: select_round_def)
qed

lemma select_round_ok:
  assumes inv: "select_inv s" and k: "kernel_ok k" "select_fits k s"
  shows "\<exists>go s' order css. select_round k s = Some (go, s') \<and> select_inv s' \<and> sel_fd s' = sel_fd s \<and>
    set (select_fds s) = insert (sel_fd s) (select_table s) \<and> distinct order \<and> set order = set (ready k (select_fds s)) \<and>
    list_all2 (handled (\<lambda>_. '' AA msg from server'') [] 99 k (sel_fd s)) order css \<and> sel_calls s' = sel_calls s @ concat css"
proof -
  let ?L = "sel_fd s" and ?fds = "select_fds s" and ?J = "\<lambda>t. select_inv t \<and> sel_fd t = sel_fd s"
  let ?v = "select_visit k (ready k ?fds)" and ?acc = "\<lambda>t. k_accept k (insert ?L (opened (sel_calls t))) < 100"
  let ?K = "\<lambda>order t. ?J t \<and> (?L \<in> set order \<longrightarrow> (\<forall>t'. foldM ?v (takeWhile (\<lambda>i. i \<noteq> ?L) order) t = Some t' \<longrightarrow> ?acc t'))"
  have fds: "set ?fds = insert ?L (opened (sel_calls s))" using inv by (rule select_fds_set)
  have range: "distinct all_fds" "set all_fds = {3..<100}" unfolding all_fds_def by (rule distinct_upt, rule set_upt)
  have first: "?K (filter (\<lambda>i. i \<in> set (ready k ?fds)) all_fds) s"
  proof (cases "?L \<in> set (ready k ?fds)")
    case True
    have L: "3 \<le> ?L" "?L < 100" using select_bounds [OF inv, of ?L] by simp_all
    have "takeWhile (\<lambda>i. i \<noteq> ?L) (filter (\<lambda>i. i \<in> set (ready k ?fds)) all_fds) = filter (\<lambda>i. i \<in> set (ready k ?fds)) [3..<?L]"
      unfolding split_all_fds [OF L] by (simp add: True takeWhile_before)
    moreover have "foldM ?v [3..<?L] s = foldM ?v (filter (\<lambda>i. i \<in> set (ready k ?fds)) [3..<?L]) s"
      by (rule foldM_filter) (simp add: select_visit_def)
    ultimately show ?thesis using k(2) True inv by (auto simp: select_fits_def Let_def)
  qed (use inv in simp)
  have "\<exists>s' order css. foldM (select_visit k (ready k ?fds)) all_fds s = Some s' \<and> ?J s' \<and> distinct order \<and>
    set order = set (ready k ?fds) \<and> list_all2 (handled (\<lambda>_. '' AA msg from server'') [] 99 k ?L) order css \<and>
    sel_calls s' = sel_calls s @ concat css"
  proof -
    have sub: "set (ready k ?fds) \<subseteq> set all_fds"
    proof
      fix i assume "i \<in> set (ready k ?fds)"
      then have "i \<in> insert ?L (opened (sel_calls s))" using ready_given [OF k(1), of ?fds] fds by blast
      from select_bounds [OF inv this] show "i \<in> set all_fds" by (simp add: range(2))
    qed
    have visit: "\<exists>s' cs. ?v i t = Some s' \<and> ?K rest s' \<and> sel_calls s' = sel_calls t @ cs \<and>
        handled (\<lambda>_. '' AA msg from server'') [] 99 k ?L i cs"
      if i: "i \<in> set (ready k ?fds)" "i \<notin> set rest" "i \<in> insert ?L (opened (sel_calls t))" and K: "?K (i # rest) t" for i rest t
    proof -
      have "\<exists>s' cs. ?v i t = Some s' \<and> ?J s' \<and> sel_calls s' = sel_calls t @ cs \<and>
          handled (\<lambda>_. '' AA msg from server'') [] 99 k ?L i cs"
        using i K by (intro select_visit_ok [OF k(1)]) auto
      then obtain s' cs where v: "?v i t = Some s'" "?J s'" "sel_calls s' = sel_calls t @ cs"
        "handled (\<lambda>_. '' AA msg from server'') [] 99 k ?L i cs" by blast
      have "?acc t'" if "?L \<in> set rest" "foldM ?v (takeWhile (\<lambda>i. i \<noteq> ?L) rest) s' = Some t'" for t'
      proof -
        have "i \<noteq> ?L" using i(2) that(1) by blast
        then show ?thesis using K that v(1) by auto
      qed
      with v show ?thesis by (intro exI [of _ s'] exI [of _ cs]) simp
    qed
    have skip: "?v i t = Some t" if "i \<notin> set (ready k ?fds)" for i t using that by (simp add: select_visit_def)
    show ?thesis
      using pass_ok [where J = ?K and calls = sel_calls, OF k(1) fds first range(1) sub skip visit] by blast
  qed
  moreover have "foldM (select_visit k []) all_fds s = Some s"
    by (subst foldM_filter [where P = "\<lambda>_. False"]) (simp_all add: select_visit_def)
  ultimately obtain go s' order css where "select_round k s = Some (go, s')" "?J s'" "distinct order"
    "set order = set (ready k ?fds)" "list_all2 (handled (\<lambda>_. '' AA msg from server'') [] 99 k ?L) order css"
    "sel_calls s' = sel_calls s @ concat css"
    by (cases "k_wait k ?fds") (auto simp: select_round_def ready_def)
  then show ?thesis using select_table [OF inv] fds by metis
qed

interpretation sel: fd_server select_round select_inv sel_fd select_table select_fds sel_calls select_fits "\<lambda>_. '' AA msg from server''" "[]" 99
  by unfold_locales (erule select_table, rule select_round_ok)

interpretation sel: exact_server select_round select_inv sel_fd select_table select_fds sel_calls select_fits "\<lambda>_. '' AA msg from server''" "[]" 99
  by unfold_locales (rule select_overflow)

section \<open>The poll server\<close>

text \<open>It keeps the same variables; the array that \<^verbatim>\<open>poll\<close> gets has 20 places, and the buffer 100 bytes.\<close>

definition poll_start :: "nat \<Rightarrow> fd_array option" where
  "poll_start fd = (if fd < 20 then select_start fd else None)"

definition poll_fds :: "fd_array \<Rightarrow> nat list" where
  "poll_fds s = filter (\<lambda>i. sel_arr s ! i \<noteq> 0) [0..<Suc (sel_mxfd s)]"

definition poll_accept :: "kernel \<Rightarrow> fd_array \<Rightarrow> fd_array option" where
  "poll_accept k s =
     (let n = k_accept k (insert (sel_fd s) (opened (sel_calls s)));
          s = s\<lparr>sel_calls := sel_calls s @ [Accept n]\<rparr>
      in if 0 \<le> n \<and> nat n < length (sel_arr s)
         then Some (s\<lparr>sel_arr := (sel_arr s)[nat n := 1], sel_mxfd := (if nat n > sel_mxfd s then nat n else sel_mxfd s)\<rparr>)
         else None)"

definition poll_recv :: "kernel \<Rightarrow> nat \<Rightarrow> fd_array \<Rightarrow> fd_array option" where
  "poll_recv k i s =
     (let res = k_recv k i 100; s = s\<lparr>sel_calls := sel_calls s @ [Recv i]\<rparr>
      in case res of
           Recv_error \<Rightarrow> Some s
         | Recv_data buf \<Rightarrow>
             if buf = [] then Some (s\<lparr>sel_arr := (sel_arr s)[i := 0], sel_calls := sel_calls s @ [Close i]\<rparr>)
             else if length buf < 100 then Some (s\<lparr>sel_calls := sel_calls s @ [Send i ''QQQ'']\<rparr>)
             else None)"

definition poll_visit :: "kernel \<Rightarrow> nat list \<Rightarrow> nat \<Rightarrow> fd_array \<Rightarrow> fd_array option" where
  "poll_visit k revents i s =
     (if i \<in> set revents then if i = sel_fd s then poll_accept k s else poll_recv k i s else Some s)"

definition poll_round :: "kernel \<Rightarrow> fd_array \<Rightarrow> (bool \<times> fd_array) option" where
  "poll_round k s =
     (let pfds = poll_fds s in
      if length pfds > 20 then None
      else case k_wait k pfds of
             Wait_error \<Rightarrow> Some (True, s)
           | Wait_timeout \<Rightarrow> Some (False, s)
           | Wait_ready revents \<Rightarrow> map_option (Pair True) (foldM (poll_visit k revents) pfds s))"

definition poll_fits :: "kernel \<Rightarrow> fd_array \<Rightarrow> bool" where
  "poll_fits k s \<longleftrightarrow> (\<forall>T \<subseteq> insert (sel_fd s) (opened (sel_calls s)). 0 \<le> k_accept k T \<and> k_accept k T < 100) \<and>
     (\<forall>i bs. k_recv k i 100 = Recv_data bs \<longrightarrow> length bs < 100) \<and> length (poll_fds s) \<le> 20"

lemma poll_fds_set: "select_inv s \<Longrightarrow> set (poll_fds s) = insert (sel_fd s) (opened (sel_calls s))"
proof (rule set_eqI)
  fix i assume inv: "select_inv s"
  have "i < 100" if "i \<le> sel_mxfd s" using inv that by (simp add: select_inv_def)
  then show "i \<in> set (poll_fds s) \<longleftrightarrow> i \<in> insert (sel_fd s) (opened (sel_calls s))"
    using select_arr [OF inv, of i] select_bounds [OF inv, of i] by (auto simp: poll_fds_def less_Suc_eq_le simp del: upt_Suc)
qed

lemma poll_visit_ok:
  assumes k: "kernel_ok k"
    "i = L \<Longrightarrow> 0 \<le> k_accept k (insert L (opened (sel_calls s))) \<and> k_accept k (insert L (opened (sel_calls s))) < 100"
    "\<forall>i bs. k_recv k i 100 = Recv_data bs \<longrightarrow> length bs < 100"
    and J: "select_inv s \<and> sel_fd s = L" and i: "i \<in> insert L (opened (sel_calls s))" "i \<in> set revents"
  shows "\<exists>s' cs. poll_visit k revents i s = Some s' \<and> (select_inv s' \<and> sel_fd s' = L) \<and> sel_calls s' = sel_calls s @ cs \<and>
    handled (\<lambda>_. ''QQQ'') [] 100 k L i cs"
proof (cases "i = L")
  case True
  define n where "n = k_accept k (insert L (opened (sel_calls s)))"
  have n: "0 \<le> n" "n < 100" "3 \<le> n \<and> nat n \<notin> insert L (opened (sel_calls s))"
    using k(2) [OF True] accept_fresh [OF k(1)] unfolding n_def by blast+
  then show ?thesis using i(2) J True
    by (auto simp: poll_visit_def poll_accept_def handled_def select_inv_def Let_def n_def [symmetric] opened_append nth_list_update)
next
  case False
  have "i < 100" using select_bounds J i by blast
  then show ?thesis using i J False k(3)
    by (cases "k_recv k i 100")
      (auto simp: poll_visit_def poll_recv_def handled_def select_inv_def Let_def opened_append nth_list_update)
qed

lemma poll_round_ok:
  assumes inv: "select_inv s" and k: "kernel_ok k" "poll_fits k s"
  shows "\<exists>go s' order css. poll_round k s = Some (go, s') \<and> select_inv s' \<and> sel_fd s' = sel_fd s \<and>
    set (poll_fds s) = insert (sel_fd s) (select_table s) \<and> distinct order \<and> set order = set (ready k (poll_fds s)) \<and>
    list_all2 (handled (\<lambda>_. ''QQQ'') [] 100 k (sel_fd s)) order css \<and> sel_calls s' = sel_calls s @ concat css"
proof -
  let ?L = "sel_fd s" and ?fds = "poll_fds s" and
    ?J = "\<lambda>rest t. (select_inv t \<and> sel_fd t = sel_fd s) \<and> (sel_fd s \<in> set rest \<longrightarrow> opened (sel_calls t) \<subseteq> opened (sel_calls s))"
  have fds: "set ?fds = insert ?L (opened (sel_calls s))" using inv by (rule poll_fds_set)
  have "\<exists>s' order css. foldM (poll_visit k (ready k ?fds)) ?fds s = Some s' \<and> ?J [] s' \<and> distinct order \<and>
    set order = set (ready k ?fds) \<and> list_all2 (handled (\<lambda>_. ''QQQ'') [] 100 k ?L) order css \<and>
    sel_calls s' = sel_calls s @ concat css"
  proof (rule pass_ok [where J = ?J and calls = sel_calls, OF k(1) fds])
    show "distinct ?fds" by (simp add: poll_fds_def)
    show "set (ready k ?fds) \<subseteq> set ?fds" using ready_given [OF k(1)] by blast
    fix i rest t assume i: "i \<in> set (ready k ?fds)" "i \<notin> set rest" "?J (i # rest) t" "i \<in> insert ?L (opened (sel_calls t))"
    have "\<exists>s' cs. poll_visit k (ready k ?fds) i t = Some s' \<and> (select_inv s' \<and> sel_fd s' = ?L) \<and> sel_calls s' = sel_calls t @ cs \<and>
        handled (\<lambda>_. ''QQQ'') [] 100 k ?L i cs"
    proof (rule poll_visit_ok [OF k(1)])
      assume "i = ?L"
      with i(3) have "insert ?L (opened (sel_calls t)) \<subseteq> insert ?L (opened (sel_calls s))" by auto
      then show "0 \<le> k_accept k (insert ?L (opened (sel_calls t))) \<and> k_accept k (insert ?L (opened (sel_calls t))) < 100"
        using k(2) by (simp add: poll_fits_def)
    qed (use i k(2) in \<open>simp_all add: poll_fits_def\<close>)
    moreover have "opened (sel_calls t @ cs) \<subseteq> opened (sel_calls s)"
      if "handled (\<lambda>_. ''QQQ'') [] 100 k ?L i cs" "?L \<in> set rest" for cs
      using that i(2,3) by (cases "i = ?L") (auto simp: handled_def opened_serve)
    ultimately show "\<exists>s' cs. poll_visit k (ready k ?fds) i t = Some s' \<and> ?J rest s' \<and> sel_calls s' = sel_calls t @ cs \<and>
        handled (\<lambda>_. ''QQQ'') [] 100 k ?L i cs" by metis
  qed (simp_all add: inv poll_visit_def)
  moreover have "foldM (poll_visit k []) ?fds s = Some s"
    by (subst foldM_filter [where P = "\<lambda>_. False"]) (simp_all add: poll_visit_def)
  ultimately obtain go s' order css where "poll_round k s = Some (go, s')" "?J [] s'" "distinct order"
    "set order = set (ready k ?fds)" "list_all2 (handled (\<lambda>_. ''QQQ'') [] 100 k ?L) order css"
    "sel_calls s' = sel_calls s @ concat css"
    using k(2) by (cases "k_wait k ?fds") (auto simp: poll_round_def poll_fits_def Let_def ready_def)
  then show ?thesis using select_table [OF inv] fds by metis
qed

interpretation pol: fd_server poll_round select_inv sel_fd select_table poll_fds sel_calls poll_fits "\<lambda>_. ''QQQ''" "[]" 100
  by unfold_locales (erule select_table, rule poll_round_ok)

text \<open>Where the limits matter: a failing \<^verbatim>\<open>accept\<close>, a message that fills the buffer, a 21st descriptor.\<close>

lemma poll_failures:
  "k_accept k (insert (sel_fd s) (opened (sel_calls s))) < 0 \<Longrightarrow> poll_accept k s = None"
  "k_recv k i 100 = Recv_data bs \<Longrightarrow> length bs = 100 \<Longrightarrow> poll_recv k i s = None"
  "20 < length (poll_fds s) \<Longrightarrow> poll_round k s = None"
  by (auto simp: poll_accept_def poll_recv_def poll_round_def Let_def)

section \<open>The epoll server\<close>

text \<open>The interest list is in the kernel; it holds the descriptors that were added and not removed.\<close>

record epoll_server =
  ep_fd :: nat
  ep_interest :: "nat list"
  ep_calls :: "sock_call list"

definition epoll_start :: "nat \<Rightarrow> epoll_server" where
  "epoll_start skfd = \<lparr>ep_fd = skfd, ep_interest = [skfd], ep_calls = []\<rparr>"

definition epoll_accept :: "kernel \<Rightarrow> epoll_server \<Rightarrow> epoll_server option" where
  "epoll_accept k s =
     (let conn_sock = k_accept k (insert (ep_fd s) (opened (ep_calls s)));
          s = s\<lparr>ep_calls := ep_calls s @ [Accept conn_sock]\<rparr>
      in Some (if conn_sock < 0 then s else s\<lparr>ep_interest := ep_interest s @ [nat conn_sock]\<rparr>))"

definition epoll_recv :: "kernel \<Rightarrow> nat \<Rightarrow> epoll_server \<Rightarrow> epoll_server option" where
  "epoll_recv k i s =
     (let res = k_recv k i 40; s = s\<lparr>ep_calls := ep_calls s @ [Recv i]\<rparr>
      in case res of
           Recv_error \<Rightarrow> Some s
         | Recv_data buf \<Rightarrow>
             if buf = [] then Some (s\<lparr>ep_interest := removeAll i (ep_interest s), ep_calls := ep_calls s @ [Close i]\<rparr>)
             else if length buf < 40 then Some (s\<lparr>ep_calls := ep_calls s @ [Send i ''___EDCRFV___'']\<rparr>)
             else None)"

definition epoll_visit :: "kernel \<Rightarrow> nat \<Rightarrow> epoll_server \<Rightarrow> epoll_server option" where
  "epoll_visit k i s = (if i = ep_fd s then epoll_accept k s else epoll_recv k i s)"

definition epoll_round :: "kernel \<Rightarrow> epoll_server \<Rightarrow> (bool \<times> epoll_server) option" where
  "epoll_round k s =
     (case k_wait k (ep_interest s) of
        Wait_error \<Rightarrow> Some (True, s)
      | Wait_timeout \<Rightarrow> Some (False, s)
      | Wait_ready events \<Rightarrow> map_option (Pair True) (foldM (epoll_visit k) events s))"

text \<open>At most 40 rounds, then both descriptors are closed.\<close>

definition epoll_main :: "kernel list \<Rightarrow> nat \<Rightarrow> epoll_server option" where
  "epoll_main ks skfd =
     do { s \<leftarrow> rounds epoll_round (take 40 ks) (epoll_start skfd);
          Some (s\<lparr>ep_calls := ep_calls s @ [Close (ep_fd s)]\<rparr>) }"

definition epoll_inv :: "epoll_server \<Rightarrow> bool" where
  "epoll_inv s \<longleftrightarrow> distinct (ep_interest s) \<and> set (ep_interest s) = insert (ep_fd s) (opened (ep_calls s)) \<and>
     ep_fd s \<notin> opened (ep_calls s)"

definition epoll_table :: "epoll_server \<Rightarrow> nat set" where
  "epoll_table s = set (ep_interest s) - {ep_fd s}"

definition epoll_fits :: "kernel \<Rightarrow> epoll_server \<Rightarrow> bool" where
  "epoll_fits k s \<longleftrightarrow> (\<forall>i bs. k_recv k i 40 = Recv_data bs \<longrightarrow> length bs < 40)"

lemma epoll_visit_ok:
  assumes k: "kernel_ok k" "epoll_fits k t" and J: "epoll_inv s \<and> ep_fd s = L" and i: "i \<in> insert L (opened (ep_calls s))"
  shows "\<exists>s' cs. epoll_visit k i s = Some s' \<and> (epoll_inv s' \<and> ep_fd s' = L) \<and> ep_calls s' = ep_calls s @ cs \<and>
    handled (\<lambda>_. ''___EDCRFV___'') [] 40 k L i cs"
proof (cases "i = L")
  case True
  define n where "n = k_accept k (insert L (opened (ep_calls s)))"
  have "0 \<le> n \<Longrightarrow> nat n \<notin> insert L (opened (ep_calls s))" using accept_fresh [OF k(1)] unfolding n_def by blast
  then show ?thesis using J True
    by (cases "n < 0") (auto simp: epoll_visit_def epoll_accept_def handled_def epoll_inv_def Let_def n_def [symmetric] opened_append)
next
  case False
  then show ?thesis using i J k(2)
    by (cases "k_recv k i 40")
      (auto simp: epoll_visit_def epoll_recv_def epoll_fits_def handled_def epoll_inv_def Let_def opened_append distinct_removeAll)
qed

lemma epoll_table: "epoll_inv s \<Longrightarrow> epoll_table s = opened (ep_calls s)"
  by (auto simp: epoll_inv_def epoll_table_def)

lemma epoll_round_ok:
  assumes inv: "epoll_inv s" and k: "kernel_ok k" "epoll_fits k s"
  shows "\<exists>go s' order css. epoll_round k s = Some (go, s') \<and> epoll_inv s' \<and> ep_fd s' = ep_fd s \<and>
    set (ep_interest s) = insert (ep_fd s) (epoll_table s) \<and> distinct order \<and> set order = set (ready k (ep_interest s)) \<and>
    list_all2 (handled (\<lambda>_. ''___EDCRFV___'') [] 40 k (ep_fd s)) order css \<and> ep_calls s' = ep_calls s @ concat css"
proof -
  let ?L = "ep_fd s" and ?r = "ready k (ep_interest s)" and ?J = "\<lambda>t. epoll_inv t \<and> ep_fd t = ep_fd s"
  have fds: "set (ep_interest s) = insert ?L (opened (ep_calls s))" using inv by (simp add: epoll_inv_def)
  have "\<exists>s' order css. foldM (epoll_visit k) ?r s = Some s' \<and> ?J s' \<and> distinct order \<and>
    set order = set ?r \<and> list_all2 (handled (\<lambda>_. ''___EDCRFV___'') [] 40 k ?L) order css \<and> ep_calls s' = ep_calls s @ concat css"
  proof (rule pass_ok [where J = "\<lambda>_. ?J" and calls = ep_calls, OF k(1) fds])
    fix i and rest :: "nat list" and t assume "?J t" "i \<in> insert ?L (opened (ep_calls t))"
    then show "\<exists>s' cs. epoll_visit k i t = Some s' \<and> ?J s' \<and> ep_calls s' = ep_calls t @ cs \<and>
        handled (\<lambda>_. ''___EDCRFV___'') [] 40 k ?L i cs"
      by (rule epoll_visit_ok [OF k])
  qed (simp_all add: inv ready_given [OF k(1)])
  then obtain go s' order css where "epoll_round k s = Some (go, s')" "?J s'" "distinct order"
    "set order = set ?r" "list_all2 (handled (\<lambda>_. ''___EDCRFV___'') [] 40 k ?L) order css" "ep_calls s' = ep_calls s @ concat css"
    by (cases "k_wait k (ep_interest s)") (auto simp: epoll_round_def ready_def)
  then show ?thesis using epoll_table [OF inv] fds by metis
qed

interpretation epo: fd_server epoll_round epoll_inv ep_fd epoll_table ep_interest ep_calls epoll_fits "\<lambda>_. ''___EDCRFV___''" "[]" 40
  by unfold_locales (erule epoll_table, rule epoll_round_ok)

lemma epoll_failure: "k_recv k i 40 = Recv_data bs \<Longrightarrow> length bs = 40 \<Longrightarrow> epoll_recv k i s = None"
  by (auto simp: epoll_recv_def Let_def)

section \<open>The libev server\<close>

text \<open>The watchers of the clients are on the heap; the loop of libev calls the callbacks of the ready ones.\<close>

record ev_server =
  ev_listener :: nat
  ev_watchers :: "nat list"
  ev_calls :: "sock_call list"

definition ev_start :: "nat \<Rightarrow> ev_server" where
  "ev_start listener_fd = \<lparr>ev_listener = listener_fd, ev_watchers = [listener_fd], ev_calls = []\<rparr>"

definition process_client_data :: "kernel \<Rightarrow> nat \<Rightarrow> ev_server \<Rightarrow> ev_server" where
  "process_client_data k i s =
     (if k_everr k i then s
      else let nread = k_recv k i 1023; s = s\<lparr>ev_calls := ev_calls s @ [Recv i]\<rparr>
           in case nread of
                Recv_error \<Rightarrow> s
              | Recv_data buffer \<Rightarrow>
                  if buffer = [] then s\<lparr>ev_watchers := removeAll i (ev_watchers s), ev_calls := ev_calls s @ [Close i]\<rparr>
                  else s\<lparr>ev_calls := ev_calls s @ [Send i buffer]\<rparr>)"

definition generate_evio_for_client_conn :: "nat \<Rightarrow> ev_server \<Rightarrow> ev_server" where
  "generate_evio_for_client_conn client_fd s = s\<lparr>ev_watchers := ev_watchers s @ [client_fd]\<rparr>"

definition accept_cb :: "kernel \<Rightarrow> ev_server \<Rightarrow> ev_server" where
  "accept_cb k s =
     (let client_fd = k_accept k (insert (ev_listener s) (opened (ev_calls s)));
          s = s\<lparr>ev_calls := ev_calls s @ [Accept client_fd]\<rparr>
      in if client_fd < 0 then s else generate_evio_for_client_conn (nat client_fd) s)"

definition ev_visit :: "kernel \<Rightarrow> nat \<Rightarrow> ev_server \<Rightarrow> ev_server option" where
  "ev_visit k i s = Some (if i = ev_listener s then accept_cb k s else process_client_data k i s)"

definition ev_round :: "kernel \<Rightarrow> ev_server \<Rightarrow> (bool \<times> ev_server) option" where
  "ev_round k s = map_option (Pair True) (foldM (ev_visit k) (ready k (ev_watchers s)) s)"

definition ev_inv :: "ev_server \<Rightarrow> bool" where
  "ev_inv s \<longleftrightarrow> distinct (ev_watchers s) \<and> set (ev_watchers s) = insert (ev_listener s) (opened (ev_calls s)) \<and>
     ev_listener s \<notin> opened (ev_calls s)"

definition ev_table :: "ev_server \<Rightarrow> nat set" where
  "ev_table s = set (ev_watchers s) - {ev_listener s}"

definition ev_fits :: "kernel \<Rightarrow> ev_server \<Rightarrow> bool" where
  "ev_fits k s \<longleftrightarrow> (\<forall>i. \<not> k_everr k i)"

lemma ev_visit_ok:
  assumes k: "kernel_ok k" "ev_fits k t" and J: "ev_inv s \<and> ev_listener s = L" and i: "i \<in> insert L (opened (ev_calls s))"
  shows "\<exists>s' cs. ev_visit k i s = Some s' \<and> (ev_inv s' \<and> ev_listener s' = L) \<and> ev_calls s' = ev_calls s @ cs \<and>
    handled id [] 1023 k L i cs"
proof (cases "i = L")
  case True
  define n where "n = k_accept k (insert L (opened (ev_calls s)))"
  have "0 \<le> n \<Longrightarrow> nat n \<notin> insert L (opened (ev_calls s))" using accept_fresh [OF k(1)] unfolding n_def by blast
  then show ?thesis using J True
    by (cases "n < 0") (auto simp: ev_visit_def accept_cb_def generate_evio_for_client_conn_def handled_def ev_inv_def Let_def
      n_def [symmetric] opened_append)
next
  case False
  then show ?thesis using i J k(2)
    by (cases "k_recv k i 1023")
      (auto simp: ev_visit_def process_client_data_def ev_fits_def handled_def ev_inv_def Let_def opened_append distinct_removeAll)
qed

lemma ev_table: "ev_inv s \<Longrightarrow> ev_table s = opened (ev_calls s)"
  by (auto simp: ev_inv_def ev_table_def)

lemma ev_round_ok:
  assumes inv: "ev_inv s" and k: "kernel_ok k" "ev_fits k s"
  shows "\<exists>go s' order css. ev_round k s = Some (go, s') \<and> ev_inv s' \<and> ev_listener s' = ev_listener s \<and>
    set (ev_watchers s) = insert (ev_listener s) (ev_table s) \<and> distinct order \<and> set order = set (ready k (ev_watchers s)) \<and>
    list_all2 (handled id [] 1023 k (ev_listener s)) order css \<and> ev_calls s' = ev_calls s @ concat css"
proof -
  let ?L = "ev_listener s" and ?r = "ready k (ev_watchers s)" and ?J = "\<lambda>t. ev_inv t \<and> ev_listener t = ev_listener s"
  have fds: "set (ev_watchers s) = insert ?L (opened (ev_calls s))" using inv by (simp add: ev_inv_def)
  have "\<exists>s' order css. foldM (ev_visit k) ?r s = Some s' \<and> ?J s' \<and> distinct order \<and>
    set order = set ?r \<and> list_all2 (handled id [] 1023 k ?L) order css \<and> ev_calls s' = ev_calls s @ concat css"
  proof (rule pass_ok [where J = "\<lambda>_. ?J" and calls = ev_calls, OF k(1) fds])
    fix i and rest :: "nat list" and t assume "?J t" "i \<in> insert ?L (opened (ev_calls t))"
    then show "\<exists>s' cs. ev_visit k i t = Some s' \<and> ?J s' \<and> ev_calls s' = ev_calls t @ cs \<and> handled id [] 1023 k ?L i cs"
      by (rule ev_visit_ok [OF k])
  qed (simp_all add: inv ready_given [OF k(1)])
  then show ?thesis using ev_table [OF inv] fds unfolding ev_round_def by (metis option.simps(9))
qed

interpretation lev: fd_server ev_round ev_inv ev_listener ev_table ev_watchers ev_calls ev_fits id "[]" 1023
  by unfold_locales (erule ev_table, rule ev_round_ok)

section \<open>The echo server\<close>

text \<open>
  \<^verbatim>\<open>socket/02_server_select.c\<close> has 30 places for clients, 0 being a free one. After an error of \<^verbatim>\<open>select\<close> the set is as it
  was given; descriptors from 1024 on are outside of a set. The answer ends at the first null byte.
\<close>

definition max_clients :: nat where "max_clients = 30"

record echo_server =
  es_master :: nat
  es_client :: "nat list"
  es_calls :: "sock_call list"

definition echo_start :: "nat \<Rightarrow> echo_server" where
  "echo_start master = \<lparr>es_master = master, es_client = replicate max_clients 0, es_calls = []\<rparr>"

definition echo_message :: string where "echo_message = ''echo demo v1.0'' @ [CR, LF]"

fun store_client :: "nat \<Rightarrow> nat list \<Rightarrow> nat list" where
  "store_client n [] = []"
| "store_client n (sd # sds) = (if sd = 0 then n # sds else sd # store_client n sds)"

definition echo_accept :: "kernel \<Rightarrow> echo_server \<Rightarrow> echo_server option" where
  "echo_accept k s =
     (let new_socket = k_accept k (insert (es_master s) (opened (es_calls s)))
      in if new_socket < 0 then None
         else Some (s\<lparr>es_client := store_client (nat new_socket) (es_client s),
                      es_calls := es_calls s @ [Accept new_socket, Send (nat new_socket) echo_message]\<rparr>))"

definition c_string :: "string \<Rightarrow> string" where "c_string s = takeWhile (\<lambda>c. c \<noteq> CHR 0x00) s"

definition echo_visit :: "kernel \<Rightarrow> nat list \<Rightarrow> nat \<Rightarrow> echo_server \<Rightarrow> echo_server option" where
  "echo_visit k readfds i s =
     (let sd = es_client s ! i in
      if sd \<in> set readfds then
        (let valread = k_recv k sd 1024; s = s\<lparr>es_calls := es_calls s @ [Recv sd]\<rparr>
         in case valread of
              Recv_error \<Rightarrow> None
            | Recv_data buffer \<Rightarrow>
                Some (if buffer = [] then s\<lparr>es_client := (es_client s)[i := 0], es_calls := es_calls s @ [Close sd]\<rparr>
                      else s\<lparr>es_calls := es_calls s @ [Send sd (c_string buffer)]\<rparr>))
      else Some s)"

definition echo_fds :: "echo_server \<Rightarrow> nat list" where
  "echo_fds s = es_master s # filter (\<lambda>sd. sd > 0) (es_client s)"

definition echo_round :: "kernel \<Rightarrow> echo_server \<Rightarrow> (bool \<times> echo_server) option" where
  "echo_round k s =
     (let fds = echo_fds s in
      if list_ex (\<lambda>sd. sd \<ge> 1024) fds then None
      else let readfds = (case k_wait k fds of Wait_error \<Rightarrow> fds | Wait_ready r \<Rightarrow> r | Wait_timeout \<Rightarrow> []) in
           do { s \<leftarrow> (if es_master s \<in> set readfds then echo_accept k s else Some s);
                s \<leftarrow> foldM (echo_visit k readfds) [0..<max_clients] s;
                Some (True, s) })"

definition echo_inv :: "echo_server \<Rightarrow> bool" where
  "echo_inv s \<longleftrightarrow> length (es_client s) = max_clients \<and> distinct (filter (\<lambda>sd. sd > 0) (es_client s)) \<and>
     set (es_client s) - {0} = opened (es_calls s) \<and> 0 < es_master s \<and> es_master s \<notin> opened (es_calls s) \<and> 0 \<notin> opened (es_calls s)"

definition echo_table :: "echo_server \<Rightarrow> nat set" where
  "echo_table s = set (es_client s) - {0}"

text \<open>
  What the round expects: \<^verbatim>\<open>select\<close> works, and a new connection finds a free place. And what ends the program: a descriptor
  that does not fit into a set, or an error of \<^verbatim>\<open>accept\<close> or of \<^verbatim>\<open>read\<close>, for example that a client reset its connection.
\<close>

definition echo_fits :: "kernel \<Rightarrow> echo_server \<Rightarrow> bool" where
  "echo_fits k s \<longleftrightarrow> k_wait k (echo_fds s) \<noteq> Wait_error \<and>
     (es_master s \<in> set (ready k (echo_fds s)) \<longrightarrow> 0 \<in> set (es_client s))"

definition echo_fails :: "kernel \<Rightarrow> echo_server \<Rightarrow> bool" where
  "echo_fails k s \<longleftrightarrow> (\<exists>sd\<in>set (echo_fds s). 1024 \<le> sd) \<or>
     (es_master s \<in> set (ready k (echo_fds s)) \<and> k_accept k (insert (es_master s) (opened (es_calls s))) < 0) \<or>
     (\<exists>sd\<in>set (ready k (echo_fds s)) - {es_master s}. k_recv k sd 1024 = Recv_error)"

lemma length_store_client [simp]: "length (store_client n sds) = length sds"
  by (induction sds) auto

lemma set_store_client: "0 \<in> set sds \<Longrightarrow> set (store_client n sds) - {0} = insert n (set sds) - {0}"
  by (induction sds) auto

lemma filter_store_client:
  "0 < n \<Longrightarrow> n \<notin> set sds \<Longrightarrow> distinct (filter (\<lambda>sd. sd > 0) sds) \<Longrightarrow> distinct (filter (\<lambda>sd. sd > 0) (store_client n sds))"
proof (induction sds)
  case (Cons sd sds)
  have "set (store_client n sds) \<subseteq> insert n (set sds)" by (induction sds) auto
  with Cons show ?case by auto
qed simp

lemma filter_store_other: "n \<notin> R \<Longrightarrow> 0 \<notin> R \<Longrightarrow> filter (\<lambda>sd. sd \<in> R) (store_client n sds) = filter (\<lambda>sd. sd \<in> R) sds"
  by (induction sds) auto

lemma echo_invD:
  assumes "echo_inv s"
  shows "length (es_client s) = max_clients" "distinct (filter (\<lambda>sd. sd > 0) (es_client s))"
    "set (es_client s) - {0} = opened (es_calls s)" "0 < es_master s" "es_master s \<notin> opened (es_calls s)" "0 \<notin> opened (es_calls s)"
  using assms by - (unfold echo_inv_def, (elim conjE, assumption)+)

lemma echo_opened: "echo_inv s \<Longrightarrow> sd \<in> set (es_client s) \<Longrightarrow> sd \<noteq> 0 \<Longrightarrow> sd \<in> opened (es_calls s)"
  unfolding echo_inv_def by blast

lemma echo_accept_ok:
  assumes k: "kernel_ok k" "0 \<le> k_accept k (insert (es_master s) (opened (es_calls s)))" and inv: "echo_inv s" and free: "0 \<in> set (es_client s)"
  shows "\<exists>n s'. echo_accept k s = Some s' \<and> echo_inv s' \<and> es_master s' = es_master s \<and>
    es_calls s' = es_calls s @ [Accept n, Send (nat n) echo_message] \<and> 3 \<le> n \<and> nat n \<notin> insert (es_master s) (opened (es_calls s)) \<and>
    es_client s' = store_client (nat n) (es_client s)"
proof -
  define n where "n = k_accept k (insert (es_master s) (opened (es_calls s)))"
  have n: "0 \<le> n" "3 \<le> n" "nat n \<notin> insert (es_master s) (opened (es_calls s))"
    using k(2) accept_fresh [OF k(1)] unfolding n_def by blast+
  have "nat n \<notin> set (es_client s)" using n echo_opened [OF inv, of "nat n"] by auto
  then have "distinct (filter (\<lambda>sd. sd > 0) (store_client (nat n) (es_client s)))"
    using n inv by (intro filter_store_client) (simp_all add: echo_inv_def)
  moreover have "set (store_client (nat n) (es_client s)) - {0} = insert (nat n) (opened (es_calls s))"
    using set_store_client [OF free, of "nat n"] n inv by (simp add: echo_inv_def insert_Diff_if)
  moreover define s' where "s' = s\<lparr>es_client := store_client (nat n) (es_client s),
      es_calls := es_calls s @ [Accept n, Send (nat n) echo_message]\<rparr>"
  have "opened (es_calls s') = insert (nat n) (opened (es_calls s))" using n(1) by (simp add: s'_def opened_append)
  ultimately have "echo_inv s'" using n inv by (simp add: echo_inv_def s'_def)
  moreover have "echo_accept k s = Some s'" using n(1) by (simp add: echo_accept_def s'_def n_def Let_def)
  ultimately show ?thesis using n by (intro exI [of _ n] exI [of _ s']) (simp add: s'_def)
qed

lemma clear_slot:
  assumes "distinct (filter (\<lambda>sd. sd > 0) xs)" "i < length xs" "0 < xs ! i"
  shows "set (xs[i := 0]) - {0} = set xs - {0} - {xs ! i} \<and> distinct (filter (\<lambda>sd. sd > 0) (xs[i := 0 :: nat]))"
proof -
  define us v vs where "us = take i xs" and "v = xs ! i" and "vs = drop (Suc i) xs"
  have xs: "xs = us @ v # vs" "xs[i := 0] = us @ 0 # vs"
    using assms(2) by (simp_all add: us_def v_def vs_def id_take_nth_drop [symmetric] upd_conv_take_nth_drop)
  have "v \<notin> set us \<union> set vs" using assms(1,3) unfolding v_def [symmetric] by (auto simp: xs(1))
  then show ?thesis using assms(1,3) unfolding xs(2) v_def [symmetric] by (auto simp: xs(1))
qed

lemma echo_visit_ok:
  assumes k: "k_recv k (es_client s ! i) 1024 \<noteq> Recv_error" and inv: "echo_inv s" and i: "i < max_clients"
    and sd: "es_client s ! i \<in> set r" "0 \<notin> set r"
  shows "\<exists>s' cs. echo_visit k r i s = Some s' \<and> echo_inv s' \<and> es_master s' = es_master s \<and> es_calls s' = es_calls s @ cs \<and>
    handled c_string [echo_message] 1024 k (es_master s) (es_client s ! i) cs \<and> drop (Suc i) (es_client s') = drop (Suc i) (es_client s)"
proof -
  let ?sd = "es_client s ! i"
  have len: "i < length (es_client s)" using i inv by (simp add: echo_inv_def)
  have pos: "0 < ?sd" using sd by (metis gr0I)
  have "?sd \<in> opened (es_calls s)" using echo_opened [OF inv nth_mem [OF len]] pos by simp
  then have ne: "?sd \<noteq> es_master s" using echo_invD(5) [OF inv] by metis
  obtain buf where buf: "k_recv k ?sd 1024 = Recv_data buf" using k by (cases "k_recv k ?sd 1024") auto
  show ?thesis
  proof (cases "buf = []")
    case True
    let ?s = "s\<lparr>es_client := (es_client s)[i := 0], es_calls := es_calls s @ [Recv ?sd, Close ?sd]\<rparr>"
    note d = echo_invD(2) [OF inv] and sub = echo_invD(3) [OF inv]
    have op: "opened (es_calls ?s) = opened (es_calls s) - {?sd}" by (simp add: opened_append)
    have "set (es_client ?s) - {0} = opened (es_calls ?s)" "distinct (filter (\<lambda>sd. sd > 0) (es_client ?s))"
      using clear_slot [OF d len pos] unfolding op sub [symmetric] by simp_all
    then have "echo_inv ?s" unfolding echo_inv_def op using echo_invD [OF inv] by simp
    then show ?thesis using True buf ne sd
      by (intro exI [of _ ?s] exI [of _ "[Recv ?sd, Close ?sd]"]) (simp add: echo_visit_def Let_def handled_def)
  next
    case False
    let ?s = "s\<lparr>es_calls := es_calls s @ [Recv ?sd, Send ?sd (c_string buf)]\<rparr>"
    have "echo_inv ?s" using inv by (simp add: echo_inv_def opened_append)
    then show ?thesis using False buf ne sd
      by (intro exI [of _ ?s] exI [of _ "[Recv ?sd, Send ?sd (c_string buf)]"]) (simp add: echo_visit_def Let_def handled_def)
  qed
qed

lemma echo_scan:
  assumes k: "\<forall>sd\<in>set r - {L}. k_recv k sd 1024 \<noteq> Recv_error" and r: "0 \<notin> set r"
  shows "echo_inv s \<Longrightarrow> es_master s = L \<Longrightarrow> a \<le> max_clients \<Longrightarrow> \<exists>s' css. foldM (echo_visit k r) [a..<max_clients] s = Some s' \<and> echo_inv s' \<and>
    es_master s' = es_master s \<and> es_calls s' = es_calls s @ concat css \<and>
    list_all2 (handled c_string [echo_message] 1024 k (es_master s)) (filter (\<lambda>sd. sd \<in> set r) (drop a (es_client s))) css"
proof (induction "max_clients - a" arbitrary: a s)
  case 0
  then have "a = max_clients" "drop a (es_client s) = []" by (simp_all add: echo_inv_def)
  with 0 show ?case by (auto intro: exI [of _ "[]"])
next
  case (Suc n)
  then have a: "a < max_clients" "n = max_clients - Suc a" by simp_all
  have d: "drop a (es_client s) = es_client s ! a # drop (Suc a) (es_client s)"
    using a Suc.prems by (simp add: Cons_nth_drop_Suc echo_inv_def)
  obtain s1 cs where 1: "echo_visit k r a s = Some s1" "echo_inv s1" "es_master s1 = es_master s" "es_calls s1 = es_calls s @ cs"
    "drop (Suc a) (es_client s1) = drop (Suc a) (es_client s)"
    "if es_client s ! a \<in> set r then handled c_string [echo_message] 1024 k (es_master s) (es_client s ! a) cs else cs = []"
  proof (cases "es_client s ! a \<in> set r")
    case True
    have "es_client s ! a \<in> set (es_client s)" using a Suc.prems by (simp add: echo_inv_def)
    moreover have "es_client s ! a \<noteq> 0" using True r by metis
    ultimately have "es_client s ! a \<in> opened (es_calls s)" by (rule echo_opened [OF Suc.prems(1)])
    then have "es_client s ! a \<noteq> L" using echo_invD(5) [OF Suc.prems(1)] Suc.prems(2) by metis
    then have "k_recv k (es_client s ! a) 1024 \<noteq> Recv_error" using k True by blast
    from echo_visit_ok [OF this Suc.prems(1) a(1) True r] obtain s1 cs where "echo_visit k r a s = Some s1" "echo_inv s1"
      "es_master s1 = es_master s" "es_calls s1 = es_calls s @ cs" "handled c_string [echo_message] 1024 k (es_master s) (es_client s ! a) cs"
      "drop (Suc a) (es_client s1) = drop (Suc a) (es_client s)" by blast
    with True show ?thesis by (intro that [of s1 cs]) simp_all
  next
    case False
    then show ?thesis using that [of s "[]"] Suc.prems by (simp add: echo_visit_def Let_def)
  qed
  from Suc.hyps(1) [OF a(2) 1(2)] a(1) 1(3) Suc.prems(2) obtain s' css where
    "foldM (echo_visit k r) [Suc a..<max_clients] s1 = Some s'" "echo_inv s'" "es_master s' = es_master s1"
    "es_calls s' = es_calls s1 @ concat css"
    "list_all2 (handled c_string [echo_message] 1024 k (es_master s1)) (filter (\<lambda>sd. sd \<in> set r) (drop (Suc a) (es_client s1))) css"
    by auto
  with 1 d show ?case unfolding upt_conv_Cons [OF a(1)]
    by (intro exI [of _ s'] exI [of _ "if es_client s ! a \<in> set r then cs # css else css"]) (auto split: if_splits)
qed

lemma echo_table: "echo_inv s \<Longrightarrow> echo_table s = opened (es_calls s)"
  by (simp add: echo_inv_def echo_table_def)

lemma echo_round_ok:
  assumes inv: "echo_inv s" and k: "kernel_ok k" "echo_fits k s \<and> \<not> echo_fails k s"
  shows "\<exists>go s' order css. echo_round k s = Some (go, s') \<and> echo_inv s' \<and> es_master s' = es_master s \<and>
    set (echo_fds s) = insert (es_master s) (echo_table s) \<and> distinct order \<and> set order = set (ready k (echo_fds s)) \<and>
    list_all2 (handled c_string [echo_message] 1024 k (es_master s)) order css \<and> es_calls s' = es_calls s @ concat css"
proof -
  let ?L = "es_master s" and ?fds = "echo_fds s" let ?r = "ready k ?fds"
  have fds: "set ?fds = insert ?L (echo_table s)" by (auto simp: echo_fds_def echo_table_def)
  have r: "distinct ?r" "set ?r \<subseteq> set ?fds" using ready_given [OF k(1)] by blast+
  have zero: "0 \<notin> set ?r" using r(2) fds inv by (auto simp: echo_inv_def echo_table_def)
  have noerr: "\<forall>sd\<in>set ?r - {?L}. k_recv k sd 1024 \<noteq> Recv_error" using k(2) by (simp add: echo_fails_def)
  define clients where "clients = filter (\<lambda>sd. sd \<in> set ?r) (es_client s)"
  have "distinct (filter (\<lambda>sd. sd \<in> set ?r) (filter (\<lambda>sd. sd > 0) (es_client s)))"
    by (rule distinct_filter, rule echo_invD(2) [OF inv])
  moreover have "filter (\<lambda>sd. sd \<in> set ?r) (filter (\<lambda>sd. sd > 0) (es_client s)) = clients"
    using zero unfolding clients_def filter_filter by (intro filter_cong refl) (metis gr0I)
  ultimately have dist: "distinct clients" by (simp only:)
  have master: "?L \<notin> set (es_client s)" using echo_opened [OF inv, of ?L] echo_invD(4,5) [OF inv] by auto
  have cl: "set clients = set ?r - {?L}" using r(2) fds master by (auto simp: clients_def echo_table_def)
  have rd: "echo_round k s = do { s \<leftarrow> (if ?L \<in> set ?r then echo_accept k s else Some s);
      s \<leftarrow> foldM (echo_visit k ?r) [0..<max_clients] s; Some (True, s) }"
    using k(2) by (cases "k_wait k ?fds") (auto simp: echo_round_def echo_fits_def echo_fails_def ready_def Let_def list_ex_iff)
  show ?thesis
  proof (cases "?L \<in> set ?r")
    case True
    with k(2) have "0 \<in> set (es_client s)" "0 \<le> k_accept k (insert ?L (opened (es_calls s)))"
      by (auto simp: echo_fits_def echo_fails_def)
    with echo_accept_ok [OF k(1) _ inv] obtain n s1 where 1: "echo_accept k s = Some s1" "echo_inv s1" "es_master s1 = ?L"
      "es_calls s1 = es_calls s @ [Accept n, Send (nat n) echo_message]" "3 \<le> n" "nat n \<notin> insert ?L (opened (es_calls s))"
      "es_client s1 = store_client (nat n) (es_client s)" by blast
    have "nat n \<notin> set ?r" using 1(6) r(2) fds echo_table [OF inv] by blast
    then have cl1: "filter (\<lambda>sd. sd \<in> set ?r) (es_client s1) = clients" using filter_store_other [OF _ zero] 1(7) by (simp add: clients_def)
    from echo_scan [OF noerr zero 1(2,3), of 0] obtain s' css where s': "foldM (echo_visit k ?r) [0..<max_clients] s1 = Some s'"
      "echo_inv s'" "es_master s' = ?L" "es_calls s' = es_calls s1 @ concat css"
      "list_all2 (handled c_string [echo_message] 1024 k ?L) clients css" using 1(3) cl1 by auto
    have "handled c_string [echo_message] 1024 k ?L ?L [Accept n, Send (nat n) echo_message]"
      using 1(5) by (auto simp: handled_def)
    then have "list_all2 (handled c_string [echo_message] 1024 k ?L) (?L # clients) ([Accept n, Send (nat n) echo_message] # css)"
      using s'(5) by simp
    moreover have "distinct (?L # clients)" "set (?L # clients) = set ?r" using dist cl True by auto
    moreover have "echo_round k s = Some (True, s')" using rd 1(1) s'(1) True by simp
    moreover have "es_calls s' = es_calls s @ concat ([Accept n, Send (nat n) echo_message] # css)" using 1(4) s'(4) by simp
    ultimately show ?thesis using s'(2,3) fds by blast
  next
    case False
    from echo_scan [OF noerr zero inv refl, of 0] obtain s' css where s': "foldM (echo_visit k ?r) [0..<max_clients] s = Some s'"
      "echo_inv s'" "es_master s' = ?L" "es_calls s' = es_calls s @ concat css"
      "list_all2 (handled c_string [echo_message] 1024 k ?L) clients css" by (auto simp: clients_def)
    moreover have "set clients = set ?r" using cl False by simp
    moreover have "echo_round k s = Some (True, s')" using rd s'(1) False by simp
    ultimately show ?thesis using dist fds by blast
  qed
qed

interpretation ech: fd_server echo_round echo_inv es_master echo_table echo_fds es_calls "\<lambda>k s. echo_fits k s \<and> \<not> echo_fails k s" c_string "[echo_message]" 1024
  by unfold_locales (erule echo_table, rule echo_round_ok)

text \<open>An error of \<^verbatim>\<open>read\<close> on one connection ends the program, and so do the other two failures.\<close>

lemma echo_scan_fails:
  assumes err: "sd \<in> set r" "k_recv k sd 1024 = Recv_error"
  shows "length (es_client s) = max_clients \<Longrightarrow> a \<le> max_clients \<Longrightarrow> sd \<in> set (drop a (es_client s)) \<Longrightarrow>
    foldM (echo_visit k r) [a..<max_clients] s = None"
proof (induction "max_clients - a" arbitrary: a s)
  case (Suc n)
  then have a: "a < max_clients" "n = max_clients - Suc a" by simp_all
  have d: "drop a (es_client s) = es_client s ! a # drop (Suc a) (es_client s)" using a Suc.prems by (simp add: Cons_nth_drop_Suc)
  show ?case
  proof (cases "echo_visit k r a s")
    case (Some s1)
    then have "es_client s ! a \<noteq> sd" using err by (auto simp: echo_visit_def Let_def)
    then have "sd \<in> set (drop (Suc a) (es_client s))" using Suc.prems(3) d by simp
    moreover have "length (es_client s1) = max_clients" "drop (Suc a) (es_client s1) = drop (Suc a) (es_client s)"
      using Some Suc.prems(1) by (auto simp: echo_visit_def Let_def split: if_splits recv_result.splits)
    ultimately have "foldM (echo_visit k r) [Suc a..<max_clients] s1 = None" using Suc.hyps(1) [OF a(2)] a(1) by simp
    then show ?thesis using Some by (simp add: upt_conv_Cons [OF a(1)])
  qed (simp add: upt_conv_Cons [OF a(1)])
qed simp

lemma set_store_keeps: "sd \<in> set sds \<Longrightarrow> sd \<noteq> 0 \<Longrightarrow> sd \<in> set (store_client n sds)"
  by (induction sds) auto

lemma echo_round_fails:
  assumes inv: "echo_inv s" and k: "kernel_ok k" and wait: "k_wait k (echo_fds s) \<noteq> Wait_error" and fails: "echo_fails k s"
  shows "echo_round k s = None"
proof (cases "\<exists>sd\<in>set (echo_fds s). 1024 \<le> sd")
  case True
  then show ?thesis by (simp add: echo_round_def list_ex_iff Let_def)
next
  case False
  let ?r = "ready k (echo_fds s)" and ?L = "es_master s"
  have rd: "echo_round k s = do { s \<leftarrow> (if ?L \<in> set ?r then echo_accept k s else Some s);
      s \<leftarrow> foldM (echo_visit k ?r) [0..<max_clients] s; Some (True, s) }"
    using False wait by (cases "k_wait k (echo_fds s)") (auto simp: echo_round_def ready_def Let_def list_ex_iff)
  show ?thesis
  proof (cases "?L \<in> set ?r \<and> k_accept k (insert ?L (opened (es_calls s))) < 0")
    case True
    then show ?thesis by (simp add: rd echo_accept_def)
  next
    case nacc: False
    then obtain sd where sd: "sd \<in> set ?r" "sd \<noteq> ?L" "k_recv k sd 1024 = Recv_error" using fails False by (auto simp: echo_fails_def)
    then have c: "sd \<in> set (es_client s)" "sd \<noteq> 0" using ready_given [OF k, of "echo_fds s"] by (auto simp: echo_fds_def)
    have len: "length (es_client s) = max_clients" by (rule echo_invD(1) [OF inv])
    have "foldM (echo_visit k ?r) [0..<max_clients] t = None"
      if "(if ?L \<in> set ?r then echo_accept k s else Some s) = Some t" for t
      using that c len set_store_keeps [OF c]
      by (intro echo_scan_fails [OF sd(1,3)]) (auto simp: echo_accept_def Let_def split: if_splits)
    then show ?thesis unfolding rd by (cases "if ?L \<in> set ?r then echo_accept k s else Some s") auto
  qed
qed

text \<open>When all 30 places are taken, a new connection is greeted and then forgotten.\<close>

lemma echo_full: "0 \<notin> set sds \<Longrightarrow> store_client n sds = sds"
  by (induction sds) auto

section \<open>The servers from their start\<close>

lemma opened_Nil [simp]: "opened [] = {}"
  by (simp add: opened_def)

lemma select_start_inv: "3 \<le> fd \<Longrightarrow> select_start fd = Some s \<Longrightarrow> select_inv s \<and> sel_fd s = fd"
  by (auto simp: select_start_def select_inv_def nth_list_update split: if_splits)

lemma poll_start_inv: "3 \<le> fd \<Longrightarrow> poll_start fd = Some s \<Longrightarrow> select_inv s \<and> sel_fd s = fd"
  using select_start_inv by (auto simp: poll_start_def split: if_splits)

lemma epoll_start_inv: "epoll_inv (epoll_start fd)"
  by (simp add: epoll_inv_def epoll_start_def)

lemma ev_start_inv: "ev_inv (ev_start fd)"
  by (simp add: ev_inv_def ev_start_def)

lemma echo_start_inv: "0 < fd \<Longrightarrow> echo_inv (echo_start fd)"
  by (auto simp: echo_inv_def echo_start_def max_clients_def)

text \<open>None of the other three servers leaves its arrays or loses track of a connection.\<close>

lemma poll_safe:
  "3 \<le> fd \<Longrightarrow> poll_start fd = Some s \<Longrightarrow> all_fit poll_round poll_fits ks s \<Longrightarrow>
   \<exists>s'. rounds poll_round ks s = Some s' \<and> select_table s' = opened (sel_calls s')"
  using pol.rounds_ok poll_start_inv by blast

lemma epoll_safe:
  assumes "all_fit epoll_round epoll_fits (take 40 ks) (epoll_start fd)"
  shows "\<exists>s'. epoll_main ks fd = Some s' \<and> epoll_table s' = opened (ep_calls s')"
proof -
  obtain s' where s': "rounds epoll_round (take 40 ks) (epoll_start fd) = Some s'" "epoll_inv s'" "epoll_table s' = opened (ep_calls s')"
    using epo.rounds_ok [OF epoll_start_inv assms] by blast
  then have "ep_fd s' \<notin> opened (ep_calls s')" by (simp add: epoll_inv_def)
  with s' show ?thesis by (simp add: epoll_main_def opened_append epoll_table_def)
qed

lemma ev_safe:
  "all_fit ev_round ev_fits ks (ev_start fd) \<Longrightarrow>
   \<exists>s'. rounds ev_round ks (ev_start fd) = Some s' \<and> ev_table s' = opened (ev_calls s')"
  using lev.rounds_ok [OF ev_start_inv] by blast

text \<open>C31.
  The whole run of the \<^verbatim>\<open>select\<close> server. The array has 100 entries and nothing checks that a descriptor is below 100: a server whose
  listening descriptor is not, or that accepts one that is not, ends in a write outside of \<^verbatim>\<open>arr\<close>. That is the only
  way: when all descriptors are below 100, no access is outside of \<^verbatim>\<open>arr\<close> or \<^verbatim>\<open>buf\<close>, and at the end the
  marked entries of \<^verbatim>\<open>arr\<close> are exactly the connections that were accepted and not closed.
\<close>

theorem select_main_safe:
  assumes "3 \<le> fd" "\<forall>k\<in>set ks. kernel_ok k"
  shows "case select_start fd of
      None \<Rightarrow> 100 \<le> fd \<and> select_main ks fd = None
    | Some s \<Rightarrow>
        (if all_fit select_round select_fits (take 60 ks) s
         then \<exists>s'. select_main ks fd = Some s' \<and> sel_fd s' = fd \<and> select_table s' = opened (sel_calls s')
         else select_main ks fd = None)"
proof (cases "select_start fd")
  case None
  then show ?thesis by (simp add: select_main_def select_start_def split: if_splits)
next
  case (Some s)
  have inv: "select_inv s" "sel_fd s = fd" using select_start_inv [OF assms(1) Some] by simp_all
  show ?thesis
  proof (cases "all_fit select_round select_fits (take 60 ks) s")
    case True
    then obtain s' where s': "rounds select_round (take 60 ks) s = Some s'" "select_inv s'" "sel_fd s' = fd"
      "select_table s' = opened (sel_calls s')" using sel.rounds_ok [OF inv(1)] inv(2) by blast
    then have "fd \<notin> opened (sel_calls s')" by (simp add: select_inv_def)
    with s' Some True show ?thesis by (simp add: select_main_def opened_append select_table_def)
  next
    case False
    have "\<forall>k\<in>set (take 60 ks). kernel_ok k" using assms(2) by (meson in_set_takeD)
    from sel.rounds_none [OF inv(1) this False] Some False show ?thesis by (simp add: select_main_def)
  qed
qed

text \<open>A kernel that reports every descriptor as ready and has two connections to offer, and one whose free descriptors start at 100.\<close>

definition demo_kernel :: kernel where
  "demo_kernel = \<lparr>k_wait = (\<lambda>fds. Wait_ready (remdups fds)), k_accept = (\<lambda>T. if 7 \<notin> T then 7 else if 8 \<notin> T then 8 else -1),
     k_recv = (\<lambda>i n. Recv_data (take n ''hi'')), k_everr = (\<lambda>_. False)\<rparr>"

definition crowded_kernel :: kernel where
  "crowded_kernel = demo_kernel\<lparr>k_accept := (\<lambda>T. if 100 \<notin> T then 100 else -1)\<rparr>"

lemma demo_kernel_ok: "kernel_ok demo_kernel" "kernel_ok crowded_kernel"
  by (auto simp: kernel_ok_def demo_kernel_def crowded_kernel_def split: if_splits)

lemma demo_select:
  defines "s \<equiv> \<lparr>sel_fd = 4, sel_arr = (replicate 100 0)[4 := 1], sel_mxfd = 4, sel_calls = []\<rparr>"
  shows "select_start 4 = Some s" "select_fits demo_kernel s" "\<not> select_fits crowded_kernel s"
proof -
  have "select_fds s = [4]" by (simp add: select_fds_def s_def numeral_eq_Suc upt_rec)
  then have r: "ready demo_kernel (select_fds s) = [4]" "ready crowded_kernel (select_fds s) = [4]"
    by (simp_all add: ready_def demo_kernel_def crowded_kernel_def)
  have before: "foldM (select_visit k [4]) [3..<4] s = Some s" for k
    by (subst foldM_filter [where P = "\<lambda>_. False"]) (simp_all add: select_visit_def)
  have fd: "sel_fd s = 4" "sel_calls s = []" by (simp_all add: s_def)
  show "select_start 4 = Some s" unfolding select_start_def s_def by simp
  show "select_fits demo_kernel s" "\<not> select_fits crowded_kernel s"
    unfolding select_fits_def r fd Let_def before by (simp_all add: fd demo_kernel_def crowded_kernel_def)
qed

theorem select_main_safe_witness:
  "(\<exists>s'. select_main [demo_kernel] 4 = Some s' \<and> sel_fd s' = 4 \<and> select_table s' = opened (sel_calls s')) \<and>
   select_main [crowded_kernel] 4 = None \<and> select_main [demo_kernel] 100 = None"
proof -
  have 4: "3 \<le> (4 :: nat)" "3 \<le> (100 :: nat)" by simp_all
  have fit: "all_fit select_round select_fits (take 60 [demo_kernel]) s = select_fits demo_kernel s"
    "all_fit select_round select_fits (take 60 [crowded_kernel]) s = select_fits crowded_kernel s" for s
    by (simp_all add: demo_kernel_ok split: option.split prod.split bool.split)
  have "select_start 100 = None" by (simp add: select_start_def)
  with select_main_safe [OF 4(1), of "[demo_kernel]"] select_main_safe [OF 4(1), of "[crowded_kernel]"]
    select_main_safe [OF 4(2), of "[demo_kernel]"]
  show ?thesis unfolding demo_select(1) fit by (simp add: demo_kernel_ok demo_select)
qed

text \<open>C32.
  One round of the echo server, with \<^verbatim>\<open>select\<close> working and a free place for a new connection. When \<^verbatim>\<open>accept\<close> or the \<^verbatim>\<open>read\<close> of
  some ready connection fails (as when the client reset it) or a descriptor does not fit into a set, the whole server ends.
  Otherwise it goes on, and the calls of the round are those for the ready descriptors, each of them dealt with exactly
  once and nothing else: a new connection is accepted and greeted; a ready connection is read once and, when it
  sent something, gets the text up to the first null byte back; one that ended is closed and its place is free again.
\<close>

theorem echo_round_serves:
  assumes "echo_inv s" "kernel_ok k" "echo_fits k s"
  shows "if echo_fails k s then echo_round k s = None
    else \<exists>s' order css. echo_round k s = Some (True, s') \<and> echo_inv s' \<and>
      echo_table s' = opened (es_calls s') \<and> set (echo_fds s) = insert (es_master s) (echo_table s) \<and>
      distinct order \<and> set order = set (ready k (echo_fds s)) \<and>
      list_all2 (handled c_string [echo_message] 1024 k (es_master s)) order css \<and> es_calls s' = es_calls s @ concat css"
proof (cases "echo_fails k s")
  case True
  then show ?thesis using echo_round_fails [OF assms(1,2)] assms(3) by (simp add: echo_fits_def)
next
  case False
  then obtain go s' order css where r: "echo_round k s = Some (go, s')" "echo_inv s'" "set (echo_fds s) = insert (es_master s) (echo_table s)"
    "distinct order" "set order = set (ready k (echo_fds s))"
    "list_all2 (handled c_string [echo_message] 1024 k (es_master s)) order css" "es_calls s' = es_calls s @ concat css"
    using ech.round [OF assms(1,2)] assms(3) by blast
  have "go" using r(1) by (auto simp: echo_round_def Let_def split: if_splits option.splits bind_splits)
  then show ?thesis using False r echo_table [OF r(2)] by auto
qed

theorem echo_round_serves_witness:
  "(\<exists>s' cs. echo_round demo_kernel \<lparr>es_master = 4, es_client = 7 # replicate 29 0, es_calls = [Accept 7]\<rparr> = Some (True, s') \<and>
     handled c_string [echo_message] 1024 demo_kernel 4 4 cs \<and>
     (es_calls s' = Accept 7 # cs @ [Recv 7, Send 7 ''hi''] \<or> es_calls s' = [Accept 7, Recv 7, Send 7 ''hi''] @ cs) \<and>
     echo_table s' = opened (es_calls s')) \<and>
   echo_round (demo_kernel\<lparr>k_recv := (\<lambda>_ _. Recv_error)\<rparr>) \<lparr>es_master = 4, es_client = 7 # replicate 29 0, es_calls = [Accept 7]\<rparr> = None"
proof
  let ?s = "\<lparr>es_master = 4, es_client = 7 # replicate 29 0, es_calls = [Accept 7]\<rparr>" and ?k = "demo_kernel\<lparr>k_recv := (\<lambda>_ _. Recv_error)\<rparr>"
  have f: "echo_fds ?s = [4, 7]" by (simp add: echo_fds_def)
  have r: "ready demo_kernel [4, 7] = [4, 7]" "ready ?k [4, 7] = [4, 7]" by (simp_all add: ready_def demo_kernel_def)
  have inv: "echo_inv ?s" by (auto simp: echo_inv_def max_clients_def opened_def)
  have fits: "echo_fits demo_kernel ?s" "echo_fits ?k ?s" by (simp_all add: echo_fits_def f r) (simp_all add: demo_kernel_def)
  have fails: "\<not> echo_fails demo_kernel ?s" "echo_fails ?k ?s"
    unfolding echo_fails_def f r by (simp_all add: demo_kernel_def opened_def)
  have ok: "kernel_ok ?k" using demo_kernel_ok(1) by (auto simp: kernel_ok_def)
  show "echo_round ?k ?s = None" using echo_round_serves [OF inv ok fits(2)] fails(2) by simp
  obtain s' order css where s': "echo_round demo_kernel ?s = Some (True, s')" "echo_table s' = opened (es_calls s')" "distinct order"
    "set order = {4, 7}" "list_all2 (handled c_string [echo_message] 1024 demo_kernel 4) order css" "es_calls s' = [Accept 7] @ concat css"
    using echo_round_serves [OF inv demo_kernel_ok(1) fits(1)] fails(1) f r by auto
  have serve: "handled c_string [echo_message] 1024 demo_kernel 4 7 cs \<longleftrightarrow> cs = [Recv 7, Send 7 ''hi'']" for cs
    by (simp add: handled_def demo_kernel_def c_string_def)
  have "length order = 2" using s'(3,4) distinct_card [of order] by simp
  then obtain x y where "order = [x, y]" by (auto simp: numeral_2_eq_2 length_Suc_conv)
  with s'(3,4) have "order = [4, 7] \<or> order = [7, 4]" by (auto simp: doubleton_eq_iff)
  with s'(5) obtain cs where "handled c_string [echo_message] 1024 demo_kernel 4 4 cs"
    "concat css = cs @ [Recv 7, Send 7 ''hi''] \<or> concat css = [Recv 7, Send 7 ''hi''] @ cs"
    by (auto simp: list_all2_Cons1 serve)
  with s'(1,2,6) show "\<exists>s' cs. echo_round demo_kernel ?s = Some (True, s') \<and> handled c_string [echo_message] 1024 demo_kernel 4 4 cs \<and>
     (es_calls s' = Accept 7 # cs @ [Recv 7, Send 7 ''hi''] \<or> es_calls s' = [Accept 7, Recv 7, Send 7 ''hi''] @ cs) \<and>
     echo_table s' = opened (es_calls s')"
    by (intro exI [of _ s'] exI [of _ cs]) auto
qed

end
