(* ===== verification/Lock_Free_Stack.thy ===== *)
theory Lock_Free_Stack
  imports Prelude
begin

text \<open>
  The lock-free stacks of \<^verbatim>\<open>cpp_concurrency_2nd/lock_free_stack.cpp\<close>, for any number of threads. Three of them are
  complete enough to run: \<open>Stack_2\<close>, which never frees a node; \<open>Stack_34\<close>, the \<^verbatim>\<open>pop\<close> of \<^verbatim>\<open>lock_free_stack_3\<close> with the
  reclamation of \<^verbatim>\<open>lock_free_stack_4\<close> (two parts of one class, which name its counter differently); and
  \<open>Stack_7\<close>, whose nodes are held by shared pointers. Every access to a shared variable is a step of a thread; nodes
  are cells of a heap, and \<open>None\<close> is an access to a cell that is not allocated, or a second \<^verbatim>\<open>delete\<close> of it. The
  compare-exchange operations are weak: a step may fail for no reason.

  Two lines do not compile and are read as what they mean: \<^verbatim>\<open>old.next\<close> in the \<^verbatim>\<open>pop\<close> of \<^verbatim>\<open>lock_free_stack_2\<close> as \<^verbatim>\<open>old->next\<close>, and
  \<^verbatim>\<open>head.load ()\<close> in the \<^verbatim>\<open>push\<close> of \<^verbatim>\<open>lock_free_stack_7\<close>, whose \<^verbatim>\<open>head\<close> is a \<^verbatim>\<open>shared_ptr\<close>, as \<^verbatim>\<open>atomic_load (&head)\<close>. The steps are
  interleaved as in a sequentially consistent memory, and a plain read of \<^verbatim>\<open>next\<close> is one of them. In \<^verbatim>\<open>lock_free_stack_2\<close> a node is
  written only before it is published. In \<^verbatim>\<open>lock_free_stack_7\<close> a \<^verbatim>\<open>pop\<close> clears the \<^verbatim>\<open>next\<close> of the node that it took while another
  \<^verbatim>\<open>pop\<close> may be copying it without a lock: \<open>stack7_next\<close> has no result there. In \<open>Stack_34\<close> a \<^verbatim>\<open>pop\<close> that is late may read the \<^verbatim>\<open>next\<close> of
  a node that is being chained: there it is a plain pointer, and the value that is read is used only by a
  compare-exchange that fails. The reference counts of the shared pointers are not modelled: the heap of \<open>Stack_7\<close> keeps every node, so
  for it nothing is claimed about memory.
\<close>

section \<open>Nodes, threads and steps\<close>

datatype variant = Stack_2 | Stack_34 | Stack_7

record 'v node =
  nd_data :: "'v option"
  nd_next :: "nat option"

datatype after_chain = Then_free "nat option" | Then_leave

text \<open>Where a thread is; \<open>Rc_\<close> are the points of \<^verbatim>\<open>try_recliam\<close> and of the functions it calls.\<close>

datatype 'v pc =
    Idle
  | Push_load 'v nat | Push_cas 'v nat
  | Pop_enter | Pop_load | Pop_loop "nat option" | Pop_cas nat "nat option" | Pop_clear nat | Pop_take "nat option"
  | Rc_test "nat option" | Rc_xchg "nat option" | Rc_dec "nat option" "nat option"
  | Rc_del "nat option" "nat option" | Rc_walk nat nat "nat option"
  | Rc_link "nat option" "nat option" after_chain | Rc_cas "nat option" nat after_chain
  | Rc_free "nat option" | Rc_leave

text \<open>
  \<open>lf_log\<close> records, in order, the compare-exchanges that changed the stack and the loads that found it empty; \<open>lf_res\<close>
  the values that \<^verbatim>\<open>pop\<close> hands to its callers.
\<close>

datatype 'v lf_event = Pushed 'v | Popped nat "'v option"

record 'v lf =
  lf_heap :: "nat \<Rightarrow> 'v node option"
  lf_head :: "nat option"
  lf_deleted :: "nat option"
  lf_count :: nat
  lf_pc :: "nat \<Rightarrow> 'v pc"
  lf_log :: "'v lf_event list"
  lf_res :: "(nat \<times> 'v option) list"

definition lf_new :: "'v lf" where
  "lf_new = \<lparr>lf_heap = (\<lambda>_. None), lf_head = None, lf_deleted = None, lf_count = 0, lf_pc = (\<lambda>_. Idle), lf_log = [], lf_res = []\<rparr>"

definition goto :: "nat \<Rightarrow> 'v pc \<Rightarrow> 'v lf \<Rightarrow> 'v lf" where
  "goto t p s = s\<lparr>lf_pc := (lf_pc s)(t := p)\<rparr>"

definition set_next :: "nat \<Rightarrow> nat option \<Rightarrow> 'v lf \<Rightarrow> 'v lf option" where
  "set_next a n s = map_option (\<lambda>nd. s\<lparr>lf_heap := (lf_heap s)(a \<mapsto> nd\<lparr>nd_next := n\<rparr>)\<rparr>) (lf_heap s a)"

definition delete_node :: "nat \<Rightarrow> 'v lf \<Rightarrow> 'v lf option" where
  "delete_node a s = map_option (\<lambda>nd. s\<lparr>lf_heap := (lf_heap s)(a := None)\<rparr>) (lf_heap s a)"

text \<open>The value of \<^verbatim>\<open>head\<close> that a thread has just read into \<^verbatim>\<open>old\<close>.\<close>

definition got_head :: "nat \<Rightarrow> 'v lf \<Rightarrow> 'v lf" where
  "got_head t s =
     goto t (Pop_loop (lf_head s)) (if lf_head s = None then s\<lparr>lf_log := lf_log s @ [Popped t None]\<rparr> else s)"

fun push_go :: "nat \<Rightarrow> bool \<Rightarrow> 'v pc \<Rightarrow> 'v lf \<Rightarrow> 'v lf option" where
  "push_go t spurious (Push_load v nd) s = map_option (goto t (Push_cas v nd)) (set_next nd (lf_head s) s)"
| "push_go t spurious (Push_cas v nd) s =
     do { n \<leftarrow> lf_heap s nd;
          if \<not> spurious \<and> lf_head s = nd_next n
          then Some (goto t Idle (s\<lparr>lf_head := Some nd, lf_log := lf_log s @ [Pushed v]\<rparr>))
          else set_next nd (lf_head s) s }"
| "push_go t spurious _ s = Some s"

fun pop_go :: "variant \<Rightarrow> nat \<Rightarrow> bool \<Rightarrow> 'v pc \<Rightarrow> 'v lf \<Rightarrow> 'v lf option" where
  "pop_go w t spurious Pop_enter s = Some (goto t Pop_load (s\<lparr>lf_count := lf_count s + 1\<rparr>))"
| "pop_go w t spurious Pop_load s = Some (got_head t s)"
| "pop_go w t spurious (Pop_loop None) s = Some (goto t (Pop_take None) s)"
| "pop_go w t spurious (Pop_loop (Some old)) s = map_option (\<lambda>n. goto t (Pop_cas old (nd_next n)) s) (lf_heap s old)"
| "pop_go w t spurious (Pop_cas old next) s =
     (if \<not> spurious \<and> lf_head s = Some old
      then Some (goto t (if w = Stack_7 then Pop_clear old else Pop_take (Some old))
        (s\<lparr>lf_head := next, lf_log := lf_log s @ [Popped t (Option.bind (lf_heap s old) nd_data)]\<rparr>))
      else Some (got_head t s))"
| "pop_go w t spurious (Pop_clear old) s = map_option (goto t (Pop_take (Some old))) (set_next old None s)"
| "pop_go w t spurious (Pop_take None) s =
     Some (goto t (if w = Stack_34 then Rc_test None else Idle) (s\<lparr>lf_res := lf_res s @ [(t, None)]\<rparr>))"
| "pop_go w t spurious (Pop_take (Some old)) s =
     do { n \<leftarrow> lf_heap s old;
          Some (if w = Stack_34
                then goto t (Rc_test (Some old)) (s\<lparr>lf_heap := (lf_heap s)(old \<mapsto> n\<lparr>nd_data := None\<rparr>), lf_res := lf_res s @ [(t, nd_data n)]\<rparr>)
                else goto t Idle (s\<lparr>lf_res := lf_res s @ [(t, nd_data n)]\<rparr>)) }"
| "pop_go w t spurious _ s = Some s"

fun reclaim_go :: "nat \<Rightarrow> 'v pc \<Rightarrow> 'v lf \<Rightarrow> 'v lf option" where
  "reclaim_go t (Rc_test old) s = Some (goto t (if lf_count s = 1 then Rc_xchg old else Rc_link old old Then_leave) s)"
| "reclaim_go t (Rc_xchg old) s = Some (goto t (Rc_dec old (lf_deleted s)) (s\<lparr>lf_deleted := None\<rparr>))"
| "reclaim_go t (Rc_dec old nodes) s =
     (let s = s\<lparr>lf_count := lf_count s - 1\<rparr>
      in Some (goto t (if lf_count s = 0 then Rc_del nodes old
                       else case nodes of None \<Rightarrow> Rc_free old | Some nd \<Rightarrow> Rc_walk nd nd old) s))"
| "reclaim_go t (Rc_free None) s = Some (goto t Idle s)"
| "reclaim_go t (Rc_free (Some old)) s = map_option (goto t Idle) (delete_node old s)"
| "reclaim_go t Rc_leave s = Some (goto t Idle (s\<lparr>lf_count := lf_count s - 1\<rparr>))"
| "reclaim_go t _ s = Some s"

fun delete_nodes_go :: "nat \<Rightarrow> 'v pc \<Rightarrow> 'v lf \<Rightarrow> 'v lf option" where
  "delete_nodes_go t (Rc_del None old) s = Some (goto t (Rc_free old) s)"
| "delete_nodes_go t (Rc_del (Some nd) old) s =
     do { n \<leftarrow> lf_heap s nd; map_option (goto t (Rc_del (nd_next n) old)) (delete_node nd s) }"
| "delete_nodes_go t _ s = Some s"

fun chain_go :: "nat \<Rightarrow> bool \<Rightarrow> 'v pc \<Rightarrow> 'v lf \<Rightarrow> 'v lf option" where
  "chain_go t spurious (Rc_walk nodes lst old) s =
     map_option (\<lambda>n. goto t (case nd_next n of
         Some nxt \<Rightarrow> Rc_walk nodes nxt old
       | None \<Rightarrow> Rc_link (Some nodes) (Some lst) (Then_free old)) s) (lf_heap s lst)"
| "chain_go t spurious (Rc_link first None k) s = None"
| "chain_go t spurious (Rc_link first (Some lst) k) s = map_option (goto t (Rc_cas first lst k)) (set_next lst (lf_deleted s) s)"
| "chain_go t spurious (Rc_cas first lst k) s =
     do { n \<leftarrow> lf_heap s lst;
          if \<not> spurious \<and> lf_deleted s = nd_next n
          then Some (goto t (case k of Then_free old \<Rightarrow> Rc_free old | Then_leave \<Rightarrow> Rc_leave) (s\<lparr>lf_deleted := first\<rparr>))
          else set_next lst (lf_deleted s) s }"
| "chain_go t spurious _ s = Some s"

text \<open>
  What may happen next: a thread that is idle calls \<^verbatim>\<open>push\<close>, where \<^verbatim>\<open>new\<close> returns a cell that is free, or \<^verbatim>\<open>pop\<close>; any
  thread goes on by a step.
\<close>

datatype 'v lf_act = Call_push 'v nat | Call_pop | Go bool

fun lf_next :: "variant \<Rightarrow> nat \<times> 'v lf_act \<Rightarrow> 'v lf \<Rightarrow> 'v lf option" where
  "lf_next w (t, Call_push v nd) s =
     (if lf_pc s t = Idle \<and> lf_heap s nd = None
      then Some (goto t (Push_load v nd) (s\<lparr>lf_heap := (lf_heap s)(nd \<mapsto> \<lparr>nd_data = Some v, nd_next = None\<rparr>)\<rparr>))
      else Some s)"
| "lf_next w (t, Call_pop) s =
     Some (if lf_pc s t = Idle then goto t (if w = Stack_34 then Pop_enter else Pop_load) s else s)"
| "lf_next w (t, Go spurious) s =
     (case lf_pc s t of
        Push_load _ _ \<Rightarrow> push_go t spurious (lf_pc s t) s | Push_cas _ _ \<Rightarrow> push_go t spurious (lf_pc s t) s
      | Rc_test _ \<Rightarrow> reclaim_go t (lf_pc s t) s | Rc_xchg _ \<Rightarrow> reclaim_go t (lf_pc s t) s | Rc_dec _ _ \<Rightarrow> reclaim_go t (lf_pc s t) s
      | Rc_free _ \<Rightarrow> reclaim_go t (lf_pc s t) s | Rc_leave \<Rightarrow> reclaim_go t (lf_pc s t) s
      | Rc_del _ _ \<Rightarrow> delete_nodes_go t (lf_pc s t) s
      | Rc_walk _ _ _ \<Rightarrow> chain_go t spurious (lf_pc s t) s | Rc_link _ _ _ \<Rightarrow> chain_go t spurious (lf_pc s t) s
      | Rc_cas _ _ _ \<Rightarrow> chain_go t spurious (lf_pc s t) s
      | _ \<Rightarrow> pop_go w t spurious (lf_pc s t) s)"

text \<open>
  \<^verbatim>\<open>lock_free_stack_7\<close> with \<open>n\<close> threads. The atomic store that clears the \<^verbatim>\<open>next\<close> of a node races with a thread that is about to copy the same
  \<^verbatim>\<open>shared_ptr\<close> by a plain read, as the third argument of its compare-exchange.
\<close>

definition next_races :: "nat \<Rightarrow> nat \<times> 'v lf_act \<Rightarrow> 'v lf \<Rightarrow> bool" where
  "next_races n x s \<longleftrightarrow> fst x < n \<and>
     (case (lf_pc s (fst x), snd x) of
        (Pop_clear a, Go spurious) \<Rightarrow> \<exists>u\<in>{0..<n}. lf_pc s u = Pop_loop (Some a)
      | _ \<Rightarrow> False)"

definition stack7_next :: "nat \<Rightarrow> nat \<times> 'v lf_act \<Rightarrow> 'v lf \<Rightarrow> 'v lf option" where
  "stack7_next n x s =
     (if next_races n x s then None else if fst x < n then lf_next Stack_7 x s else Some s)"

section \<open>The invariant\<close>

text \<open>\<open>seg h p as q\<close>: following \<^verbatim>\<open>next\<close> from \<open>p\<close> one meets the cells \<open>as\<close> and arrives at \<open>q\<close>.\<close>

fun seg :: "(nat \<Rightarrow> 'v node option) \<Rightarrow> nat option \<Rightarrow> nat list \<Rightarrow> nat option \<Rightarrow> bool" where
  "seg h p [] q = (p = q)"
| "seg h p (a # as) q = (p = Some a \<and> (case h a of None \<Rightarrow> False | Some n \<Rightarrow> seg h (nd_next n) as q))"

abbreviation cell :: "nat option \<Rightarrow> nat list" where
  "cell p \<equiv> (case p of None \<Rightarrow> [] | Some a \<Rightarrow> [a])"

text \<open>
  The cells that only this thread writes to, where \<open>l\<close> is the list of nodes it took to delete or is about to chain; those it
  may read although another one may own them; and those it is going to delete whatever the others do.
\<close>

fun own :: "'v pc \<Rightarrow> nat list \<Rightarrow> nat list" where
  "own (Push_load v a) l = [a]"
| "own (Push_cas v a) l = [a]"
| "own (Pop_clear a) l = [a]"
| "own (Pop_take old) l = cell old"
| "own (Rc_test old) l = cell old"
| "own (Rc_xchg old) l = cell old"
| "own (Rc_dec old nodes) l = l @ cell old"
| "own (Rc_del nodes old) l = l @ cell old"
| "own (Rc_walk f x old) l = l @ cell old"
| "own (Rc_link f x (Then_free old)) l = l @ cell old"
| "own (Rc_link f x Then_leave) l = l"
| "own (Rc_cas f x (Then_free old)) l = l @ cell old"
| "own (Rc_cas f x Then_leave) l = l"
| "own (Rc_free old) l = cell old"
| "own _ l = []"

fun hold :: "'v pc \<Rightarrow> nat set" where
  "hold (Pop_loop old) = set_option old"
| "hold (Pop_cas a n) = {a}"
| "hold _ = {}"

fun doomed :: "'v pc \<Rightarrow> nat list \<Rightarrow> nat set" where
  "doomed (Rc_xchg old) l = set_option old"
| "doomed (Rc_dec old nodes) l = set_option old"
| "doomed (Rc_del nodes old) l = set l \<union> set_option old"
| "doomed (Rc_walk f x old) l = set_option old"
| "doomed (Rc_link f x (Then_free old)) l = set_option old"
| "doomed (Rc_cas f x (Then_free old)) l = set_option old"
| "doomed (Rc_free old) l = set_option old"
| "doomed _ l = {}"

fun pushing :: "'v pc \<Rightarrow> nat set" where
  "pushing (Push_load v a) = {a}"
| "pushing (Push_cas v a) = {a}"
| "pushing _ = {}"

text \<open>Between the increment and the decrement of \<^verbatim>\<open>threads_in_pop\<close>.\<close>

fun in_pop :: "'v pc \<Rightarrow> bool" where
  "in_pop Idle = False"
| "in_pop (Push_load v a) = False"
| "in_pop (Push_cas v a) = False"
| "in_pop Pop_enter = False"
| "in_pop (Rc_del nodes old) = False"
| "in_pop (Rc_walk f x old) = False"
| "in_pop (Rc_link f x (Then_free old)) = False"
| "in_pop (Rc_cas f x (Then_free old)) = False"
| "in_pop (Rc_free old) = False"
| "in_pop _ = True"

fun reclaiming :: "'v pc \<Rightarrow> bool" where
  "reclaiming (Rc_test old) = True"
| "reclaiming (Rc_xchg old) = True"
| "reclaiming (Rc_dec old nodes) = True"
| "reclaiming (Rc_del nodes old) = True"
| "reclaiming (Rc_walk f x old) = True"
| "reclaiming (Rc_link f x k) = True"
| "reclaiming (Rc_cas f x k) = True"
| "reclaiming (Rc_free old) = True"
| "reclaiming Rc_leave = True"
| "reclaiming _ = False"

text \<open>What a thread knows about its own cells.\<close>

fun shape :: "(nat \<Rightarrow> 'v node option) \<Rightarrow> 'v pc \<Rightarrow> nat list \<Rightarrow> bool" where
  "shape h (Push_load v a) l \<longleftrightarrow> map_option nd_data (h a) = Some (Some v)"
| "shape h (Push_cas v a) l \<longleftrightarrow> map_option nd_data (h a) = Some (Some v)"
| "shape h (Rc_dec old nodes) l \<longleftrightarrow> seg h nodes l None"
| "shape h (Rc_del nodes old) l \<longleftrightarrow> seg h nodes l None"
| "shape h (Rc_walk f x old) l \<longleftrightarrow> seg h (Some f) l None \<and> x \<in> set l"
| "shape h (Rc_link f x k) l \<longleftrightarrow> (\<exists>q. seg h f l q) \<and> x = (if l = [] then None else Some (last l)) \<and> (l = [] \<longrightarrow> k = Then_leave)"
| "shape h (Rc_cas f x k) l \<longleftrightarrow> (\<exists>q. seg h f l q) \<and> l \<noteq> [] \<and> x = last l"
| "shape h _ l \<longleftrightarrow> True"

fun reads :: "(nat \<Rightarrow> 'v node option) \<Rightarrow> nat list \<Rightarrow> 'v pc \<Rightarrow> bool" where
  "reads h ps (Pop_cas a n) \<longleftrightarrow> (a \<in> set ps \<longrightarrow> map_option nd_next (h a) = Some n)"
| "reads h ps _ \<longleftrightarrow> True"

definition thread_ok :: "variant \<Rightarrow> (nat \<Rightarrow> 'v node option) \<Rightarrow> nat list \<Rightarrow> nat list \<Rightarrow> 'v pc \<Rightarrow> nat list \<Rightarrow> bool" where
  "thread_ok w h ps pend p l \<longleftrightarrow> distinct (own p l) \<and> set (own p l) \<inter> (set ps \<union> set pend) = {} \<and>
     set (own p l) \<union> hold p \<subseteq> dom h \<and> shape h p l \<and> reads h ps p \<and> (reclaiming p \<longrightarrow> w = Stack_34)"

definition apart :: "'v pc \<Rightarrow> nat list \<Rightarrow> 'v pc \<Rightarrow> nat list \<Rightarrow> bool" where
  "apart p l p' l' \<longleftrightarrow> set (own p l) \<inter> set (own p' l') = {} \<and> hold p \<inter> (doomed p' l' \<union> pushing p') = {}"

text \<open>The log as a run of a stack, and what it says to one thread.\<close>

fun replay :: "'v lf_event list \<Rightarrow> 'v list \<Rightarrow> 'v list option" where
  "replay [] st = Some st"
| "replay (Pushed v # es) st = replay es (v # st)"
| "replay (Popped t None # es) st = (if st = [] then replay es [] else None)"
| "replay (Popped t (Some v) # es) st = (case st of x # st' \<Rightarrow> if x = v then replay es st' else None | [] \<Rightarrow> None)"

definition pops_of :: "nat \<Rightarrow> 'v lf_event list \<Rightarrow> 'v option list" where
  "pops_of t es = concat (map (\<lambda>e. case e of Popped u r \<Rightarrow> if u = t then [r] else [] | _ \<Rightarrow> []) es)"

definition rets_of :: "nat \<Rightarrow> (nat \<times> 'v option) list \<Rightarrow> 'v option list" where
  "rets_of t rs = map snd (filter (\<lambda>(u, r). u = t) rs)"

definition datum :: "(nat \<Rightarrow> 'v node option) \<Rightarrow> nat \<Rightarrow> 'v option" where
  "datum h a = Option.bind (h a) nd_data"

fun pending :: "(nat \<Rightarrow> 'v node option) \<Rightarrow> 'v pc \<Rightarrow> 'v option list" where
  "pending h (Pop_loop old) = (if old = None then [None] else [])"
| "pending h (Pop_clear a) = [datum h a]"
| "pending h (Pop_take old) = [Option.bind old (datum h)]"
| "pending h _ = []"

definition lf_inv :: "variant \<Rightarrow> nat list \<Rightarrow> nat list \<Rightarrow> (nat \<Rightarrow> nat list) \<Rightarrow> 'v lf \<Rightarrow> bool" where
  "lf_inv w ps pend ls s \<longleftrightarrow>
     seg (lf_heap s) (lf_head s) ps None \<and> seg (lf_heap s) (lf_deleted s) pend None \<and> distinct (ps @ pend) \<and>
     (\<forall>t. thread_ok w (lf_heap s) ps pend (lf_pc s t) (ls t)) \<and>
     (\<forall>t u. t \<noteq> u \<longrightarrow> apart (lf_pc s t) (ls t) (lf_pc s u) (ls u)) \<and>
     (w = Stack_34 \<longrightarrow> finite {t. in_pop (lf_pc s t)} \<and> lf_count s = card {t. in_pop (lf_pc s t)}) \<and>
     (w = Stack_34 \<longrightarrow> dom (lf_heap s) \<subseteq> set ps \<union> set pend \<union> (\<Union>t. set (own (lf_pc s t) (ls t)))) \<and>
     (\<exists>st. replay (lf_log s) [] = Some st \<and> map (datum (lf_heap s)) ps = map Some st) \<and>
     (\<forall>t. pops_of t (lf_log s) = rets_of t (lf_res s) @ pending (lf_heap s) (lf_pc s t))"

section \<open>Steps of one thread\<close>

lemma seg_cong: "seg h p as q \<Longrightarrow> (\<And>a. a \<in> set as \<Longrightarrow> h' a = h a) \<Longrightarrow> seg h' p as q"
  by (induction as arbitrary: p) (auto split: option.splits)

lemma seg_append: "seg h p (as @ bs) q \<longleftrightarrow> (\<exists>r. seg h p as r \<and> seg h r bs q)"
  by (induction as arbitrary: p) (auto split: option.splits)

lemma seg_dom: "seg h p as q \<Longrightarrow> set as \<subseteq> dom h"
  by (induction as arbitrary: p) (auto split: option.splits)

lemma seg_None [simp]: "seg h None as None \<longleftrightarrow> as = []"
  by (cases as) auto

lemma set_cell [simp]: "set (cell p) = set_option p"
  by (cases p) auto

lemma doomed_own: "doomed p l \<union> pushing p \<subseteq> set (own p l)"
  by (induction p l rule: own.induct) auto

lemma shape_cong:
  assumes "\<And>a. a \<in> set (own p l) \<Longrightarrow> h' a = h a"
  shows "shape h p l \<Longrightarrow> shape h' p l"
  using assms by (induction p l rule: own.induct) (auto intro: seg_cong)

lemma pending_cong: "(\<And>a. a \<in> set (own p l) \<Longrightarrow> h' a = h a) \<Longrightarrow> pending h' p = pending h p"
  by (cases p) (auto simp: datum_def split: option.splits bind_splits)

lemma pops_of_append [simp]: "pops_of t (es @ fs) = pops_of t es @ pops_of t fs"
  by (simp add: pops_of_def)

lemma rets_of_append [simp]: "rets_of t (rs @ qs) = rets_of t rs @ rets_of t qs"
  by (simp add: rets_of_def)

lemma pops_of_simps [simp]: "pops_of t [] = []" "pops_of t [Pushed v] = []" "pops_of t [Popped u r] = (if u = t then [r] else [])"
  by (simp_all add: pops_of_def)

lemma rets_of_simps [simp]: "rets_of t [] = []" "rets_of t [(u, r)] = (if u = t then [r] else [])"
  by (simp_all add: rets_of_def)

lemma replay_append: "replay (es @ fs) st = Option.bind (replay es st) (replay fs)"
  by (induction es st rule: replay.induct) (auto split: list.splits)

lemma card_region:
  assumes "finite {x. P (f x)}"
  shows "finite {x. P ((f(t := p)) x)} \<and> card {x. P ((f(t := p)) x)} + (if P (f t) then 1 else 0) = card {x. P (f x)} + (if P p then 1 else (0 :: nat))"
proof -
  have e: "{x. P ((f(t := p)) x)} = (if P p then insert t ({x. P (f x)} - {t}) else {x. P (f x)} - {t})" by auto
  have "t \<in> {x. P (f x)} \<longleftrightarrow> P (f t)" by simp
  moreover have "0 < card {x. P (f x)}" if "P (f t)" using that assms by (auto simp: card_gt_0_iff)
  ultimately show ?thesis unfolding e using assms by (cases "P (f t)") (auto simp: card.insert_remove)
qed

text \<open>
  What one step of a thread has to satisfy so that the invariant goes on to hold: it writes only to its own cells or to
  a new one, deletes only what is doomed, and the cells it acquires come from the two lists.
\<close>

lemma lf_inv_step:
  assumes I: "lf_inv w ps pend ls s" and p: "p = lf_pc s t" "l = ls t" "h = lf_heap s" "h' = lf_heap s'"
    and pc': "lf_pc s' = (lf_pc s)(t := p')"
    and lists: "seg h' (lf_head s') ps' None" "seg h' (lf_deleted s') pend' None" "distinct (ps' @ pend')"
    and writes: "\<And>a. a \<notin> set (own p l) \<Longrightarrow> h a \<noteq> None \<Longrightarrow> h' a = h a" "\<And>a. h a \<noteq> None \<Longrightarrow> h' a = None \<Longrightarrow> a \<in> doomed p l"
    and cells: "set ps' \<union> set pend' \<subseteq> set ps \<union> set pend \<union> set (own p l)" "set ps' \<subseteq> set ps \<union> pushing p"
    and me: "thread_ok w h' ps' pend' p' l'"
    and own': "set (own p' l') \<subseteq> set (own p l) \<union> set ps \<union> set pend \<union> - dom h" and hold': "hold p' \<subseteq> hold p \<union> set ps"
    and doomed': "\<And>a u. a \<in> doomed p' l' \<union> pushing p' \<Longrightarrow> a \<in> doomed p l \<union> pushing p \<or> h a = None \<or> (u \<noteq> t \<longrightarrow> a \<notin> hold (lf_pc s u))"
    and count: "w = Stack_34 \<Longrightarrow> lf_count s' + (if in_pop p then 1 else 0) = lf_count s + (if in_pop p' then 1 else 0)"
    and kept: "\<And>a. w = Stack_34 \<Longrightarrow> h' a \<noteq> None \<Longrightarrow>
      a \<in> set ps' \<union> set pend' \<union> set (own p' l') \<or> h a \<noteq> None \<and> a \<notin> set ps \<union> set pend \<union> set (own p l)"
    and log: "\<exists>st. replay (lf_log s') [] = Some st \<and> map (datum h') ps' = map Some st"
    and others: "\<And>u. u \<noteq> t \<Longrightarrow> pops_of u (lf_log s') = pops_of u (lf_log s) \<and> rets_of u (lf_res s') = rets_of u (lf_res s)"
    and mine: "pops_of t (lf_log s') = rets_of t (lf_res s') @ pending h' p'"
  shows "lf_inv w ps' pend' (ls(t := l')) s'"
proof -
  have ok: "thread_ok w h ps pend (lf_pc s u) (ls u)" for u using I p by (simp add: lf_inv_def)
  have ap: "u \<noteq> v \<Longrightarrow> apart (lf_pc s u) (ls u) (lf_pc s v) (ls v)" for u v using I by (simp add: lf_inv_def)
  have dm: "set (own (lf_pc s u) (ls u)) \<union> hold (lf_pc s u) \<subseteq> dom h" for u using ok [of u] by (simp add: thread_ok_def)
  have same: "h' a = h a" if u: "u \<noteq> t" and a: "a \<in> set (own (lf_pc s u) (ls u))" for u a
    using ap [OF u] dm [of u] a by (intro writes(1)) (auto simp: apart_def p)
  have "thread_ok w h' ps' pend' (lf_pc s u) (ls u)" if u: "u \<noteq> t" for u
  proof -
    let ?p = "lf_pc s u" and ?l = "ls u"
    have "set (own ?p ?l) \<inter> (set ps' \<union> set pend') = {}"
      using ok [of u] ap [OF u] cells(1) unfolding thread_ok_def apart_def p by blast
    moreover have "set (own ?p ?l) \<subseteq> dom h'" using dm [of u] same [OF u] by (auto simp: dom_def)
    moreover have "hold ?p \<subseteq> dom h'" using dm [of u] writes(2) ap [OF u] unfolding apart_def p dom_def by blast
    moreover have "shape h' ?p ?l" by (rule shape_cong [OF same [OF u]]) (use ok [of u] in \<open>simp_all add: thread_ok_def\<close>)
    moreover have "reads h' ps' ?p"
    proof (cases ?p)
      case (Pop_cas a n)
      have "map_option nd_next (h' a) = Some n" if "a \<in> set ps'"
      proof -
        have a: "a \<in> hold ?p" using Pop_cas by simp
        then have "a \<in> set ps" using that cells(2) ap [OF u] unfolding apart_def p by blast
        moreover have "a \<notin> set (own p l)" using \<open>a \<in> set ps\<close> ok [of t] unfolding thread_ok_def p by blast
        moreover have "h a \<noteq> None" using a dm [of u] by auto
        ultimately show ?thesis using writes(1) [of a] ok [of u] Pop_cas by (simp add: thread_ok_def)
      qed
      with Pop_cas show ?thesis by simp
    qed simp_all
    ultimately show ?thesis using ok [of u] by (simp add: thread_ok_def)
  qed
  then have 1: "\<forall>u. thread_ok w h' ps' pend' (lf_pc s' u) ((ls(t := l')) u)" using me by (simp add: pc')
  have 2: "apart (lf_pc s' u) ((ls(t := l')) u) (lf_pc s' v) ((ls(t := l')) v)" if uv: "u \<noteq> v" for u v
  proof -
    have new: "set (own p' l') \<inter> set (own (lf_pc s u) (ls u)) = {}" if "u \<noteq> t" for u
      using own' ok [of u] ap [OF that] dm [of u] unfolding thread_ok_def apart_def p by blast
    have "apart p' l' (lf_pc s u) (ls u)" if u: "u \<noteq> t" for u
      using new [OF u] hold' ok [of u] ap [of t u] u doomed_own [of "lf_pc s u" "ls u"] unfolding thread_ok_def apart_def p by blast
    moreover have "apart (lf_pc s u) (ls u) p' l'" if u: "u \<noteq> t" for u
    proof -
      have "a \<notin> hold (lf_pc s u)" if "a \<in> doomed p' l' \<union> pushing p'" for a
        using doomed' [OF that, of u] u ap [OF u] dm [of u] unfolding apart_def p by blast
      with new [OF u] show ?thesis unfolding apart_def by blast
    qed
    ultimately show ?thesis using ap uv by (simp add: pc')
  qed
  have 3: "finite {u. in_pop (lf_pc s' u)} \<and> lf_count s' = card {u. in_pop (lf_pc s' u)}" if w: "w = Stack_34"
  proof -
    have f: "finite {u. in_pop (lf_pc s u)}" and c: "lf_count s = card {u. in_pop (lf_pc s u)}" using I w by (simp_all add: lf_inv_def)
    note r = card_region [where P = in_pop and f = "lf_pc s" and t = t and p = p', OF f]
    have "lf_count s' = card {u. in_pop (lf_pc s' u)}" using count [OF w] r c unfolding pc' p(1) by linarith
    with r show ?thesis unfolding pc' by blast
  qed
  have 4: "pops_of u (lf_log s') = rets_of u (lf_res s') @ pending h' (lf_pc s' u)" for u
  proof (cases "u = t")
    case False
    then have "pending h' (lf_pc s u) = pending h (lf_pc s u)" by (intro pending_cong [OF same])
    with False others I show ?thesis by (simp add: pc' lf_inv_def p)
  qed (simp add: mine pc')
  have 5: "dom h' \<subseteq> set ps' \<union> set pend' \<union> (\<Union>u. set (own (lf_pc s' u) ((ls(t := l')) u)))" if w: "w = Stack_34"
  proof
    fix a assume "a \<in> dom h'"
    then consider "a \<in> set ps' \<union> set pend' \<union> set (own p' l')" | "h a \<noteq> None" "a \<notin> set ps \<union> set pend \<union> set (own p l)"
      using kept [OF w] by blast
    then show "a \<in> set ps' \<union> set pend' \<union> (\<Union>u. set (own (lf_pc s' u) ((ls(t := l')) u)))"
    proof cases
      case 1
      then show ?thesis unfolding pc' by (metis UN_iff Un_iff UNIV_I fun_upd_same)
    next
      case 2
      then obtain u where "a \<in> set (own (lf_pc s u) (ls u))" using I w unfolding lf_inv_def p dom_def by blast
      moreover from this 2 have "u \<noteq> t" unfolding p by blast
      ultimately show ?thesis unfolding pc' by (metis UN_iff Un_iff UNIV_I fun_upd_other)
    qed
  qed
  from lists 1 2 3 4 5 log show ?thesis unfolding lf_inv_def p(4) by blast
qed

lemma lf_invD:
  assumes "lf_inv w ps pend ls s"
  shows "seg (lf_heap s) (lf_head s) ps None" "seg (lf_heap s) (lf_deleted s) pend None" "distinct (ps @ pend)"
    "thread_ok w (lf_heap s) ps pend (lf_pc s t) (ls t)"
    "t \<noteq> u \<Longrightarrow> apart (lf_pc s t) (ls t) (lf_pc s u) (ls u)"
    "w = Stack_34 \<Longrightarrow> finite {t. in_pop (lf_pc s t)}" "w = Stack_34 \<Longrightarrow> lf_count s = card {t. in_pop (lf_pc s t)}"
    "\<exists>st. replay (lf_log s) [] = Some st \<and> map (datum (lf_heap s)) ps = map Some st"
    "pops_of t (lf_log s) = rets_of t (lf_res s) @ pending (lf_heap s) (lf_pc s t)"
  using assms by (simp_all add: lf_inv_def)

lemma log_kept:
  assumes "lf_inv w ps pend ls s" "\<And>b. b \<in> set ps \<Longrightarrow> h' b = lf_heap s b"
  shows "\<exists>st. replay (lf_log s) [] = Some st \<and> map (datum h') ps = map Some st"
proof -
  have "map (datum h') ps = map (datum (lf_heap s)) ps" using assms(2) by (simp add: datum_def)
  then show ?thesis using lf_invD(8) [OF assms(1)] by metis
qed

definition lf_ok :: "variant \<Rightarrow> 'v lf \<Rightarrow> bool" where
  "lf_ok w s \<longleftrightarrow> (\<exists>ps pend ls. lf_inv w ps pend ls s)"

lemma lf_okI: "lf_inv w ps pend ls s \<Longrightarrow> lf_ok w s"
  unfolding lf_ok_def by blast

text \<open>A step that only moves on, or changes the counter.\<close>

lemma lf_inv_move:
  assumes I: "lf_inv w ps pend ls s" and p: "p = lf_pc s t" "l = ls t" "h = lf_heap s"
    and me: "thread_ok w h ps pend p' l'" and own': "set (own p' l') \<subseteq> set (own p l)" and keep: "w = Stack_34 \<Longrightarrow> set (own p l) \<subseteq> set (own p' l')"
    and hold': "hold p' \<subseteq> hold p \<union> set ps"
    and doomed': "\<And>a u. a \<in> doomed p' l' \<union> pushing p' \<Longrightarrow> a \<in> doomed p l \<union> pushing p \<or> (u \<noteq> t \<longrightarrow> a \<notin> hold (lf_pc s u))"
    and count: "w = Stack_34 \<Longrightarrow> c + (if in_pop p then 1 else 0) = lf_count s + (if in_pop p' then 1 else 0)"
    and pend: "pending h p' = pending h p"
  shows "lf_ok w (goto t p' (s\<lparr>lf_count := c\<rparr>))"
proof (rule lf_okI, rule lf_inv_step [OF I p refl, where p' = p' and l' = l' and ps' = ps and pend' = pend])
  fix a u
  assume "a \<in> doomed p' l' \<union> pushing p'"
  from doomed' [OF this] show "a \<in> doomed p l \<union> pushing p \<or> h a = None \<or> (u \<noteq> t \<longrightarrow> a \<notin> hold (lf_pc s u))" by blast
qed (use lf_invD [OF I] me own' keep hold' count pend p in \<open>auto simp: goto_def\<close>)

lemma goto_count: "goto t p s = goto t p (s\<lparr>lf_count := lf_count s\<rparr>)"
  by simp

text \<open>A step that writes to one of the own cells.\<close>

lemma lf_inv_write:
  assumes I: "lf_inv w ps pend ls s" and p: "p = lf_pc s t" "l = ls t" "h = lf_heap s"
    and a: "a \<in> set (own p l)" and me: "thread_ok w (h(a \<mapsto> n)) ps pend p' l'"
    and own': "set (own p' l') \<subseteq> set (own p l)" and keep: "w = Stack_34 \<Longrightarrow> set (own p l) \<subseteq> set (own p' l')"
    and hold': "hold p' \<subseteq> hold p" and doomed': "doomed p' l' \<union> pushing p' \<subseteq> doomed p l \<union> pushing p"
    and count: "in_pop p' \<longleftrightarrow> in_pop p"
    and pend: "pops_of t (lf_log s) = rets_of t (lf_res s @ rs) @ pending (h(a \<mapsto> n)) p'" and rs: "\<And>u r. (u, r) \<in> set rs \<Longrightarrow> u = t"
  shows "lf_ok w (goto t p' (s\<lparr>lf_heap := h(a \<mapsto> n), lf_res := lf_res s @ rs\<rparr>))"
proof (rule lf_okI, rule lf_inv_step [OF I p refl, where p' = p' and l' = l' and ps' = ps and pend' = pend])
  let ?s = "goto t p' (s\<lparr>lf_heap := h(a \<mapsto> n), lf_res := lf_res s @ rs\<rparr>)"
  have out: "b \<noteq> a" if "b \<in> set ps \<union> set pend" for b using a that lf_invD(4) [OF I, of t] unfolding thread_ok_def p by blast
  show "seg (lf_heap ?s) (lf_head ?s) ps None" by (rule seg_cong [of h]) (use lf_invD(1) [OF I] out p in \<open>auto simp: goto_def\<close>)
  show "seg (lf_heap ?s) (lf_deleted ?s) pend None" by (rule seg_cong [of h]) (use lf_invD(2) [OF I] out p in \<open>auto simp: goto_def\<close>)
  show "\<exists>st. replay (lf_log ?s) [] = Some st \<and> map (datum (lf_heap ?s)) ps = map Some st"
    using log_kept [OF I, of "lf_heap ?s"] out p by (simp add: goto_def)
  show "pops_of u (lf_log ?s) = pops_of u (lf_log s) \<and> rets_of u (lf_res ?s) = rets_of u (lf_res s)" if "u \<noteq> t" for u
  proof -
    have "rets_of u rs = []" using rs that by (auto simp: rets_of_def filter_empty_conv)
    then show ?thesis by (simp add: goto_def)
  qed
  show "b \<in> doomed p l" if "h b \<noteq> None" "lf_heap ?s b = None" for b using that by (auto simp: goto_def split: if_splits)
  show "b \<in> set ps \<union> set pend \<union> set (own p' l') \<or> h b \<noteq> None \<and> b \<notin> set ps \<union> set pend \<union> set (own p l)"
    if "w = Stack_34" "lf_heap ?s b \<noteq> None" for b using keep that a by (auto simp: goto_def split: if_splits)
qed (use lf_invD [OF I] a me own' keep hold' doomed' count pend p in \<open>auto simp: goto_def\<close>)

lemma lf_inv_new: "lf_ok w lf_new"
  by (rule lf_okI [of w "[]" "[]" "\<lambda>_. []"]) (auto simp: lf_inv_def lf_new_def thread_ok_def apart_def)

lemma call_push_ok:
  assumes I: "lf_inv w ps pend ls s" and pc: "lf_pc s t = Idle" and new: "lf_heap s nd = None"
  shows "lf_ok w (goto t (Push_load v nd) (s\<lparr>lf_heap := (lf_heap s)(nd \<mapsto> \<lparr>nd_data = Some v, nd_next = None\<rparr>)\<rparr>))" (is "lf_ok w ?s")
proof (rule lf_okI, rule lf_inv_step [OF I refl refl refl refl, where p' = "Push_load v nd" and l' = "[]" and ps' = ps and pend' = pend])
  have out: "b \<noteq> nd" if "b \<in> set ps \<union> set pend" for b
    using that new seg_dom [OF lf_invD(1) [OF I]] seg_dom [OF lf_invD(2) [OF I]] by auto
  show "seg (lf_heap ?s) (lf_head ?s) ps None" by (rule seg_cong [of "lf_heap s"]) (use lf_invD(1) [OF I] out in \<open>auto simp: goto_def\<close>)
  show "seg (lf_heap ?s) (lf_deleted ?s) pend None" by (rule seg_cong [of "lf_heap s"]) (use lf_invD(2) [OF I] out in \<open>auto simp: goto_def\<close>)
  show "\<exists>st. replay (lf_log ?s) [] = Some st \<and> map (datum (lf_heap ?s)) ps = map Some st"
    using log_kept [OF I, of "lf_heap ?s"] out by (simp add: goto_def)
  show "thread_ok w (lf_heap ?s) ps pend (Push_load v nd) []" using out by (auto simp: thread_ok_def goto_def)
  show "b \<in> doomed (lf_pc s t) (ls t)" if "lf_heap s b \<noteq> None" "lf_heap ?s b = None" for b
    using that by (auto simp: goto_def split: if_splits)
qed (use lf_invD(3) [OF I] lf_invD(9) [OF I, of t] new in \<open>auto simp: goto_def pc\<close>)

lemma call_pop_ok:
  assumes I: "lf_inv w ps pend ls s" and pc: "lf_pc s t = Idle"
  shows "lf_ok w (goto t (if w = Stack_34 then Pop_enter else Pop_load) s)"
  by (subst goto_count, rule lf_inv_move [OF I refl refl refl, where l' = "[]"]) (auto simp: pc thread_ok_def split: if_splits)

lemma set_next_eq: "lf_heap s a = Some n \<Longrightarrow> set_next a r s = Some (s\<lparr>lf_heap := (lf_heap s)(a \<mapsto> n\<lparr>nd_next := r\<rparr>)\<rparr>)"
  by (simp add: set_next_def)

lemma goto_same: "lf_pc s t = p \<Longrightarrow> goto t p s = s"
  by (auto simp: goto_def)

lemma lf_inv_write_own:
  assumes I: "lf_inv w ps pend ls s" and p: "p = lf_pc s t" "l = ls t" "h = lf_heap s"
    and a: "a \<in> set (own p l)" and me: "thread_ok w (h(a \<mapsto> n)) ps pend p' l'"
    and own': "set (own p' l') \<subseteq> set (own p l)" and keep: "w = Stack_34 \<Longrightarrow> set (own p l) \<subseteq> set (own p' l')"
    and hold': "hold p' \<subseteq> hold p" and doomed': "doomed p' l' \<union> pushing p' \<subseteq> doomed p l \<union> pushing p"
    and count: "in_pop p' \<longleftrightarrow> in_pop p" and pend: "pending (h(a \<mapsto> n)) p' = pending h p"
  shows "lf_ok w (goto t p' (s\<lparr>lf_heap := h(a \<mapsto> n)\<rparr>))"
  using lf_inv_write [OF I p a me own' keep hold' doomed' count, of "[]"] pend lf_invD(9) [OF I, of t] p by simp

lemma got_head_simps [simp]: "lf_heap (got_head t s) = lf_heap s" "lf_head (got_head t s) = lf_head s" "lf_deleted (got_head t s) = lf_deleted s"
  "lf_count (got_head t s) = lf_count s" "lf_res (got_head t s) = lf_res s"
  "lf_pc (got_head t s) = (lf_pc s)(t := Pop_loop (lf_head s))"
  "lf_log (got_head t s) = lf_log s @ (if lf_head s = None then [Popped t None] else [])"
  by (simp_all add: got_head_def goto_def)

text \<open>The own cells are allocated.\<close>

lemma own_alloc: "lf_inv w ps pend ls s \<Longrightarrow> a \<in> set (own (lf_pc s t) (ls t)) \<Longrightarrow> \<exists>n. lf_heap s a = Some n"
  using lf_invD(4) [of w ps pend ls s t] unfolding thread_ok_def by blast

lemma push_load_ok:
  assumes I: "lf_inv w ps pend ls s" and pc: "lf_pc s t = Push_load v nd"
  shows "\<exists>s'. push_go t spurious (lf_pc s t) s = Some s' \<and> lf_ok w s'"
proof -
  have ok: "thread_ok w (lf_heap s) ps pend (Push_load v nd) (ls t)" using lf_invD(4) [OF I, of t] pc by simp
  obtain n where n: "lf_heap s nd = Some n" using own_alloc [OF I, of nd t] pc by auto
  have "lf_ok w (goto t (Push_cas v nd) (s\<lparr>lf_heap := (lf_heap s)(nd \<mapsto> n\<lparr>nd_next := lf_head s\<rparr>)\<rparr>))"
    by (rule lf_inv_write_own [OF I refl refl refl, where l' = "ls t"])
      (use ok n in \<open>auto simp: pc thread_ok_def\<close>)
  then show ?thesis by (simp add: pc set_next_eq [OF n])
qed

lemma push_cas_ok:
  assumes I: "lf_inv w ps pend ls s" and pc: "lf_pc s t = Push_cas v nd"
  shows "\<exists>s'. push_go t spurious (lf_pc s t) s = Some s' \<and> lf_ok w s'"
proof -
  have ok: "thread_ok w (lf_heap s) ps pend (Push_cas v nd) (ls t)" using lf_invD(4) [OF I, of t] pc by simp
  obtain n where n: "lf_heap s nd = Some n" using own_alloc [OF I, of nd t] pc by auto
  show ?thesis
  proof (cases "\<not> spurious \<and> lf_head s = nd_next n")
    case True
    let ?s = "goto t Idle (s\<lparr>lf_head := Some nd, lf_log := lf_log s @ [Pushed v]\<rparr>)"
    have "lf_ok w ?s"
    proof (rule lf_okI, rule lf_inv_step [OF I refl refl refl refl, where p' = Idle and l' = "[]" and ps' = "nd # ps" and pend' = pend])
      show "seg (lf_heap ?s) (lf_head ?s) (nd # ps) None" using lf_invD(1) [OF I] True n by (simp add: goto_def)
      obtain st where "replay (lf_log s) [] = Some st" "map (datum (lf_heap s)) ps = map Some st" using lf_invD(8) [OF I] by blast
      then show "\<exists>st. replay (lf_log ?s) [] = Some st \<and> map (datum (lf_heap ?s)) (nd # ps) = map Some st"
        using n ok by (intro exI [of _ "v # st"]) (simp add: replay_append goto_def datum_def thread_ok_def)
    qed (use ok lf_invD(2,3) [OF I] lf_invD(9) [OF I, of t] in \<open>auto simp: goto_def pc thread_ok_def\<close>)
    then show ?thesis using True n by (simp add: pc)
  next
    case False
    have "lf_ok w (goto t (Push_cas v nd) (s\<lparr>lf_heap := (lf_heap s)(nd \<mapsto> n\<lparr>nd_next := lf_head s\<rparr>)\<rparr>))"
      by (rule lf_inv_write_own [OF I refl refl refl, where l' = "ls t"])
        (use ok n in \<open>auto simp: pc thread_ok_def\<close>)
    then show ?thesis using False n by (auto simp: pc set_next_eq [OF n] goto_same)
  qed
qed

lemma got_head_ok:
  assumes I: "lf_inv w ps pend ls s" and pc: "own (lf_pc s t) (ls t) = []" "in_pop (lf_pc s t)" "pending (lf_heap s) (lf_pc s t) = []"
  shows "lf_ok w (got_head t s)"
proof (rule lf_okI, rule lf_inv_step [OF I refl refl refl refl, where p' = "Pop_loop (lf_head s)" and l' = "[]" and ps' = ps and pend' = pend])
  obtain st where st: "replay (lf_log s) [] = Some st" "map (datum (lf_heap s)) ps = map Some st" using lf_invD(8) [OF I] by blast
  moreover have "st = []" if "lf_head s = None" using that lf_invD(1) [OF I] st(2) by simp
  ultimately show "\<exists>st. replay (lf_log (got_head t s)) [] = Some st \<and> map (datum (lf_heap (got_head t s))) ps = map Some st"
    by (intro exI [of _ st]) (auto simp: replay_append)
  have hd: "set_option (lf_head s) \<subseteq> set ps" using lf_invD(1) [OF I] by (cases ps) auto
  then show "hold (Pop_loop (lf_head s)) \<subseteq> hold (lf_pc s t) \<union> set ps" by auto
  show "thread_ok w (lf_heap (got_head t s)) ps pend (Pop_loop (lf_head s)) []"
    using hd seg_dom [OF lf_invD(1) [OF I]] by (auto simp: thread_ok_def)
qed (use pc lf_invD(1,2,3) [OF I] lf_invD(9) [OF I, of t] in \<open>auto\<close>)

lemma pop_loop_ok:
  assumes I: "lf_inv w ps pend ls s" and pc: "lf_pc s t = Pop_loop old"
  shows "\<exists>s'. pop_go w t spurious (lf_pc s t) s = Some s' \<and> lf_ok w s'"
proof (cases old)
  case None
  have "lf_ok w (goto t (Pop_take None) s)"
    by (subst goto_count, rule lf_inv_move [OF I refl refl refl, where l' = "[]"]) (auto simp: pc None thread_ok_def)
  then show ?thesis by (simp add: pc None)
next
  case (Some a)
  then obtain n where n: "lf_heap s a = Some n" using lf_invD(4) [OF I, of t] pc by (auto simp: thread_ok_def)
  have "lf_ok w (goto t (Pop_cas a (nd_next n)) s)"
    by (subst goto_count, rule lf_inv_move [OF I refl refl refl, where l' = "[]"]) (auto simp: pc Some n thread_ok_def)
  then show ?thesis by (simp add: pc Some n)
qed

lemma pop_cas_ok:
  assumes I: "lf_inv w ps pend ls s" and pc: "lf_pc s t = Pop_cas a next"
  shows "\<exists>s'. pop_go w t spurious (lf_pc s t) s = Some s' \<and> lf_ok w s'"
proof (cases "\<not> spurious \<and> lf_head s = Some a")
  case True
  let ?p = "if w = Stack_7 then Pop_clear a else Pop_take (Some a)"
  let ?s = "goto t ?p (s\<lparr>lf_head := next, lf_log := lf_log s @ [Popped t (datum (lf_heap s) a)]\<rparr>)"
  have "ps \<noteq> []" using lf_invD(1) [OF I] True by auto
  then obtain qs where ps: "ps = a # qs" using lf_invD(1) [OF I] True by (cases ps) auto
  have ok: "thread_ok w (lf_heap s) ps pend (Pop_cas a next) (ls t)" using lf_invD(4) [OF I, of t] pc by simp
  then obtain n where n: "lf_heap s a = Some n" "nd_next n = next" by (auto simp: thread_ok_def ps)
  have "lf_ok w ?s"
  proof (rule lf_okI, rule lf_inv_step [OF I refl refl refl refl, where p' = ?p and l' = "[]" and ps' = qs and pend' = pend])
    show "seg (lf_heap ?s) (lf_head ?s) qs None" using lf_invD(1) [OF I] n by (simp add: goto_def ps)
    obtain st where st: "replay (lf_log s) [] = Some st" "map (datum (lf_heap s)) ps = map Some st" using lf_invD(8) [OF I] by blast
    then obtain v st' where "st = v # st'" "datum (lf_heap s) a = Some v" "map (datum (lf_heap s)) qs = map Some st'"
      by (cases st) (auto simp: ps)
    then show "\<exists>st. replay (lf_log ?s) [] = Some st \<and> map (datum (lf_heap ?s)) qs = map Some st"
      using st(1) by (intro exI [of _ st']) (simp add: replay_append goto_def)
    show "thread_ok w (lf_heap ?s) qs pend ?p []" using n lf_invD(3) [OF I] by (auto simp: thread_ok_def ps goto_def)
    show "pops_of t (lf_log ?s) = rets_of t (lf_res ?s) @ pending (lf_heap ?s) ?p"
      using lf_invD(9) [OF I, of t] by (simp add: pc goto_def)
  qed (use ok lf_invD(2,3) [OF I] ps in \<open>auto simp: goto_def pc split: if_splits\<close>)
  then show ?thesis using True by (simp add: pc datum_def)
next
  case False
  moreover have "lf_ok w (got_head t s)" by (rule got_head_ok [OF I]) (simp_all add: pc)
  ultimately show ?thesis by (auto simp: pc)
qed

lemma pop_clear_ok:
  assumes I: "lf_inv w ps pend ls s" and pc: "lf_pc s t = Pop_clear a"
  shows "\<exists>s'. pop_go w t spurious (lf_pc s t) s = Some s' \<and> lf_ok w s'"
proof -
  have ok: "thread_ok w (lf_heap s) ps pend (Pop_clear a) (ls t)" using lf_invD(4) [OF I, of t] pc by simp
  obtain n where n: "lf_heap s a = Some n" using own_alloc [OF I, of a t] pc by auto
  have "lf_ok w (goto t (Pop_take (Some a)) (s\<lparr>lf_heap := (lf_heap s)(a \<mapsto> n\<lparr>nd_next := None\<rparr>)\<rparr>))"
    by (rule lf_inv_write_own [OF I refl refl refl, where l' = "ls t"])
      (use ok n in \<open>auto simp: pc thread_ok_def datum_def\<close>)
  then show ?thesis by (simp add: pc set_next_eq [OF n])
qed

lemma pop_take_ok:
  assumes I: "lf_inv w ps pend ls s" and pc: "lf_pc s t = Pop_take old"
  shows "\<exists>s'. pop_go w t spurious (lf_pc s t) s = Some s' \<and> lf_ok w s'"
proof -
  have ok: "thread_ok w (lf_heap s) ps pend (Pop_take old) (ls t)" using lf_invD(4) [OF I, of t] pc by simp
  let ?p = "if w = Stack_34 then Rc_test old else Idle"
  let ?r = "Option.bind old (datum (lf_heap s))"
  have move: "lf_ok w (goto t ?p (s\<lparr>lf_res := lf_res s @ [(t, ?r)]\<rparr>))" (is "lf_ok w ?s")
  proof (rule lf_okI, rule lf_inv_step [OF I refl refl refl refl, where p' = ?p and l' = "ls t" and ps' = ps and pend' = pend])
    show "pops_of t (lf_log ?s) = rets_of t (lf_res ?s) @ pending (lf_heap ?s) ?p"
      using lf_invD(9) [OF I, of t] by (simp add: pc goto_def)
  qed (use ok lf_invD(1,2,3,8) [OF I] in \<open>auto simp: goto_def pc thread_ok_def split: if_splits\<close>)
  show ?thesis
  proof (cases old)
    case None
    with move show ?thesis by (cases "w = Stack_34") (simp_all add: pc)
  next
    case (Some a)
    then obtain n where n: "lf_heap s a = Some n" using own_alloc [OF I, of a t] pc by auto
    show ?thesis
    proof (cases "w = Stack_34")
      case False
      with move n Some show ?thesis by (simp add: pc datum_def)
    next
      case True
      let ?n = "n\<lparr>nd_data := None\<rparr>"
      have "lf_ok w (goto t (Rc_test old) (s\<lparr>lf_heap := (lf_heap s)(a \<mapsto> ?n), lf_res := lf_res s @ [(t, nd_data n)]\<rparr>))"
        by (rule lf_inv_write [OF I refl refl refl, where l' = "ls t"])
          (use ok n Some True lf_invD(9) [OF I, of t] in \<open>auto simp: pc thread_ok_def datum_def\<close>)
      with True n Some show ?thesis by (simp add: pc)
    qed
  qed
qed

text \<open>While the counter is 1, or becomes 0, no other thread is inside of \<^verbatim>\<open>pop\<close>.\<close>

lemma alone:
  assumes I: "lf_inv Stack_34 ps pend ls s" and t: "in_pop (lf_pc s t)" and c: "lf_count s = 1" and u: "u \<noteq> t"
  shows "hold (lf_pc s u) = {}"
proof -
  have "card {x. in_pop (lf_pc s x)} = 1" using lf_invD(7) [OF I] c by simp
  then obtain z where "{x. in_pop (lf_pc s x)} = {z}" by (auto simp: card_1_singleton_iff)
  with t u have "\<not> in_pop (lf_pc s u)" by (metis (mono_tags, lifting) mem_Collect_eq singletonD)
  then show ?thesis by (cases "lf_pc s u") auto
qed

lemma count_pos: "lf_inv Stack_34 ps pend ls s \<Longrightarrow> in_pop (lf_pc s t) \<Longrightarrow> 0 < lf_count s"
  using lf_invD(6,7) [of Stack_34 ps pend ls s] by (auto simp: card_gt_0_iff)

lemma is_34: "lf_inv w ps pend ls s \<Longrightarrow> reclaiming (lf_pc s t) \<Longrightarrow> w = Stack_34"
  using lf_invD(4) [of w ps pend ls s t] by (simp add: thread_ok_def)

lemma rc_test_ok:
  assumes I: "lf_inv w ps pend ls s" and pc: "lf_pc s t = Rc_test old"
  shows "\<exists>s'. reclaim_go t (lf_pc s t) s = Some s' \<and> lf_ok w s'"
proof -
  have w: "w = Stack_34" using is_34 [OF I, of t] pc by simp
  have ok: "thread_ok w (lf_heap s) ps pend (Rc_test old) (ls t)" using lf_invD(4) [OF I, of t] pc by simp
  have "lf_ok w (goto t (Rc_xchg old) s)" if c: "lf_count s = 1"
    by (subst goto_count, rule lf_inv_move [OF I refl refl refl, where l' = "[]"])
      (use ok alone [OF I [unfolded w], of t] c in \<open>auto simp: pc thread_ok_def\<close>)
  moreover have "lf_ok w (goto t (Rc_link old old Then_leave) s)"
  proof (subst goto_count, rule lf_inv_move [OF I refl refl refl, where l' = "cell old"])
    have "\<exists>q. seg (lf_heap s) old (cell old) q" using ok by (cases old) (auto simp: thread_ok_def)
    then show "thread_ok w (lf_heap s) ps pend (Rc_link old old Then_leave) (cell old)"
      using ok by (auto simp: thread_ok_def split: option.splits)
  qed (simp_all add: pc)
  ultimately show ?thesis by (simp add: pc)
qed

lemma rc_xchg_ok:
  assumes I: "lf_inv w ps pend ls s" and pc: "lf_pc s t = Rc_xchg old"
  shows "\<exists>s'. reclaim_go t (lf_pc s t) s = Some s' \<and> lf_ok w s'"
proof -
  have ok: "thread_ok w (lf_heap s) ps pend (Rc_xchg old) (ls t)" using lf_invD(4) [OF I, of t] pc by simp
  let ?s = "goto t (Rc_dec old (lf_deleted s)) (s\<lparr>lf_deleted := None\<rparr>)"
  have "lf_ok w ?s"
  proof (rule lf_okI, rule lf_inv_step [OF I refl refl refl refl, where p' = "Rc_dec old (lf_deleted s)" and l' = pend and ps' = ps and pend' = "[]"])
    show "thread_ok w (lf_heap ?s) ps [] (Rc_dec old (lf_deleted s)) pend"
      using ok lf_invD(2,3) [OF I] seg_dom [OF lf_invD(2) [OF I]] by (auto simp: thread_ok_def goto_def)
  qed (use ok lf_invD(1,3,8) [OF I] lf_invD(9) [OF I, of t] in \<open>auto simp: goto_def pc thread_ok_def\<close>)
  then show ?thesis by (simp add: pc)
qed

lemma rc_dec_ok:
  assumes I: "lf_inv w ps pend ls s" and pc: "lf_pc s t = Rc_dec old nodes"
  shows "\<exists>s'. reclaim_go t (lf_pc s t) s = Some s' \<and> lf_ok w s'"
proof -
  have w: "w = Stack_34" using is_34 [OF I, of t] pc by simp
  have ok: "thread_ok w (lf_heap s) ps pend (Rc_dec old nodes) (ls t)" using lf_invD(4) [OF I, of t] pc by simp
  have c: "0 < lf_count s" using count_pos [OF I [unfolded w], of t] pc by simp
  let ?c = "lf_count s - 1"
  have "lf_ok w (goto t (Rc_del nodes old) (s\<lparr>lf_count := ?c\<rparr>))" if 0: "?c = 0"
    by (rule lf_inv_move [OF I refl refl refl, where l' = "ls t"])
      (use ok alone [OF I [unfolded w], of t] c 0 in \<open>auto simp: pc thread_ok_def\<close>)
  moreover have "lf_ok w (goto t (Rc_free old) (s\<lparr>lf_count := ?c\<rparr>))" if "nodes = None"
    by (rule lf_inv_move [OF I refl refl refl, where l' = "[]"]) (use ok c that in \<open>auto simp: pc thread_ok_def\<close>)
  moreover have "lf_ok w (goto t (Rc_walk nd nd old) (s\<lparr>lf_count := ?c\<rparr>))" if nd: "nodes = Some nd" for nd
    by (rule lf_inv_move [OF I refl refl refl, where l' = "ls t"])
      (use ok c nd in \<open>auto simp: pc thread_ok_def neq_Nil_conv elim: seg.elims\<close>)
  ultimately show ?thesis by (auto simp: pc Let_def split: option.splits)
qed

lemma rc_free_ok:
  assumes I: "lf_inv w ps pend ls s" and pc: "lf_pc s t = Rc_free old"
  shows "\<exists>s'. reclaim_go t (lf_pc s t) s = Some s' \<and> lf_ok w s'"
proof (cases old)
  case None
  have "lf_ok w (goto t Idle s)"
    by (subst goto_count, rule lf_inv_move [OF I refl refl refl, where l' = "[]"]) (auto simp: pc None thread_ok_def)
  then show ?thesis by (simp add: pc None)
next
  case (Some a)
  have ok: "thread_ok w (lf_heap s) ps pend (Rc_free old) (ls t)" using lf_invD(4) [OF I, of t] pc by simp
  obtain n where n: "lf_heap s a = Some n" using own_alloc [OF I, of a t] pc Some by auto
  let ?s = "goto t Idle (s\<lparr>lf_heap := (lf_heap s)(a := None)\<rparr>)"
  have "lf_ok w ?s"
  proof (rule lf_okI, rule lf_inv_step [OF I refl refl refl refl, where p' = Idle and l' = "[]" and ps' = ps and pend' = pend])
    have out: "b \<noteq> a" if "b \<in> set ps \<union> set pend" for b using that ok Some by (auto simp: thread_ok_def)
    show "seg (lf_heap ?s) (lf_head ?s) ps None" by (rule seg_cong [of "lf_heap s"]) (use lf_invD(1) [OF I] out in \<open>auto simp: goto_def\<close>)
    show "seg (lf_heap ?s) (lf_deleted ?s) pend None" by (rule seg_cong [of "lf_heap s"]) (use lf_invD(2) [OF I] out in \<open>auto simp: goto_def\<close>)
    show "\<exists>st. replay (lf_log ?s) [] = Some st \<and> map (datum (lf_heap ?s)) ps = map Some st"
      using log_kept [OF I, of "lf_heap ?s"] out by (simp add: goto_def)
  qed (use lf_invD(3) [OF I] lf_invD(9) [OF I, of t] Some in \<open>auto simp: goto_def pc thread_ok_def split: if_splits\<close>)
  then show ?thesis by (simp add: pc Some n delete_node_def)
qed

lemma rc_leave_ok:
  assumes I: "lf_inv w ps pend ls s" and pc: "lf_pc s t = Rc_leave"
  shows "\<exists>s'. reclaim_go t (lf_pc s t) s = Some s' \<and> lf_ok w s'"
proof -
  have w: "w = Stack_34" using is_34 [OF I, of t] pc by simp
  have "0 < lf_count s" using count_pos [OF I [unfolded w], of t] pc by simp
  then have "lf_ok w (goto t Idle (s\<lparr>lf_count := lf_count s - 1\<rparr>))"
    by (intro lf_inv_move [OF I refl refl refl, where l' = "[]"]) (auto simp: pc thread_ok_def)
  then show ?thesis by (simp add: pc)
qed

lemma seg_Some: "seg h (Some a) as None \<Longrightarrow> \<exists>n l. h a = Some n \<and> as = a # l \<and> seg h (nd_next n) l None"
  by (cases as) (simp_all split: option.splits)

lemma rc_del_ok:
  assumes I: "lf_inv w ps pend ls s" and pc: "lf_pc s t = Rc_del nodes old"
  shows "\<exists>s'. delete_nodes_go t (lf_pc s t) s = Some s' \<and> lf_ok w s'"
proof -
  have ok: "thread_ok w (lf_heap s) ps pend (Rc_del nodes old) (ls t)" using lf_invD(4) [OF I, of t] pc by simp
  show ?thesis
  proof (cases nodes)
    case None
    have "lf_ok w (goto t (Rc_free old) s)"
      by (subst goto_count, rule lf_inv_move [OF I refl refl refl, where l' = "[]"]) (use ok None in \<open>auto simp: pc thread_ok_def\<close>)
    then show ?thesis by (simp add: pc None)
  next
    case (Some a)
    have "seg (lf_heap s) (Some a) (ls t) None" using ok Some by (simp add: thread_ok_def)
    then obtain n l where n: "lf_heap s a = Some n" and l: "ls t = a # l" "seg (lf_heap s) (nd_next n) l None"
      using seg_Some by blast
    let ?p = "Rc_del (nd_next n) old" let ?s = "goto t ?p (s\<lparr>lf_heap := (lf_heap s)(a := None)\<rparr>)"
    have "lf_ok w ?s"
    proof (rule lf_okI, rule lf_inv_step [OF I refl refl refl refl, where p' = ?p and l' = l and ps' = ps and pend' = pend])
      have out: "b \<noteq> a" if "b \<in> set ps \<union> set pend \<union> set l \<union> set_option old" for b using that ok l(1) by (auto simp: thread_ok_def)
      show "seg (lf_heap ?s) (lf_head ?s) ps None" by (rule seg_cong [of "lf_heap s"]) (use lf_invD(1) [OF I] out in \<open>auto simp: goto_def\<close>)
      show "seg (lf_heap ?s) (lf_deleted ?s) pend None" by (rule seg_cong [of "lf_heap s"]) (use lf_invD(2) [OF I] out in \<open>auto simp: goto_def\<close>)
      show "\<exists>st. replay (lf_log ?s) [] = Some st \<and> map (datum (lf_heap ?s)) ps = map Some st"
        using log_kept [OF I, of "lf_heap ?s"] out by (simp add: goto_def)
      have "seg (lf_heap ?s) (nd_next n) l None" by (rule seg_cong [OF l(2)]) (use out in \<open>auto simp: goto_def\<close>)
      then show "thread_ok w (lf_heap ?s) ps pend ?p l" using ok out l(1) by (auto simp: thread_ok_def goto_def)
    qed (use lf_invD(3) [OF I] lf_invD(9) [OF I, of t] l(1) in \<open>auto simp: goto_def pc split: if_splits\<close>)
    then show ?thesis by (simp add: pc Some n delete_node_def)
  qed
qed

lemma seg_next:
  assumes "seg h p l None" "x \<in> set l" "h x = Some n"
  shows "nd_next n = Some y \<Longrightarrow> y \<in> set l" and "nd_next n = None \<Longrightarrow> x = last l"
proof -
  obtain us vs where l: "l = us @ x # vs" using assms(2) by (meson split_list)
  then have "seg h (nd_next n) vs None" using assms(1,3) by (auto simp: seg_append)
  then show "nd_next n = Some y \<Longrightarrow> y \<in> set l" and "nd_next n = None \<Longrightarrow> x = last l"
    using l by (cases vs; simp)+
qed

lemma seg_last: "seg h p l q \<Longrightarrow> l \<noteq> [] \<Longrightarrow> h (last l) = Some n \<Longrightarrow> q = nd_next n"
  by (cases l rule: rev_cases) (auto simp: seg_append)

lemma seg_set_last:
  assumes "seg h p l q" "l \<noteq> []" "distinct l" "h (last l) = Some n"
  shows "seg (h(last l \<mapsto> n\<lparr>nd_next := r\<rparr>)) p l r"
proof -
  obtain us x where l: "l = us @ [x]" using assms(2) by (cases l rule: rev_cases) auto
  then have "seg h p us (Some x)" using assms(1) by (auto simp: seg_append)
  then have "seg (h(x \<mapsto> n\<lparr>nd_next := r\<rparr>)) p us (Some x)" by (rule seg_cong) (use assms(3) l in auto)
  then show ?thesis by (auto simp: l seg_append)
qed

lemma rc_walk_ok:
  assumes I: "lf_inv w ps pend ls s" and pc: "lf_pc s t = Rc_walk f x old"
  shows "\<exists>s'. chain_go t spurious (lf_pc s t) s = Some s' \<and> lf_ok w s'"
proof -
  have ok: "thread_ok w (lf_heap s) ps pend (Rc_walk f x old) (ls t)" using lf_invD(4) [OF I, of t] pc by simp
  then have sg: "seg (lf_heap s) (Some f) (ls t) None" "x \<in> set (ls t)" by (auto simp: thread_ok_def)
  obtain n where n: "lf_heap s x = Some n" using own_alloc [OF I, of x t] pc sg by auto
  note next' = seg_next [OF sg n]
  have "lf_ok w (goto t (Rc_walk f y old) s)" if "nd_next n = Some y" for y
    by (subst goto_count, rule lf_inv_move [OF I refl refl refl, where l' = "ls t"])
      (use ok that next' in \<open>auto simp: pc thread_ok_def\<close>)
  moreover have "lf_ok w (goto t (Rc_link (Some f) (Some x) (Then_free old)) s)" if "nd_next n = None"
    by (subst goto_count, rule lf_inv_move [OF I refl refl refl, where l' = "ls t"])
      (use ok that next' sg in \<open>auto simp: pc thread_ok_def\<close>)
  ultimately show ?thesis by (cases "nd_next n") (simp_all add: pc n)
qed

lemma chain_write_ok:
  assumes I: "lf_inv w ps pend ls s" and pc: "lf_pc s t = Rc_link f (Some x) k \<or> lf_pc s t = Rc_cas f x k"
  shows "\<exists>s'. set_next x r s = Some s' \<and> lf_ok w (goto t (Rc_cas f x k) s')"
proof -
  let ?l = "ls t"
  have ok: "thread_ok w (lf_heap s) ps pend (Rc_cas f x k) ?l"
    using lf_invD(4) [OF I, of t] pc by (cases k) (auto simp: thread_ok_def split: if_splits)
  then have l: "?l \<noteq> []" "x = last ?l" "distinct ?l" by (cases k; simp add: thread_ok_def)+
  obtain q where q: "seg (lf_heap s) f ?l q" using ok by (cases k) (auto simp: thread_ok_def)
  obtain n where n: "lf_heap s x = Some n" using seg_dom [OF q] l by (metis domD last_in_set subsetD)
  have "seg ((lf_heap s)(x \<mapsto> n\<lparr>nd_next := r\<rparr>)) f ?l r" using seg_set_last [OF q l(1,3)] n l(2) by simp
  then have "lf_ok w (goto t (Rc_cas f x k) (s\<lparr>lf_heap := (lf_heap s)(x \<mapsto> n\<lparr>nd_next := r\<rparr>)\<rparr>))"
    using ok pc l by (intro lf_inv_write_own [OF I refl refl refl, where l' = ?l]) (cases k; auto simp: thread_ok_def)+
  then show ?thesis by (simp add: set_next_eq [OF n])
qed

lemma rc_cas_ok:
  assumes I: "lf_inv w ps pend ls s" and pc: "lf_pc s t = Rc_cas f x k"
  shows "\<exists>s'. chain_go t spurious (lf_pc s t) s = Some s' \<and> lf_ok w s'"
proof -
  let ?l = "ls t"
  have ok: "thread_ok w (lf_heap s) ps pend (Rc_cas f x k) ?l" using lf_invD(4) [OF I, of t] pc by simp
  then have l: "?l \<noteq> []" "x = last ?l" by (simp_all add: thread_ok_def)
  obtain q where q: "seg (lf_heap s) f ?l q" using ok by (auto simp: thread_ok_def)
  obtain n where n: "lf_heap s x = Some n" using seg_dom [OF q] l by (metis domD last_in_set subsetD)
  show ?thesis
  proof (cases "\<not> spurious \<and> lf_deleted s = nd_next n")
    case True
    let ?p = "case k of Then_free old \<Rightarrow> Rc_free old | Then_leave \<Rightarrow> Rc_leave" let ?s = "goto t ?p (s\<lparr>lf_deleted := f\<rparr>)"
    have "lf_ok w ?s"
    proof (rule lf_okI, rule lf_inv_step [OF I refl refl refl refl, where p' = ?p and l' = "[]" and ps' = ps and pend' = "?l @ pend"])
      have "seg (lf_heap s) f ?l (lf_deleted s)" using q seg_last [OF q l(1)] n l(2) True by simp
      then show "seg (lf_heap ?s) (lf_deleted ?s) (?l @ pend) None" using lf_invD(2) [OF I] by (auto simp: seg_append goto_def)
      show "thread_ok w (lf_heap ?s) ps (?l @ pend) ?p []" using ok by (cases k) (auto simp: thread_ok_def goto_def)
      show "distinct (ps @ ?l @ pend)" using ok lf_invD(3) [OF I] by (cases k) (auto simp: thread_ok_def)
    qed (use lf_invD(1,8) [OF I] lf_invD(9) [OF I, of t] pc in \<open>cases k; auto simp: goto_def\<close>)+
    then show ?thesis using True n by (simp add: pc)
  next
    case False
    obtain s' where s': "set_next x (lf_deleted s) s = Some s'" "lf_ok w (goto t (Rc_cas f x k) s')"
      using chain_write_ok [OF I, of t f x k] pc by blast
    moreover have "lf_pc s' t = Rc_cas f x k" using s'(1) pc by (auto simp: set_next_def)
    ultimately show ?thesis using False n by (auto simp: pc goto_same)
  qed
qed

section \<open>All runs\<close>

text \<open>The only step without a result is the one that follows a null pointer into \<^verbatim>\<open>chain_pending_node\<close>.\<close>

definition null_chained :: "nat \<times> 'v lf_act \<Rightarrow> 'v lf \<Rightarrow> bool" where
  "null_chained x s \<longleftrightarrow> (case (lf_pc s (fst x), snd x) of (Rc_link first None Then_leave, Go b) \<Rightarrow> True | _ \<Rightarrow> False)"

lemma null_chained_None: "null_chained x s \<Longrightarrow> lf_next w x s = None"
  by (cases x) (auto simp: null_chained_def split: pc.splits option.splits after_chain.splits lf_act.splits)

lemma lf_next_ok:
  assumes I: "lf_ok w s" and safe: "\<not> null_chained x s"
  shows "\<exists>s'. lf_next w x s = Some s' \<and> lf_ok w s'"
proof -
  obtain t act where x: "x = (t, act)" by (cases x)
  obtain ps pend ls where J: "lf_inv w ps pend ls s" using I by (auto simp: lf_ok_def)
  show ?thesis
  proof (cases act)
    case (Call_push v nd)
    then show ?thesis using call_push_ok [OF J] I by (auto simp: x)
  next
    case Call_pop
    then show ?thesis using call_pop_ok [OF J] I by (auto simp: x)
  next
    case (Go spurious)
    show ?thesis
    proof (cases "lf_pc s t")
      case (Rc_link first lst k)
      obtain a where a: "lst = Some a"
        using lf_invD(4) [OF J, of t] Rc_link safe x Go by (cases lst; cases k) (auto simp: thread_ok_def null_chained_def split: if_splits)
      then show ?thesis using chain_write_ok [OF J, of t first a k "lf_deleted s"] Rc_link by (auto simp: x Go)
    next
      case Idle
      then show ?thesis using I by (simp add: x Go)
    next
      case Pop_enter
      have "lf_ok w (goto t Pop_load (s\<lparr>lf_count := lf_count s + 1\<rparr>))"
        by (rule lf_inv_move [OF J refl refl refl, where l' = "[]"]) (auto simp: Pop_enter thread_ok_def)
      then show ?thesis by (simp add: x Go Pop_enter)
    next
      case Pop_load
      have "lf_ok w (got_head t s)" by (rule got_head_ok [OF J]) (simp_all add: Pop_load)
      then show ?thesis by (simp add: x Go Pop_load)
    next
      case (Push_load v a) then show ?thesis using push_load_ok [OF J] by (simp add: x Go)
    next
      case (Push_cas v a) then show ?thesis using push_cas_ok [OF J Push_cas] by (simp add: x Go)
    next
      case (Pop_loop old) then show ?thesis using pop_loop_ok [OF J Pop_loop] by (simp add: x Go)
    next
      case (Pop_cas a n) then show ?thesis using pop_cas_ok [OF J Pop_cas] by (simp add: x Go)
    next
      case (Pop_clear a) then show ?thesis using pop_clear_ok [OF J Pop_clear] by (simp add: x Go)
    next
      case (Pop_take old) then show ?thesis using pop_take_ok [OF J Pop_take] by (simp add: x Go)
    next
      case (Rc_test old) then show ?thesis using rc_test_ok [OF J Rc_test] by (simp add: x Go)
    next
      case (Rc_xchg old) then show ?thesis using rc_xchg_ok [OF J Rc_xchg] by (simp add: x Go)
    next
      case (Rc_dec old nodes) then show ?thesis using rc_dec_ok [OF J Rc_dec] by (simp add: x Go)
    next
      case (Rc_del nodes old) then show ?thesis using rc_del_ok [OF J Rc_del] by (simp add: x Go)
    next
      case (Rc_walk f y old) then show ?thesis using rc_walk_ok [OF J Rc_walk] by (simp add: x Go)
    next
      case (Rc_cas f y k) then show ?thesis using rc_cas_ok [OF J Rc_cas] by (simp add: x Go)
    next
      case (Rc_free old) then show ?thesis using rc_free_ok [OF J Rc_free] by (simp add: x Go)
    next
      case Rc_leave then show ?thesis using rc_leave_ok [OF J Rc_leave] by (simp add: x Go)
    qed
  qed
qed

lemma not_chained: "lf_ok w s \<Longrightarrow> w \<noteq> Stack_34 \<Longrightarrow> \<not> null_chained x s"
  by (cases "lf_pc s (fst x)") (auto simp: lf_ok_def null_chained_def dest: is_34 [where t = "fst x"])

interpretation lf2: machine "lf_next Stack_2" lf_new "lf_ok Stack_2" "\<lambda>_ _. False"
proof
  fix s :: "'v lf" and x :: "nat \<times> 'v lf_act" assume s: "lf_ok Stack_2 s"
  have "\<not> null_chained x s" using not_chained s by blast
  with s show "\<exists>s'. lf_next Stack_2 x s = Some s' \<and> lf_ok Stack_2 s'" by (rule lf_next_ok)
qed (simp_all add: lf_inv_new)

interpretation lf7: machine "stack7_next n" lf_new "lf_ok Stack_7" "next_races n"
proof
  fix s :: "'v lf" and x :: "nat \<times> 'v lf_act" assume s: "lf_ok Stack_7 s" and r: "\<not> next_races n x s"
  have "\<not> null_chained x s" using not_chained s by blast
  with s have "\<exists>s'. lf_next Stack_7 x s = Some s' \<and> lf_ok Stack_7 s'" by (rule lf_next_ok)
  then show "\<exists>s'. stack7_next n x s = Some s' \<and> lf_ok Stack_7 s'" using s r by (simp add: stack7_next_def)
qed (simp_all add: lf_inv_new stack7_next_def)

interpretation lf34: machine "lf_next Stack_34" lf_new "lf_ok Stack_34" null_chained
  by unfold_locales (rule lf_inv_new, erule lf_next_ok, assumption, rule null_chained_None)

text \<open>
  What linearizability means here: the stack is what the log makes it, and every thread got from its calls of \<^verbatim>\<open>pop\<close>, in order, what the
  log says, except for a call that is still on its way back.
\<close>

definition lf_linear :: "'v lf \<Rightarrow> bool" where
  "lf_linear s \<longleftrightarrow>
     (\<exists>ps st. seg (lf_heap s) (lf_head s) ps None \<and> map (datum (lf_heap s)) ps = map Some st \<and> replay (lf_log s) [] = Some st) \<and>
     (\<forall>t. \<exists>q. pops_of t (lf_log s) = rets_of t (lf_res s) @ q \<and> length q \<le> (if lf_pc s t = Idle then 0 else 1))"

definition lf_no_leak :: "'v lf \<Rightarrow> bool" where
  "lf_no_leak s \<longleftrightarrow>
     (\<exists>ps pend. seg (lf_heap s) (lf_head s) ps None \<and> seg (lf_heap s) (lf_deleted s) pend None \<and> distinct (ps @ pend) \<and>
        ((\<forall>t. lf_pc s t = Idle) \<longrightarrow> dom (lf_heap s) = set ps \<union> set pend))"

lemma lf_ok_linear:
  assumes "lf_ok w s"
  shows "lf_linear s"
proof -
  obtain ps pend ls where I: "lf_inv w ps pend ls s" using assms by (auto simp: lf_ok_def)
  have "length (pending (lf_heap s) (lf_pc s t)) \<le> (if lf_pc s t = Idle then 0 else 1)" for t by (cases "lf_pc s t") auto
  then show ?thesis using lf_invD(1,8,9) [OF I] unfolding lf_linear_def by blast
qed

lemma lf_ok_no_leak:
  assumes "lf_ok Stack_34 s"
  shows "lf_no_leak s"
proof -
  obtain ps pend ls where I: "lf_inv Stack_34 ps pend ls s" using assms by (auto simp: lf_ok_def)
  have "dom (lf_heap s) \<subseteq> set ps \<union> set pend" if "\<forall>t. lf_pc s t = Idle" using I that by (auto simp: lf_inv_def)
  with seg_dom [OF lf_invD(1) [OF I]] seg_dom [OF lf_invD(2) [OF I]] lf_invD(1,2,3) [OF I] show ?thesis
    unfolding lf_no_leak_def by (intro exI [of _ ps] exI [of _ pend]) auto
qed

lemma next_races_reader:
  "next_races n x s \<Longrightarrow> \<exists>a u. lf_pc s (fst x) = Pop_clear a \<and> u < n \<and> u \<noteq> fst x \<and> lf_pc s u = Pop_loop (Some a)"
  by (auto simp: next_races_def split: pc.splits lf_act.splits)

text \<open>C26.
  \<^verbatim>\<open>lock_free_stack_2\<close>, whose \<^verbatim>\<open>pop\<close> frees no node, is a linearizable stack: however the calls of however many threads are
  interleaved, and however often a compare-exchange fails for no reason, the stack holds what the pushes and pops in the order
  of their compare-exchanges leave, and each \<^verbatim>\<open>pop\<close> returns the value it took, or nothing when the stack was empty at the time.
  \<^verbatim>\<open>lock_free_stack_7\<close> is one as well, up to the first data race on a \<^verbatim>\<open>next\<close>: a run of it that has no result stops
  where a \<^verbatim>\<open>pop\<close> clears the \<^verbatim>\<open>next\<close> of the node that it took while another thread is about to copy it.
\<close>

theorem lf_stack_linearizable:
  "(\<exists>s. foldM (lf_next Stack_2) xs lf_new = Some s \<and> lf_linear s) \<and>
   (case foldM (stack7_next n) xs lf_new of
      Some s \<Rightarrow> lf_linear s
    | None \<Rightarrow> \<exists>ys x zs s a u. xs = ys @ x # zs \<and> foldM (stack7_next n) ys lf_new = Some s \<and> lf_linear s \<and>
        lf_pc s (fst x) = Pop_clear a \<and> u < n \<and> u \<noteq> fst x \<and> lf_pc s u = Pop_loop (Some a))"
proof
  show "\<exists>s. foldM (lf_next Stack_2) xs lf_new = Some s \<and> lf_linear s" using lf2.runs [of xs] lf_ok_linear by blast
next
  show "case foldM (stack7_next n) xs lf_new of
      Some s \<Rightarrow> lf_linear s
    | None \<Rightarrow> \<exists>ys x zs s a u. xs = ys @ x # zs \<and> foldM (stack7_next n) ys lf_new = Some s \<and> lf_linear s \<and>
        lf_pc s (fst x) = Pop_clear a \<and> u < n \<and> u \<noteq> fst x \<and> lf_pc s u = Pop_loop (Some a)"
  proof (cases "foldM (stack7_next n) xs lf_new")
    case None
    then obtain ys x zs s where s: "xs = ys @ x # zs" "foldM (stack7_next n) ys lf_new = Some s" "lf_ok Stack_7 s" "next_races n x s"
      using lf7.run_or_bad [of n xs] by fastforce
    show ?thesis unfolding None option.case using s(1,2) lf_ok_linear [OF s(3)] next_races_reader [OF s(4)] by blast
  next
    case (Some s)
    then show ?thesis using lf_ok_linear [OF lf7.run_ok [OF Some]] by simp
  qed
qed

text \<open>Both happen: a push and two pops of two threads, one after the other, and interleaved so that the second one is late.\<close>

lemmas stack7_simps = stack7_next_def next_races_def lf_new_def goto_def got_head_def set_next_def numeral_2_eq_2 atLeast0_lessThan_Suc

lemma stack7_runs:
  "map_option lf_res (foldM (stack7_next 2)
     [(0, Call_push 7 0), (0, Go False), (0, Go False), (0, Call_pop), (0, Go False), (0, Go False), (0, Go False), (0, Go False), (0, Go False),
      (1, Call_pop), (1, Go False), (1, Go False), (1, Go False)]
     (lf_new :: nat lf)) = Some [(0, Some 7), (1, None)]"
  by (simp add: stack7_simps)

lemma stack7_next_races:
  "foldM (stack7_next 2)
     [(0, Call_push 7 0), (0, Go False), (0, Go False), (0, Call_pop), (1, Call_pop), (1, Go False), (0, Go False), (0, Go False), (0, Go False), (0, Go False)]
     (lf_new :: nat lf) = None"
  by (simp add: stack7_simps)

text \<open>C27.
  Reclamation in \<^verbatim>\<open>lock_free_stack_3\<close> and \<^verbatim>\<open>lock_free_stack_4\<close>. Every run either is one of a linearizable stack in which no
  node is deleted twice or used after its deletion and, when all calls have returned, each node that is still allocated
  is on the stack or in the list to be deleted; or it ends with the null pointer of a \<^verbatim>\<open>pop\<close> that found the stack empty being
  handed to \<^verbatim>\<open>chain_pending_node\<close>, and in no other way.
\<close>

theorem lf_reclaim_safe:
  "case foldM (lf_next Stack_34) xs lf_new of
     Some s \<Rightarrow> lf_linear s \<and> lf_no_leak s
   | None \<Rightarrow> \<exists>ys x zs s. xs = ys @ x # zs \<and> foldM (lf_next Stack_34) ys lf_new = Some s \<and> null_chained x s"
proof (cases "foldM (lf_next Stack_34) xs lf_new")
  case None
  then show ?thesis using lf34.run_or_bad [of xs] by fastforce
next
  case (Some s)
  then have "lf_ok Stack_34 s" by (rule lf34.run_ok)
  from lf_ok_linear [OF this] lf_ok_no_leak [OF this] show ?thesis using Some by simp
qed

text \<open>Two threads that pop from an empty stack at the same time are enough for the null pointer.\<close>

lemma lf_empty_pop_faults:
  "foldM (lf_next Stack_34) ([(0, Call_pop), (1, Call_pop)] @ replicate 4 (0, Go False) @ [(1, Go False), (0, Go False), (0, Go False)])
     (lf_new :: nat lf) = None"
  by code_simp

end
