(* ===== verification/Media_Compressor.thy ===== *)
theory Media_Compressor
  imports Prelude
begin

text \<open>
  The program that replaces the photos and films below a directory by compressed ones
  (\<^verbatim>\<open>cmd_ffmpeg/ckb_ffmpeg_compress_mp4_and_jpg.m.cpp\<close>). Files are a map from paths to contents. \<^verbatim>\<open>popen\<close> hands a
  command line to the shell; what the shell then does to the files is the parameter \<open>sh\<close>, and \<open>None\<close> that \<^verbatim>\<open>popen\<close>
  failed, upon which the program exits. The tree of directory entries is what the iterators of the standard library
  deliver; a file that ffmpeg adds while a directory is being read may or may not be among them.
\<close>

section \<open>The program\<close>

type_synonym files = "string \<Rightarrow> string option"

definition quote_char :: char where "quote_char = CHR 0x27"

definition ends_with :: "string \<Rightarrow> string \<Rightarrow> bool" where
  "ends_with s t \<longleftrightarrow> length t \<le> length s \<and> drop (length s - length t) s = t"

definition ffmpeg_command :: "string \<Rightarrow> string \<Rightarrow> string" where
  "ffmpeg_command in_path out_path =
     ''ffmpeg -i '' @ [quote_char] @ in_path @ [quote_char] @ '' -threads 4 -preset faster '' @ [quote_char] @ out_path @ [quote_char]"

definition compress_by_ffmpeg :: "(string \<Rightarrow> files \<Rightarrow> files option) \<Rightarrow> string \<Rightarrow> string \<Rightarrow> files \<Rightarrow> files option" where
  "compress_by_ffmpeg sh in_path out_path fs = sh (ffmpeg_command in_path out_path) fs"

definition process_mp4 :: "(string \<Rightarrow> files \<Rightarrow> files option) \<Rightarrow> string \<Rightarrow> files \<Rightarrow> (bool \<times> files) option" where
  "process_mp4 sh in_path fs =
     (if ends_with in_path ''_COMPRESS.mp4'' then Some (False, fs)
      else let out_path = take (length in_path - 4) in_path @ ''_COMPRESS.mp4''
           in map_option (Pair True) (compress_by_ffmpeg sh in_path out_path fs))"

definition process_jpg :: "(string \<Rightarrow> files \<Rightarrow> files option) \<Rightarrow> string \<Rightarrow> files \<Rightarrow> (bool \<times> files) option" where
  "process_jpg sh in_path fs =
     (if ends_with in_path ''_COMPRESS.jpg'' then Some (False, fs)
      else let out_path = take (length in_path - 4) in_path @ ''_COMPRESS.jpg''
           in map_option (Pair True) (compress_by_ffmpeg sh in_path out_path fs))"

datatype dir_entry = Regular string | Directory string "dir_entry list"

definition process_entry :: "(string \<Rightarrow> files \<Rightarrow> files option) \<Rightarrow> string \<Rightarrow> files \<Rightarrow> files option" where
  "process_entry sh in_path fs =
     do { (ok, fs) \<leftarrow> (if ends_with in_path ''.jpg'' then process_jpg sh in_path fs
                        else if ends_with in_path ''.mp4'' then process_mp4 sh in_path fs
                        else Some (False, fs));
          Some (if ok then fs(in_path := None) else fs) }"

fun scan_file_compress :: "(string \<Rightarrow> files \<Rightarrow> files option) \<Rightarrow> dir_entry list \<Rightarrow> files \<Rightarrow> files option" where
  "scan_file_compress sh [] fs = Some fs"
| "scan_file_compress sh (Directory path es # rest) fs =
     do { fs \<leftarrow> scan_file_compress sh es fs; scan_file_compress sh rest fs }"
| "scan_file_compress sh (Regular path # rest) fs =
     do { fs \<leftarrow> process_entry sh path fs; scan_file_compress sh rest fs }"

section \<open>What it does to the files\<close>

fun files_of :: "dir_entry list \<Rightarrow> string list" where
  "files_of [] = []"
| "files_of (Directory path es # rest) = files_of es @ files_of rest"
| "files_of (Regular path # rest) = path # files_of rest"

text \<open>The files that are to be replaced, and the names of their replacements.\<close>

definition target :: "string \<Rightarrow> bool" where
  "target p \<longleftrightarrow> ends_with p ''.jpg'' \<and> \<not> ends_with p ''_COMPRESS.jpg'' \<or> ends_with p ''.mp4'' \<and> \<not> ends_with p ''_COMPRESS.mp4''"

definition compressed :: "string \<Rightarrow> string" where
  "compressed p = take (length p - 4) p @ ''_COMPRESS'' @ drop (length p - 4) p"

text \<open>
  What ffmpeg and the shell are relied on for: when no quote is in the two paths, the input exists and the output
  does not, ffmpeg writes the compressed content to the output and touches nothing else.
\<close>

definition ffmpeg_converts :: "(string \<Rightarrow> files \<Rightarrow> files option) \<Rightarrow> (string \<Rightarrow> string) \<Rightarrow> bool" where
  "ffmpeg_converts sh enc \<longleftrightarrow> (\<forall>i out fs c. quote_char \<notin> set i \<union> set out \<longrightarrow> fs i = Some c \<longrightarrow> fs out = None \<longrightarrow>
     sh (ffmpeg_command i out) fs = Some (fs(out \<mapsto> enc c)))"

lemma ends_with_append: "ends_with s t \<longleftrightarrow> (\<exists>r. s = r @ t)"
proof
  assume "ends_with s t"
  then have "s = take (length s - length t) s @ t" by (metis append_take_drop_id ends_with_def)
  then show "\<exists>r. s = r @ t" ..
qed (auto simp: ends_with_def)

lemma ends_with_drop: "ends_with p e \<Longrightarrow> drop (length p - length e) p = e"
  by (simp add: ends_with_def)

lemma compressed_jpg: "ends_with p ''.jpg'' \<Longrightarrow> compressed p = take (length p - 4) p @ ''_COMPRESS.jpg''"
  using ends_with_drop [of p "''.jpg''"] by (simp add: compressed_def eval_nat_numeral)

lemma compressed_mp4: "ends_with p ''.mp4'' \<Longrightarrow> compressed p = take (length p - 4) p @ ''_COMPRESS.mp4''"
  using ends_with_drop [of p "''.mp4''"] by (simp add: compressed_def eval_nat_numeral)

lemma not_both: "ends_with p ''.jpg'' \<Longrightarrow> \<not> ends_with p ''.mp4''"
  by (auto simp: ends_with_append)

lemma process_entry_eq:
  "process_entry sh p fs =
     (if target p then map_option (\<lambda>fs. fs(p := None)) (sh (ffmpeg_command p (compressed p)) fs) else Some fs)"
  by (auto simp: process_entry_def process_jpg_def process_mp4_def compress_by_ffmpeg_def target_def Let_def
      compressed_jpg compressed_mp4 map_option_case dest: not_both split: option.splits)

lemma scan_flat: "scan_file_compress sh es fs = foldM (process_entry sh) (files_of es) fs"
  by (induction sh es fs rule: scan_file_compress.induct) (simp_all add: foldM_append cong: Option.bind_cong)

lemma find_in: "find P xs = Some x \<Longrightarrow> x \<in> set xs \<and> P x"
  by (auto simp: find_Some_iff)

lemma compressed_not_target: "target p \<Longrightarrow> \<not> target (compressed p)"
proof -
  have "ends_with (r @ ''_COMPRESS.jpg'') ''.jpg''" "ends_with (r @ ''_COMPRESS.mp4'') ''.mp4''"
    "ends_with (r @ ''_COMPRESS.jpg'') ''_COMPRESS.jpg''" "ends_with (r @ ''_COMPRESS.mp4'') ''_COMPRESS.mp4''" for r
    by (simp_all add: ends_with_def)
  then show "target p \<Longrightarrow> \<not> target (compressed p)"
    unfolding target_def using not_both compressed_jpg compressed_mp4 by metis
qed

lemma compressed_inj:
  assumes "4 \<le> length p" "4 \<le> length q" "compressed p = compressed q"
  shows "p = q"
proof -
  have l: "length (compressed r) = length r + 9" for r by (simp add: compressed_def)
  have len: "length p = length q" using l [of p] l [of q] assms(3) by simp
  then have "take (length p - 4) p = take (length q - 4) q" "drop (length p - 4) p = drop (length q - 4) q"
    using assms(3) by (simp_all add: compressed_def)
  then show ?thesis by (metis append_take_drop_id)
qed

lemma target_length: "target p \<Longrightarrow> 4 \<le> length p"
  by (auto simp: target_def ends_with_def)

lemma quote_free: "quote_char \<notin> set p \<Longrightarrow> quote_char \<notin> set (compressed p)"
  using set_take_subset [of "length p - 4" p] set_drop_subset [of "length p - 4" p]
  by (auto simp: compressed_def quote_char_def)

text \<open>The files afterwards, given those that were to be replaced.\<close>

definition replaced :: "(string \<Rightarrow> string) \<Rightarrow> string list \<Rightarrow> files \<Rightarrow> files" where
  "replaced enc ps fs q =
     (if q \<in> set ps then None
      else case find (\<lambda>p. compressed p = q) ps of Some p \<Rightarrow> map_option enc (fs p) | None \<Rightarrow> fs q)"

lemma process_all:
  assumes "ffmpeg_converts sh enc"
  shows "\<lbrakk>distinct ps; \<And>p. p \<in> set ps \<Longrightarrow> quote_char \<notin> set p \<and> fs p \<noteq> None;
      \<And>p. p \<in> set ps \<Longrightarrow> target p \<Longrightarrow> fs (compressed p) = None\<rbrakk> \<Longrightarrow>
    foldM (process_entry sh) ps fs = Some (replaced enc (filter target ps) fs)"
proof (induction ps arbitrary: fs)
  case Nil
  show ?case by (simp add: replaced_def fun_eq_iff)
next
  case (Cons p ps)
  show ?case
  proof (cases "target p")
    case False
    then show ?thesis using Cons by (simp add: process_entry_eq)
  next
    case True
    obtain c where c: "fs p = Some c" using Cons.prems(2) [of p] by auto
    let ?fs = "(fs(compressed p \<mapsto> enc c))(p := None)"
    have "sh (ffmpeg_command p (compressed p)) fs = Some (fs(compressed p \<mapsto> enc c))"
      using assms c True Cons.prems(2) [of p] Cons.prems(3) [of p] quote_free [of p] by (simp add: ffmpeg_converts_def)
    then have one: "process_entry sh p fs = Some ?fs" using True by (simp add: process_entry_eq)
    have ne: "q \<noteq> p \<and> q \<noteq> compressed p" if "q \<in> set ps" for q
      using that Cons.prems(1) Cons.prems(2) [of q] Cons.prems(3) [of p] True by auto
    have ne': "compressed q \<noteq> p \<and> compressed q \<noteq> compressed p" if "q \<in> set ps" "target q" for q
      using that Cons.prems(1) compressed_inj [of q p] target_length compressed_not_target True by auto
    have rest: "foldM (process_entry sh) ps ?fs = Some (replaced enc (filter target ps) ?fs)"
      using Cons.prems ne ne' by (intro Cons.IH) auto
    have "replaced enc (filter target ps) ?fs q = replaced enc (filter target (p # ps)) fs q" for q
    proof -
      consider "q = p" | "q = compressed p" "q \<noteq> p" | "q \<noteq> p" "q \<noteq> compressed p" by blast
      then show ?thesis
      proof cases
        case 1
        have "find (\<lambda>r. compressed r = q) (filter target ps) = None" using 1 ne' by (auto simp: find_None_iff)
        then show ?thesis using 1 True by (simp add: replaced_def)
      next
        case 2
        have "find (\<lambda>r. compressed r = q) (filter target ps) = None" using 2 ne' by (auto simp: find_None_iff)
        moreover have "q \<notin> set (filter target (p # ps))" using 2 compressed_not_target [OF True] by auto
        ultimately show ?thesis using 2 True c by (simp add: replaced_def)
      next
        case 3
        have "?fs r = fs r" if "find (\<lambda>r. compressed r = q) (filter target ps) = Some r" for r
          using find_in [OF that] ne [of r] by simp
        then show ?thesis using 3 True by (simp add: replaced_def split: option.split)
      qed
    qed
    then show ?thesis using one rest by (simp add: fun_eq_iff)
  qed
qed

text \<open>C36.
  A scan, when ffmpeg works: of the files below the directory exactly the photos and films that are not compressed yet
  are removed, each has its compressed content under the new name, and no other file is touched. The scan returns.
\<close>

theorem scan_replaces:
  assumes "ffmpeg_converts sh enc" and "distinct (files_of es)"
    and "\<forall>p\<in>set (files_of es). quote_char \<notin> set p \<and> fs p \<noteq> None"
    and "\<forall>p\<in>set (files_of es). target p \<longrightarrow> fs (compressed p) = None"
  shows "\<exists>fs'. scan_file_compress sh es fs = Some fs' \<and>
    (\<forall>p\<in>set (files_of es). target p \<longrightarrow> fs' p = None \<and> fs' (compressed p) = map_option enc (fs p)) \<and>
    (\<forall>q. (\<forall>p\<in>set (files_of es). target p \<longrightarrow> q \<noteq> p \<and> q \<noteq> compressed p) \<longrightarrow> fs' q = fs q)"
proof -
  let ?ts = "filter target (files_of es)" let ?fs = "replaced enc ?ts fs"
  have "scan_file_compress sh es fs = Some ?fs"
    unfolding scan_flat using assms by (intro process_all) auto
  moreover have "?fs p = None \<and> ?fs (compressed p) = map_option enc (fs p)" if p: "p \<in> set (files_of es)" "target p" for p
  proof -
    have "compressed p \<notin> set ?ts" using compressed_not_target [OF p(2)] by auto
    moreover have "find (\<lambda>r. compressed r = compressed p) ?ts = Some p"
    proof -
      have "find (\<lambda>r. compressed r = compressed p) ?ts \<noteq> None" using p by (auto simp: find_None_iff)
      then obtain r where r: "find (\<lambda>r. compressed r = compressed p) ?ts = Some r" by auto
      have "compressed r = compressed p" "r \<in> set ?ts" using find_in [OF r] by simp_all
      then have "r = p" using compressed_inj target_length p by auto
      with r show ?thesis by simp
    qed
    ultimately show ?thesis using p by (auto simp: replaced_def)
  qed
  moreover have "?fs q = fs q" if "\<forall>p\<in>set (files_of es). target p \<longrightarrow> q \<noteq> p \<and> q \<noteq> compressed p" for q
  proof -
    have "find (\<lambda>r. compressed r = q) ?ts = None" using that by (auto simp: find_None_iff)
    then show ?thesis using that by (auto simp: replaced_def)
  qed
  ultimately show ?thesis by blast
qed

text \<open>A shell that reads the two paths from the command line and writes the reversed content.\<close>

definition demo_shell :: "string \<Rightarrow> files \<Rightarrow> files option" where
  "demo_shell cmd fs =
     (let i = takeWhile (\<lambda>c. c \<noteq> quote_char) (drop 11 cmd); out = takeWhile (\<lambda>c. c \<noteq> quote_char) (drop (length i + 40) cmd)
      in map_option (\<lambda>c. fs(out \<mapsto> rev c)) (fs i))"

lemma takeWhile_quote: "quote_char \<notin> set i \<Longrightarrow> takeWhile (\<lambda>c. c \<noteq> quote_char) (i @ quote_char # rest) = i"
  by (induction i) auto

lemma demo_shell_converts: "ffmpeg_converts demo_shell rev"
proof -
  have "drop 11 (ffmpeg_command i out) = i @ quote_char # '' -threads 4 -preset faster '' @ quote_char # out @ [quote_char]"
    "drop (length i + 40) (ffmpeg_command i out) = out @ quote_char # []" for i out
    by (simp_all add: ffmpeg_command_def eval_nat_numeral)
  then show ?thesis by (simp add: ffmpeg_converts_def demo_shell_def Let_def takeWhile_quote)
qed

theorem scan_replaces_witness:
  "\<exists>fs'. scan_file_compress demo_shell [Directory ''d'' [Regular ''d/a.jpg'', Regular ''d/n.txt'']]
      [''d/a.jpg'' \<mapsto> ''xy'', ''d/n.txt'' \<mapsto> ''t''] = Some fs' \<and>
     fs' ''d/a.jpg'' = None \<and> fs' ''d/a_COMPRESS.jpg'' = Some ''yx'' \<and> fs' ''d/n.txt'' = Some ''t''"
proof -
  have t: "target ''d/a.jpg''" "\<not> target ''d/n.txt''" by code_simp+
  have c: "compressed ''d/a.jpg'' = ''d/a_COMPRESS.jpg''" by code_simp
  let ?es = "[Directory ''d'' [Regular ''d/a.jpg'', Regular ''d/n.txt'']]" and ?fs = "[''d/a.jpg'' \<mapsto> ''xy'', ''d/n.txt'' \<mapsto> ''t'']"
  have f: "set (files_of ?es) = {''d/a.jpg'', ''d/n.txt''}" "distinct (files_of ?es)" by simp_all
  have "\<forall>p\<in>set (files_of ?es). quote_char \<notin> set p \<and> ?fs p \<noteq> None" unfolding f(1) by (simp add: quote_char_def)
  moreover have "\<forall>p\<in>set (files_of ?es). target p \<longrightarrow> ?fs (compressed p) = None" unfolding f(1) using t c by simp
  ultimately obtain fs' where s: "scan_file_compress demo_shell ?es ?fs = Some fs'"
    and r: "\<forall>p\<in>set (files_of ?es). target p \<longrightarrow> fs' p = None \<and> fs' (compressed p) = map_option rev (?fs p)"
    and k: "\<forall>q. (\<forall>p\<in>set (files_of ?es). target p \<longrightarrow> q \<noteq> p \<and> q \<noteq> compressed p) \<longrightarrow> fs' q = ?fs q"
    using scan_replaces [OF demo_shell_converts f(2)] by blast
  have "fs' ''d/a.jpg'' = None" "fs' ''d/a_COMPRESS.jpg'' = Some ''yx''" using r t(1) c unfolding f(1) by simp_all
  moreover have "fs' ''d/n.txt'' = Some ''t''" using spec [OF k, of "''d/n.txt''"] t c unfolding f(1) by simp
  ultimately show ?thesis using s by blast
qed

text \<open>A second scan does nothing, whatever the shell does.\<close>

lemma process_none: "(\<And>p. p \<in> set ps \<Longrightarrow> \<not> target p) \<Longrightarrow> foldM (process_entry sh) ps fs = Some fs"
  by (induction ps) (simp_all add: process_entry_eq)

lemma scan_again: "(\<And>p. p \<in> set (files_of es) \<Longrightarrow> \<not> target p) \<Longrightarrow> scan_file_compress sh es fs = Some fs"
  unfolding scan_flat by (rule process_none)

text \<open>An original is removed even if ffmpeg has failed and written nothing.\<close>

lemma failure_loses_file: "target p \<Longrightarrow> scan_file_compress (\<lambda>_. Some) [Regular p] fs = Some (fs(p := None))"
  by (simp add: process_entry_eq)

end
