(* ===== verification/Cell_Grids.thy ===== *)
theory Cell_Grids
  imports Prelude "HOL-Library.Word"
begin

text \<open>
  Templates of \<^verbatim>\<open>professional_cpp\<close> over cells: the grid of any number of dimensions
  (\<^verbatim>\<open>ch26_template/grid_v3_recursion.cc\<close>), three two-dimensional ones with checked access (\<^verbatim>\<open>ch26_template/grid_v1.cc\<close>,
  \<^verbatim>\<open>ch12_template/github/GridImplementation.cc\<close>, \<^verbatim>\<open>ch12_template/template_param/grid.cc\<close>), and the computations at compile time of
  \<^verbatim>\<open>ch26_template/meta_program.cc\<close>. The template argument that counts the dimensions is an argument of the functions here, and
  \<open>has_type\<close> says that a grid is one the compiler would let pass for it.
\<close>

section \<open>Grids of any dimension\<close>

datatype 'a ngrid = Cells "'a list" | Grids "'a ngrid list"

text \<open>\<^verbatim>\<open>std::vector::resize\<close>: elements beyond the new size are dropped, new ones are copies of \<open>d\<close>.\<close>

definition vec_resize :: "nat \<Rightarrow> 'a \<Rightarrow> 'a list \<Rightarrow> 'a list" where
  "vec_resize n d xs = take n xs @ replicate (n - length xs) d"

definition DefaultSize :: nat where "DefaultSize = 10"

fun ngrid_empty :: "nat \<Rightarrow> 'a ngrid" where
  "ngrid_empty (Suc (Suc n)) = Grids []"
| "ngrid_empty _ = Cells []"

text \<open>
  \<^verbatim>\<open>resize\<close>; \<open>d\<close> is the default value of the cells. The new elements of \<^verbatim>\<open>m_elements\<close> come from the default constructor, which
  makes a grid of the default size in every direction.
\<close>

fun ngrid_resize :: "'a \<Rightarrow> nat \<Rightarrow> nat \<Rightarrow> 'a ngrid \<Rightarrow> 'a ngrid" where
  "ngrid_resize d (Suc 0) newsz (Cells es) = Cells (vec_resize newsz d es)"
| "ngrid_resize d (Suc (Suc n)) newsz (Grids es) =
     Grids (map (ngrid_resize d (Suc n) newsz) (vec_resize newsz (ngrid_resize d (Suc n) DefaultSize (ngrid_empty (Suc n))) es))"
| "ngrid_resize d n newsz g = g"

definition ngrid_new :: "'a \<Rightarrow> nat \<Rightarrow> nat \<Rightarrow> 'a ngrid" where
  "ngrid_new d n sz = ngrid_resize d n sz (ngrid_empty n)"

fun getSize :: "'a ngrid \<Rightarrow> nat" where
  "getSize (Cells es) = length es"
| "getSize (Grids es) = length es"

text \<open>\<^verbatim>\<open>operator[]\<close> is not checked; \<open>None\<close> is an index that is out of range.\<close>

fun ngrid_sub :: "'a ngrid \<Rightarrow> nat \<Rightarrow> 'a ngrid option" where
  "ngrid_sub (Grids es) x = (if x < length es then Some (es ! x) else None)"
| "ngrid_sub (Cells es) x = None"

fun ngrid_at :: "'a ngrid \<Rightarrow> nat list \<Rightarrow> 'a option" where
  "ngrid_at (Cells es) [x] = (if x < length es then Some (es ! x) else None)"
| "ngrid_at (Grids es) (x # xs) = (if x < length es then ngrid_at (es ! x) xs else None)"
| "ngrid_at g xs = None"

fun ngrid_set :: "'a ngrid \<Rightarrow> nat list \<Rightarrow> 'a \<Rightarrow> 'a ngrid option" where
  "ngrid_set (Cells es) [x] v = (if x < length es then Some (Cells (es[x := v])) else None)"
| "ngrid_set (Grids es) (x # xs) v =
     (if x < length es then map_option (\<lambda>e. Grids (es[x := e])) (ngrid_set (es ! x) xs v) else None)"
| "ngrid_set g xs v = None"

fun has_type :: "nat \<Rightarrow> 'a ngrid \<Rightarrow> bool" where
  "has_type n (Cells es) \<longleftrightarrow> n = 1"
| "has_type n (Grids es) \<longleftrightarrow> 2 \<le> n \<and> (\<forall>e\<in>set es. has_type (n - 1) e)"

fun cube :: "nat \<Rightarrow> 'a ngrid \<Rightarrow> bool" where
  "cube sz (Cells es) \<longleftrightarrow> length es = sz"
| "cube sz (Grids es) \<longleftrightarrow> length es = sz \<and> (\<forall>e\<in>set es. cube sz e)"

lemma length_vec_resize [simp]: "length (vec_resize n d xs) = n"
  by (simp add: vec_resize_def)

lemma nth_vec_resize: "i < n \<Longrightarrow> vec_resize n d xs ! i = (if i < length xs then xs ! i else d)"
  by (auto simp: vec_resize_def nth_append)

lemma set_vec_resize: "x \<in> set (vec_resize n d xs) \<Longrightarrow> x \<in> set xs \<or> x = d"
  using set_take_subset [of n xs] by (auto simp: vec_resize_def split: if_splits)

lemma has_type_empty [simp]: "1 \<le> n \<Longrightarrow> has_type n (ngrid_empty n)"
  by (cases n rule: ngrid_empty.cases) auto

lemma ngrid_at_empty [simp]: "ngrid_at (ngrid_empty n) ys = None"
proof -
  have "ngrid_at (Cells []) ys = None" "ngrid_at (Grids []) ys = None" by (cases ys; cases "tl ys"; simp)+
  then show ?thesis by (cases n rule: ngrid_empty.cases) simp_all
qed

lemma has_type_cases:
  assumes "has_type n g"
  obtains es where "n = Suc 0" "g = Cells es" | m es where "n = Suc (Suc m)" "g = Grids es" "\<forall>e\<in>set es. has_type (Suc m) e"
proof (cases g)
  case (Cells es)
  with assms that(1) show ?thesis by simp
next
  case (Grids es)
  with assms obtain m where "n = Suc (Suc m)" by (cases n rule: ngrid_empty.cases) auto
  with Grids assms that(2) show ?thesis by simp
qed

text \<open>After \<^verbatim>\<open>resize\<close> a grid has the same type and the new size in every direction.\<close>

lemma ngrid_resize_type: "has_type n g \<Longrightarrow> has_type n (ngrid_resize d n sz g) \<and> cube sz (ngrid_resize d n sz g)"
proof (induction n arbitrary: g sz)
  case (Suc n)
  from Suc.prems show ?case
  proof (cases rule: has_type_cases)
    case (2 m es)
    have "has_type (Suc m) e \<and> cube sz' (ngrid_resize d (Suc m) sz' e) \<and> has_type (Suc m) (ngrid_resize d (Suc m) sz' e)"
      if "has_type (Suc m) e" for e sz' using Suc.IH [of e sz'] that 2 by simp
    moreover have "has_type (Suc m) e" if "e \<in> set (vec_resize sz (ngrid_resize d (Suc m) DefaultSize (ngrid_empty (Suc m))) es)" for e
      using set_vec_resize [OF that] 2(3) Suc.IH [of "ngrid_empty (Suc m)"] 2(1) by auto
    ultimately show ?thesis using 2 by auto
  qed simp
qed (auto elim: has_type_cases)

lemma ngrid_at_type: "has_type n g \<Longrightarrow> ngrid_at g xs = Some v \<Longrightarrow> length xs = n"
proof (induction g xs arbitrary: n rule: ngrid_at.induct)
  case (2 es x xs)
  then show ?case by (cases n) (auto split: if_splits)
qed (auto split: if_splits)

text \<open>Cells that are in both the old and the new grid keep their values, the others have the default value.\<close>

lemma ngrid_resize_at:
  "has_type n g \<Longrightarrow> length xs = n \<Longrightarrow>
   ngrid_at (ngrid_resize d n sz g) xs =
     (if \<forall>x\<in>set xs. x < sz then Some (case ngrid_at g xs of Some v \<Rightarrow> v | None \<Rightarrow> d) else None)"
proof (induction n arbitrary: g xs sz)
  case (Suc n)
  from Suc.prems(1) show ?case
  proof (cases rule: has_type_cases)
    case (1 es)
    with Suc.prems obtain x where "xs = [x]" by (auto simp: length_Suc_conv)
    with 1 show ?thesis by (simp add: nth_vec_resize)
  next
    case (2 m es)
    with Suc.prems obtain x ys where xs: "xs = x # ys" "length ys = Suc m" by (cases xs) auto
    let ?new = "ngrid_resize d (Suc m) DefaultSize (ngrid_empty (Suc m))" let ?e = "vec_resize sz ?new es ! x"
    have new: "ngrid_at ?new ys = (if \<forall>y\<in>set ys. y < DefaultSize then Some d else None)"
      using Suc.IH [of "ngrid_empty (Suc m)" ys DefaultSize] 2(1) xs(2) by simp
    show ?thesis
    proof (cases "x < sz")
      case True
      have "has_type (Suc m) ?e"
        using True 2(3) ngrid_resize_type [of "Suc m" "ngrid_empty (Suc m)" d DefaultSize] by (simp add: nth_vec_resize)
      then have "ngrid_at (ngrid_resize d (Suc m) sz ?e) ys =
          (if \<forall>y\<in>set ys. y < sz then Some (case ngrid_at ?e ys of Some v \<Rightarrow> v | None \<Rightarrow> d) else None)"
        using Suc.IH [of ?e ys sz] 2(1) xs(2) by simp
      then show ?thesis using True 2(1,2) xs new by (simp add: nth_vec_resize split: option.split)
    next
      case False
      then show ?thesis using 2(1,2) xs by simp
    qed
  qed
qed (auto elim: has_type_cases)

lemma ngrid_set_at:
  "has_type n g \<Longrightarrow> ngrid_set g xs v = Some g' \<Longrightarrow>
   has_type n g' \<and> ngrid_at g xs \<noteq> None \<and> (\<forall>ys. ngrid_at g' ys = (if ys = xs then Some v else ngrid_at g ys))"
proof (induction g xs v arbitrary: n g' rule: ngrid_set.induct)
  case (1 es x v)
  then have g': "x < length es" "g' = Cells (es[x := v])" by (auto split: if_splits)
  have "ngrid_at (Cells (es[x := v])) ys = (if ys = [x] then Some v else ngrid_at (Cells es) ys)" for ys
    using g'(1) by (cases "(Cells es, ys)" rule: ngrid_at.cases) auto
  with 1 g' show ?case by simp
next
  case (2 es x xs v)
  then obtain e where e: "x < length es" "ngrid_set (es ! x) xs v = Some e" "g' = Grids (es[x := e])" by (auto split: if_splits)
  have IH: "has_type (n - 1) e \<and> ngrid_at (es ! x) xs \<noteq> None \<and> (\<forall>ys. ngrid_at e ys = (if ys = xs then Some v else ngrid_at (es ! x) ys))"
    using 2(1) [OF e(1) _ e(2), of "n - 1"] 2(2) e(1) by simp
  have "ngrid_at (Grids (es[x := e])) ys = (if ys = x # xs then Some v else ngrid_at (Grids es) ys)" for ys
    using IH e(1) by (cases ys) (auto simp: nth_list_update)
  moreover have "has_type n (Grids (es[x := e]))"
    using 2(2) IH set_update_subset_insert [of es x e] by auto
  ultimately show ?case using e IH by simp
qed auto

section \<open>Grids with checked access\<close>

text \<open>
  The containers of \<^verbatim>\<open>grid_v1.cc\<close> and \<^verbatim>\<open>GridImplementation.cc\<close> are vectors of columns; in \<^verbatim>\<open>template_param/grid.cc\<close> the sizes
  are template arguments and the cells an array. An error of \<^verbatim>\<open>at\<close> is the text of the exception; the outer \<open>None\<close> would be an
  access outside of the container.
\<close>

record 'c columns =
  col_cells :: "'c list list"
  col_width :: nat
  col_height :: nat

definition columns_new :: "'c \<Rightarrow> nat \<Rightarrow> nat \<Rightarrow> 'c columns" where
  "columns_new d w h = \<lparr>col_cells = map (vec_resize h d) (vec_resize w [] []), col_width = w, col_height = h\<rparr>"

definition cell_get :: "'c list list \<Rightarrow> nat \<Rightarrow> nat \<Rightarrow> 'c option" where
  "cell_get cs x y = (if x < length cs \<and> y < length (cs ! x) then Some (cs ! x ! y) else None)"

definition cell_put :: "'c list list \<Rightarrow> nat \<Rightarrow> nat \<Rightarrow> 'c \<Rightarrow> 'c list list option" where
  "cell_put cs x y v = (if x < length cs \<and> y < length (cs ! x) then Some (cs[x := (cs ! x)[y := v]]) else None)"

definition grid1_verify :: "'c columns \<Rightarrow> nat \<Rightarrow> nat \<Rightarrow> string option" where
  "grid1_verify g x y =
     (if x \<ge> col_width g then Some ''xxxxxx'' else if y \<ge> col_height g then Some ''yyyyyy'' else None)"

definition grid1_at :: "'c columns \<Rightarrow> nat \<Rightarrow> nat \<Rightarrow> (string + 'c) option" where
  "grid1_at g x y = (case grid1_verify g x y of Some e \<Rightarrow> Some (Inl e) | None \<Rightarrow> map_option Inr (cell_get (col_cells g) x y))"

definition grid1_put :: "'c columns \<Rightarrow> nat \<Rightarrow> nat \<Rightarrow> 'c \<Rightarrow> (string + 'c columns) option" where
  "grid1_put g x y v =
     (case grid1_verify g x y of
        Some e \<Rightarrow> Some (Inl e)
      | None \<Rightarrow> map_option (\<lambda>cs. Inr (g\<lparr>col_cells := cs\<rparr>)) (cell_put (col_cells g) x y v))"

definition grid2_verifyCoordinate :: "'c columns \<Rightarrow> nat \<Rightarrow> nat \<Rightarrow> string option" where
  "grid2_verifyCoordinate g x y =
     (if x \<ge> col_width g then Some (dec_nat x @ '' must be less than '' @ dec_nat (col_width g) @ ''.'')
      else if y \<ge> col_height g then Some (dec_nat y @ '' must be less than '' @ dec_nat (col_height g) @ ''.'')
      else None)"

definition grid2_at :: "'c columns \<Rightarrow> nat \<Rightarrow> nat \<Rightarrow> (string + 'c) option" where
  "grid2_at g x y =
     (case grid2_verifyCoordinate g x y of Some e \<Rightarrow> Some (Inl e) | None \<Rightarrow> map_option Inr (cell_get (col_cells g) x y))"

definition grid2_put :: "'c columns \<Rightarrow> nat \<Rightarrow> nat \<Rightarrow> 'c \<Rightarrow> (string + 'c columns) option" where
  "grid2_put g x y v =
     (case grid2_verifyCoordinate g x y of
        Some e \<Rightarrow> Some (Inl e)
      | None \<Rightarrow> map_option (\<lambda>cs. Inr (g\<lparr>col_cells := cs\<rparr>)) (cell_put (col_cells g) x y v))"

text \<open>The array of \<^verbatim>\<open>template_param/grid.cc\<close>, with \<^verbatim>\<open>WIDTH\<close> and \<^verbatim>\<open>HEIGHT\<close> as arguments.\<close>

definition array_new :: "'c \<Rightarrow> nat \<Rightarrow> nat \<Rightarrow> 'c list list" where
  "array_new d WIDTH HEIGHT = replicate WIDTH (replicate HEIGHT d)"

definition grid3_verifyCoordinate :: "nat \<Rightarrow> nat \<Rightarrow> nat \<Rightarrow> nat \<Rightarrow> string option" where
  "grid3_verifyCoordinate WIDTH HEIGHT x y =
     (if x \<ge> WIDTH then Some ''xxxxxxxx'' else if y \<ge> HEIGHT then Some ''yyyyyyy'' else None)"

definition grid3_at :: "nat \<Rightarrow> nat \<Rightarrow> 'c list list \<Rightarrow> nat \<Rightarrow> nat \<Rightarrow> (string + 'c) option" where
  "grid3_at WIDTH HEIGHT cs x y =
     (case grid3_verifyCoordinate WIDTH HEIGHT x y of Some e \<Rightarrow> Some (Inl e) | None \<Rightarrow> map_option Inr (cell_get cs x y))"

definition grid3_put :: "nat \<Rightarrow> nat \<Rightarrow> 'c list list \<Rightarrow> nat \<Rightarrow> nat \<Rightarrow> 'c \<Rightarrow> (string + 'c list list) option" where
  "grid3_put WIDTH HEIGHT cs x y v =
     (case grid3_verifyCoordinate WIDTH HEIGHT x y of Some e \<Rightarrow> Some (Inl e) | None \<Rightarrow> map_option Inr (cell_put cs x y v))"

text \<open>What the three promise: access fails exactly outside of the grid, a cell holds what was last put there.\<close>

locale checked_grid =
  fixes ok :: "nat \<Rightarrow> nat \<Rightarrow> 'g \<Rightarrow> bool"
    and at :: "'g \<Rightarrow> nat \<Rightarrow> nat \<Rightarrow> (string + 'c) option"
    and put :: "'g \<Rightarrow> nat \<Rightarrow> nat \<Rightarrow> 'c \<Rightarrow> (string + 'g) option"
    and start :: "nat \<Rightarrow> nat \<Rightarrow> 'g"
    and init :: 'c
  assumes start: "ok w h (start w h)"
    and start_at: "x < w \<Longrightarrow> y < h \<Longrightarrow> at (start w h) x y = Some (Inr init)"
    and at_in: "ok w h g \<Longrightarrow> x < w \<Longrightarrow> y < h \<Longrightarrow> \<exists>c. at g x y = Some (Inr c)"
    and out: "ok w h g \<Longrightarrow> \<not> (x < w \<and> y < h) \<Longrightarrow> \<exists>e. at g x y = Some (Inl e) \<and> put g x y v = Some (Inl e)"
    and put_in: "ok w h g \<Longrightarrow> x < w \<Longrightarrow> y < h \<Longrightarrow> \<exists>g'. put g x y v = Some (Inr g') \<and> ok w h g' \<and>
      (\<forall>x' y'. x' < w \<longrightarrow> y' < h \<longrightarrow> at g' x' y' = (if x' = x \<and> y' = y then Some (Inr v) else at g x' y'))"
begin

text \<open>A client that writes a sequence of cells; an exception leaves the grid as it was.\<close>

definition put_all :: "(nat \<times> nat \<times> 'c) list \<Rightarrow> 'g \<Rightarrow> 'g" where
  "put_all = fold (\<lambda>(x, y, v) g. case put g x y v of Some (Inr g') \<Rightarrow> g' | _ \<Rightarrow> g)"

definition latest :: "(nat \<times> nat \<times> 'c) list \<Rightarrow> nat \<Rightarrow> nat \<Rightarrow> 'c \<Rightarrow> 'c" where
  "latest us x y = fold (\<lambda>(x', y', v) c. if x' = x \<and> y' = y then v else c) us"

lemma put_all_at:
  "ok w h g \<Longrightarrow> x < w \<Longrightarrow> y < h \<Longrightarrow> at g x y = Some (Inr c) \<Longrightarrow>
   ok w h (put_all us g) \<and> at (put_all us g) x y = Some (Inr (latest us x y c))"
proof (induction us arbitrary: g c)
  case (Cons u us)
  obtain x' y' v where u: "u = (x', y', v)" by (cases u)
  show ?case
  proof (cases "x' < w \<and> y' < h")
    case True
    then obtain g' where g': "put g x' y' v = Some (Inr g')" "ok w h g'"
      "at g' x y = (if x = x' \<and> y = y' then Some (Inr v) else at g x y)" using put_in [OF Cons.prems(1), of x' y' v] Cons.prems(2,3) by blast
    then have "at g' x y = Some (Inr (if x' = x \<and> y' = y then v else c))" using Cons.prems(4) by auto
    from Cons.IH [OF g'(2) Cons.prems(2,3) this] g'(1) show ?thesis by (simp add: put_all_def latest_def u)
  next
    case False
    then obtain e where e: "put g x' y' v = Some (Inl e)" using out [OF Cons.prems(1)] by blast
    have "(x' = x \<and> y' = y) = False" using False Cons.prems(2,3) by auto
    with Cons.IH [OF Cons.prems] e show ?thesis by (auto simp: put_all_def latest_def u)
  qed
qed (simp add: put_all_def latest_def)

lemma from_start: "x < w \<Longrightarrow> y < h \<Longrightarrow> at (put_all us (start w h)) x y = Some (Inr (latest us x y init))"
  using put_all_at [OF start] start_at by blast

end

definition rect :: "nat \<Rightarrow> nat \<Rightarrow> 'c list list \<Rightarrow> bool" where
  "rect w h cs \<longleftrightarrow> length cs = w \<and> (\<forall>c\<in>set cs. length c = h)"

definition columns_ok :: "nat \<Rightarrow> nat \<Rightarrow> 'c columns \<Rightarrow> bool" where
  "columns_ok w h g \<longleftrightarrow> col_width g = w \<and> col_height g = h \<and> rect w h (col_cells g)"

lemma rect_nth: "rect w h cs \<Longrightarrow> x < w \<Longrightarrow> length (cs ! x) = h"
  by (simp add: rect_def)

lemma columns_new_ok: "columns_ok w h (columns_new d w h)"
  by (auto simp: columns_ok_def rect_def columns_new_def)

lemma columns_new_get: "x < w \<Longrightarrow> y < h \<Longrightarrow> cell_get (col_cells (columns_new d w h)) x y = Some d"
  by (simp add: cell_get_def columns_new_def nth_vec_resize)

lemma cell_get_in: "rect w h cs \<Longrightarrow> x < w \<Longrightarrow> y < h \<Longrightarrow> \<exists>c. cell_get cs x y = Some c"
  by (simp add: cell_get_def rect_nth) (simp add: rect_def)

lemma cell_put_in:
  assumes "rect w h cs" "x < w" "y < h"
  shows "\<exists>cs'. cell_put cs x y v = Some cs' \<and> rect w h cs' \<and>
    (\<forall>x' y'. x' < w \<longrightarrow> y' < h \<longrightarrow> cell_get cs' x' y' = (if x' = x \<and> y' = y then Some v else cell_get cs x' y'))"
proof -
  have l: "length cs = w" "length (cs ! x) = h" using assms by (simp_all add: rect_nth rect_def)
  have "rect w h (cs[x := (cs ! x)[y := v]])"
    using assms(1) l set_update_subset_insert [of cs x] by (fastforce simp: rect_def)
  moreover have "cell_put cs x y v = Some (cs[x := (cs ! x)[y := v]])" using assms l by (simp add: cell_put_def)
  ultimately show ?thesis using l assms(1,2) by (auto simp: cell_get_def nth_list_update rect_nth)
qed

lemma columns_put_in:
  assumes "columns_ok w h g" "x < w" "y < h"
  obtains cs where "cell_put (col_cells g) x y v = Some cs" "columns_ok w h (g\<lparr>col_cells := cs\<rparr>)"
    "\<And>x' y'. x' < w \<Longrightarrow> y' < h \<Longrightarrow> cell_get cs x' y' = (if x' = x \<and> y' = y then Some v else cell_get (col_cells g) x' y')"
proof -
  obtain cs where "cell_put (col_cells g) x y v = Some cs" "rect w h cs"
    "\<forall>x' y'. x' < w \<longrightarrow> y' < h \<longrightarrow> cell_get cs x' y' = (if x' = x \<and> y' = y then Some v else cell_get (col_cells g) x' y')"
    using cell_put_in [of w h "col_cells g" x y v] assms by (auto simp: columns_ok_def)
  with assms(1) that show thesis by (simp add: columns_ok_def)
qed

lemma grid1_in:
  assumes "columns_ok w h g" "x < w" "y < h"
  shows "grid1_at g x y = map_option Inr (cell_get (col_cells g) x y)"
    "grid1_put g x y v = map_option (\<lambda>cs. Inr (g\<lparr>col_cells := cs\<rparr>)) (cell_put (col_cells g) x y v)"
  using assms by (simp_all add: grid1_at_def grid1_put_def grid1_verify_def columns_ok_def)

lemma grid2_in:
  assumes "columns_ok w h g" "x < w" "y < h"
  shows "grid2_at g x y = map_option Inr (cell_get (col_cells g) x y)"
    "grid2_put g x y v = map_option (\<lambda>cs. Inr (g\<lparr>col_cells := cs\<rparr>)) (cell_put (col_cells g) x y v)"
  using assms by (simp_all add: grid2_at_def grid2_put_def grid2_verifyCoordinate_def columns_ok_def)

interpretation grid1: checked_grid columns_ok grid1_at grid1_put "columns_new d" d for d :: 'c
proof
  fix w h x y v and g :: "'c columns" assume g: "columns_ok w h g" and i: "x < w" "y < h"
  then show "\<exists>c. grid1_at g x y = Some (Inr c)" using cell_get_in [of w h "col_cells g" x y] by (auto simp: grid1_in columns_ok_def)
  show "\<exists>g'. grid1_put g x y v = Some (Inr g') \<and> columns_ok w h g' \<and>
      (\<forall>x' y'. x' < w \<longrightarrow> y' < h \<longrightarrow> grid1_at g' x' y' = (if x' = x \<and> y' = y then Some (Inr v) else grid1_at g x' y'))"
  proof -
    obtain cs where cs: "cell_put (col_cells g) x y v = Some cs" "columns_ok w h (g\<lparr>col_cells := cs\<rparr>)"
      "\<And>x' y'. x' < w \<Longrightarrow> y' < h \<Longrightarrow> cell_get cs x' y' = (if x' = x \<and> y' = y then Some v else cell_get (col_cells g) x' y')"
      using columns_put_in [OF g i] by blast
    show ?thesis by (intro exI [of _ "g\<lparr>col_cells := cs\<rparr>"]) (simp add: grid1_in [OF g] grid1_in(1) [OF cs(2)] i cs)
  qed
next
  fix w h x y v and g :: "'c columns" assume "columns_ok w h g" "\<not> (x < w \<and> y < h)"
  then show "\<exists>e. grid1_at g x y = Some (Inl e) \<and> grid1_put g x y v = Some (Inl e)"
    by (auto simp: grid1_put_def grid1_at_def grid1_verify_def columns_ok_def not_less split: if_splits)
qed (simp_all add: columns_new_ok columns_new_get grid1_in [OF columns_new_ok])

interpretation grid2: checked_grid columns_ok grid2_at grid2_put "columns_new d" d for d :: 'c
proof
  fix w h x y v and g :: "'c columns" assume g: "columns_ok w h g" and i: "x < w" "y < h"
  then show "\<exists>c. grid2_at g x y = Some (Inr c)" using cell_get_in [of w h "col_cells g" x y] by (auto simp: grid2_in columns_ok_def)
  show "\<exists>g'. grid2_put g x y v = Some (Inr g') \<and> columns_ok w h g' \<and>
      (\<forall>x' y'. x' < w \<longrightarrow> y' < h \<longrightarrow> grid2_at g' x' y' = (if x' = x \<and> y' = y then Some (Inr v) else grid2_at g x' y'))"
  proof -
    obtain cs where cs: "cell_put (col_cells g) x y v = Some cs" "columns_ok w h (g\<lparr>col_cells := cs\<rparr>)"
      "\<And>x' y'. x' < w \<Longrightarrow> y' < h \<Longrightarrow> cell_get cs x' y' = (if x' = x \<and> y' = y then Some v else cell_get (col_cells g) x' y')"
      using columns_put_in [OF g i] by blast
    show ?thesis by (intro exI [of _ "g\<lparr>col_cells := cs\<rparr>"]) (simp add: grid2_in [OF g] grid2_in(1) [OF cs(2)] i cs)
  qed
next
  fix w h x y v and g :: "'c columns" assume "columns_ok w h g" "\<not> (x < w \<and> y < h)"
  then show "\<exists>e. grid2_at g x y = Some (Inl e) \<and> grid2_put g x y v = Some (Inl e)"
    by (auto simp: grid2_put_def grid2_at_def grid2_verifyCoordinate_def columns_ok_def not_less split: if_splits)
qed (simp_all add: columns_new_ok columns_new_get grid2_in [OF columns_new_ok])

text \<open>For the array the sizes are those of the type, so the contract is one for each of them.\<close>

definition array_ok :: "nat \<Rightarrow> nat \<Rightarrow> nat \<times> nat \<times> 'c list list \<Rightarrow> bool" where
  "array_ok w h g \<longleftrightarrow> (case g of (W, H, cs) \<Rightarrow> W = w \<and> H = h \<and> rect w h cs)"

interpretation grid3: checked_grid array_ok "\<lambda>(W, H, cs). grid3_at W H cs"
  "\<lambda>(W, H, cs) x y v. map_option (map_sum id (\<lambda>cs. (W, H, cs))) (grid3_put W H cs x y v)" "\<lambda>W H. (W, H, array_new d W H)" d for d :: 'c
proof
  fix w h x y v and g :: "nat \<times> nat \<times> 'c list list" assume g: "array_ok w h g" and i: "x < w" "y < h"
  then obtain cs where cs: "g = (w, h, cs)" "rect w h cs" by (auto simp: array_ok_def)
  show "\<exists>c. (case g of (W, H, cs) \<Rightarrow> grid3_at W H cs) x y = Some (Inr c)"
    using cell_get_in [OF cs(2) i] i by (auto simp: cs grid3_at_def grid3_verifyCoordinate_def)
  show "\<exists>g'. (case g of (W, H, cs) \<Rightarrow> \<lambda>x y v. map_option (map_sum id (\<lambda>cs. (W, H, cs))) (grid3_put W H cs x y v)) x y v = Some (Inr g') \<and>
      array_ok w h g' \<and> (\<forall>x' y'. x' < w \<longrightarrow> y' < h \<longrightarrow>
        (case g' of (W, H, cs) \<Rightarrow> grid3_at W H cs) x' y' =
        (if x' = x \<and> y' = y then Some (Inr v) else (case g of (W, H, cs) \<Rightarrow> grid3_at W H cs) x' y'))"
  proof -
    obtain cs' where "cell_put cs x y v = Some cs'" "rect w h cs'"
      "\<forall>x' y'. x' < w \<longrightarrow> y' < h \<longrightarrow> cell_get cs' x' y' = (if x' = x \<and> y' = y then Some v else cell_get cs x' y')"
      using cell_put_in [OF cs(2) i, of v] by blast
    then show ?thesis using i
      by (intro exI [of _ "(w, h, cs')"]) (simp add: cs array_ok_def grid3_put_def grid3_at_def grid3_verifyCoordinate_def)
  qed
next
  fix w h x y v and g :: "nat \<times> nat \<times> 'c list list" assume "array_ok w h g" "\<not> (x < w \<and> y < h)"
  then show "\<exists>e. (case g of (W, H, cs) \<Rightarrow> grid3_at W H cs) x y = Some (Inl e) \<and>
      (case g of (W, H, cs) \<Rightarrow> \<lambda>x y v. map_option (map_sum id (\<lambda>cs. (W, H, cs))) (grid3_put W H cs x y v)) x y v = Some (Inl e)"
    by (auto simp: array_ok_def grid3_put_def grid3_at_def grid3_verifyCoordinate_def)
qed (simp_all add: array_ok_def array_new_def rect_def grid3_at_def grid3_verifyCoordinate_def cell_get_def)

text \<open>After any sequence of writes, also such that fail, the three grids show the same cells.\<close>

lemma grids_agree:
  assumes "x < w" "y < h"
  shows "grid1_at (grid1.put_all us (columns_new d w h)) x y = grid2_at (grid2.put_all us (columns_new d w h)) x y"
    and "grid2_at (grid2.put_all us (columns_new d w h)) x y =
      (case grid3.put_all us (w, h, array_new d w h) of (W, H, cs) \<Rightarrow> grid3_at W H cs x y)"
  using grid1.from_start [OF assms, of us d] grid2.from_start [OF assms, of us d] grid3.from_start [OF assms, of us d]
  by (simp_all add: case_prod_beta)

text \<open>
  \<^verbatim>\<open>grid_v2_template_template.cc\<close>: the constructor resizes the columns and then assigns the template argument \<^verbatim>\<open>DEFAULT\<close> to
  every cell. In the namespace \<^verbatim>\<open>mygrid_v2\<close> the access is checked; in \<^verbatim>\<open>mygrid_v2_ref\<close> the check is commented out.
\<close>

definition grid_v2_new :: "'c \<Rightarrow> nat \<Rightarrow> nat \<Rightarrow> 'c option columns" where
  "grid_v2_new DEFAULT w h =
     \<lparr>col_cells = map (\<lambda>column. map (\<lambda>e. Some DEFAULT) (vec_resize h (None :: 'c option) column)) (vec_resize w [] []),
      col_width = w, col_height = h\<rparr>"

definition grid_v2_verify :: "'c columns \<Rightarrow> nat \<Rightarrow> nat \<Rightarrow> string option" where
  "grid_v2_verify g x y =
     (if x \<ge> col_width g then Some ''xxxxxx'' else if y \<ge> col_height g then Some ''yyyyyy'' else None)"

definition grid_v2_at :: "'c columns \<Rightarrow> nat \<Rightarrow> nat \<Rightarrow> (string + 'c) option" where
  "grid_v2_at g x y = (case grid_v2_verify g x y of Some e \<Rightarrow> Some (Inl e) | None \<Rightarrow> map_option Inr (cell_get (col_cells g) x y))"

definition grid_v2_put :: "'c columns \<Rightarrow> nat \<Rightarrow> nat \<Rightarrow> 'c \<Rightarrow> (string + 'c columns) option" where
  "grid_v2_put g x y v =
     (case grid_v2_verify g x y of
        Some e \<Rightarrow> Some (Inl e)
      | None \<Rightarrow> map_option (\<lambda>cs. Inr (g\<lparr>col_cells := cs\<rparr>)) (cell_put (col_cells g) x y v))"

definition grid_ref_at :: "'c columns \<Rightarrow> nat \<Rightarrow> nat \<Rightarrow> 'c option" where
  "grid_ref_at g x y = cell_get (col_cells g) x y"

lemma grid_v2_as_grid1: "grid_v2_at = grid1_at" "grid_v2_put = grid1_put" "grid_v2_new d = columns_new (Some d)"
  by (simp_all add: fun_eq_iff grid_v2_at_def grid1_at_def grid_v2_put_def grid1_put_def grid_v2_verify_def grid1_verify_def
      grid_v2_new_def columns_new_def vec_resize_def map_replicate_const)

interpretation grid_v2: checked_grid columns_ok grid_v2_at grid_v2_put "grid_v2_new d" "Some d" for d :: 'c
  unfolding grid_v2_as_grid1 by (rule grid1.checked_grid_axioms)

text \<open>Without the check an access outside of the grid is not reported: it leaves the vectors.\<close>

lemma grid_ref_unchecked: "columns_ok w h g \<Longrightarrow> grid_ref_at g x y = None \<longleftrightarrow> \<not> (x < w \<and> y < h)"
  by (auto simp: grid_ref_at_def cell_get_def columns_ok_def rect_nth) (simp_all add: rect_def)

section \<open>Computations at compile time\<close>

text \<open>\<^verbatim>\<open>unsigned long long\<close> has 64 bits and wraps around; the template \<^verbatim>\<open>Factorial\<close> and the function \<^verbatim>\<open>factorial\<close> recurse alike.\<close>

fun Factorial :: "nat \<Rightarrow> 64 word" where
  "Factorial 0 = 1"
| "Factorial (Suc f) = of_nat (Suc f) * Factorial f"

fun factorial :: "nat \<Rightarrow> 64 word" where
  "factorial f = (if f = 0 then 1 else of_nat f * factorial (f - 1))"

declare factorial.simps [simp del]

fun Loop_run :: "nat \<Rightarrow> (nat \<Rightarrow> 's \<Rightarrow> 's) \<Rightarrow> 's \<Rightarrow> 's" where
  "Loop_run 0 func s = s"
| "Loop_run (Suc i) func s = func (Suc i) (Loop_run i func s)"

lemma Factorial_of_nat: "Factorial f = of_nat (fact f)"
  by (induction f) (simp_all add: algebra_simps)

lemma factorial_same: "factorial f = Factorial f"
  by (induction f) (simp_all add: factorial.simps)

lemma Loop_run_fold: "Loop_run i func s = fold func [1..<Suc i] s"
  by (induction i) simp_all

lemma fact_64: "fact f < (2 :: nat) ^ 64 \<longleftrightarrow> f \<le> 20"
proof
  have "fact 20 < (2 :: nat) ^ 64" by (simp add: fact_numeral)
  then show "f \<le> 20 \<Longrightarrow> fact f < (2 :: nat) ^ 64" using fact_mono [of f 20, where 'a = nat] by linarith
  have "(2 :: nat) ^ 64 \<le> fact 21" by (simp add: fact_numeral)
  then show "fact f < (2 :: nat) ^ 64 \<Longrightarrow> f \<le> 20" using fact_mono [of 21 f, where 'a = nat] by (cases "21 \<le> f") linarith+
qed

text \<open>From 66 on the result is 0: 66! is divisible by \<open>2 ^ 64\<close>.\<close>

lemma Factorial_zero: "66 \<le> f \<Longrightarrow> Factorial f = 0"
proof -
  assume "66 \<le> f"
  have "(2 :: nat) ^ 64 dvd fact 66" by (simp add: fact_numeral)
  also have "fact 66 dvd (fact f :: nat)" using \<open>66 \<le> f\<close> by (rule fact_dvd)
  finally have "(fact f :: nat) mod 2 ^ 64 = 0" by (simp add: dvd_eq_mod_eq_0)
  then have "unat (Factorial f) = 0" unfolding Factorial_of_nat unat_of_nat by simp
  then show ?thesis by (simp add: unat_eq_zero)
qed

text \<open>
  \<^verbatim>\<open>Factorial\<close> and \<^verbatim>\<open>factorial\<close> agree for every argument, and give the factorial exactly up to 20; from 21 on the value has wrapped
  around.
\<close>

theorem Factorial_bounds: "factorial f = Factorial f \<and> (unat (Factorial f) = fact f \<longleftrightarrow> f \<le> 20)"
proof -
  have "unat (Factorial f) = fact f mod 2 ^ 64" unfolding Factorial_of_nat by (simp add: unat_of_nat)
  moreover have "(fact f mod 2 ^ 64 = (fact f :: nat)) \<longleftrightarrow> fact f < (2 :: nat) ^ 64"
    by (metis mod_less mod_less_divisor zero_less_numeral zero_less_power)
  ultimately show ?thesis using fact_64 factorial_same by metis
qed

section \<open>Type soundness of the grids\<close>

lemma ngrid_set_defined: "ngrid_at g xs \<noteq> None \<Longrightarrow> \<exists>g'. ngrid_set g xs v = Some g'"
  by (induction g xs rule: ngrid_at.induct) (auto split: if_splits)

text \<open>C37.
  A well-typed grid stays well-typed. \<^verbatim>\<open>resize\<close> gives it the new size in every direction, keeps the cells that are in both
  sizes and fills the others with the default value; a row of a grid is a well-typed grid of one dimension less; and in
  a resized grid every combination of indices below the size can be read and written, which changes that cell only.
\<close>

theorem ngrid_type_sound:
  assumes "has_type n g"
  shows "has_type n (ngrid_resize d n sz g) \<and> cube sz (ngrid_resize d n sz g) \<and> getSize (ngrid_resize d n sz g) = sz \<and>
    (2 \<le> n \<longrightarrow> (\<forall>x<getSize g. \<exists>e. ngrid_sub g x = Some e \<and> has_type (n - 1) e)) \<and>
    (\<forall>xs v. length xs = n \<longrightarrow> (\<forall>x\<in>set xs. x < sz) \<longrightarrow>
      ngrid_at (ngrid_resize d n sz g) xs = Some (case ngrid_at g xs of Some c \<Rightarrow> c | None \<Rightarrow> d) \<and>
      (\<exists>g'. ngrid_set (ngrid_resize d n sz g) xs v = Some g' \<and> has_type n g' \<and>
        (\<forall>ys. ngrid_at g' ys = (if ys = xs then Some v else ngrid_at (ngrid_resize d n sz g) ys))))"
proof -
  let ?g = "ngrid_resize d n sz g"
  have ty: "has_type n ?g" "cube sz ?g" using ngrid_resize_type [OF assms] by blast+
  have "getSize ?g = sz" using ty(2) by (cases ?g) auto
  moreover have "\<exists>e. ngrid_sub g x = Some e \<and> has_type (n - 1) e" if "2 \<le> n" "x < getSize g" for x
    using assms that by (cases g) auto
  moreover have "ngrid_at ?g xs = Some (case ngrid_at g xs of Some c \<Rightarrow> c | None \<Rightarrow> d)"
    if "length xs = n" "\<forall>x\<in>set xs. x < sz" for xs using ngrid_resize_at [OF assms that(1)] that(2) by simp
  moreover have "\<exists>g'. ngrid_set ?g xs v = Some g' \<and> has_type n g' \<and> (\<forall>ys. ngrid_at g' ys = (if ys = xs then Some v else ngrid_at ?g ys))"
    if "length xs = n" "\<forall>x\<in>set xs. x < sz" for xs v
    using ngrid_set_defined [of ?g xs v] ngrid_set_at [OF ty(1)] ngrid_resize_at [OF assms that(1), of d sz] that(2) by (metis option.distinct(1))
  ultimately show ?thesis using ty by blast
qed

theorem ngrid_type_sound_witness:
  "cube 3 (ngrid_resize (0 :: nat) 2 3 (Grids [Cells [5, 6], Cells [7]])) \<and>
   ngrid_at (ngrid_resize (0 :: nat) 2 3 (Grids [Cells [5, 6], Cells [7]])) [0, 1] = Some 6 \<and>
   ngrid_at (ngrid_resize (0 :: nat) 2 3 (Grids [Cells [5, 6], Cells [7]])) [2, 2] = Some 0"
proof -
  have "has_type 2 (Grids [Cells [5, 6], Cells [7 :: nat]])" by simp
  from ngrid_type_sound [OF this, of 0 3] have
    "cube 3 (ngrid_resize (0 :: nat) 2 3 (Grids [Cells [5, 6], Cells [7]]))"
    "length xs = 2 \<Longrightarrow> \<forall>x\<in>set xs. x < 3 \<Longrightarrow> ngrid_at (ngrid_resize (0 :: nat) 2 3 (Grids [Cells [5, 6], Cells [7]])) xs =
      Some (case ngrid_at (Grids [Cells [5, 6], Cells [7 :: nat]]) xs of Some c \<Rightarrow> c | None \<Rightarrow> 0)" for xs
    by blast+
  from this(1) this(2) [of "[0, 1]"] this(2) [of "[2, 2]"] show ?thesis by simp
qed

end
