(* ===== verification/Process_Sync.thy ===== *)
theory Process_Sync
  imports Prelude "HOL-Library.Sublist"
begin

text \<open>
  Programs that synchronise processes: a producer and a consumer on shared memory
  (\<^verbatim>\<open>linux_program/ch14_semaphore_shareMemory_mq/02_shm_producer.c\<close>, \<^verbatim>\<open>02_shm_consumer.c\<close>), processes that guard their output with a
  semaphore (\<^verbatim>\<open>01_semaphore.c\<close> there), and the three ways to share a semaphore of \<^verbatim>\<open>ipc/semaphore_01.c\<close>. A schedule is a list
  of the processes in the order they take their steps; one step reads or writes shared memory once. The creation and removal
  of the segments is left out.
\<close>

section \<open>Shared memory\<close>

definition TEXT_SZ :: nat where "TEXT_SZ = 2048"

text \<open>The string in an array of characters, and \<^verbatim>\<open>strncmp(s, "end", 3) == 0\<close>.\<close>

definition c_str :: "string \<Rightarrow> string" where "c_str s = takeWhile (\<lambda>c. c \<noteq> CHR 0x00) s"

definition says_end :: "string \<Rightarrow> bool" where "says_end s \<longleftrightarrow> take 3 s = ''end''"

datatype producer_pc = P_wait | P_gets | P_copy | P_set | P_cmp | P_end

datatype consumer_pc = C_test | C_print | C_clear | C_cmp | C_end

record shared_use_st =
  written_by_you :: int
  some_text :: string

text \<open>\<open>sh_input\<close> is what \<^verbatim>\<open>fgets\<close> is going to deliver; \<open>sh_read\<close>, \<open>sh_sent\<close> and \<open>sh_printed\<close> record what was read, published and printed.\<close>

record shm =
  sh_mem :: shared_use_st
  pr_pc :: producer_pc
  pr_buffer :: string
  co_pc :: consumer_pc
  sh_input :: "string list"
  sh_read :: "string list"
  sh_sent :: "string list"
  sh_printed :: "string list"

text \<open>The consumer has just cleared the flag of a new segment; the producer may start.\<close>

definition shm_start :: "string list \<Rightarrow> shm" where
  "shm_start input = \<lparr>sh_mem = \<lparr>written_by_you = 0, some_text = []\<rparr>, pr_pc = P_wait, pr_buffer = [], co_pc = C_test,
     sh_input = input, sh_read = [], sh_sent = [], sh_printed = []\<rparr>"

definition strncpy_text :: "string \<Rightarrow> string" where
  "strncpy_text buffer = take TEXT_SZ (c_str buffer)"

definition producer_go :: "shm \<Rightarrow> shm" where
  "producer_go s =
     (case pr_pc s of
        P_wait \<Rightarrow> if written_by_you (sh_mem s) = 1 then s else s\<lparr>pr_pc := P_gets\<rparr>
      | P_gets \<Rightarrow>
          (let buffer = (case sh_input s of [] \<Rightarrow> pr_buffer s | line # _ \<Rightarrow> line)
           in s\<lparr>pr_pc := P_copy, pr_buffer := buffer, sh_input := tl (sh_input s), sh_read := sh_read s @ [buffer]\<rparr>)
      | P_copy \<Rightarrow> s\<lparr>sh_mem := (sh_mem s)\<lparr>some_text := strncpy_text (pr_buffer s)\<rparr>, pr_pc := P_set\<rparr>
      | P_set \<Rightarrow> s\<lparr>sh_mem := (sh_mem s)\<lparr>written_by_you := 1\<rparr>, pr_pc := P_cmp, sh_sent := sh_sent s @ [strncpy_text (pr_buffer s)]\<rparr>
      | P_cmp \<Rightarrow> s\<lparr>pr_pc := (if says_end (c_str (pr_buffer s)) then P_end else P_wait)\<rparr>
      | P_end \<Rightarrow> s)"

text \<open>Printing a text that fills the array reads past its end: \<open>None\<close>.\<close>

definition consumer_go :: "shm \<Rightarrow> shm option" where
  "consumer_go s =
     (case co_pc s of
        C_test \<Rightarrow> Some (if written_by_you (sh_mem s) \<noteq> 0 then s\<lparr>co_pc := C_print\<rparr> else s)
      | C_print \<Rightarrow>
          if length (some_text (sh_mem s)) < TEXT_SZ
          then Some (s\<lparr>co_pc := C_clear, sh_printed := sh_printed s @ [some_text (sh_mem s)]\<rparr>) else None
      | C_clear \<Rightarrow> Some (s\<lparr>sh_mem := (sh_mem s)\<lparr>written_by_you := 0\<rparr>, co_pc := C_cmp\<rparr>)
      | C_cmp \<Rightarrow> Some (s\<lparr>co_pc := (if says_end (some_text (sh_mem s)) then C_end else C_test)\<rparr>)
      | C_end \<Rightarrow> Some s)"

datatype shm_proc = Producer | Consumer

fun shm_next :: "shm_proc \<Rightarrow> shm \<Rightarrow> shm option" where
  "shm_next Producer s = Some (producer_go s)"
| "shm_next Consumer s = consumer_go s"

definition too_long :: "shm_proc \<Rightarrow> shm \<Rightarrow> bool" where
  "too_long x s \<longleftrightarrow> x = Consumer \<and> co_pc s = C_print \<and> TEXT_SZ \<le> length (some_text (sh_mem s))"

definition shm_ok :: "shm \<Rightarrow> bool" where
  "shm_ok s \<longleftrightarrow>
     written_by_you (sh_mem s) \<in> {0, 1} \<and>
     (pr_pc s \<in> {P_gets, P_copy, P_set} \<longrightarrow> written_by_you (sh_mem s) = 0) \<and>
     (co_pc s \<in> {C_print, C_clear} \<longrightarrow> written_by_you (sh_mem s) = 1) \<and>
     sh_sent s = sh_printed s @ (if written_by_you (sh_mem s) = 1 \<and> co_pc s \<noteq> C_clear then [some_text (sh_mem s)] else []) \<and>
     map strncpy_text (sh_read s) = sh_sent s @ (if pr_pc s \<in> {P_copy, P_set} then [strncpy_text (pr_buffer s)] else []) \<and>
     (pr_pc s \<in> {P_set, P_cmp, P_end} \<longrightarrow> some_text (sh_mem s) = strncpy_text (pr_buffer s)) \<and>
     (says_end (some_text (sh_mem s)) \<longrightarrow> pr_pc s \<in> {P_set, P_cmp, P_end}) \<and>
     (pr_pc s = P_end \<longrightarrow> says_end (some_text (sh_mem s))) \<and>
     (co_pc s = C_end \<longrightarrow> says_end (some_text (sh_mem s))) \<and>
     (pr_pc s \<in> {P_cmp, P_end} \<longrightarrow> says_end (some_text (sh_mem s)) \<longrightarrow> written_by_you (sh_mem s) = 0 \<longrightarrow> co_pc s \<in> {C_cmp, C_end})"

lemma says_end_copy: "says_end (strncpy_text b) \<longleftrightarrow> says_end (c_str b)"
  by (simp add: says_end_def strncpy_text_def TEXT_SZ_def min_def)

lemma shm_start_ok: "shm_ok (shm_start input)"
  by (simp add: shm_ok_def shm_start_def says_end_def)

lemma producer_ok: "shm_ok s \<Longrightarrow> shm_ok (producer_go s)"
  by (cases "pr_pc s"; cases "co_pc s"; cases "written_by_you (sh_mem s) = 1")
    (auto simp: shm_ok_def producer_go_def says_end_copy Let_def)

lemma consumer_ok: "shm_ok s \<Longrightarrow> \<not> too_long Consumer s \<Longrightarrow> \<exists>s'. consumer_go s = Some s' \<and> shm_ok s'"
  by (cases "co_pc s"; cases "pr_pc s"; cases "written_by_you (sh_mem s) = 1")
    (auto simp: shm_ok_def consumer_go_def too_long_def)

interpretation shm: machine shm_next "shm_start input" shm_ok too_long for input
proof
  fix s x assume s: "shm_ok s" "\<not> too_long x s"
  show "\<exists>s'. shm_next x s = Some s' \<and> shm_ok s'"
    using producer_ok [OF s(1)] consumer_ok [OF s(1)] s(2) by (cases x) simp_all
next
  fix x s assume "too_long x s"
  then show "shm_next x s = None" by (simp add: too_long_def consumer_go_def)
qed (rule shm_start_ok)

lemma consumer_ends:
  assumes "shm_ok s" "pr_pc s = P_end" "length (some_text (sh_mem s)) < TEXT_SZ"
  shows "\<exists>n s'. foldM shm_next (replicate n Consumer) s = Some s' \<and> co_pc s' = C_end \<and> pr_pc s' = P_end"
proof -
  have e: "says_end (some_text (sh_mem s))" "written_by_you (sh_mem s) \<in> {0, 1}"
    "written_by_you (sh_mem s) = 0 \<longrightarrow> co_pc s \<in> {C_cmp, C_end}" using assms(1,2) by (auto simp: shm_ok_def)
  show ?thesis
  proof (cases "co_pc s")
    case C_test
    then show ?thesis using e assms(2,3) by (intro exI [of _ 4]) (auto simp: consumer_go_def eval_nat_numeral)
  next
    case C_print
    then show ?thesis using e assms(2,3) by (intro exI [of _ 3]) (auto simp: consumer_go_def eval_nat_numeral)
  next
    case C_clear
    then show ?thesis using e assms(2,3) by (intro exI [of _ 2]) (auto simp: consumer_go_def eval_nat_numeral)
  next
    case C_cmp
    then show ?thesis using e assms(2,3) by (intro exI [of _ 1]) (auto simp: consumer_go_def)
  next
    case C_end
    then show ?thesis using assms(2) by (intro exI [of _ 0]) simp
  qed
qed

text \<open>C33.
  The producer and the consumer under every schedule: the consumer prints the lines that were read in their order, none
  twice, and at every moment at most the line in the shared memory and the one the producer is working on are not printed yet. When
  both have ended all lines have been printed but for possibly the last one, which says \<^verbatim>\<open>end\<close>; and once the producer has
  ended, the consumer comes to its end by its own steps. The one way to fail is a line of 2048 or more characters.
\<close>

theorem shm_transfer:
  "case foldM shm_next xs (shm_start input) of
     None \<Rightarrow> \<exists>ys x zs s. xs = ys @ x # zs \<and> foldM shm_next ys (shm_start input) = Some s \<and> too_long x s
   | Some s \<Rightarrow>
       prefix (sh_printed s) (map strncpy_text (sh_read s)) \<and> length (sh_read s) \<le> length (sh_printed s) + 2 \<and>
       (pr_pc s = P_end \<longrightarrow> co_pc s = C_end \<longrightarrow>
          map strncpy_text (sh_read s) = sh_printed s \<or> (\<exists>l. says_end l \<and> map strncpy_text (sh_read s) = sh_printed s @ [l])) \<and>
       (pr_pc s = P_end \<longrightarrow> length (some_text (sh_mem s)) < TEXT_SZ \<longrightarrow>
          (\<exists>n s'. foldM shm_next (replicate n Consumer) s = Some s' \<and> co_pc s' = C_end))"
proof (cases "foldM shm_next xs (shm_start input)")
  case None
  then show ?thesis using shm.run_or_bad [of xs input] by fastforce
next
  case (Some s)
  then have ok: "shm_ok s" by (rule shm.run_ok)
  have r: "map strncpy_text (sh_read s) = sh_printed s @
      (if written_by_you (sh_mem s) = 1 \<and> co_pc s \<noteq> C_clear then [some_text (sh_mem s)] else []) @
      (if pr_pc s \<in> {P_copy, P_set} then [strncpy_text (pr_buffer s)] else [])"
    using ok by (simp add: shm_ok_def)
  have "length (sh_read s) = length (map strncpy_text (sh_read s))" by simp
  also have "\<dots> \<le> length (sh_printed s) + 2" unfolding r by simp
  finally have "length (sh_read s) \<le> length (sh_printed s) + 2" .
  moreover have "prefix (sh_printed s) (map strncpy_text (sh_read s))" unfolding r by (rule prefixI) (rule refl)
  moreover have "map strncpy_text (sh_read s) = sh_printed s \<or> (\<exists>l. says_end l \<and> map strncpy_text (sh_read s) = sh_printed s @ [l])"
    if "pr_pc s = P_end" "co_pc s = C_end" using ok that unfolding r by (auto simp: shm_ok_def)
  ultimately show ?thesis using Some consumer_ends [OF ok] by fastforce
qed

theorem shm_transfer_witness:
  "\<exists>s. foldM shm_next (replicate 5 Producer @ replicate 4 Consumer) (shm_start [''end'']) = Some s \<and>
     pr_pc s = P_end \<and> co_pc s = C_end \<and> prefix (sh_printed s) (map strncpy_text (sh_read s)) \<and> length (sh_read s) \<le> length (sh_printed s) + 2"
proof -
  have "map_option (\<lambda>s. (pr_pc s, co_pc s)) (foldM shm_next (replicate 5 Producer @ replicate 4 Consumer) (shm_start [''end''])) = Some (P_end, C_end)"
    by code_simp
  then obtain s where s: "foldM shm_next (replicate 5 Producer @ replicate 4 Consumer) (shm_start [''end'']) = Some s"
    "pr_pc s = P_end" "co_pc s = C_end" by auto
  with shm_transfer [of "replicate 5 Producer @ replicate 4 Consumer" "[''end'']"] show ?thesis by simp
qed

section \<open>The semaphore around a critical section\<close>

text \<open>
  Process 0 is the one that was started with an argument: it sets the semaphore, which \<^verbatim>\<open>semget\<close> has created with value 0, and
  removes it at its end (\<open>None\<close>). \<open>sv_out\<close> is the sequence of processes that printed their character. Of a process that exits in between,
  \<^verbatim>\<open>SEM_UNDO\<close> would give back the semaphore; here a process only exits when the semaphore is gone.
\<close>

datatype sv_pc = V_set | V_p nat | V_first nat | V_second nat | V_v nat | V_del | V_end | V_fail

record sysv =
  sv_sem :: "nat option"
  sv_pc :: "nat \<Rightarrow> sv_pc"
  sv_out :: "nat list"

definition sysv_start :: sysv where
  "sysv_start = \<lparr>sv_sem = Some 0, sv_pc = (\<lambda>t. if t = 0 then V_set else V_p 0), sv_out = []\<rparr>"

definition sv_goto :: "nat \<Rightarrow> sv_pc \<Rightarrow> sysv \<Rightarrow> sysv" where
  "sv_goto t p s = s\<lparr>sv_pc := (sv_pc s)(t := p)\<rparr>"

definition set_semvalue :: "nat \<Rightarrow> sysv \<Rightarrow> sysv" where
  "set_semvalue t s =
     (case sv_sem s of None \<Rightarrow> sv_goto t V_fail s | Some _ \<Rightarrow> sv_goto t (V_p 0) (s\<lparr>sv_sem := Some 1\<rparr>))"

definition del_semvalue :: "nat \<Rightarrow> sysv \<Rightarrow> sysv" where
  "del_semvalue t s = sv_goto t V_end (s\<lparr>sv_sem := None\<rparr>)"

definition semaphore_p :: "nat \<Rightarrow> nat \<Rightarrow> sysv \<Rightarrow> sysv" where
  "semaphore_p t i s =
     (case sv_sem s of
        None \<Rightarrow> sv_goto t V_fail s
      | Some 0 \<Rightarrow> s
      | Some (Suc v) \<Rightarrow> sv_goto t (V_first i) (s\<lparr>sv_sem := Some v\<rparr>))"

definition semaphore_v :: "nat \<Rightarrow> nat \<Rightarrow> sysv \<Rightarrow> sysv" where
  "semaphore_v t i s =
     (case sv_sem s of
        None \<Rightarrow> sv_goto t V_fail s
      | Some v \<Rightarrow> sv_goto t (V_p (i + 1)) (s\<lparr>sv_sem := Some (v + 1)\<rparr>))"

definition print_char :: "nat \<Rightarrow> sysv \<Rightarrow> sysv" where
  "print_char t s = s\<lparr>sv_out := sv_out s @ [t]\<rparr>"

definition sysv_next :: "nat \<Rightarrow> sysv \<Rightarrow> sysv option" where
  "sysv_next t s = Some
     (case sv_pc s t of
        V_set \<Rightarrow> set_semvalue t s
      | V_p i \<Rightarrow> if i < 10 then semaphore_p t i s else sv_goto t (if t = 0 then V_del else V_end) s
      | V_first i \<Rightarrow> sv_goto t (V_second i) (print_char t s)
      | V_second i \<Rightarrow> sv_goto t (V_v i) (print_char t s)
      | V_v i \<Rightarrow> semaphore_v t i s
      | V_del \<Rightarrow> del_semvalue t s
      | V_end \<Rightarrow> s
      | V_fail \<Rightarrow> s)"

fun critical :: "sv_pc \<Rightarrow> bool" where
  "critical (V_first i) = True"
| "critical (V_second i) = True"
| "critical (V_v i) = True"
| "critical _ = False"

text \<open>How many characters a process has printed when it is at some place.\<close>

fun place_ok :: "sv_pc \<Rightarrow> nat \<Rightarrow> bool" where
  "place_ok V_set n \<longleftrightarrow> n = 0"
| "place_ok (V_p i) n \<longleftrightarrow> i \<le> 10 \<and> n = 2 * i"
| "place_ok (V_first i) n \<longleftrightarrow> i < 10 \<and> n = 2 * i"
| "place_ok (V_second i) n \<longleftrightarrow> i < 10 \<and> n = 2 * i + 1"
| "place_ok (V_v i) n \<longleftrightarrow> i < 10 \<and> n = 2 * i + 2"
| "place_ok V_del n \<longleftrightarrow> n = 20"
| "place_ok V_end n \<longleftrightarrow> n = 20"
| "place_ok V_fail n \<longleftrightarrow> True"

text \<open>The output as closed pairs, followed by the first half of the pair that is being printed.\<close>

definition pairs_out :: "nat list \<Rightarrow> nat list \<Rightarrow> sysv \<Rightarrow> bool" where
  "pairs_out ps q s \<longleftrightarrow> sv_out s = concat (map (\<lambda>t. [t, t]) ps) @ q \<and>
     (\<forall>t i. sv_pc s t = V_second i \<longrightarrow> q = [t]) \<and> (q \<noteq> [] \<longrightarrow> (\<exists>t i. sv_pc s t = V_second i))"

text \<open>\<open>w\<close> is the process inside of the critical section, if there is one.\<close>

definition sysv_mutex :: "nat option \<Rightarrow> sysv \<Rightarrow> bool" where
  "sysv_mutex w s \<longleftrightarrow>
     (\<forall>t. critical (sv_pc s t) \<longleftrightarrow> w = Some t) \<and> (\<forall>t. sv_pc s t \<in> {V_set, V_del} \<longrightarrow> t = 0) \<and>
     (if sv_pc s 0 = V_set then sv_sem s = Some 0 \<and> w = None else sv_sem s \<in> {None, Some (if w = None then 1 else 0)})"

definition sysv_counts :: "sysv \<Rightarrow> bool" where
  "sysv_counts s \<longleftrightarrow> (\<forall>t. place_ok (sv_pc s t) (count_list (sv_out s) t))"

definition sysv_ok :: "sysv \<Rightarrow> bool" where
  "sysv_ok s \<longleftrightarrow> (\<exists>w. sysv_mutex w s) \<and> sysv_counts s \<and> (\<exists>ps q. pairs_out ps q s)"

lemmas sysv_defs = sv_goto_def print_char_def set_semvalue_def del_semvalue_def semaphore_p_def semaphore_v_def

lemma sysv_start_ok: "sysv_ok sysv_start"
proof -
  have "pairs_out [] [] sysv_start" by (auto simp: pairs_out_def sysv_start_def split: if_splits)
  moreover have "sysv_mutex None sysv_start" by (auto simp: sysv_mutex_def sysv_start_def split: if_splits)
  moreover have "sysv_counts sysv_start" by (auto simp: sysv_counts_def sysv_start_def split: if_splits)
  ultimately show ?thesis unfolding sysv_ok_def by blast
qed

lemma mutex_next:
  assumes m: "sysv_mutex w s" and n: "sysv_next t s = Some s'"
  shows "\<exists>w. sysv_mutex w s'"
proof -
  have c: "\<And>u. critical (sv_pc s u) \<longleftrightarrow> w = Some u" and z: "\<And>u. sv_pc s u \<in> {V_set, V_del} \<Longrightarrow> u = 0"
    and b: "sv_pc s 0 = V_set \<Longrightarrow> sv_sem s = Some 0 \<and> w = None" "sv_pc s 0 \<noteq> V_set \<Longrightarrow> sv_sem s \<in> {None, Some (if w = None then 1 else 0)}"
    using m by (auto simp: sysv_mutex_def)
  have "sysv_mutex (if critical (sv_pc s' t) then Some t else if w = Some t then None else w) s'"
  proof (cases "sv_pc s t")
    case V_set
    then have "t = 0" "sv_sem s = Some 0" "w = None" using z [of t] b(1) by auto
    then show ?thesis using n V_set c z by (auto simp: sysv_next_def sysv_defs sysv_mutex_def split: if_splits)
  next
    case (V_p i)
    then have w: "w \<noteq> Some t" using c [of t] by auto
    show ?thesis
    proof (cases "i < 10")
      case True
      show ?thesis
      proof (cases "sv_sem s")
        case None
        then show ?thesis using n V_p True w c z b by (auto simp: sysv_next_def sysv_defs sysv_mutex_def split: if_splits)
      next
        case (Some v)
        then show ?thesis using n V_p True w c z b by (cases v; cases w) (auto simp: sysv_next_def sysv_defs sysv_mutex_def split: if_splits)
      qed
    next
      case False
      then show ?thesis using n V_p w c z b by (auto simp: sysv_next_def sysv_defs sysv_mutex_def split: if_splits)
    qed
  next
    case (V_first i)
    then have "w = Some t" using c [of t] by simp
    then show ?thesis using n V_first c z b by (auto simp: sysv_next_def sysv_defs sysv_mutex_def split: if_splits)
  next
    case (V_second i)
    then have "w = Some t" using c [of t] by simp
    then show ?thesis using n V_second c z b by (auto simp: sysv_next_def sysv_defs sysv_mutex_def split: if_splits)
  next
    case (V_v i)
    then have "w = Some t" using c [of t] by simp
    then show ?thesis using n V_v c z b by (cases "sv_sem s") (auto simp: sysv_next_def sysv_defs sysv_mutex_def split: if_splits)
  next
    case V_del
    then have "w \<noteq> Some t" "t = 0" using c [of t] z [of t] by auto
    then show ?thesis using n V_del c z b by (auto simp: sysv_next_def sysv_defs sysv_mutex_def split: if_splits)
  next
    case V_end
    then have "s' = s" "w \<noteq> Some t" using n c [of t] by (auto simp: sysv_next_def)
    then show ?thesis using m V_end by simp
  next
    case V_fail
    then have "s' = s" "w \<noteq> Some t" using n c [of t] by (auto simp: sysv_next_def)
    then show ?thesis using m V_fail by simp
  qed
  then show ?thesis ..
qed

lemma counts_next:
  assumes p: "sysv_counts s" and n: "sysv_next t s = Some s'"
  shows "sysv_counts s'"
  unfolding sysv_counts_def
proof
  fix u
  have "place_ok (sv_pc s u) (count_list (sv_out s) u)" "place_ok (sv_pc s t) (count_list (sv_out s) t)" using p by (simp_all add: sysv_counts_def)
  then show "place_ok (sv_pc s' u) (count_list (sv_out s') u)" using n
    by (cases "u = t"; cases "sv_pc s t") (auto simp: sysv_next_def sysv_defs split: if_splits option.splits nat.splits)
qed

lemma pairs_next:
  assumes m: "sysv_mutex w s" and p: "pairs_out ps q s" and n: "sysv_next t s = Some s'"
  shows "\<exists>ps q. pairs_out ps q s'"
proof -
  have one: "u = t" if "critical (sv_pc s t)" "critical (sv_pc s u)" for u using m that by (auto simp: sysv_mutex_def)
  have second: "u = t" if "critical (sv_pc s t)" "sv_pc s u = V_second i" for u i using one [of u] that by simp
  consider i where "sv_pc s t = V_first i" | i where "sv_pc s t = V_second i" | "\<And>i. sv_pc s t \<noteq> V_first i" "\<And>i. sv_pc s t \<noteq> V_second i" by blast
  then show ?thesis
  proof cases
    case 1
    have "q = []"
    proof (rule ccontr)
      assume "q \<noteq> []"
      then obtain u j where "sv_pc s u = V_second j" using p unfolding pairs_out_def by blast
      with second [of u j] 1 show False by simp
    qed
    then have "pairs_out ps [t] s'" using n p 1 second by (auto simp: pairs_out_def sysv_next_def sysv_defs split: if_splits)
    then show ?thesis by blast
  next
    case 2
    then have q: "q = [t]" using p unfolding pairs_out_def by blast
    have s': "s' = sv_goto t (V_v i) (print_char t s)" using n 2 by (simp add: sysv_next_def)
    have "sv_pc s' u \<noteq> V_second j" for u j using second [of u j] 2 by (auto simp: s' sysv_defs)
    moreover have "sv_out s' = concat (map (\<lambda>t. [t, t]) (ps @ [t]))" using p q by (simp add: s' sysv_defs pairs_out_def)
    ultimately have "pairs_out (ps @ [t]) [] s'" by (simp add: pairs_out_def)
    then show ?thesis by blast
  next
    case 3
    then have "sv_out s' = sv_out s \<and> (\<forall>u i. sv_pc s' u = V_second i \<longleftrightarrow> sv_pc s u = V_second i)" using n
      by (cases "sv_pc s t") (auto simp: sysv_next_def sysv_defs split: if_splits option.splits nat.splits, rule gr0I, simp)
    then have "pairs_out ps q s'" using p by (simp add: pairs_out_def)
    then show ?thesis by blast
  qed
qed

interpretation sysv: machine sysv_next sysv_start sysv_ok "\<lambda>_ _. False"
proof
  fix s t assume s: "sysv_ok s"
  obtain s' where n: "sysv_next t s = Some s'" by (simp add: sysv_next_def)
  have "sysv_ok s'" using s mutex_next [OF _ n] counts_next [OF _ n] pairs_next [OF _ _ n] unfolding sysv_ok_def by blast
  with n show "\<exists>s'. sysv_next t s = Some s' \<and> sysv_ok s'" by blast
qed (simp_all add: sysv_start_ok)

text \<open>C34.
  Any number of processes, one of them started with an argument: under every schedule at most one is between \<^verbatim>\<open>semaphore_p\<close> and
  \<^verbatim>\<open>semaphore_v\<close>, so the output is a sequence of pairs of equal characters with at most the last one open; and a process that
  has reached its end without an error has printed exactly ten pairs.
\<close>

theorem semaphore_pairs:
  "\<exists>s ps q. foldM sysv_next ts sysv_start = Some s \<and>
     (\<forall>t u. critical (sv_pc s t) \<longrightarrow> critical (sv_pc s u) \<longrightarrow> t = u) \<and>
     sv_out s = concat (map (\<lambda>t. [t, t]) ps) @ q \<and> (q = [] \<or> (\<exists>t. q = [t] \<and> critical (sv_pc s t))) \<and>
     (\<forall>t. sv_pc s t = V_end \<longrightarrow> count_list (sv_out s) t = 20)"
proof -
  obtain s where s: "foldM sysv_next ts sysv_start = Some s" "sysv_ok s" using sysv.runs by blast
  then obtain ps q where p: "pairs_out ps q s" by (auto simp: sysv_ok_def)
  have "q = [] \<or> (\<exists>t. q = [t] \<and> critical (sv_pc s t))"
  proof (cases "q = []")
    case False
    then obtain t i where "sv_pc s t = V_second i" "q = [t]" using p unfolding pairs_out_def by blast
    then show ?thesis by simp
  qed simp
  moreover have "sv_out s = concat (map (\<lambda>t. [t, t]) ps) @ q" using p by (simp add: pairs_out_def)
  moreover have "\<forall>t u. critical (sv_pc s t) \<longrightarrow> critical (sv_pc s u) \<longrightarrow> t = u" using s(2) by (auto simp: sysv_ok_def sysv_mutex_def)
  moreover have "count_list (sv_out s) t = 20" if "sv_pc s t = V_end" for t
  proof -
    have "place_ok (sv_pc s t) (count_list (sv_out s) t)" using s(2) by (simp add: sysv_ok_def sysv_counts_def)
    with that show ?thesis by simp
  qed
  ultimately show ?thesis using s(1) by blast
qed

theorem semaphore_pairs_witness:
  "\<exists>s ps q. foldM sysv_next [0, 0, 0, 1, 0, 0, 1] sysv_start = Some s \<and> sv_out s = concat (map (\<lambda>t. [t, t]) ps) @ q \<and> (q = [] \<or> (\<exists>t. q = [t]))"
  using semaphore_pairs [of "[0, 0, 0, 1, 0, 0, 1]"] by blast

text \<open>A second process with an argument sets the semaphore again while the first is inside: both are in then.\<close>

lemma second_initialiser_breaks:
  "map_option (\<lambda>s. (critical (sv_pc s 0), critical (sv_pc s 1)))
     (foldM sysv_next [0, 0, 1, 1] (sysv_start\<lparr>sv_pc := (sv_pc sysv_start)(1 := V_set)\<rparr>)) = Some (True, True)"
  by code_simp

section \<open>Semaphores of the standard\<close>

text \<open>
  \<^verbatim>\<open>sem_mmap_named\<close> and \<^verbatim>\<open>sem_mmap_anon\<close>: the child prints and posts five times, the parent waits and prints five times, on one
  semaphore. In \<^verbatim>\<open>sem_mmap_error\<close> the parent waits on a copy of the semaphore that was made before the first post.
\<close>

record psem =
  ps_child :: nat
  ps_parent :: nat
  ps_produced :: nat
  ps_consumed :: nat
  ps_posted :: nat

definition psem_start :: psem where
  "psem_start = \<lparr>ps_child = 0, ps_parent = 0, ps_produced = 0, ps_consumed = 0, ps_posted = 0\<rparr>"

datatype psem_step = Produce | Post | Wait_print

definition psem_produce :: "psem \<Rightarrow> psem" where
  "psem_produce s = (if ps_produced s < 5 \<and> ps_produced s = ps_posted s then s\<lparr>ps_produced := ps_produced s + 1\<rparr> else s)"

text \<open>\<open>shared\<close> tells whether the parent sees the semaphore that the child posts to.\<close>

definition psem_post :: "bool \<Rightarrow> psem \<Rightarrow> psem" where
  "psem_post shared s =
     (if ps_posted s < ps_produced s
      then s\<lparr>ps_child := ps_child s + 1, ps_parent := (if shared then ps_parent s + 1 else ps_parent s), ps_posted := ps_posted s + 1\<rparr> else s)"

definition psem_wait :: "bool \<Rightarrow> psem \<Rightarrow> psem" where
  "psem_wait shared s =
     (if ps_consumed s < 5 \<and> 0 < ps_parent s
      then s\<lparr>ps_child := (if shared then ps_child s - 1 else ps_child s), ps_parent := ps_parent s - 1, ps_consumed := ps_consumed s + 1\<rparr> else s)"

fun psem_next :: "bool \<Rightarrow> psem_step \<Rightarrow> psem \<Rightarrow> psem option" where
  "psem_next shared Produce s = Some (psem_produce s)"
| "psem_next shared Post s = Some (psem_post shared s)"
| "psem_next shared Wait_print s = Some (psem_wait shared s)"

definition psem_ok :: "bool \<Rightarrow> psem \<Rightarrow> bool" where
  "psem_ok shared s \<longleftrightarrow> ps_produced s \<le> 5 \<and> ps_posted s \<le> ps_produced s \<and> ps_produced s \<le> ps_posted s + 1 \<and>
     (if shared then ps_posted s = ps_consumed s + ps_parent s \<and> ps_child s = ps_parent s else ps_parent s = 0 \<and> ps_consumed s = 0)"

interpretation psem: machine "psem_next shared" psem_start "psem_ok shared" "\<lambda>_ _. False" for shared
proof
  fix s x assume "psem_ok shared s"
  then show "\<exists>s'. psem_next shared x s = Some s' \<and> psem_ok shared s'"
    by (cases x; cases shared) (simp_all add: psem_ok_def psem_produce_def psem_post_def psem_wait_def)
qed (simp_all add: psem_start_def psem_ok_def)

text \<open>The parent never runs ahead of the child and can always finish after it; with a copy it never gets past its first wait.\<close>

lemma psem_shared:
  "\<exists>s. foldM (psem_next True) xs psem_start = Some s \<and> ps_consumed s \<le> ps_posted s \<and> ps_posted s \<le> ps_produced s \<and>
     (ps_posted s = 5 \<longrightarrow> ps_consumed s < 5 \<longrightarrow> ps_consumed (psem_wait True s) = ps_consumed s + 1)"
  using psem.runs [of True xs] by (auto simp: psem_ok_def psem_wait_def)

lemma psem_copied: "\<exists>s. foldM (psem_next False) xs psem_start = Some s \<and> ps_consumed s = 0"
  using psem.runs [of False xs] by (auto simp: psem_ok_def)

end
