(* ===== verification/Thread_Pool.thy ===== *)
theory Thread_Pool
  imports Locked_Containers
begin

text \<open>
  The thread pools (\<^verbatim>\<open>cpp_concurrency_2nd/thread_pool.cpp\<close>): the pool with one shared queue
  (\<^verbatim>\<open>thread_pool\<close>, \<^verbatim>\<open>thread_pool2\<close>), the pool with a private queue for each worker
  (\<^verbatim>\<open>thread_pool_3\<close>) and the pool with work stealing (\<^verbatim>\<open>thread_pool_6\<close>), on top of the queues of
  \<^verbatim>\<open>Locked_Containers\<close>. A \<^verbatim>\<open>function_wrapper\<close> is the task that it owns. The misspelt names of the source
  (\<^verbatim>\<open>run_pengding_task\<close>, \<^verbatim>\<open>queueus\<close>, \<^verbatim>\<open>pop_task_fron_pool_queue\<close>) are read as the members that they mean.
\<close>

section \<open>Sources of tasks\<close>

text \<open>
  What a worker relies on: \<open>get\<close> hands out one of the tasks, and it finds none only if its part of the
  queues holds none, and then it changes nothing. \<open>part\<close> is what this operation can see, \<open>total\<close> is everything.
\<close>

locale task_source =
  fixes get :: "'q \<Rightarrow> 'a option \<times> 'q"
    and part :: "'q \<Rightarrow> 'a multiset"
    and total :: "'q \<Rightarrow> 'a multiset"
    and invar :: "'q \<Rightarrow> bool"
  assumes get_none: "invar q \<Longrightarrow> get q = (None, q') \<Longrightarrow> part q = {#} \<and> q' = q"
    and get_some: "invar q \<Longrightarrow> get q = (Some x, q') \<Longrightarrow> total q = add_mset x (total q') \<and> invar q'"

text \<open>The operator \<^verbatim>\<open>||\<close> between two attempts, and a worker that runs alone for a number of turns of its loop.\<close>

definition or_else :: "('q \<Rightarrow> 'a option \<times> 'q) \<Rightarrow> ('q \<Rightarrow> 'a option \<times> 'q) \<Rightarrow> 'q \<Rightarrow> 'a option \<times> 'q" where
  "or_else f g q = (case f q of (None, q) \<Rightarrow> g q | (Some x, q) \<Rightarrow> (Some x, q))"

fun worker_turns :: "('q \<Rightarrow> 'a option \<times> 'q) \<Rightarrow> nat \<Rightarrow> 'q \<Rightarrow> 'a list \<times> 'q" where
  "worker_turns get 0 q = ([], q)"
| "worker_turns get (Suc n) q =
     (case get q of
        (None, q) \<Rightarrow> worker_turns get n q
      | (Some x, q) \<Rightarrow> (let (out, q) = worker_turns get n q in (x # out, q)))"

text \<open>Two sources tried one after the other are a source of what either of them sees.\<close>

locale two_sources =
  a: task_source get1 part1 total invar + b: task_source get2 part2 total invar
  for get1 :: "'q \<Rightarrow> 'a option \<times> 'q" and part1 total invar and get2 :: "'q \<Rightarrow> 'a option \<times> 'q" and part2

sublocale two_sources \<subseteq> both: task_source "or_else get1 get2" "\<lambda>q. part1 q + part2 q" total invar
proof
  fix q q'
  assume "invar q" and n: "or_else get1 get2 q = (None, q')"
  obtain q1 where 1: "get1 q = (None, q1)" using n by (auto simp: or_else_def split: prod.splits option.splits)
  moreover from a.get_none [OF \<open>invar q\<close> 1] have "q1 = q" "part1 q = {#}" by auto
  ultimately show "part1 q + part2 q = {#} \<and> q' = q"
    using n b.get_none [OF \<open>invar q\<close>, of q'] by (simp add: or_else_def)
next
  fix q x q'
  assume "invar q" and s: "or_else get1 get2 q = (Some x, q')"
  then show "total q = add_mset x (total q') \<and> invar q'"
    using a.get_none [of q] a.get_some [of q x q'] b.get_some [of q x q']
    by (auto simp: or_else_def split: prod.splits option.splits)
qed

text \<open>A source that sees everything: a worker on its own runs every task once.\<close>

locale complete_source = task_source +
  assumes complete: "invar q \<Longrightarrow> part q = {#} \<Longrightarrow> total q = {#}"
begin

lemma finds_none_iff: "invar q \<Longrightarrow> fst (get q) = None \<longleftrightarrow> total q = {#}"
  using get_none [of q "snd (get q)"] get_some [of q "the (fst (get q))" "snd (get q)"] complete [of q]
  by (cases "get q"; cases "fst (get q)") auto

lemma turns_conserve: "invar q \<Longrightarrow> worker_turns get n q = (out, q') \<Longrightarrow> total q = mset out + total q' \<and> invar q'"
proof (induction n arbitrary: q out)
  case (Suc n)
  then show ?case
    using get_none [OF Suc.prems(1)] get_some [OF Suc.prems(1)]
    by (fastforce split: prod.splits option.splits)
qed simp

lemma turns_run_all:
  "invar q \<Longrightarrow> size (total q) \<le> n \<Longrightarrow> mset (fst (worker_turns get n q)) = total q \<and> total (snd (worker_turns get n q)) = {#}"
proof (induction n arbitrary: q)
  case (Suc n)
  obtain r q1 where 1: "get q = (r, q1)" by force
  show ?case
  proof (cases r)
    case None
    then have "q1 = q" "total q = {#}" using 1 get_none [OF Suc.prems(1)] complete [OF Suc.prems(1)] by auto
    then show ?thesis using 1 None Suc by simp
  next
    case (Some x)
    then have "total q = add_mset x (total q1)" "invar q1" using 1 get_some [OF Suc.prems(1)] by auto
    then show ?thesis using 1 Some Suc.IH [of q1] Suc.prems by (simp add: case_prod_unfold Let_def)
  qed
qed simp

end

interpretation shared: complete_source "tq_try_pop t" "mset \<circ> tq_que" "mset \<circ> tq_que" "\<lambda>_. True"
  by unfold_locales (auto simp: tq_try_pop_def take_front_def split: list.splits)

interpretation own: complete_source ws_try_pop mset mset "\<lambda>_. True"
  by unfold_locales (auto simp: ws_try_pop_def split: list.splits)

lemma mset_butlast: "q \<noteq> [] \<Longrightarrow> mset q = add_mset (last q) (mset (butlast q))"
  by (cases q rule: rev_cases) auto

interpretation thief: complete_source ws_try_steal mset mset "\<lambda>_. True"
  by unfold_locales (auto simp: ws_try_steal_def mset_butlast split: if_splits)

section \<open>The queues of the pools\<close>

text \<open>
  \<^verbatim>\<open>thread_pool\<close> and \<^verbatim>\<open>thread_pool2\<close>: one queue for all. Nobody waits on its condition variable, so
  \<^verbatim>\<open>notify_one\<close> wakes no thread. One turn of \<^verbatim>\<open>worker_thread\<close> is an attempt to take from it.
\<close>

definition submit_1 :: "'a \<Rightarrow> 'a ts_queue \<Rightarrow> 'a ts_queue" where
  "submit_1 x q = tq_push x None q"

definition worker_thread_1 :: "thread_id \<Rightarrow> 'a ts_queue \<Rightarrow> 'a option \<times> 'a ts_queue" where
  "worker_thread_1 t q = tq_try_pop t q"

text \<open>\<^verbatim>\<open>thread_pool_3\<close>, as one thread sees it: the shared queue and its \<^verbatim>\<open>local_work_queue\<close>, null outside of the workers.\<close>

record 'a pool_3 =
  p3_pool :: "'a ts_queue"
  p3_local :: "'a list option"

definition submit_3 :: "'a \<Rightarrow> 'a pool_3 \<Rightarrow> 'a pool_3" where
  "submit_3 x q =
     (case p3_local q of
        Some l \<Rightarrow> q\<lparr>p3_local := Some (l @ [x])\<rparr>
      | None \<Rightarrow> q\<lparr>p3_pool := tq_push x None (p3_pool q)\<rparr>)"

definition run_pending_task_3 :: "thread_id \<Rightarrow> 'a pool_3 \<Rightarrow> 'a option \<times> 'a pool_3" where
  "run_pending_task_3 t q =
     (case p3_local q of
        Some (x # l) \<Rightarrow> (Some x, q\<lparr>p3_local := Some l\<rparr>)
      | _ \<Rightarrow> (let (r, p) = tq_try_pop t (p3_pool q) in (r, q\<lparr>p3_pool := p\<rparr>)))"

definition p3_tasks :: "'a pool_3 \<Rightarrow> 'a multiset" where
  "p3_tasks q = mset (tq_que (p3_pool q)) + (case p3_local q of None \<Rightarrow> {#} | Some l \<Rightarrow> mset l)"

lemma submit_3_tasks: "p3_tasks (submit_3 x q) = add_mset x (p3_tasks q)"
  by (simp add: p3_tasks_def submit_3_def tq_push_def split: option.splits)

interpretation pool3: complete_source "run_pending_task_3 t" p3_tasks p3_tasks "\<lambda>_. True"
  by unfold_locales
    (auto simp: run_pending_task_3_def p3_tasks_def tq_try_pop_def take_front_def split: list.splits option.splits)

text \<open>
  \<^verbatim>\<open>thread_pool_6\<close>: the shared queue and one work stealing queue for each worker. \<^verbatim>\<open>local_work_queue\<close>
  is the index of the queue that the pointer is taken from, or null.
\<close>

record 'a pool_queues =
  pool_work_queue :: "'a ts_queue"
  queues :: "'a list list"

definition pop_task_from_local_queue :: "nat option \<Rightarrow> 'a pool_queues \<Rightarrow> 'a option \<times> 'a pool_queues" where
  "pop_task_from_local_queue l q =
     (case l of
        None \<Rightarrow> (None, q)
      | Some i \<Rightarrow> (let (r, w) = ws_try_pop (queues q ! i) in (r, q\<lparr>queues := (queues q)[i := w]\<rparr>)))"

definition pop_task_from_pool_queue :: "thread_id \<Rightarrow> 'a pool_queues \<Rightarrow> 'a option \<times> 'a pool_queues" where
  "pop_task_from_pool_queue t q =
     (let (r, p) = tq_try_pop t (pool_work_queue q) in (r, q\<lparr>pool_work_queue := p\<rparr>))"

definition steal_at :: "nat \<Rightarrow> nat \<Rightarrow> 'a pool_queues \<Rightarrow> 'a option \<times> 'a pool_queues" where
  "steal_at my i q =
     (let idx = (my + i + 1) mod length (queues q); (r, w) = ws_try_steal (queues q ! idx)
      in (r, q\<lparr>queues := (queues q)[idx := w]\<rparr>))"

fun steal_loop :: "nat \<Rightarrow> nat list \<Rightarrow> 'a pool_queues \<Rightarrow> 'a option \<times> 'a pool_queues" where
  "steal_loop my [] q = (None, q)"
| "steal_loop my (i # is) q = or_else (steal_at my i) (steal_loop my is) q"

definition pop_task_from_other_thread_queue :: "nat \<Rightarrow> 'a pool_queues \<Rightarrow> 'a option \<times> 'a pool_queues" where
  "pop_task_from_other_thread_queue my q = steal_loop my [0..<length (queues q)] q"

text \<open>The task that \<^verbatim>\<open>run_pending_task\<close> finds when no other thread interferes.\<close>

definition pending_task :: "thread_id \<Rightarrow> nat option \<Rightarrow> nat \<Rightarrow> 'a pool_queues \<Rightarrow> 'a option \<times> 'a pool_queues" where
  "pending_task t l my =
     or_else (pop_task_from_local_queue l) (or_else (pop_task_from_pool_queue t) (pop_task_from_other_thread_queue my))"

definition submit_6 :: "nat option \<Rightarrow> 'a \<Rightarrow> 'a pool_queues \<Rightarrow> 'a pool_queues" where
  "submit_6 l x q =
     (case l of
        Some i \<Rightarrow> q\<lparr>queues := (queues q)[i := ws_push x (queues q ! i)]\<rparr>
      | None \<Rightarrow> q\<lparr>pool_work_queue := tq_push x None (pool_work_queue q)\<rparr>)"

definition pool_tasks :: "'a pool_queues \<Rightarrow> 'a multiset" where
  "pool_tasks q = mset (tq_que (pool_work_queue q)) + mset (concat (queues q))"

definition local_valid :: "nat option \<Rightarrow> 'a pool_queues \<Rightarrow> bool" where
  "local_valid l q \<longleftrightarrow> (case l of None \<Rightarrow> True | Some i \<Rightarrow> i < length (queues q))"

lemma mset_concat_update:
  "i < length qs \<Longrightarrow> mset (concat (qs[i := w])) + mset (qs ! i) = mset (concat qs) + mset w"
  by (induction qs arbitrary: i) (auto split: nat.splits)

lemma mset_concat_take:
  assumes "i < length qs" "mset (qs ! i) = add_mset x (mset w)"
  shows "mset (concat qs) = add_mset x (mset (concat (qs[i := w])))"
  using mset_concat_update [OF assms(1), of w] assms(2) by simp

lemmas pool_queue_defs = pop_task_from_local_queue_def pop_task_from_pool_queue_def steal_at_def pool_tasks_def local_valid_def

interpretation loc6: task_source "pop_task_from_local_queue l"
    "\<lambda>q. case l of None \<Rightarrow> {#} | Some i \<Rightarrow> mset (queues q ! i)" pool_tasks "local_valid l"
proof
  fix q q' :: "'a pool_queues"
  assume "local_valid l q" "pop_task_from_local_queue l q = (None, q')"
  then show "(case l of None \<Rightarrow> {#} | Some i \<Rightarrow> mset (queues q ! i)) = {#} \<and> q' = q"
    by (auto simp: pool_queue_defs ws_try_pop_def list_update_same_conv split: option.splits list.splits)
next
  fix q x and q' :: "'a pool_queues"
  assume *: "local_valid l q" "pop_task_from_local_queue l q = (Some x, q')"
  then obtain i w where i: "l = Some i" "i < length (queues q)" "queues q ! i = x # w" "q' = q\<lparr>queues := (queues q)[i := w]\<rparr>"
    by (auto simp: pool_queue_defs ws_try_pop_def split: option.splits list.splits)
  then show "pool_tasks q = add_mset x (pool_tasks q') \<and> local_valid l q'"
    using mset_concat_take [of i "queues q" x w] by (simp add: pool_tasks_def local_valid_def)
qed

interpretation pool6: task_source "pop_task_from_pool_queue t" "\<lambda>q. mset (tq_que (pool_work_queue q))" pool_tasks "local_valid l"
  by unfold_locales
    (auto simp: pool_queue_defs tq_try_pop_def take_front_def split: option.splits list.splits)

lemma steal_at_none:
  "steal_at my i q = (None, q') \<Longrightarrow> queues q \<noteq> [] \<Longrightarrow> queues q ! ((my + i + 1) mod length (queues q)) = [] \<and> q' = q"
  by (auto simp: steal_at_def ws_try_steal_def Let_def list_update_same_conv split: if_splits)

lemma steal_at_some:
  assumes "steal_at my i q = (Some x, q')" "queues q \<noteq> []"
  shows "pool_tasks q = add_mset x (pool_tasks q') \<and> length (queues q') = length (queues q)"
proof -
  let ?idx = "(my + i + 1) mod length (queues q)"
  have "?idx < length (queues q)" using assms(2) by simp
  then have "mset (concat (queues q)) = add_mset x (mset (concat ((queues q)[?idx := butlast (queues q ! ?idx)])))"
    using assms mset_butlast [of "queues q ! ?idx"]
    by (intro mset_concat_take) (auto simp: steal_at_def ws_try_steal_def Let_def split: if_splits)
  then show ?thesis using assms by (auto simp: steal_at_def pool_tasks_def ws_try_steal_def Let_def split: if_splits)
qed

lemma steal_loop_none:
  "steal_loop my is q = (None, q') \<Longrightarrow> queues q \<noteq> [] \<Longrightarrow>
     (\<forall>i\<in>set is. queues q ! ((my + i + 1) mod length (queues q)) = []) \<and> q' = q"
proof (induction "is")
  case (Cons i "is")
  obtain q1 where 1: "steal_at my i q = (None, q1)" "steal_loop my is q1 = (None, q')"
    using Cons.prems by (auto simp: or_else_def split: prod.splits option.splits)
  then show ?case using steal_at_none [OF 1(1)] Cons by auto
qed simp

lemma steal_loop_some:
  "steal_loop my is q = (Some x, q') \<Longrightarrow> queues q \<noteq> [] \<Longrightarrow>
     pool_tasks q = add_mset x (pool_tasks q') \<and> length (queues q') = length (queues q)"
proof (induction "is")
  case (Cons i "is")
  then show ?case using steal_at_none [of my i q] steal_at_some [of my i q x q']
    by (auto simp: or_else_def split: prod.splits option.splits)
qed simp

text \<open>The offsets of the loop reach every queue.\<close>

lemma offsets_cover:
  fixes my j n :: nat
  assumes "j < n"
  shows "\<exists>i<n. (my + i + 1) mod n = j"
proof -
  let ?i = "(j + (n - (my + 1) mod n)) mod n"
  have "(my + ?i + 1) mod n = ((my + 1) + ?i) mod n" by (simp only: ac_simps)
  also have "\<dots> = ((my + 1) mod n + ?i) mod n" by (rule mod_add_left_eq [symmetric])
  also have "\<dots> = ((my + 1) mod n + (j + (n - (my + 1) mod n))) mod n" by (rule mod_add_right_eq)
  also have "(my + 1) mod n + (j + (n - (my + 1) mod n)) = j + n"
    using assms mod_less_divisor [of n "my + 1"] by linarith
  finally have "(my + ?i + 1) mod n = j" using assms by simp
  moreover have "?i < n" using assms by simp
  ultimately show ?thesis by blast
qed

interpretation steal6: task_source "pop_task_from_other_thread_queue my" "\<lambda>q. mset (concat (queues q))" pool_tasks "local_valid l"
proof
  fix q q' :: "'a pool_queues"
  assume *: "pop_task_from_other_thread_queue my q = (None, q')"
  show "mset (concat (queues q)) = {#} \<and> q' = q"
  proof (cases "queues q = []")
    case False
    then have "\<forall>i<length (queues q). queues q ! ((my + i + 1) mod length (queues q)) = []" "q' = q"
      using * steal_loop_none [of my _ q q'] by (auto simp: pop_task_from_other_thread_queue_def)
    then have "\<forall>j<length (queues q). queues q ! j = []" using offsets_cover [of _ "length (queues q)" my] by metis
    then show ?thesis using \<open>q' = q\<close> by (simp add: in_set_conv_nth) (metis in_set_conv_nth)
  qed (use * in \<open>simp add: pop_task_from_other_thread_queue_def\<close>)
next
  fix q x q'
  assume *: "local_valid l (q :: 'a pool_queues)" "pop_task_from_other_thread_queue my q = (Some x, q')"
  then have "queues q \<noteq> []" by (auto simp: pop_task_from_other_thread_queue_def)
  then show "pool_tasks q = add_mset x (pool_tasks q') \<and> local_valid l q'"
    using * steal_loop_some [of my _ q x q'] by (auto simp: pop_task_from_other_thread_queue_def local_valid_def split: option.splits)
qed

interpretation rest6: two_sources "pop_task_from_pool_queue t" "\<lambda>q. mset (tq_que (pool_work_queue q))" pool_tasks "local_valid l"
    "pop_task_from_other_thread_queue my" "\<lambda>q. mset (concat (queues q))" ..

interpretation all6: two_sources "pop_task_from_local_queue l" "\<lambda>q. case l of None \<Rightarrow> {#} | Some i \<Rightarrow> mset (queues q ! i)"
    pool_tasks "local_valid l" "or_else (pop_task_from_pool_queue t) (pop_task_from_other_thread_queue my)"
    "\<lambda>q. mset (tq_que (pool_work_queue q)) + mset (concat (queues q))" ..

interpretation stealing: complete_source "pending_task t l my"
    "\<lambda>q. (case l of None \<Rightarrow> {#} | Some i \<Rightarrow> mset (queues q ! i)) + (mset (tq_que (pool_work_queue q)) + mset (concat (queues q)))"
    pool_tasks "local_valid l"
  unfolding pending_task_def
  by (intro complete_source.intro all6.both.task_source_axioms complete_source_axioms.intro) (simp add: pool_tasks_def)

section \<open>The pool with work stealing as a machine\<close>

text \<open>
  Threads \<open>0\<close> to \<open>hw - 1\<close> are the workers, the \<open>nc\<close> threads after them are the clients of the pool. Where a thread
  stands: in \<^verbatim>\<open>worker_thread\<close> before the loop or at its test, in one of the three attempts of \<^verbatim>\<open>run_pending_task\<close>
  (the third after a number of failed steals), or inside of a task. A task may submit tasks and call \<^verbatim>\<open>run_pending_task\<close>
  itself, so a thread has a stack of tasks that it has begun. \<open>tp_local\<close> and \<open>tp_index\<close> are the \<^verbatim>\<open>thread_local\<close> variables;
  \<open>tp_submitted\<close>, \<open>tp_taken\<close> and \<open>tp_ran\<close> record what happened.
\<close>

datatype stage = Not_started | Outside_pool | Init nat | At_loop | At_local | At_pool | At_other nat | In_task | Exited

datatype life = Ctor_queue nat | Ctor_thread nat | Alive | Joining | Gone

record 'a tpool =
  tp_done :: bool
  tp_queues :: "'a pool_queues"
  tp_life :: life
  tp_stage :: "thread_id \<Rightarrow> stage"
  tp_local :: "thread_id \<Rightarrow> nat option"
  tp_index :: "thread_id \<Rightarrow> nat"
  tp_stack :: "thread_id \<Rightarrow> 'a list"
  tp_submitted :: "'a list"
  tp_taken :: "(thread_id \<times> 'a) list"
  tp_ran :: "(thread_id \<times> 'a) list"

definition pool_new :: "nat \<Rightarrow> 'a tpool" where
  "pool_new hw = \<lparr>tp_done = False, tp_queues = \<lparr>pool_work_queue = ts_queue_new, queues = []\<rparr>, tp_life = Ctor_queue 0,
     tp_stage = (\<lambda>t. if t < hw then Not_started else Outside_pool), tp_local = (\<lambda>_. None), tp_index = (\<lambda>_. 0),
     tp_stack = (\<lambda>_. []), tp_submitted = [], tp_taken = [], tp_ran = []\<rparr>"

definition tp_goto :: "thread_id \<Rightarrow> stage \<Rightarrow> 'a tpool \<Rightarrow> 'a tpool" where
  "tp_goto t p s = s\<lparr>tp_stage := (tp_stage s)(t := p)\<rparr>"

text \<open>An attempt to get a task: the task is called, or the thread goes on to the stage \<open>p\<close>.\<close>

definition after_pop :: "thread_id \<Rightarrow> 'a option \<times> 'a pool_queues \<Rightarrow> stage \<Rightarrow> 'a tpool \<Rightarrow> 'a tpool" where
  "after_pop t rq p s =
     (let s = s\<lparr>tp_queues := snd rq\<rparr>
      in case fst rq of
           None \<Rightarrow> tp_goto t p s
         | Some x \<Rightarrow> tp_goto t In_task (s\<lparr>tp_stack := (tp_stack s)(t := x # tp_stack s t), tp_taken := tp_taken s @ [(t, x)]\<rparr>))"

text \<open>Where \<^verbatim>\<open>run_pending_task\<close> returns to: the task or the client that called it, or the loop of the worker.\<close>

definition resting :: "thread_id \<Rightarrow> 'a tpool \<Rightarrow> stage" where
  "resting t s = (if tp_stack s t \<noteq> [] then In_task else if tp_local s t = None then Outside_pool else At_loop)"

definition thread_step :: "thread_id \<Rightarrow> 'a tpool \<Rightarrow> 'a tpool option" where
  "thread_step t s =
     (case tp_stage s t of
        Init i \<Rightarrow>
          (if tp_life s \<noteq> Gone \<and> i < length (queues (tp_queues s))
           then Some (tp_goto t At_loop (s\<lparr>tp_index := (tp_index s)(t := i), tp_local := (tp_local s)(t := Some i)\<rparr>))
           else None)
      | At_loop \<Rightarrow> (if tp_life s = Gone then None else Some (tp_goto t (if tp_done s then Exited else At_local) s))
      | At_local \<Rightarrow>
          (if tp_life s \<noteq> Gone \<and> local_valid (tp_local s t) (tp_queues s)
           then Some (after_pop t (pop_task_from_local_queue (tp_local s t) (tp_queues s)) At_pool s) else None)
      | At_pool \<Rightarrow>
          (if tp_life s = Gone then None
           else Some (after_pop t (pop_task_from_pool_queue t (tp_queues s)) (At_other 0) s))
      | At_other i \<Rightarrow>
          (if tp_life s = Gone then None
           else if i < length (queues (tp_queues s))
           then Some (after_pop t (steal_at (tp_index s t) i (tp_queues s)) (At_other (Suc i)) s)
           else Some (tp_goto t (resting t s) s))
      | _ \<Rightarrow> Some s)"

definition in_client :: "nat \<Rightarrow> nat \<Rightarrow> thread_id \<Rightarrow> 'a tpool \<Rightarrow> bool" where
  "in_client hw nc t s \<longleftrightarrow> hw \<le> t \<and> t < hw + nc \<and> tp_stage s t = Outside_pool \<and> tp_life s = Alive"

definition tp_submit :: "thread_id \<Rightarrow> 'a \<Rightarrow> 'a tpool \<Rightarrow> 'a tpool option" where
  "tp_submit t x s =
     (if tp_life s \<noteq> Gone \<and> local_valid (tp_local s t) (tp_queues s)
      then Some (s\<lparr>tp_queues := submit_6 (tp_local s t) x (tp_queues s), tp_submitted := tp_submitted s @ [x]\<rparr>) else None)"

definition finish_task :: "thread_id \<Rightarrow> 'a tpool \<Rightarrow> 'a tpool" where
  "finish_task t s =
     (case tp_stack s t of
        [] \<Rightarrow> s
      | x # rest \<Rightarrow>
          (let s = s\<lparr>tp_stack := (tp_stack s)(t := rest), tp_ran := tp_ran s @ [(t, x)]\<rparr> in tp_goto t (resting t s) s))"

text \<open>
  The constructor creates a queue and then the thread that uses it; an exception of either ends it. \<^verbatim>\<open>queues.push_back\<close>
  moves the elements of the vector, without a lock, while the workers that were started before may read it: the
  one at the first line of \<^verbatim>\<open>worker_thread\<close> reads its own element, the one in the loop of
  \<^verbatim>\<open>pop_task_from_other_thread_queue\<close> the size and an element. A \<^verbatim>\<open>push_back\<close> while some worker is about to read is a
  data race and has no result.
\<close>

fun reads_queues :: "stage \<Rightarrow> bool" where
  "reads_queues (Init _) = True"
| "reads_queues (At_other _) = True"
| "reads_queues _ = False"

definition ctor_step :: "nat \<Rightarrow> 'a tpool \<Rightarrow> 'a tpool option" where
  "ctor_step hw s =
     (case tp_life s of
        Ctor_queue i \<Rightarrow>
          (if i < hw
           then if \<exists>t\<in>{0..<hw}. reads_queues (tp_stage s t) then None
             else Some (s\<lparr>tp_queues := (tp_queues s)\<lparr>queues := queues (tp_queues s) @ [[]]\<rparr>, tp_life := Ctor_thread i\<rparr>)
           else Some (s\<lparr>tp_life := Alive\<rparr>))
      | Ctor_thread i \<Rightarrow> Some (tp_goto i (Init i) (s\<lparr>tp_life := Ctor_queue (Suc i)\<rparr>))
      | _ \<Rightarrow> Some s)"

definition ctor_throws :: "nat \<Rightarrow> 'a tpool \<Rightarrow> 'a tpool" where
  "ctor_throws hw s =
     (case tp_life s of
        Ctor_queue i \<Rightarrow> (if i < hw then s\<lparr>tp_done := True, tp_life := Joining\<rparr> else s)
      | Ctor_thread i \<Rightarrow> s\<lparr>tp_done := True, tp_life := Joining\<rparr>
      | _ \<Rightarrow> s)"

text \<open>
  The destructor, which a client may run when no client is inside of the pool; then the destructor of \<^verbatim>\<open>joiner\<close>, declared
  last and so destroyed first, waits for the threads that were started, and after that the queues are destroyed.
\<close>

definition destroy :: "nat \<Rightarrow> nat \<Rightarrow> 'a tpool \<Rightarrow> 'a tpool" where
  "destroy hw nc s =
     (if tp_life s = Alive \<and> (\<forall>t\<in>{hw..<hw + nc}. tp_stage s t = Outside_pool)
      then s\<lparr>tp_done := True, tp_life := Joining\<rparr> else s)"

definition join_all :: "nat \<Rightarrow> 'a tpool \<Rightarrow> 'a tpool" where
  "join_all hw s =
     (if tp_life s = Joining \<and> (\<forall>t\<in>{0..<hw}. tp_stage s t \<in> {Not_started, Exited}) then s\<lparr>tp_life := Gone\<rparr> else s)"

datatype 'a act = Ctor | Ctor_throws | Run thread_id | Submit thread_id 'a | Help thread_id | Finish thread_id | Destroy | Join

text \<open>One step; an action that is not possible in a state has no effect, and None is a use of the pool's memory that is
  not allowed: an access outside of the vector of queues or to a destroyed pool, or the race of \<^verbatim>\<open>push_back\<close> with a reader.\<close>

fun pool_next :: "nat \<Rightarrow> nat \<Rightarrow> 'a act \<Rightarrow> 'a tpool \<Rightarrow> 'a tpool option" where
  "pool_next hw nc Ctor s = ctor_step hw s"
| "pool_next hw nc Ctor_throws s = Some (ctor_throws hw s)"
| "pool_next hw nc (Run t) s = thread_step t s"
| "pool_next hw nc (Submit t x) s =
     (if tp_stage s t = In_task \<or> in_client hw nc t s then tp_submit t x s else Some s)"
| "pool_next hw nc (Help t) s =
     (if tp_stage s t = In_task \<or> in_client hw nc t s then Some (tp_goto t At_local s) else Some s)"
| "pool_next hw nc (Finish t) s = (if tp_stage s t = In_task then Some (finish_task t s) else Some s)"
| "pool_next hw nc Destroy s = Some (destroy hw nc s)"
| "pool_next hw nc Join s = Some (join_all hw s)"

section \<open>Invariant of the pool\<close>

definition by_thread :: "thread_id \<Rightarrow> (thread_id \<times> 'a) list \<Rightarrow> 'a list" where
  "by_thread t xs = map snd (filter (\<lambda>p. fst p = t) xs)"

definition worker_ok :: "'a tpool \<Rightarrow> thread_id \<Rightarrow> bool" where
  "worker_ok s t \<longleftrightarrow>
     (case tp_stage s t of
        Not_started \<Rightarrow> tp_local s t = None
      | Init i \<Rightarrow> i = t \<and> t < length (queues (tp_queues s)) \<and> tp_local s t = None
      | Outside_pool \<Rightarrow> False
      | Exited \<Rightarrow> tp_done s
      | _ \<Rightarrow> tp_local s t = Some t \<and> t < length (queues (tp_queues s)))"

definition client_ok :: "'a tpool \<Rightarrow> thread_id \<Rightarrow> bool" where
  "client_ok s t \<longleftrightarrow> tp_local s t = None \<and>
     (case tp_stage s t of
        Not_started \<Rightarrow> False | Init i \<Rightarrow> False | At_loop \<Rightarrow> False | Exited \<Rightarrow> False
      | Outside_pool \<Rightarrow> True
      | _ \<Rightarrow> tp_life s = Alive)"

definition stack_ok :: "stage \<Rightarrow> 'a list \<Rightarrow> bool" where
  "stack_ok st xs \<longleftrightarrow>
     (case st of At_local \<Rightarrow> True | At_pool \<Rightarrow> True | At_other _ \<Rightarrow> True | In_task \<Rightarrow> xs \<noteq> [] | _ \<Rightarrow> xs = [])"

definition thread_ok :: "nat \<Rightarrow> 'a tpool \<Rightarrow> thread_id \<Rightarrow> bool" where
  "thread_ok hw s t \<longleftrightarrow> (if t < hw then worker_ok s t else client_ok s t) \<and> stack_ok (tp_stage s t) (tp_stack s t) \<and>
     (tp_life s = Gone \<longrightarrow> tp_stage s t \<in> {Not_started, Exited, Outside_pool}) \<and>
     mset (by_thread t (tp_taken s)) = mset (by_thread t (tp_ran s)) + mset (tp_stack s t)"

definition life_ok :: "nat \<Rightarrow> 'a tpool \<Rightarrow> bool" where
  "life_ok hw s \<longleftrightarrow>
     (case tp_life s of
        Ctor_queue i \<Rightarrow> length (queues (tp_queues s)) = i \<and> \<not> tp_done s \<and> (\<forall>t. i \<le> t \<and> t < hw \<longrightarrow> tp_stage s t = Not_started)
      | Ctor_thread i \<Rightarrow> length (queues (tp_queues s)) = Suc i \<and> i < hw \<and> \<not> tp_done s \<and>
          (\<forall>t. i \<le> t \<and> t < hw \<longrightarrow> tp_stage s t = Not_started)
      | Alive \<Rightarrow> \<not> tp_done s
      | _ \<Rightarrow> tp_done s)"

definition tasks_ok :: "'a list \<Rightarrow> (thread_id \<times> 'a) list \<Rightarrow> 'a pool_queues \<Rightarrow> bool" where
  "tasks_ok submitted taken q \<longleftrightarrow> mset submitted = mset (map snd taken) + pool_tasks q \<and>
     tq_inv (pool_work_queue q) \<and> tq_waiting (pool_work_queue q) = {}"

definition pool_ok :: "nat \<Rightarrow> 'a tpool \<Rightarrow> bool" where
  "pool_ok hw s \<longleftrightarrow> (\<forall>t. thread_ok hw s t) \<and> life_ok hw s \<and> tasks_ok (tp_submitted s) (tp_taken s) (tp_queues s)"

text \<open>What every attempt to get a task does to the queues.\<close>

definition pop_law :: "'a pool_queues \<Rightarrow> 'a option \<times> 'a pool_queues \<Rightarrow> bool" where
  "pop_law q rq \<longleftrightarrow> length (queues (snd rq)) = length (queues q) \<and> tq_inv (pool_work_queue (snd rq)) \<and>
     tq_waiting (pool_work_queue (snd rq)) = {} \<and>
     pool_tasks q = (case fst rq of None \<Rightarrow> {#} | Some x \<Rightarrow> {#x#}) + pool_tasks (snd rq)"

lemma by_thread_simps [simp]:
  "by_thread t [] = []"
  "by_thread t (xs @ [(u, x)]) = by_thread t xs @ (if u = t then [x] else [])"
  by (simp_all add: by_thread_def)

lemma pop_law_local:
  assumes "tasks_ok sub tak q" "local_valid l q"
  shows "pop_law q (pop_task_from_local_queue l q)"
proof (cases "pop_task_from_local_queue l q")
  case (Pair r q')
  then have "length (queues q') = length (queues q) \<and> pool_work_queue q' = pool_work_queue q"
    by (auto simp: pop_task_from_local_queue_def split: option.splits prod.splits)
  then show ?thesis using assms Pair loc6.get_none [OF assms(2)] loc6.get_some [OF assms(2)]
    by (cases r) (auto simp: pop_law_def tasks_ok_def)
qed

lemma pop_law_pool:
  assumes "tasks_ok sub tak q"
  shows "pop_law q (pop_task_from_pool_queue t q)"
proof (cases "pop_task_from_pool_queue t q")
  case (Pair r q')
  have "tq_inv (snd (take_front t (pool_work_queue q)))"
    using assms by (auto simp: tasks_ok_def tq_inv_def take_front_def split: list.splits)
  then show ?thesis using assms
    by (auto simp: pop_law_def tasks_ok_def pool_tasks_def pop_task_from_pool_queue_def tq_try_pop_def take_front_def
        split: list.splits prod.splits)
qed

lemma pop_law_steal:
  assumes "tasks_ok sub tak q" "queues q \<noteq> []"
  shows "pop_law q (steal_at my i q)"
proof (cases "steal_at my i q")
  case (Pair r q')
  then have "pool_work_queue q' = pool_work_queue q" by (auto simp: steal_at_def Let_def split: prod.splits)
  then show ?thesis using assms Pair steal_at_none [of my i q q'] steal_at_some [of my i q _ q']
    by (cases r) (auto simp: pop_law_def tasks_ok_def)
qed

lemmas pool_ok_defs = thread_ok_def worker_ok_def client_ok_def stack_ok_def life_ok_def

lemma pool_ok_after_pop:
  assumes ok: "pool_ok hw s" and law: "pop_law (tp_queues s) rq" and live: "tp_life s \<noteq> Gone"
    and st: "tp_stage s t \<in> {At_local, At_pool} \<union> range At_other" and p: "p \<in> {At_pool} \<union> range At_other"
  shows "pool_ok hw (after_pop t rq p s)"
proof -
  obtain r q' where rq: "rq = (r, q')" by force
  have t: "thread_ok hw s u" for u using ok by (simp add: pool_ok_def)
  have "thread_ok hw (after_pop t rq p s) u" for u
    using t [of u] st p live law rq
    by (cases r; cases "u = t") (auto simp: pool_ok_defs after_pop_def tp_goto_def pop_law_def split: stage.splits if_splits)
  moreover have "life_ok hw (after_pop t rq p s)"
    using ok st p live law rq t [of t]
    by (cases r) (auto simp: pool_ok_def life_ok_def after_pop_def tp_goto_def pop_law_def split: life.splits)
  moreover have "tasks_ok (tp_submitted s) (tp_taken s) (tp_queues s)" using ok by (simp add: pool_ok_def)
  then have "let s' = after_pop t rq p s in tasks_ok (tp_submitted s') (tp_taken s') (tp_queues s')"
    using law rq by (cases r) (auto simp: tasks_ok_def after_pop_def tp_goto_def pop_law_def)
  ultimately show ?thesis by (simp add: pool_ok_def Let_def)
qed

lemma thread_ok_same:
  "thread_ok hw s u \<Longrightarrow> tp_stage s' u = tp_stage s u \<Longrightarrow> tp_local s' u = tp_local s u \<Longrightarrow> tp_stack s' u = tp_stack s u \<Longrightarrow>
   tp_life s' = tp_life s \<Longrightarrow> tp_done s' = tp_done s \<Longrightarrow> length (queues (tp_queues s')) = length (queues (tp_queues s)) \<Longrightarrow>
   by_thread u (tp_taken s') = by_thread u (tp_taken s) \<Longrightarrow> by_thread u (tp_ran s') = by_thread u (tp_ran s) \<Longrightarrow> thread_ok hw s' u"
  by (simp add: thread_ok_def worker_ok_def client_ok_def cong: stage.case_cong split: if_splits)

text \<open>A step that changes one thread and leaves the queues and the life of the pool as they are.\<close>

lemma pool_ok_one_thread:
  assumes ok: "pool_ok hw s" and t: "thread_ok hw s' t"
    and others: "\<And>u. u \<noteq> t \<Longrightarrow> thread_ok hw s u \<Longrightarrow> thread_ok hw s' u"
    and started: "t < hw \<Longrightarrow> tp_stage s t \<noteq> Not_started" and same: "\<And>u. u \<noteq> t \<Longrightarrow> tp_stage s' u = tp_stage s u"
    and keep: "tp_life s' = tp_life s" "tp_done s' = tp_done s" "tp_queues s' = tp_queues s"
      "tp_submitted s' = tp_submitted s" "tp_taken s' = tp_taken s"
  shows "pool_ok hw s'"
proof -
  have "thread_ok hw s' u" for u using ok t others [of u] by (cases "u = t") (auto simp: pool_ok_def)
  moreover have "life_ok hw s'" using ok started same keep unfolding pool_ok_def life_ok_def
    by (auto split: life.splits) metis+
  ultimately show ?thesis using ok keep by (simp add: pool_ok_def)
qed

lemma thread_step_ok:
  assumes ok: "pool_ok hw s"
  shows "\<exists>s'. thread_step t s = Some s' \<and> pool_ok hw s'"
proof -
  have t: "thread_ok hw s t" and tasks: "tasks_ok (tp_submitted s) (tp_taken s) (tp_queues s)"
    using ok by (simp_all add: pool_ok_def)
  have one: "pool_ok hw s'"
    if "thread_ok hw s' t" "\<And>u. u \<noteq> t \<Longrightarrow> thread_ok hw s u \<Longrightarrow> thread_ok hw s' u"
      "tp_stage s t \<noteq> Not_started" "\<And>u. u \<noteq> t \<Longrightarrow> tp_stage s' u = tp_stage s u" "tp_life s' = tp_life s"
      "tp_done s' = tp_done s" "tp_queues s' = tp_queues s" "tp_submitted s' = tp_submitted s" "tp_taken s' = tp_taken s" for s'
    using pool_ok_one_thread [OF ok that(1,2) _ that(4-9)] that(3) by simp
  have valid: "local_valid (tp_local s t) (tp_queues s)" if "tp_stage s t \<notin> {Not_started, Exited}"
    using t that by (auto simp: pool_ok_defs local_valid_def split: if_splits stage.splits)
  have live: "tp_life s \<noteq> Gone" if "tp_stage s t \<notin> {Not_started, Exited, Outside_pool}"
    using t that by (auto simp: thread_ok_def)
  show ?thesis
  proof (cases "tp_stage s t")
    case (Init i)
    then have "i < length (queues (tp_queues s))" "tp_life s \<noteq> Gone" using t live by (auto simp: pool_ok_defs split: if_splits)
    moreover have "pool_ok hw (tp_goto t At_loop (s\<lparr>tp_index := (tp_index s)(t := i), tp_local := (tp_local s)(t := Some i)\<rparr>))"
      using Init t by (intro one) (auto simp: pool_ok_defs tp_goto_def split: if_splits stage.splits)
    ultimately show ?thesis using Init by (simp add: thread_step_def)
  next
    case At_loop
    then have "pool_ok hw (tp_goto t (if tp_done s then Exited else At_local) s)"
      using t by (intro one) (auto simp: pool_ok_defs tp_goto_def split: if_splits stage.splits)
    then show ?thesis using At_loop live by (simp add: thread_step_def)
  next
    case At_local
    then have "pool_ok hw (after_pop t (pop_task_from_local_queue (tp_local s t) (tp_queues s)) At_pool s)"
      using valid live by (intro pool_ok_after_pop ok pop_law_local [OF tasks]) auto
    then show ?thesis using At_local valid live by (simp add: thread_step_def)
  next
    case At_pool
    then have "pool_ok hw (after_pop t (pop_task_from_pool_queue t (tp_queues s)) (At_other 0) s)"
      using live by (intro pool_ok_after_pop ok pop_law_pool [OF tasks]) auto
    then show ?thesis using At_pool live by (simp add: thread_step_def)
  next
    case (At_other i)
    show ?thesis
    proof (cases "i < length (queues (tp_queues s))")
      case True
      then have "pool_ok hw (after_pop t (steal_at (tp_index s t) i (tp_queues s)) (At_other (Suc i)) s)"
        using At_other live by (intro pool_ok_after_pop ok pop_law_steal [OF tasks]) auto
      then show ?thesis using At_other live True by (simp add: thread_step_def)
    next
      case False
      have "pool_ok hw (tp_goto t (resting t s) s)"
        using At_other t by (intro one) (auto simp: pool_ok_defs tp_goto_def resting_def split: if_splits stage.splits)
      then show ?thesis using At_other live False by (simp add: thread_step_def)
    qed
  qed (use ok in \<open>simp_all add: thread_step_def\<close>)
qed

lemma submit_6_tasks:
  assumes "tasks_ok sub tak q" "local_valid l q"
  shows "tasks_ok (sub @ [x]) tak (submit_6 l x q) \<and> length (queues (submit_6 l x q)) = length (queues q)"
proof (cases l)
  case None
  have "tq_inv (tq_push x None (pool_work_queue q))" using assms by (intro tq_inv_push) (auto simp: tasks_ok_def may_notify_def)
  then show ?thesis using assms None by (simp add: tasks_ok_def submit_6_def pool_tasks_def tq_push_def)
next
  case (Some i)
  then have "mset (concat ((queues q)[i := ws_push x (queues q ! i)])) = add_mset x (mset (concat (queues q)))"
    using assms(2) mset_concat_update [of i "queues q" "ws_push x (queues q ! i)"] by (simp add: local_valid_def ws_push_def)
  then show ?thesis using assms Some by (simp add: tasks_ok_def submit_6_def pool_tasks_def)
qed

lemma tp_submit_ok:
  assumes ok: "pool_ok hw s" and st: "tp_stage s t = In_task \<or> in_client hw nc t s"
  shows "\<exists>s'. tp_submit t x s = Some s' \<and> pool_ok hw s'"
proof -
  have t: "thread_ok hw s u" for u using ok by (simp add: pool_ok_def)
  have live: "tp_life s \<noteq> Gone" and valid: "local_valid (tp_local s t) (tp_queues s)"
    using t [of t] st by (auto simp: pool_ok_defs local_valid_def in_client_def split: if_splits)
  let ?q = "submit_6 (tp_local s t) x (tp_queues s)"
  let ?s = "s\<lparr>tp_queues := ?q, tp_submitted := tp_submitted s @ [x]\<rparr>"
  have q: "tasks_ok (tp_submitted s @ [x]) (tp_taken s) ?q" "length (queues ?q) = length (queues (tp_queues s))"
    using submit_6_tasks [OF _ valid, of "tp_submitted s" "tp_taken s" x] ok by (auto simp: pool_ok_def)
  then have "thread_ok hw ?s u" for u by (intro thread_ok_same [OF t]) simp_all
  moreover have "life_ok hw ?s" using ok q by (simp add: pool_ok_def life_ok_def cong: life.case_cong)
  ultimately have "pool_ok hw ?s" using q by (simp add: pool_ok_def)
  then show ?thesis using live valid by (simp add: tp_submit_def)
qed

lemma finish_task_ok:
  assumes ok: "pool_ok hw s" and st: "tp_stage s t = In_task"
  shows "pool_ok hw (finish_task t s)"
proof -
  have t: "thread_ok hw s t" using ok by (simp add: pool_ok_def)
  then obtain x rest where x: "tp_stack s t = x # rest" using st by (auto simp: thread_ok_def stack_ok_def neq_Nil_conv)
  show ?thesis
  proof (rule pool_ok_one_thread [OF ok, of _ t])
    show "thread_ok hw (finish_task t s) t"
      using t st x by (auto simp: pool_ok_defs finish_task_def tp_goto_def resting_def Let_def split: if_splits)
    show "thread_ok hw (finish_task t s) u" if "u \<noteq> t" "thread_ok hw s u" for u
      using that x by (intro thread_ok_same [OF that(2)]) (simp_all add: finish_task_def tp_goto_def Let_def)
  qed (use st x in \<open>simp_all add: finish_task_def tp_goto_def Let_def\<close>)
qed

lemma help_ok:
  assumes ok: "pool_ok hw s" and st: "tp_stage s t = In_task \<or> in_client hw nc t s"
  shows "pool_ok hw (tp_goto t At_local s)"
proof -
  have t: "thread_ok hw s t" using ok by (simp add: pool_ok_def)
  show ?thesis
  proof (rule pool_ok_one_thread [OF ok, of _ t])
    show "thread_ok hw (tp_goto t At_local s) t"
      using t st by (auto simp: pool_ok_defs tp_goto_def in_client_def split: if_splits)
    show "thread_ok hw (tp_goto t At_local s) u" if "u \<noteq> t" "thread_ok hw s u" for u
      using that by (intro thread_ok_same [OF that(2)]) (simp_all add: tp_goto_def)
  qed (use st in \<open>auto simp: tp_goto_def in_client_def\<close>)
qed

text \<open>Steps of the pool itself: the clients are outside of it whenever it is not alive, and the workers need only that it is not gone.\<close>

lemma thread_ok_mono:
  assumes "thread_ok hw s u" "tp_stage s' u = tp_stage s u" "tp_local s' u = tp_local s u" "tp_stack s' u = tp_stack s u"
    "by_thread u (tp_taken s') = by_thread u (tp_taken s)" "by_thread u (tp_ran s') = by_thread u (tp_ran s)"
    "tp_done s \<longrightarrow> tp_done s'" "length (queues (tp_queues s)) \<le> length (queues (tp_queues s'))"
    "hw \<le> u \<longrightarrow> tp_stage s u = Outside_pool \<or> tp_life s' = Alive"
    "tp_life s' = Gone \<longrightarrow> tp_stage s u \<in> {Not_started, Exited, Outside_pool}"
  shows "thread_ok hw s' u"
  using assms by (cases "tp_stage s u") (auto simp: thread_ok_def worker_ok_def client_ok_def split: if_splits)

lemma clients_outside: "pool_ok hw s \<Longrightarrow> tp_life s \<noteq> Alive \<Longrightarrow> hw \<le> t \<Longrightarrow> tp_stage s t = Outside_pool"
  by (auto simp: pool_ok_def thread_ok_def client_ok_def dest!: spec [of _ t] split: stage.splits)

text \<open>The race: the constructor extends the vector of queues while a worker is about to read it.\<close>

definition push_races :: "nat \<Rightarrow> 'a act \<Rightarrow> 'a tpool \<Rightarrow> bool" where
  "push_races hw a s \<longleftrightarrow> a = Ctor \<and>
     (case tp_life s of Ctor_queue i \<Rightarrow> i < hw \<and> (\<exists>t\<in>{0..<hw}. reads_queues (tp_stage s t)) | _ \<Rightarrow> False)"

lemma ctor_step_defined: "\<not> push_races hw Ctor s \<Longrightarrow> \<exists>s'. ctor_step hw s = Some s'"
  by (auto simp: push_races_def ctor_step_def split: life.splits)

lemma push_races_fails: "push_races hw a s \<Longrightarrow> pool_next hw nc a s = None"
  by (auto simp: push_races_def ctor_step_def split: life.splits)

lemma push_races_reader:
  assumes "pool_ok hw s" "push_races hw a s"
  shows "\<exists>i t. a = Ctor \<and> tp_life s = Ctor_queue i \<and> i < hw \<and> t < i \<and> reads_queues (tp_stage s t)"
proof -
  obtain i t where i: "a = Ctor" "tp_life s = Ctor_queue i" "i < hw" "t < hw" "reads_queues (tp_stage s t)"
    using assms(2) by (auto simp: push_races_def split: life.splits)
  have "tp_stage s t = Not_started" if "i \<le> t" using assms(1) i that by (simp add: pool_ok_def life_ok_def)
  then show ?thesis using i by (cases "t < i") auto
qed

lemma ctor_step_ok:
  assumes ok: "pool_ok hw s" and step: "ctor_step hw s = Some s'"
  shows "pool_ok hw s'"
proof -
  have t: "thread_ok hw s u" for u using ok by (simp add: pool_ok_def)
  have out: "tp_life s \<noteq> Alive \<Longrightarrow> hw \<le> u \<Longrightarrow> tp_stage s u = Outside_pool" for u by (rule clients_outside [OF ok])
  have "thread_ok hw s' u" for u
  proof (cases "tp_life s = Ctor_thread u")
    case True
    then have "tp_stage s u = Not_started" "length (queues (tp_queues s)) = Suc u" "u < hw"
      using ok by (auto simp: pool_ok_def life_ok_def)
    then show ?thesis using t [of u] True step by (auto simp: pool_ok_defs ctor_step_def tp_goto_def)
  next
    case False
    then show ?thesis using out [of u] t [of u] ok step
      by (intro thread_ok_mono [OF t])
        (auto simp: ctor_step_def tp_goto_def pool_ok_def thread_ok_def split: life.splits if_splits)
  qed
  moreover have "life_ok hw s'"
    using ok step by (auto simp: pool_ok_def life_ok_def ctor_step_def tp_goto_def split: life.splits if_splits)
  moreover have "tasks_ok (tp_submitted s') (tp_taken s') (tp_queues s')"
    using ok step by (auto simp: pool_ok_def tasks_ok_def pool_tasks_def ctor_step_def tp_goto_def split: life.splits if_splits)
  ultimately show ?thesis by (simp add: pool_ok_def)
qed

lemma pool_ok_life:
  assumes ok: "pool_ok hw s" and s': "s' = s\<lparr>tp_done := True, tp_life := l\<rparr>"
    and l: "l = Joining \<or> l = Gone \<and> (\<forall>t<hw. tp_stage s t \<in> {Not_started, Exited})"
    and clients: "\<And>t. hw \<le> t \<Longrightarrow> tp_stage s t = Outside_pool"
  shows "pool_ok hw s'"
proof -
  have "thread_ok hw s u" for u using ok by (simp add: pool_ok_def)
  then have "thread_ok hw s' u" for u
    by (rule thread_ok_mono) (use l clients [of u] in \<open>cases "u < hw"; auto simp: s'\<close>)+
  moreover have "life_ok hw s'" using l by (auto simp: life_ok_def s')
  ultimately show ?thesis using ok by (simp add: pool_ok_def s')
qed

lemma ctor_throws_ok: "pool_ok hw s \<Longrightarrow> pool_ok hw (ctor_throws hw s)"
  by (auto simp: ctor_throws_def clients_outside intro!: pool_ok_life [of hw s _ Joining] split: life.splits)

lemma destroy_ok:
  assumes ok: "pool_ok hw s" and range: "\<And>t. hw + nc \<le> t \<Longrightarrow> tp_stage s t = Outside_pool"
  shows "pool_ok hw (destroy hw nc s)"
proof -
  have "tp_stage s t = Outside_pool" if "hw \<le> t" "\<forall>t\<in>{hw..<hw + nc}. tp_stage s t = Outside_pool" for t
    using that range [of t] by (cases "t < hw + nc") auto
  then show ?thesis using ok by (auto simp: destroy_def intro!: pool_ok_life [of hw s _ Joining])
qed

lemma join_all_ok:
  assumes ok: "pool_ok hw s"
  shows "pool_ok hw (join_all hw s)"
proof (cases "join_all hw s = s")
  case False
  then have "tp_life s = Joining" "\<forall>t<hw. tp_stage s t \<in> {Not_started, Exited}" "join_all hw s = s\<lparr>tp_life := Gone\<rparr>"
    by (auto simp: join_all_def split: if_splits)
  moreover have "tp_done s" using ok \<open>tp_life s = Joining\<close> by (simp add: pool_ok_def life_ok_def)
  ultimately show ?thesis using ok clients_outside [OF ok] by (intro pool_ok_life [OF ok, of _ Gone]) auto
qed (use ok in simp)

text \<open>Threads that are neither workers nor clients never enter the pool.\<close>

lemma outsiders_step:
  assumes "pool_next hw nc a s = Some s'" "hw + nc \<le> t" "tp_stage s t = Outside_pool"
    and life: "life_ok hw s"
  shows "tp_stage s' t = Outside_pool"
proof (cases a)
  case (Run u)
  then show ?thesis using assms
    by (cases "u = t") (auto simp: thread_step_def after_pop_def tp_goto_def Let_def split: stage.splits if_splits option.splits)
next
  case Ctor
  then show ?thesis using assms by (auto simp: ctor_step_def tp_goto_def life_ok_def split: life.splits if_splits)
qed (use assms in \<open>auto simp: ctor_throws_def destroy_def join_all_def in_client_def tp_submit_def tp_goto_def finish_task_def Let_def
      split: life.splits if_splits list.splits\<close>)

definition pool_inv :: "nat \<Rightarrow> nat \<Rightarrow> 'a tpool \<Rightarrow> bool" where
  "pool_inv hw nc s \<longleftrightarrow> pool_ok hw s \<and> (\<forall>t\<ge>hw + nc. tp_stage s t = Outside_pool)"

lemma pool_next_ok:
  assumes "pool_inv hw nc s" and "\<not> push_races hw a s"
  shows "\<exists>s'. pool_next hw nc a s = Some s' \<and> pool_ok hw s'"
proof -
  have ok: "pool_ok hw s" and out: "\<And>t. hw + nc \<le> t \<Longrightarrow> tp_stage s t = Outside_pool" using assms by (auto simp: pool_inv_def)
  show ?thesis
  proof (cases a)
    case Ctor
    then show ?thesis using ctor_step_defined [of hw s] ctor_step_ok [OF ok] assms(2) by auto
  qed (use ok in \<open>auto simp: ctor_throws_ok thread_step_ok tp_submit_ok help_ok finish_task_ok destroy_ok [OF ok out] join_all_ok\<close>)
qed

lemma pool_new_ok: "pool_inv hw nc (pool_new hw)"
  by (auto simp: pool_inv_def pool_ok_def pool_ok_defs tasks_ok_def pool_tasks_def pool_new_def ts_queue_new_def tq_inv_def)

interpretation tp: machine "pool_next hw nc" "pool_new hw" "pool_inv hw nc" "push_races hw"
proof
  show "pool_inv hw nc (pool_new hw)" by (rule pool_new_ok)
next
  fix s x
  assume inv: "pool_inv hw nc (s :: 'a tpool)" and "\<not> push_races hw x s"
  then obtain s' where s': "pool_next hw nc x s = Some s'" "pool_ok hw s'" using pool_next_ok by blast
  then show "\<exists>s'. pool_next hw nc x s = Some s' \<and> pool_inv hw nc s'"
    using inv outsiders_step [OF s'(1)] by (auto simp: pool_inv_def pool_ok_def)
qed (rule push_races_fails)

lemma mset_by_thread_eq:
  assumes "\<And>t. mset (by_thread t xs) = mset (by_thread t ys)"
  shows "mset xs = mset ys"
proof (rule multiset_eqI)
  fix p :: "thread_id \<times> 'a"
  have "count (mset zs) p = count (mset (by_thread (fst p) zs)) (snd p)" for zs
    by (induction zs) (auto simp: by_thread_def prod_eq_iff)
  then show "count (mset xs) p = count (mset ys) p" using assms by simp
qed

lemma gone_all_ran:
  assumes "pool_ok hw s" "tp_life s = Gone"
  shows "mset (tp_taken s) = mset (tp_ran s)"
proof (rule mset_by_thread_eq)
  fix t
  have "thread_ok hw s t" using assms by (simp add: pool_ok_def)
  then show "mset (by_thread t (tp_taken s)) = mset (by_thread t (tp_ran s))"
    using assms(2) by (auto simp: thread_ok_def stack_ok_def)
qed

lemmas pool_run_simps = pool_new_def ctor_step_def tp_goto_def in_client_def tp_submit_def submit_6_def local_valid_def tq_push_def
  ts_queue_new_def thread_step_def after_pop_def pop_task_from_local_queue_def ws_try_pop_def pop_task_from_pool_queue_def tq_try_pop_def
  take_front_def finish_task_def resting_def destroy_def join_all_def Let_def

text \<open>What holds of every state that the pool reaches.\<close>

lemma pool_ok_tasks:
  assumes ok: "pool_ok hw s"
  shows "mset (tp_submitted s) = mset (map snd (tp_taken s)) + pool_tasks (tp_queues s) \<and>
     (\<forall>t. mset (by_thread t (tp_taken s)) = mset (by_thread t (tp_ran s)) + mset (tp_stack s t)) \<and>
     (let q = pool_work_queue (tp_queues s) in tq_pushed q = map snd (tq_popped q) @ tq_que q) \<and>
     (tp_life s = Gone \<longrightarrow>
        mset (tp_submitted s) = mset (map snd (tp_ran s)) + pool_tasks (tp_queues s) \<and>
        (\<forall>t. tp_stage s t \<in> {Not_started, Exited, Outside_pool}))"
proof -
  have t: "thread_ok hw s t" for t using ok by (simp add: pool_ok_def)
  have q: "tasks_ok (tp_submitted s) (tp_taken s) (tp_queues s)" using ok by (simp add: pool_ok_def)
  have "mset (map snd (tp_taken s)) = mset (map snd (tp_ran s))" if "tp_life s = Gone"
    using gone_all_ran [OF ok that] by (metis mset_map)
  then show ?thesis using t q unfolding thread_ok_def tasks_ok_def tq_inv_def Let_def by simp
qed

text \<open>
  C22. The pool with work stealing. For every number of workers and clients and under every interleaving of its
  constructor, its workers, the tasks that they run, its clients and its destructor, the run either goes on, or it comes to the
  race of the constructor: \<^verbatim>\<open>queues.push_back\<close> for a queue after the first while a worker that was started before is about to
  read the vector; no access leaves the vector or reaches a destroyed pool. In a run that goes on every submitted task is in exactly
  one queue or was taken exactly once, and each thread has run, or has on its stack, exactly the tasks that it took; the shared
  queue hands out the tasks in the order in which it got them. When the pool is gone no thread is inside of it, and the submitted
  tasks are those that were run once and those that were still queued, which are dropped. The class \<^verbatim>\<open>thread_safe_queue\<close> that
  the source names is defined nowhere in the repository; it is read as the queue \<open>ts_queue\<close> of \<^verbatim>\<open>Locked_Containers\<close>.
\<close>

theorem pool_tasks_once:
  "(\<exists>s. foldM (pool_next hw nc) acts (pool_new hw) = Some s \<and>
     mset (tp_submitted s) = mset (map snd (tp_taken s)) + pool_tasks (tp_queues s) \<and>
     (\<forall>t. mset (by_thread t (tp_taken s)) = mset (by_thread t (tp_ran s)) + mset (tp_stack s t)) \<and>
     (let q = pool_work_queue (tp_queues s) in tq_pushed q = map snd (tq_popped q) @ tq_que q) \<and>
     (tp_life s = Gone \<longrightarrow>
        mset (tp_submitted s) = mset (map snd (tp_ran s)) + pool_tasks (tp_queues s) \<and>
        (\<forall>t. tp_stage s t \<in> {Not_started, Exited, Outside_pool}))) \<or>
   (\<exists>ys zs s i t. acts = ys @ Ctor # zs \<and> foldM (pool_next hw nc) ys (pool_new hw) = Some s \<and>
     tp_life s = Ctor_queue i \<and> i < hw \<and> t < i \<and> reads_queues (tp_stage s t))"
proof -
  from tp.run_or_bad [of hw nc acts] show ?thesis
  proof
    assume "\<exists>s. foldM (pool_next hw nc) acts (pool_new hw) = Some s \<and> pool_inv hw nc s"
    then obtain s where "foldM (pool_next hw nc) acts (pool_new hw) = Some s" "pool_ok hw s" by (auto simp: pool_inv_def)
    then show ?thesis by (intro disjI1 exI [of _ s] conjI [OF _ pool_ok_tasks])
  next
    assume "\<exists>ys a zs s. acts = ys @ a # zs \<and> foldM (pool_next hw nc) ys (pool_new hw) = Some s \<and> pool_inv hw nc s \<and> push_races hw a s"
    then obtain ys a zs s where s: "acts = ys @ a # zs" "foldM (pool_next hw nc) ys (pool_new hw) = Some s"
      "pool_inv hw nc s" "push_races hw a s" by blast
    then have "pool_ok hw s" by (simp add: pool_inv_def)
    from push_races_reader [OF this s(4)] s(1,2) show ?thesis by blast
  qed
qed

text \<open>With one worker the race is not possible; here the worker runs one task before the pool is destroyed and the other is dropped.\<close>

theorem pool_tasks_once_witness:
  "\<exists>s. foldM (pool_next 1 1) [Ctor, Ctor, Ctor, Submit 1 (7::int), Submit 1 8, Run 0, Run 0, Run 0, Run 0, Finish 0, Destroy, Run 0, Join]
       (pool_new 1) = Some s \<and> tp_life s = Gone \<and> {#7, 8#} = mset (map snd (tp_ran s)) + pool_tasks (tp_queues s)"
  using pool_tasks_once [of 1 1 "[Ctor, Ctor, Ctor, Submit 1 (7::int), Submit 1 8, Run 0, Run 0, Run 0, Run 0, Finish 0, Destroy, Run 0, Join]"]
  by (simp add: pool_run_simps numeral_2_eq_2)

text \<open>
  With two workers a schedule in which the first one has read its element before the second queue is created gets through,
  and the second worker steals what the first one submitted; a schedule in which the constructor goes on at once races.
\<close>

lemma pool_two_workers:
  "\<exists>s. foldM (pool_next 2 1)
       [Ctor, Ctor, Run 0, Ctor, Ctor, Run 1, Ctor, Submit 2 (7::int), Run 0, Run 0, Run 0, Submit 0 8, Run 1, Run 1, Run 1, Run 1, Finish 1]
       (pool_new 2) = Some s \<and> tp_taken s = [(0, 7), (1, 8)] \<and> tp_ran s = [(1, 8)]"
  by (simp add: pool_run_simps numeral_2_eq_2 atLeast0_lessThan_Suc steal_at_def ws_push_def ws_try_steal_def)

lemma pool_ctor_races:
  "foldM (pool_next 2 nc) [Ctor, Ctor, Ctor] (pool_new 2 :: int tpool) = None"
  by (simp add: pool_run_simps numeral_2_eq_2 atLeast0_lessThan_Suc)

section \<open>A thread that runs alone\<close>

lemma steal_alone:
  assumes "length (queues (tp_queues s)) = n" "i \<le> n" "tp_stage s t = At_other i" "tp_life s \<noteq> Gone"
  shows "\<exists>k\<le>n - i + 1. foldM (pool_next hw nc) (replicate k (Run t)) s =
           Some (after_pop t (steal_loop (tp_index s t) [i..<n] (tp_queues s)) (resting t s) s)"
  using assms
proof (induction "n - i" arbitrary: i s)
  case 0
  then show ?case by (intro exI [of _ 1]) (simp add: thread_step_def after_pop_def Let_def)
next
  case (Suc m)
  then have i: "i < n" "[i..<n] = i # [Suc i..<n]" by (simp_all add: upt_rec)
  obtain r q' where r: "steal_at (tp_index s t) i (tp_queues s) = (r, q')" by force
  let ?s = "after_pop t (steal_at (tp_index s t) i (tp_queues s)) (At_other (Suc i)) s"
  have step: "pool_next hw nc (Run t) s = Some ?s" using Suc.prems i by (simp add: thread_step_def)
  show ?case
  proof (cases r)
    case (Some x)
    then show ?thesis using step r i
      by (intro exI [of _ 1]) (simp add: or_else_def after_pop_def Let_def)
  next
    case None
    have "queues (tp_queues s) \<noteq> []" using Suc.prems i by fastforce
    then have "q' = tp_queues s" using r None steal_at_none by blast
    then have s: "?s = tp_goto t (At_other (Suc i)) s" using None r by (simp add: after_pop_def)
    have "m = n - Suc i" using Suc.hyps by simp
    from Suc.hyps(1) [OF this, of ?s] obtain k where "k \<le> n - Suc i + 1" "foldM (pool_next hw nc) (replicate k (Run t)) ?s =
        Some (after_pop t (steal_loop (tp_index s t) [Suc i..<n] (tp_queues s)) (resting t s) ?s)"
      using Suc.prems i by (auto simp: s tp_goto_def resting_def)
    moreover have "after_pop t z (resting t s) ?s = after_pop t z (resting t s) s" for z
      unfolding s by (simp add: after_pop_def tp_goto_def Let_def split: option.splits)
    ultimately show ?thesis using step i None r \<open>q' = tp_queues s\<close>
      by (intro exI [of _ "Suc k"]) (simp add: or_else_def)
  qed
qed

lemma pending_task_alone:
  assumes ok: "pool_ok hw s" and st: "tp_stage s t = At_local" and n: "length (queues (tp_queues s)) = n"
  shows "\<exists>k\<le>n + 3. foldM (pool_next hw nc) (replicate k (Run t)) s =
           Some (after_pop t (pending_task t (tp_local s t) (tp_index s t) (tp_queues s)) (resting t s) s)"
proof -
  have th: "thread_ok hw s t" using ok by (simp add: pool_ok_def)
  have live: "tp_life s \<noteq> Gone" using th st by (auto simp: thread_ok_def)
  have valid: "local_valid (tp_local s t) (tp_queues s)"
    using th st by (auto simp: pool_ok_defs local_valid_def split: if_splits)
  let ?q = "tp_queues s" and ?l = "tp_local s t"
  obtain r q1 where 1: "pop_task_from_local_queue ?l ?q = (r, q1)" by force
  obtain r' q2 where 2: "pop_task_from_pool_queue t ?q = (r', q2)" by force
  have run1: "pool_next hw nc (Run t) s = Some (after_pop t (r, q1) At_pool s)"
    using st live valid 1 by (simp add: thread_step_def)
  show ?thesis
  proof (cases r)
    case (Some x)
    then show ?thesis using run1 1
      by (intro exI [of _ 1]) (simp add: pending_task_def or_else_def after_pop_def)
  next
    case r: None
    then have s1: "after_pop t (r, q1) At_pool s = tp_goto t At_pool s"
      using loc6.get_none [OF valid] 1 by (simp add: after_pop_def)
    have run2: "pool_next hw nc (Run t) (tp_goto t At_pool s) = Some (after_pop t (r', q2) (At_other 0) (tp_goto t At_pool s))"
      using live 2 by (simp add: thread_step_def tp_goto_def)
    have q1: "q1 = ?q" using loc6.get_none [OF valid] 1 r by simp
    show ?thesis
    proof (cases r')
      case (Some x)
      then show ?thesis using run1 run2 s1 1 2 r q1
        by (intro exI [of _ 2]) (simp add: pending_task_def or_else_def after_pop_def numeral_2_eq_2 tp_goto_def)
    next
      case None
      let ?s = "tp_goto t (At_other 0) s"
      have q2: "q2 = ?q" using pool6.get_none [OF valid] 2 None by simp
      then have s2: "after_pop t (r', q2) (At_other 0) (tp_goto t At_pool s) = ?s"
        using None by (simp add: after_pop_def tp_goto_def)
      obtain k where k: "k \<le> n + 1" "foldM (pool_next hw nc) (replicate k (Run t)) ?s =
          Some (after_pop t (steal_loop (tp_index s t) [0..<n] ?q) (resting t s) ?s)"
        using steal_alone [of ?s n 0 t hw nc] n live by (auto simp: tp_goto_def resting_def)
      have "after_pop t z (resting t s) ?s = after_pop t z (resting t s) s" for z
        by (simp add: after_pop_def tp_goto_def Let_def split: option.splits)
      then show ?thesis using run1 run2 s1 s2 k 1 2 r None n q1 q2
        by (intro exI [of _ "Suc (Suc k)"]) (simp add: pending_task_def or_else_def pop_task_from_other_thread_queue_def)
    qed
  qed
qed

text \<open>
  C23. \<^verbatim>\<open>run_pending_task\<close>. A thread of a pool in any reachable state that no other thread interrupts gets, within a number of
  steps that the number of queues bounds, the task that the reference order names: the newest of its own queue, else the oldest
  of the shared queue, else the oldest of the first queue in the cyclic order after its own that has one. It comes back without a
  task only if no queue of the whole pool holds one.
\<close>

theorem run_pending_task_refines:
  assumes run: "foldM (pool_next hw nc) acts (pool_new hw) = Some s" and st: "tp_stage s t = At_local"
  shows "(\<exists>k\<le>length (queues (tp_queues s)) + 3. foldM (pool_next hw nc) (replicate k (Run t)) s =
             Some (after_pop t (pending_task t (tp_local s t) (tp_index s t) (tp_queues s)) (resting t s) s)) \<and>
         (fst (pending_task t (tp_local s t) (tp_index s t) (tp_queues s)) = None \<longleftrightarrow> pool_tasks (tp_queues s) = {#})"
proof -
  have ok: "pool_ok hw s" using tp.run_ok [OF run] by (simp add: pool_inv_def)
  then have "local_valid (tp_local s t) (tp_queues s)"
    using st by (auto simp: pool_ok_def pool_ok_defs local_valid_def dest!: spec [of _ t] split: if_splits)
  then show ?thesis using pending_task_alone [OF ok st] stealing.finds_none_iff by blast
qed

theorem run_pending_task_refines_witness:
  "(let q = \<lparr>pool_work_queue = tq_push (7::int) None ts_queue_new, queues = [[]]\<rparr>
    in fst (pending_task 0 (Some 0) 0 q) = Some 7 \<and> pool_tasks q \<noteq> {#})"
proof -
  let ?acts = "[Ctor, Ctor, Ctor, Submit 1 (7::int), Run 0, Run 0]"
  obtain s where s: "foldM (pool_next 1 1) ?acts (pool_new 1) = Some s" "tp_stage s 0 = At_local"
    "tp_local s 0 = Some 0" "tp_index s 0 = 0" "tp_queues s = \<lparr>pool_work_queue = tq_push (7::int) None ts_queue_new, queues = [[]]\<rparr>"
    by (simp add: pool_new_def ctor_step_def tp_goto_def in_client_def tp_submit_def submit_6_def local_valid_def thread_step_def)
  have "pool_tasks (tp_queues s) \<noteq> {#}" by (simp add: s pool_tasks_def tq_push_def ts_queue_new_def)
  with run_pending_task_refines [OF s(1,2)] s(3-5) show ?thesis
    by (simp add: pending_task_def or_else_def pop_task_from_local_queue_def ws_try_pop_def pop_task_from_pool_queue_def
        tq_try_pop_def take_front_def tq_push_def ts_queue_new_def)
qed

text \<open>
  Limits. Tasks that no worker took before \<^verbatim>\<open>done\<close> are dropped with the pool; and when
  \<^verbatim>\<open>hardware_concurrency\<close> gives \<open>0\<close>, which the standard allows, the pool has no worker at all.
\<close>

lemma pool_drops_tasks:
  "\<exists>s. foldM (pool_next 1 1) [Ctor, Ctor, Ctor, Run 0, Submit 1 (7::int), Destroy, Run 0, Join] (pool_new 1) = Some s \<and>
     tp_life s = Gone \<and> tp_submitted s = [7] \<and> tp_ran s = []"
  by (simp add: pool_new_def ctor_step_def tp_goto_def in_client_def tp_submit_def submit_6_def local_valid_def thread_step_def
      destroy_def join_all_def)

lemma pool_no_workers:
  assumes "foldM (pool_next 0 nc) acts (pool_new 0) = Some s"
  shows "tp_local s t = None"
  using tp.run_ok [OF assms] by (simp add: pool_inv_def pool_ok_def thread_ok_def client_ok_def)

end
