(* ===== verification/Shared_Counter.thy ===== *)
theory Shared_Counter
  imports Prelude
begin

text \<open>
  Threads that update shared variables: the counter of \<^verbatim>\<open>cpp_concurrency_2nd/mutex_RAII.cpp\<close> with and without its mutex and
  the counters of \<^verbatim>\<open>professional_cpp/src/ch27_concurrency/main.cpp\<close>; the exchange of two guarded objects; readers and writers
  and the lazy initialisation of \<^verbatim>\<open>tour_of_cpp/ch18_concurrency.cpp\<close>. One step of a thread is one access to a shared
  variable or one operation on a lock; a thread that has to wait stays where it is. None is the overflow of an \<^verbatim>\<open>int\<close>.
\<close>

section \<open>Counters\<close>

text \<open>
  \<^verbatim>\<open>increase (true)\<close>, \<^verbatim>\<open>increase (false)\<close> (and \<^verbatim>\<open>inc (int&)\<close>, which increments the plain variable although it declares an
  \<^verbatim>\<open>atomic_ref\<close>), \<^verbatim>\<open>inc (atomic&)\<close> and \<^verbatim>\<open>inc_best\<close>.
\<close>

datatype counter_mode = Use_mutex | Plain | Atomic | Atomic_batch

text \<open>
  A thread of \<^verbatim>\<open>repeat\<close> has so many calls of \<^verbatim>\<open>increase\<close> before it; inside of a call it holds the lock, has computed
  \<^verbatim>\<open>t3\<close>, or has stored it and is about to release the lock.
\<close>

datatype counter_pc = Repeat nat | Held nat | Computed nat int | Stored nat

record counter =
  cn_num :: int
  cn_owner :: "nat option"
  cn_pcs :: "counter_pc list"

definition counter_start :: "nat list \<Rightarrow> counter" where
  "counter_start cnts = \<lparr>cn_num = 0, cn_owner = None, cn_pcs = map Repeat cnts\<rparr>"

definition cn_goto :: "nat \<Rightarrow> counter_pc \<Rightarrow> counter \<Rightarrow> counter" where
  "cn_goto t p s = s\<lparr>cn_pcs := (cn_pcs s)[t := p]\<rparr>"

definition INT_MAX :: int where "INT_MAX = 2 ^ 31 - 1"

definition add1_load :: "nat \<Rightarrow> nat \<Rightarrow> counter \<Rightarrow> counter option" where
  "add1_load t k s = (if cn_num s = INT_MAX then None else Some (cn_goto t (Computed k (cn_num s + 1)) s))"

definition add1_store :: "counter_mode \<Rightarrow> nat \<Rightarrow> nat \<Rightarrow> int \<Rightarrow> counter \<Rightarrow> counter" where
  "add1_store m t k v s = cn_goto t (if m = Use_mutex then Stored k else Repeat k) (s\<lparr>cn_num := v\<rparr>)"

definition increase :: "counter_mode \<Rightarrow> nat \<Rightarrow> nat \<Rightarrow> counter \<Rightarrow> counter option" where
  "increase m t k s =
     (case m of
        Use_mutex \<Rightarrow> Some (if cn_owner s = None then cn_goto t (Held k) (s\<lparr>cn_owner := Some t\<rparr>) else s)
      | Plain \<Rightarrow> add1_load t k s
      | Atomic \<Rightarrow> Some (cn_goto t (Repeat k) (s\<lparr>cn_num := int32 (cn_num s + 1)\<rparr>))
      | Atomic_batch \<Rightarrow> Some (cn_goto t (Repeat 0) (s\<lparr>cn_num := int32 (cn_num s + int (Suc k))\<rparr>)))"

definition counter_step :: "counter_mode \<Rightarrow> nat \<Rightarrow> counter \<Rightarrow> counter option" where
  "counter_step m t s =
     (if t < length (cn_pcs s)
      then case cn_pcs s ! t of
             Repeat 0 \<Rightarrow> Some s
           | Repeat (Suc k) \<Rightarrow> increase m t k s
           | Held k \<Rightarrow> add1_load t k s
           | Computed k v \<Rightarrow> Some (add1_store m t k v s)
           | Stored k \<Rightarrow> Some (cn_goto t (Repeat k) (s\<lparr>cn_owner := None\<rparr>))
      else Some s)"

text \<open>The increments that a thread has not stored yet.\<close>

fun unstored :: "counter_pc \<Rightarrow> nat" where
  "unstored (Repeat k) = k"
| "unstored (Held k) = Suc k"
| "unstored (Computed k v) = Suc k"
| "unstored (Stored k) = k"

definition left :: "counter \<Rightarrow> nat" where
  "left s = (\<Sum>p\<leftarrow>cn_pcs s. unstored p)"

text \<open>What a thread may know: with the mutex, that it is the owner and that its value is one more than the variable;
  without, that its value is not more than one above the increments stored so far.\<close>

fun pc_ok :: "counter_mode \<Rightarrow> nat \<Rightarrow> counter \<Rightarrow> nat \<Rightarrow> counter_pc \<Rightarrow> bool" where
  "pc_ok m n s t (Repeat k) \<longleftrightarrow> cn_owner s \<noteq> Some t"
| "pc_ok m n s t (Held k) \<longleftrightarrow> m = Use_mutex \<and> cn_owner s = Some t"
| "pc_ok m n s t (Computed k v) \<longleftrightarrow>
     (m = Use_mutex \<and> cn_owner s = Some t \<and> v = cn_num s + 1 \<or> m = Plain \<and> cn_owner s \<noteq> Some t \<and> 0 < v \<and> v \<le> int (n - left s) + 1)"
| "pc_ok m n s t (Stored k) \<longleftrightarrow> m = Use_mutex \<and> cn_owner s = Some t"

definition num_ok :: "counter_mode \<Rightarrow> int \<Rightarrow> nat \<Rightarrow> bool" where
  "num_ok m num done \<longleftrightarrow>
     (case m of Use_mutex \<Rightarrow> num = int done | Plain \<Rightarrow> 0 \<le> num \<and> num \<le> int done | _ \<Rightarrow> num = int32 (int done))"

definition counter_ok :: "counter_mode \<Rightarrow> nat \<Rightarrow> counter \<Rightarrow> bool" where
  "counter_ok m n s \<longleftrightarrow> left s \<le> n \<and> num_ok m (cn_num s) (n - left s) \<and>
     (\<forall>t<length (cn_pcs s). pc_ok m n s t (cn_pcs s ! t)) \<and> (\<forall>t. cn_owner s = Some t \<longrightarrow> t < length (cn_pcs s))"

definition overflow :: "counter_mode \<Rightarrow> nat \<Rightarrow> counter \<Rightarrow> bool" where
  "overflow m t s \<longleftrightarrow> t < length (cn_pcs s) \<and> cn_num s = INT_MAX \<and>
     (case cn_pcs s ! t of Repeat k \<Rightarrow> m = Plain \<and> 0 < k | Held k \<Rightarrow> True | _ \<Rightarrow> False)"

lemma cn_goto_simps [simp]: "cn_owner (cn_goto t p s) = cn_owner s" "cn_num (cn_goto t p s) = cn_num s"
  by (simp_all add: cn_goto_def)

lemma left_goto:
  assumes "t < length (cn_pcs s)"
  shows "left (cn_goto t p s) + unstored (cn_pcs s ! t) = left s + unstored p"
  using sum_list_map_update [OF assms, of unstored p] by (simp add: left_def cn_goto_def)

lemma left_ge: "t < length (cn_pcs s) \<Longrightarrow> unstored (cn_pcs s ! t) \<le> left s"
  unfolding left_def by (rule sum_list_map_ge)

lemma left_update [simp]: "left (s\<lparr>cn_num := v\<rparr>) = left s" "left (s\<lparr>cn_owner := o'\<rparr>) = left s"
  by (simp_all add: left_def)

lemma int32_add: "int32 (int32 a + b) = int32 (a + b)"
proof -
  have "signed_take_bit 31 (signed_take_bit 31 (signed_take_bit 31 a) + signed_take_bit 31 b) = signed_take_bit 31 (signed_take_bit 31 a + b)"
    by (rule signed_take_bit_add)
  moreover have "signed_take_bit 31 (signed_take_bit 31 a + signed_take_bit 31 b) = signed_take_bit 31 (a + b)"
    by (rule signed_take_bit_add)
  ultimately show ?thesis by (simp add: int32_def)
qed

text \<open>The invariant after one thread has moved: the others must still know what they knew.\<close>

lemma counter_ok_goto:
  assumes ok: "counter_ok m n s" and t: "t < length (cn_pcs s)"
    and s': "s' = cn_goto t p (s\<lparr>cn_num := v, cn_owner := w\<rparr>)"
    and le: "unstored p \<le> unstored (cn_pcs s ! t)"
    and num: "num_ok m v (n - left s')" and mine: "pc_ok m n s' t p"
    and owner: "w = None \<or> w = cn_owner s \<or> w = Some t"
    and others: "\<And>u q. u \<noteq> t \<Longrightarrow> pc_ok m n s u q \<Longrightarrow> pc_ok m n s' u q"
  shows "counter_ok m n s'"
proof -
  have "left s' + unstored (cn_pcs s ! t) = left s + unstored p" using left_goto [of t "s\<lparr>cn_num := v, cn_owner := w\<rparr>" p] t by (simp add: s')
  then have "left s' \<le> n" using ok le by (simp add: counter_ok_def)
  moreover have "pc_ok m n s' u (cn_pcs s' ! u)" if "u < length (cn_pcs s')" for u
    using ok that mine others [of u] t by (cases "u = t") (auto simp: counter_ok_def s' cn_goto_def)
  moreover have "u < length (cn_pcs s')" if "cn_owner s' = Some u" for u
    using ok t owner that by (auto simp: counter_ok_def s' cn_goto_def)
  ultimately show ?thesis using num by (simp add: counter_ok_def s' cn_goto_def)
qed

lemma counter_step_ok:
  assumes ok: "counter_ok m n s" and nb: "\<not> overflow m t s"
  shows "\<exists>s'. counter_step m t s = Some s' \<and> counter_ok m n s'"
proof (cases "t < length (cn_pcs s)")
  case t: True
  have my: "pc_ok m n s t (cn_pcs s ! t)" and le: "left s \<le> n" and num: "num_ok m (cn_num s) (n - left s)"
    using ok t by (auto simp: counter_ok_def)
  have goto: "left (cn_goto t p (s\<lparr>cn_num := v, cn_owner := w\<rparr>)) = left s + unstored p - unstored (cn_pcs s ! t)" for p v w
    using left_goto [of t "s\<lparr>cn_num := v, cn_owner := w\<rparr>" p] t by simp
  note ge = left_ge [OF t]
  note step = counter_ok_goto [OF ok t]
  show ?thesis
  proof (cases "cn_pcs s ! t")
    case (Repeat k)
    show ?thesis
    proof (cases k)
      case 0
      then show ?thesis using ok t Repeat by (simp add: counter_step_def)
    next
      case (Suc j)
      then have pc: "cn_pcs s ! t = Repeat (Suc j)" using Repeat by simp
      have "\<exists>s'. increase m t j s = Some s' \<and> counter_ok m n s'"
      proof (cases m)
        case Use_mutex
        have "counter_ok m n (cn_goto t (Held j) (s\<lparr>cn_num := cn_num s, cn_owner := Some t\<rparr>))" if "cn_owner s = None"
          using that my num pc ge goto [where p = "Held j" and v = "cn_num s" and w = "Some t"] Use_mutex by (intro step [OF refl]) (auto elim!: pc_ok.elims)
        then show ?thesis using Use_mutex ok by (simp add: increase_def)
      next
        case Plain
        have "counter_ok m n (cn_goto t (Computed j (cn_num s + 1)) (s\<lparr>cn_num := cn_num s, cn_owner := cn_owner s\<rparr>))"
          using my num pc ge goto [where p = "Computed j (cn_num s + 1)" and v = "cn_num s" and w = "cn_owner s"] Plain
          by (intro step [OF refl]) (auto simp: num_ok_def elim!: pc_ok.elims)
        then show ?thesis using Plain nb pc t by (simp add: increase_def add1_load_def overflow_def)
      next
        case Atomic
        have "int (n - (left s - 1)) = int (n - left s) + 1" using ge pc le by simp
        then have "counter_ok m n (cn_goto t (Repeat j) (s\<lparr>cn_num := int32 (cn_num s + 1), cn_owner := cn_owner s\<rparr>))"
          using my num pc ge goto [where p = "Repeat j" and v = "int32 (cn_num s + 1)" and w = "cn_owner s"] Atomic
          by (intro step [OF refl]) (auto simp: num_ok_def int32_add elim!: pc_ok.elims)
        then show ?thesis using Atomic by (simp add: increase_def)
      next
        case Atomic_batch
        have "int (n - (left s - Suc j)) = int (n - left s) + int (Suc j)" using ge pc le by simp
        then have "counter_ok m n (cn_goto t (Repeat 0) (s\<lparr>cn_num := int32 (cn_num s + int (Suc j)), cn_owner := cn_owner s\<rparr>))"
          using my num pc ge goto [where p = "Repeat 0" and v = "int32 (cn_num s + int (Suc j))" and w = "cn_owner s"] Atomic_batch
          by (intro step [OF refl]) (auto simp: num_ok_def int32_add elim!: pc_ok.elims)
        then show ?thesis using Atomic_batch by (simp add: increase_def)
      qed
      then show ?thesis using t pc by (simp add: counter_step_def)
    qed
  next
    case (Held k)
    have "counter_ok m n (cn_goto t (Computed k (cn_num s + 1)) (s\<lparr>cn_num := cn_num s, cn_owner := cn_owner s\<rparr>))"
      using my num Held ge goto [where p = "Computed k (cn_num s + 1)" and v = "cn_num s" and w = "cn_owner s"]
      by (intro step [OF refl]) (auto elim!: pc_ok.elims)
    then show ?thesis using t Held nb by (simp add: counter_step_def add1_load_def overflow_def)
  next
    case (Computed k v)
    let ?p = "if m = Use_mutex then Stored k else Repeat k"
    have d: "int (n - (left s - 1)) = int (n - left s) + 1" using ge Computed le by simp
    have "counter_ok m n (cn_goto t ?p (s\<lparr>cn_num := v, cn_owner := cn_owner s\<rparr>))"
      using my num Computed ge d goto [where p = ?p and v = v and w = "cn_owner s"]
      by (intro step [OF refl]) (auto simp: num_ok_def elim!: pc_ok.elims)
    then show ?thesis using t Computed by (simp add: counter_step_def add1_store_def)
  next
    case (Stored k)
    have "counter_ok m n (cn_goto t (Repeat k) (s\<lparr>cn_num := cn_num s, cn_owner := None\<rparr>))"
      using my num Stored ge goto [where p = "Repeat k" and v = "cn_num s" and w = None] by (intro step [OF refl]) (auto elim!: pc_ok.elims)
    then show ?thesis using t Stored by (simp add: counter_step_def)
  qed
qed (use ok in \<open>simp add: counter_step_def\<close>)

interpretation cn: machine "counter_step m" "counter_start cnts" "\<lambda>s. counter_ok m (sum_list cnts) s \<and> length (cn_pcs s) = length cnts"
    "overflow m"
proof
  show "counter_ok m (sum_list cnts) (counter_start cnts) \<and> length (cn_pcs (counter_start cnts)) = length cnts"
    by (simp add: counter_ok_def counter_start_def left_def num_ok_def comp_def split: counter_mode.split)
next
  fix s t
  assume "counter_ok m (sum_list cnts) s \<and> length (cn_pcs s) = length cnts" "\<not> overflow m t s"
  then obtain s' where s': "counter_step m t s = Some s'" "counter_ok m (sum_list cnts) s'" using counter_step_ok by blast
  moreover have "length (cn_pcs s') = length (cn_pcs s)"
    using s'(1) by (auto simp: counter_step_def increase_def add1_load_def add1_store_def cn_goto_def
        split: if_splits counter_pc.splits nat.splits counter_mode.splits)
  ultimately show "\<exists>s'. counter_step m t s = Some s' \<and> counter_ok m (sum_list cnts) s' \<and> length (cn_pcs s') = length cnts"
    using \<open>counter_ok m (sum_list cnts) s \<and> length (cn_pcs s) = length cnts\<close> by simp
next
  fix t s
  assume "overflow m t s"
  then show "counter_step m t s = None"
    by (auto simp: overflow_def counter_step_def increase_def add1_load_def split: counter_pc.splits nat.splits)
qed

lemma no_overflow:
  assumes ok: "counter_ok m n s" and n: "int n \<le> INT_MAX"
  shows "\<not> overflow m t s"
proof
  assume o: "overflow m t s"
  then have t: "t < length (cn_pcs s)" "cn_num s = INT_MAX" by (auto simp: overflow_def)
  have pos: "0 < unstored (cn_pcs s ! t)" using o by (auto simp: overflow_def split: counter_pc.splits)
  have "m = Plain \<or> m = Use_mutex" using ok o t(1) by (auto simp: overflow_def counter_ok_def split: counter_pc.splits)
  then have "cn_num s \<le> int (n - left s)" using ok by (auto simp: counter_ok_def num_ok_def)
  moreover have "int (n - left s) < int n" using pos left_ge [OF t(1)] ok by (simp add: counter_ok_def)
  ultimately show False using t(2) n by simp
qed

text \<open>A thread that is not finished can move, or the thread that holds the lock can.\<close>

lemma counter_progress:
  assumes ok: "counter_ok m n s" and t: "t < length (cn_pcs s)" "cn_pcs s ! t \<noteq> Repeat 0"
  shows "\<exists>u<length (cn_pcs s). counter_step m u s \<noteq> Some s"
proof (cases "m = Use_mutex \<and> cn_owner s \<noteq> None")
  case True
  then obtain u where u: "cn_owner s = Some u" "u < length (cn_pcs s)" using ok by (auto simp: counter_ok_def)
  then have "pc_ok m n s u (cn_pcs s ! u)" using ok by (simp add: counter_ok_def)
  then have "counter_step m u s \<noteq> Some s" using u
    by (auto simp: counter_step_def add1_load_def add1_store_def cn_goto_def list_update_same_conv dest!: arg_cong [of _ _ cn_pcs]
        split: counter_pc.splits nat.splits if_splits)
  then show ?thesis using u by blast
next
  case False
  then have "counter_step m t s \<noteq> Some s" using t ok
    by (auto simp: counter_step_def increase_def add1_load_def add1_store_def cn_goto_def list_update_same_conv dest!: arg_cong [of _ _ cn_pcs]
        split: counter_pc.splits nat.splits counter_mode.splits if_splits)
  then show ?thesis using t by blast
qed

text \<open>
  C24. The counters. For any number of threads with any numbers of turns whose sum fits into an \<^verbatim>\<open>int\<close>, and under every
  schedule, no increment overflows, the variable never exceeds the number of increments stored so far, and with the mutex or an
  atomic variable it is equal to it; so when all threads are through it is the sum of their turns. There is no deadlock: while a
  thread has turns before it, some thread can move.
\<close>

theorem counter_exact:
  assumes fits: "int (sum_list cnts) \<le> INT_MAX"
  shows "\<exists>s. foldM (counter_step m) sched (counter_start cnts) = Some s \<and>
     cn_num s \<le> int (sum_list cnts - left s) \<and> (m \<noteq> Plain \<longrightarrow> cn_num s = int (sum_list cnts - left s)) \<and>
     ((\<exists>t<length cnts. cn_pcs s ! t \<noteq> Repeat 0) \<longrightarrow> (\<exists>u<length cnts. counter_step m u s \<noteq> Some s))"
proof -
  obtain s where s: "foldM (counter_step m) sched (counter_start cnts) = Some s" "counter_ok m (sum_list cnts) s"
    "length (cn_pcs s) = length cnts"
    using cn.run_or_bad [of m sched cnts] no_overflow [OF _ fits] by metis
  have "int32 (int (sum_list cnts - left s)) = int (sum_list cnts - left s)"
    using fits by (intro int32_id) (auto simp: INT_MAX_def)
  then have "cn_num s \<le> int (sum_list cnts - left s)" "m \<noteq> Plain \<longrightarrow> cn_num s = int (sum_list cnts - left s)"
    using s(2) by (cases m; simp add: counter_ok_def num_ok_def)+
  then show ?thesis using s counter_progress [OF s(2)] by metis
qed

theorem counter_exact_witness:
  "\<exists>s. foldM (counter_step Use_mutex) [0, 1, 0, 0, 1, 0, 1, 1, 1, 1] (counter_start [1, 1]) = Some s \<and> cn_num s = 2"
  using counter_exact [of "[1, 1]" Use_mutex "[0, 1, 0, 0, 1, 0, 1, 1, 1, 1]"]
  by (simp add: counter_step_def counter_start_def increase_def cn_goto_def add1_load_def add1_store_def INT_MAX_def left_def)

text \<open>Without the mutex both threads may read the same value, and one increment is lost.\<close>

lemma plain_loses_update:
  "\<exists>s. foldM (counter_step Plain) [0, 1, 0, 1] (counter_start [1, 1]) = Some s \<and> cn_pcs s = [Repeat 0, Repeat 0] \<and> cn_num s = 1"
  by (simp add: counter_step_def counter_start_def increase_def cn_goto_def add1_load_def add1_store_def INT_MAX_def)

section \<open>Exchanging two guarded objects\<close>

record guarded =
  gx_val :: int
  gx_locked :: bool

text \<open>
  \<^verbatim>\<open>std::lock\<close> on two mutexes of which one is locked does not come back before that one is unlocked, and never if the
  calling thread itself holds it: None.
\<close>

definition lock_both :: "nat \<Rightarrow> nat \<Rightarrow> (nat \<Rightarrow> guarded) \<Rightarrow> (nat \<Rightarrow> guarded) option" where
  "lock_both l r st =
     (if gx_locked (st l) \<or> gx_locked (st r) then None
      else Some (st(l := (st l)\<lparr>gx_locked := True\<rparr>, r := (st r)\<lparr>gx_locked := True\<rparr>)))"

definition unlock_both :: "nat \<Rightarrow> nat \<Rightarrow> (nat \<Rightarrow> guarded) \<Rightarrow> (nat \<Rightarrow> guarded)" where
  "unlock_both l r st = st(l := (st l)\<lparr>gx_locked := False\<rparr>, r := (st r)\<lparr>gx_locked := False\<rparr>)"

definition X_swap :: "nat \<Rightarrow> nat \<Rightarrow> (nat \<Rightarrow> guarded) \<Rightarrow> (nat \<Rightarrow> guarded) option" where
  "X_swap l r st =
     (if l = r then Some st
      else do {
        st \<leftarrow> lock_both l r st;
        Some (unlock_both l r (st(l := (st l)\<lparr>gx_val := gx_val (st r)\<rparr>, r := (st r)\<lparr>gx_val := gx_val (st l)\<rparr>))) })"

lemma X_swap_exchanges:
  assumes "\<not> gx_locked (st l)" "\<not> gx_locked (st r)"
  shows "X_swap l r st = Some (st(l := st r, r := st l))"
  using assms by (auto simp: X_swap_def lock_both_def unlock_both_def fun_eq_iff)

lemma X_swap_returns_iff: "(\<exists>st'. X_swap l r st = Some st') \<longleftrightarrow> l = r \<or> \<not> gx_locked (st l) \<and> \<not> gx_locked (st r)"
  by (auto simp: X_swap_def lock_both_def)

section \<open>Readers and writers\<close>

text \<open>
  \<^verbatim>\<open>f_read\<close> and \<^verbatim>\<open>f_write\<close>: both add to \<^verbatim>\<open>sh2\<close>, the first while it shares the lock. \<open>w t\<close> says that thread \<open>t\<close>
  runs \<^verbatim>\<open>f_write\<close>. The program starts six readers and three writers, so the sum stays far from the limits of an \<^verbatim>\<open>int\<close>.
\<close>

datatype rw_pc = Rw_start | Rw_in | Rw_got int | Rw_put | Rw_over

record rw =
  rw_sh2 :: int
  rw_shared :: "nat set"
  rw_unique :: "nat option"
  rw_pc :: "nat \<Rightarrow> rw_pc"
  rw_reads :: nat
  rw_writes :: nat

definition rw_init :: rw where
  "rw_init = \<lparr>rw_sh2 = 0, rw_shared = {}, rw_unique = None, rw_pc = (\<lambda>_. Rw_start), rw_reads = 0, rw_writes = 0\<rparr>"

definition f_read :: "nat \<Rightarrow> rw \<Rightarrow> rw" where
  "f_read t s =
     (case rw_pc s t of
        Rw_start \<Rightarrow> (if rw_unique s = None then s\<lparr>rw_shared := insert t (rw_shared s), rw_pc := (rw_pc s)(t := Rw_in)\<rparr> else s)
      | Rw_in \<Rightarrow> s\<lparr>rw_pc := (rw_pc s)(t := Rw_got (rw_sh2 s))\<rparr>
      | Rw_got v \<Rightarrow> s\<lparr>rw_sh2 := v + 2, rw_reads := Suc (rw_reads s), rw_pc := (rw_pc s)(t := Rw_put)\<rparr>
      | Rw_put \<Rightarrow> s\<lparr>rw_shared := rw_shared s - {t}, rw_pc := (rw_pc s)(t := Rw_over)\<rparr>
      | Rw_over \<Rightarrow> s)"

definition f_write :: "nat \<Rightarrow> rw \<Rightarrow> rw" where
  "f_write t s =
     (case rw_pc s t of
        Rw_start \<Rightarrow>
          (if rw_unique s = None \<and> rw_shared s = {} then s\<lparr>rw_unique := Some t, rw_pc := (rw_pc s)(t := Rw_in)\<rparr> else s)
      | Rw_in \<Rightarrow> s\<lparr>rw_pc := (rw_pc s)(t := Rw_got (rw_sh2 s))\<rparr>
      | Rw_got v \<Rightarrow> s\<lparr>rw_sh2 := v + 2000, rw_writes := Suc (rw_writes s), rw_pc := (rw_pc s)(t := Rw_put)\<rparr>
      | Rw_put \<Rightarrow> s\<lparr>rw_unique := None, rw_pc := (rw_pc s)(t := Rw_over)\<rparr>
      | Rw_over \<Rightarrow> s)"

inductive rw_step :: "(nat \<Rightarrow> bool) \<Rightarrow> rw \<Rightarrow> rw \<Rightarrow> bool" for w where
  reader: "\<not> w t \<Longrightarrow> rw_step w s (f_read t s)"
| writer: "w t \<Longrightarrow> rw_step w s (f_write t s)"

inductive_cases rw_stepE: "rw_step w s s'"

definition inside :: "rw_pc \<Rightarrow> bool" where
  "inside p \<longleftrightarrow> (case p of Rw_start \<Rightarrow> False | Rw_over \<Rightarrow> False | _ \<Rightarrow> True)"

text \<open>A sum in which every write counts and at most the given number of reads.\<close>

definition rw_sum :: "rw \<Rightarrow> int \<Rightarrow> bool" where
  "rw_sum s v \<longleftrightarrow> (\<exists>r \<le> rw_reads s. v = 2000 * int (rw_writes s) + 2 * int r)"

definition rw_inv :: "(nat \<Rightarrow> bool) \<Rightarrow> rw \<Rightarrow> bool" where
  "rw_inv w s \<longleftrightarrow> rw_shared s = {t. \<not> w t \<and> inside (rw_pc s t)} \<and> (\<forall>t. rw_unique s = Some t \<longleftrightarrow> w t \<and> inside (rw_pc s t)) \<and>
     (rw_unique s \<noteq> None \<longrightarrow> rw_shared s = {}) \<and> rw_sum s (rw_sh2 s) \<and>
     (\<forall>t v. rw_pc s t = Rw_got v \<longrightarrow> (if w t then v = rw_sh2 s else rw_sum s v))"

lemma rw_sum_read: "rw_sum s v \<Longrightarrow> rw_writes s' = rw_writes s \<Longrightarrow> rw_reads s' = Suc (rw_reads s) \<Longrightarrow> rw_sum s' (v + 2) \<and> rw_sum s' v"
  unfolding rw_sum_def by (auto intro: exI [of _ "Suc _"])

lemma rw_inv_read:
  assumes "rw_inv w s" "\<not> w t"
  shows "rw_inv w (f_read t s)"
proof (cases "rw_pc s t")
  case (Rw_got v)
  let ?s = "f_read t s"
  have s: "?s = s\<lparr>rw_sh2 := v + 2, rw_reads := Suc (rw_reads s), rw_pc := (rw_pc s)(t := Rw_put)\<rparr>" using Rw_got by (simp add: f_read_def)
  have "rw_sum s v" using assms Rw_got by (auto simp: rw_inv_def)
  then have "rw_sum ?s (v + 2)" using rw_sum_read [of s v ?s] by (simp add: s)
  moreover have "rw_sum ?s u" if "rw_sum s u" for u using rw_sum_read [OF that, of ?s] by (simp add: s)
  moreover have "t \<in> rw_shared s" "rw_unique s = None" using assms Rw_got by (auto simp: rw_inv_def inside_def)
  ultimately show ?thesis using assms Rw_got by (auto simp: rw_inv_def s inside_def split: if_splits)
qed (use assms in \<open>auto simp: rw_inv_def f_read_def inside_def rw_sum_def split: if_splits\<close>)

lemma rw_writer_alone:
  assumes "rw_inv w s" "w t" "inside (rw_pc s t)"
  shows "rw_unique s = Some t" "u \<noteq> t \<Longrightarrow> \<not> inside (rw_pc s u)"
proof -
  show t: "rw_unique s = Some t" using assms by (simp add: rw_inv_def)
  then have "rw_shared s = {}" "rw_unique s = Some u \<longleftrightarrow> w u \<and> inside (rw_pc s u)" using assms(1) unfolding rw_inv_def by auto
  then show "\<not> inside (rw_pc s u)" if "u \<noteq> t" using t that assms(1) by (cases "w u") (auto simp: rw_inv_def)
qed

lemma rw_inv_write:
  assumes "rw_inv w s" "w t"
  shows "rw_inv w (f_write t s)"
proof (cases "rw_pc s t")
  case (Rw_got v)
  have "rw_sum (f_write t s) (v + 2000)" using assms Rw_got by (auto simp: rw_inv_def f_write_def rw_sum_def algebra_simps)
  moreover have "rw_unique s = Some t" "\<And>u. u \<noteq> t \<Longrightarrow> \<not> inside (rw_pc s u)"
    using rw_writer_alone [OF assms] Rw_got by (simp_all add: inside_def)
  moreover have "rw_pc s u \<noteq> Rw_got x" if "u \<noteq> t" for u x using that calculation(3) by (force simp: inside_def)
  ultimately show ?thesis using assms Rw_got by (auto simp: rw_inv_def f_write_def inside_def)
next
  case Rw_put
  then have "rw_unique s = Some t" "\<And>u. u \<noteq> t \<Longrightarrow> \<not> inside (rw_pc s u)"
    using rw_writer_alone [OF assms] by (simp_all add: inside_def)
  moreover have "rw_pc s u \<noteq> Rw_got x" if "u \<noteq> t" for u x using that calculation(2) by (force simp: inside_def)
  moreover have "\<not> inside Rw_over" by (simp add: inside_def)
  ultimately show ?thesis using assms Rw_put by (auto simp: rw_inv_def f_write_def rw_sum_def)
qed (use assms in \<open>auto simp: rw_inv_def f_write_def inside_def rw_sum_def split: if_splits\<close>)

lemma rw_inv_reach: "(rw_step w)\<^sup>*\<^sup>* rw_init s \<Longrightarrow> rw_inv w s"
  by (erule rtranclp_invariant)
    (simp add: rw_inv_def rw_init_def inside_def rw_sum_def, auto elim!: rw_stepE intro: rw_inv_read rw_inv_write)

text \<open>
  Readers and writers. A thread that writes is alone inside of the lock, and no write is ever lost: in every reachable state the
  variable holds all finished writes. The updates that \<^verbatim>\<open>f_read\<close> makes under the shared lock are not safe: the
  variable holds at most as many as there were, and the second lemma loses one.
\<close>

lemma rw_lock_excludes:
  assumes "(rw_step w)\<^sup>*\<^sup>* rw_init s"
  shows "(w t \<longrightarrow> inside (rw_pc s t) \<longrightarrow> inside (rw_pc s u) \<longrightarrow> u = t) \<and>
    (\<exists>r\<le>rw_reads s. rw_sh2 s = 2000 * int (rw_writes s) + 2 * int r)"
proof -
  have inv: "rw_inv w s" by (rule rw_inv_reach [OF assms])
  then have "rw_sum s (rw_sh2 s)" by (simp add: rw_inv_def)
  then show ?thesis using rw_writer_alone(2) [OF inv, of t u] unfolding rw_sum_def by blast
qed

lemma shared_updates_lost:
  "\<exists>s. (rw_step (\<lambda>_. False))\<^sup>*\<^sup>* rw_init s \<and> rw_reads s = 2 \<and> rw_sh2 s = 2"
proof -
  let ?s = "f_read 1 (f_read 0 (f_read 1 (f_read 0 (f_read 1 (f_read 0 rw_init)))))"
  have step: "(rw_step (\<lambda>_. False))\<^sup>*\<^sup>* rw_init (f_read t s)" if "(rw_step (\<lambda>_. False))\<^sup>*\<^sup>* rw_init s" for s t
    using that rw_step.reader [of "\<lambda>_. False" t s] by (simp add: rtranclp.rtrancl_into_rtrancl)
  have "(rw_step (\<lambda>_. False))\<^sup>*\<^sup>* rw_init ?s" by (intro step) simp
  moreover have "rw_reads ?s = 2" "rw_sh2 ?s = 2" by (simp_all add: f_read_def rw_init_def)
  ultimately show ?thesis by blast
qed

section \<open>Lazy initialisation\<close>

text \<open>\<^verbatim>\<open>f7\<close>: the flag is tested, and tested again under the lock before the variable is set.\<close>

datatype f7_pc = F_test | F_lock | F_retest | F_set | F_flag | F_unlock | F_over

record lazy =
  lz_init :: bool
  lz_Aza :: int
  lz_owner :: "nat option"
  lz_pc :: "nat \<Rightarrow> f7_pc"
  lz_inits :: nat

definition lazy_start :: lazy where
  "lazy_start = \<lparr>lz_init = False, lz_Aza = 0, lz_owner = None, lz_pc = (\<lambda>_. F_test), lz_inits = 0\<rparr>"

definition lz_goto :: "nat \<Rightarrow> f7_pc \<Rightarrow> lazy \<Rightarrow> lazy" where
  "lz_goto t p s = s\<lparr>lz_pc := (lz_pc s)(t := p)\<rparr>"

definition f7 :: "nat \<Rightarrow> lazy \<Rightarrow> lazy" where
  "f7 t s =
     (case lz_pc s t of
        F_test \<Rightarrow> lz_goto t (if lz_init s then F_over else F_lock) s
      | F_lock \<Rightarrow> (if lz_owner s = None then lz_goto t F_retest (s\<lparr>lz_owner := Some t\<rparr>) else s)
      | F_retest \<Rightarrow> lz_goto t (if lz_init s then F_unlock else F_set) s
      | F_set \<Rightarrow> lz_goto t F_flag (s\<lparr>lz_Aza := 123, lz_inits := Suc (lz_inits s)\<rparr>)
      | F_flag \<Rightarrow> lz_goto t F_unlock (s\<lparr>lz_init := True\<rparr>)
      | F_unlock \<Rightarrow> lz_goto t F_over (s\<lparr>lz_owner := None\<rparr>)
      | F_over \<Rightarrow> s)"

inductive f7_step :: "lazy \<Rightarrow> lazy \<Rightarrow> bool" where
  f7_step: "f7_step s (f7 t s)"

definition holding :: "f7_pc \<Rightarrow> bool" where
  "holding p \<longleftrightarrow> p \<in> {F_retest, F_set, F_flag, F_unlock}"

definition lazy_inv :: "lazy \<Rightarrow> bool" where
  "lazy_inv s \<longleftrightarrow> (\<forall>t. lz_owner s = Some t \<longleftrightarrow> holding (lz_pc s t)) \<and>
     (\<forall>t. (lz_pc s t \<in> {F_unlock, F_over} \<longrightarrow> lz_init s) \<and> (lz_pc s t \<in> {F_set, F_flag} \<longrightarrow> \<not> lz_init s)) \<and>
     (if lz_init s \<or> (case lz_owner s of None \<Rightarrow> False | Some t \<Rightarrow> lz_pc s t = F_flag) then lz_Aza s = 123 \<and> lz_inits s = 1 else lz_inits s = 0)"

lemma lazy_inv_f7:
  assumes inv: "lazy_inv s"
  shows "lazy_inv (f7 t s)"
proof -
  have own: "lz_owner s = Some t \<longleftrightarrow> holding (lz_pc s t)" for t using inv by (simp add: lazy_inv_def)
  have others: "\<not> holding (lz_pc s u)" if "holding (lz_pc s t)" "u \<noteq> t" for u using own [of t] own [of u] that by simp
  have free: "\<not> holding (lz_pc s u)" if "lz_owner s = None" for u using own [of u] that by simp
  have tp: "(lz_pc s u \<in> {F_unlock, F_over} \<longrightarrow> lz_init s) \<and> (lz_pc s u \<in> {F_set, F_flag} \<longrightarrow> \<not> lz_init s)" for u
    using inv by (simp add: lazy_inv_def)
  have val: "if lz_init s \<or> (case lz_owner s of None \<Rightarrow> False | Some t \<Rightarrow> lz_pc s t = F_flag)
      then lz_Aza s = 123 \<and> lz_inits s = 1 else lz_inits s = 0"
    using inv by (simp add: lazy_inv_def)
  have A: "\<forall>u. lz_owner (f7 t s) = Some u \<longleftrightarrow> holding (lz_pc (f7 t s) u)"
    using own others free by (cases "lz_pc s t") (auto simp: f7_def lz_goto_def holding_def)
  have B: "(lz_pc (f7 t s) u \<in> {F_unlock, F_over} \<longrightarrow> lz_init (f7 t s)) \<and> (lz_pc (f7 t s) u \<in> {F_set, F_flag} \<longrightarrow> \<not> lz_init (f7 t s))" for u
    using tp [of u] tp [of t] others [of u] by (cases "lz_pc s t"; cases "u = t") (auto simp: f7_def lz_goto_def holding_def)
  have "lz_owner s = Some t" if "lz_pc s t \<in> {F_retest, F_set, F_flag, F_unlock}" using own [of t] that by (auto simp: holding_def)
  then have C: "if lz_init (f7 t s) \<or> (case lz_owner (f7 t s) of None \<Rightarrow> False | Some u \<Rightarrow> lz_pc (f7 t s) u = F_flag)
      then lz_Aza (f7 t s) = 123 \<and> lz_inits (f7 t s) = 1 else lz_inits (f7 t s) = 0"
    using val tp [of t] own [of t]
    by (cases "lz_pc s t") (auto simp: f7_def lz_goto_def holding_def split: if_splits option.splits)
  show ?thesis using A B C by (simp add: lazy_inv_def)
qed

lemma lazy_inv_reach: "f7_step\<^sup>*\<^sup>* lazy_start s \<Longrightarrow> lazy_inv s"
  by (erule rtranclp_invariant) (simp add: lazy_inv_def lazy_start_def holding_def, auto elim!: f7_step.cases intro: lazy_inv_f7)

text \<open>The variable is set once at most, and every thread that has returned from \<^verbatim>\<open>f7\<close> finds it set.\<close>

lemma f7_initialises_once:
  assumes "f7_step\<^sup>*\<^sup>* lazy_start s"
  shows "lz_inits s \<le> 1 \<and> (lz_pc s t = F_over \<longrightarrow> lz_init s \<and> lz_Aza s = 123)"
  using lazy_inv_reach [OF assms] by (auto simp: lazy_inv_def split: if_splits)

end
