(* ===== verification/Coordination.thy ===== *)
theory Coordination
  imports Locked_Containers
begin

text \<open>
  Programs in which threads wait for each other: the counting semaphore, the latch and the barrier of
  \<^verbatim>\<open>professional_cpp/src/ch27_concurrency/main.cpp\<close>, the producer and the consumer and the search that is stopped of
  \<^verbatim>\<open>tour_of_cpp/ch18_concurrency.cpp\<close>, and the published queue and the compare-exchange loop of
  \<^verbatim>\<open>cpp_concurrency_2nd/atomic_spinlock.cpp\<close>. One step is one access to shared state; a thread that has to wait stays where it is.
\<close>

section \<open>A counting semaphore\<close>

text \<open>\<^verbatim>\<open>semaphore_8\<close>: the places of the loop of a worker, of which \<^verbatim>\<open>atoi\<close> counts those between its two updates.\<close>

datatype sem_pc = S_acquire | S_enter | S_inside | S_release | S_check | S_over

record sem =
  sm_permits :: nat
  sm_atoi :: int
  sm_stop :: "nat \<Rightarrow> bool"
  sm_pcs :: "sem_pc list"

definition sem_start :: "nat \<Rightarrow> nat \<Rightarrow> sem" where
  "sem_start permits workers =
     \<lparr>sm_permits = permits, sm_atoi = 0, sm_stop = (\<lambda>_. False), sm_pcs = replicate workers S_acquire\<rparr>"

definition sm_goto :: "nat \<Rightarrow> sem_pc \<Rightarrow> sem \<Rightarrow> sem" where
  "sm_goto t p s = s\<lparr>sm_pcs := (sm_pcs s)[t := p]\<rparr>"

definition sem_worker :: "nat \<Rightarrow> sem \<Rightarrow> sem" where
  "sem_worker t s =
     (case sm_pcs s ! t of
        S_acquire \<Rightarrow> (if 0 < sm_permits s then sm_goto t S_enter (s\<lparr>sm_permits := sm_permits s - 1\<rparr>) else s)
      | S_enter \<Rightarrow> sm_goto t S_inside (s\<lparr>sm_atoi := sm_atoi s + 1\<rparr>)
      | S_inside \<Rightarrow> sm_goto t S_release (s\<lparr>sm_atoi := sm_atoi s - 1\<rparr>)
      | S_release \<Rightarrow> sm_goto t S_check (s\<lparr>sm_permits := sm_permits s + 1\<rparr>)
      | S_check \<Rightarrow> sm_goto t (if sm_stop s t then S_over else S_acquire) s
      | S_over \<Rightarrow> s)"

definition request_stop :: "nat \<Rightarrow> sem \<Rightarrow> sem" where
  "request_stop t s = s\<lparr>sm_stop := (sm_stop s)(t := True)\<rparr>"

inductive sem_step :: "sem \<Rightarrow> sem \<Rightarrow> bool" where
  worker: "t < length (sm_pcs s) \<Longrightarrow> sem_step s (sem_worker t s)"
| stop: "sem_step s (request_stop t s)"

inductive_cases sem_stepE: "sem_step s s'"

fun holds_permit :: "sem_pc \<Rightarrow> nat" where
  "holds_permit S_enter = 1"
| "holds_permit S_inside = 1"
| "holds_permit S_release = 1"
| "holds_permit _ = 0"

fun counted :: "sem_pc \<Rightarrow> nat" where
  "counted S_inside = 1"
| "counted _ = 0"

definition sem_inv :: "nat \<Rightarrow> nat \<Rightarrow> sem \<Rightarrow> bool" where
  "sem_inv n k s \<longleftrightarrow> length (sm_pcs s) = k \<and> sm_permits s + (\<Sum>p\<leftarrow>sm_pcs s. holds_permit p) = n \<and>
     sm_atoi s = int (\<Sum>p\<leftarrow>sm_pcs s. counted p)"

lemma sem_inv_worker:
  assumes inv: "sem_inv n k s" and t: "t < length (sm_pcs s)"
  shows "sem_inv n k (sem_worker t s)"
proof -
  note upd = sum_list_map_update [OF t, of holds_permit] sum_list_map_update [OF t, of counted]
    and ge = sum_list_map_ge [OF t, of holds_permit] sum_list_map_ge [OF t, of counted]
  show ?thesis
  proof (cases "sm_pcs s ! t")
    case S_acquire
    then show ?thesis using inv upd(1) [of S_enter] upd(2) [of S_enter] ge
      by (auto simp: sem_inv_def sem_worker_def sm_goto_def)
  next
    case S_enter
    then show ?thesis using inv upd(1) [of S_inside] upd(2) [of S_inside] ge
      by (auto simp: sem_inv_def sem_worker_def sm_goto_def)
  next
    case S_inside
    then show ?thesis using inv upd(1) [of S_release] upd(2) [of S_release] ge
      by (auto simp: sem_inv_def sem_worker_def sm_goto_def)
  next
    case S_release
    then show ?thesis using inv upd(1) [of S_check] upd(2) [of S_check] ge
      by (auto simp: sem_inv_def sem_worker_def sm_goto_def)
  next
    case S_check
    then show ?thesis using inv upd(1) [of S_acquire] upd(2) [of S_acquire] upd(1) [of S_over] upd(2) [of S_over] ge
      by (auto simp: sem_inv_def sem_worker_def sm_goto_def)
  qed (use inv in \<open>simp add: sem_worker_def\<close>)
qed

lemma sem_inv_stop: "sem_inv n k s \<Longrightarrow> sem_inv n k (request_stop t s)"
  by (simp add: sem_inv_def request_stop_def)

lemma sem_inv_reach: "sem_step\<^sup>*\<^sup>* (sem_start n k) s \<Longrightarrow> sem_inv n k s"
  by (erule rtranclp_invariant)
    (simp add: sem_inv_def sem_start_def sum_list_replicate,
     auto elim!: sem_stepE intro: sem_inv_worker sem_inv_stop)

lemma counted_le: "counted p \<le> holds_permit p"
  by (cases p) auto

text \<open>
  At most as many workers as there are permits are between the two operations of the semaphore, the counter is the number of
  those that are counted, and a worker only waits while all permits are in use by workers that can go on.
\<close>

lemma semaphore_bounds:
  assumes "sem_step\<^sup>*\<^sup>* (sem_start n k) s"
  shows "(\<Sum>p\<leftarrow>sm_pcs s. holds_permit p) \<le> n \<and> 0 \<le> sm_atoi s \<and> sm_atoi s \<le> int n \<and>
    (sm_permits s = 0 \<longrightarrow> (\<Sum>p\<leftarrow>sm_pcs s. holds_permit p) = n)"
proof -
  have inv: "sem_inv n k s" by (rule sem_inv_reach [OF assms])
  have "(\<Sum>p\<leftarrow>sm_pcs s. counted p) \<le> (\<Sum>p\<leftarrow>sm_pcs s. holds_permit p)"
    by (intro sum_list_mono counted_le)
  then show ?thesis using inv unfolding sem_inv_def by linarith
qed

section \<open>A barrier\<close>

text \<open>\<^verbatim>\<open>barrier_7\<close>: the last of \<open>n\<close> threads to arrive runs the completion function and begins the next phase.\<close>

datatype barrier_pc = B_start | B_wait nat | B_over

record barrier =
  br_pending :: nat
  br_phase :: nat
  br_completions :: nat
  br_pcs :: "barrier_pc list"

definition barrier_start :: "nat \<Rightarrow> nat \<Rightarrow> barrier" where
  "barrier_start n m = \<lparr>br_pending = n, br_phase = 0, br_completions = 0, br_pcs = replicate m B_start\<rparr>"

definition arrive_and_wait :: "nat \<Rightarrow> nat \<Rightarrow> barrier \<Rightarrow> barrier" where
  "arrive_and_wait n t s =
     (case br_pcs s ! t of
        B_start \<Rightarrow>
          (if br_pending s = 1
           then s\<lparr>br_completions := Suc (br_completions s), br_phase := Suc (br_phase s), br_pending := n, br_pcs := (br_pcs s)[t := B_over]\<rparr>
           else s\<lparr>br_pending := br_pending s - 1, br_pcs := (br_pcs s)[t := B_wait (br_phase s)]\<rparr>)
      | B_wait p \<Rightarrow> (if br_phase s = p then s else s\<lparr>br_pcs := (br_pcs s)[t := B_over]\<rparr>)
      | B_over \<Rightarrow> s)"

inductive barrier_step :: "nat \<Rightarrow> barrier \<Rightarrow> barrier \<Rightarrow> bool" for n where
  arrive: "t < length (br_pcs s) \<Longrightarrow> barrier_step n s (arrive_and_wait n t s)"

fun not_arrived :: "barrier_pc \<Rightarrow> nat" where
  "not_arrived B_start = 1"
| "not_arrived _ = 0"

fun waits :: "nat \<Rightarrow> barrier_pc \<Rightarrow> nat" where
  "waits ph (B_wait p) = of_bool (p = ph)"
| "waits ph _ = 0"

lemma not_arrived_0 [simp]: "not_arrived p = 0 \<longleftrightarrow> p \<noteq> B_start"
  by (cases p) auto

lemma waits_0 [simp]: "waits ph p = 0 \<longleftrightarrow> p \<noteq> B_wait ph"
  by (cases p) auto

definition barrier_inv :: "nat \<Rightarrow> nat \<Rightarrow> barrier \<Rightarrow> bool" where
  "barrier_inv n m s \<longleftrightarrow> length (br_pcs s) = m \<and> 0 < br_pending s \<and> br_pending s \<le> n \<and> br_completions s = br_phase s \<and>
     (\<Sum>p\<leftarrow>br_pcs s. not_arrived p) + n * br_phase s + n = m + br_pending s \<and>
     (\<Sum>p\<leftarrow>br_pcs s. waits (br_phase s) p) + br_pending s = n \<and>
     (\<forall>t<m. \<forall>p. br_pcs s ! t = B_wait p \<longrightarrow> p \<le> br_phase s)"

lemma waits_none: "\<forall>t<length ps. \<forall>p. ps ! t = B_wait p \<longrightarrow> p < q \<Longrightarrow> (\<Sum>p\<leftarrow>ps. waits q p) = 0"
  by (fastforce simp: in_set_conv_nth)

lemma barrier_inv_arrive:
  assumes inv: "barrier_inv n m s" and t: "t < length (br_pcs s)"
  shows "barrier_inv n m (arrive_and_wait n t s)"
proof -
  note upd = sum_list_map_update [OF t, of not_arrived] sum_list_map_update [OF t, of "waits (br_phase s)"]
  show ?thesis
  proof (cases "br_pcs s ! t")
    case B_start
    show ?thesis
    proof (cases "br_pending s = 1")
      case True
      let ?ps = "(br_pcs s)[t := B_over]"
      have old: "p < Suc (br_phase s)" if "u < length ?ps" "?ps ! u = B_wait p" for u p
        using inv that by (cases "u = t") (auto simp: barrier_inv_def less_Suc_eq_le)
      then have "(\<Sum>p\<leftarrow>?ps. waits (Suc (br_phase s)) p) = 0" by (intro waits_none) blast
      moreover have "?ps ! u = B_wait p \<longrightarrow> p \<le> Suc (br_phase s)" if "u < m" for u p
        using old [of u p] inv that by (auto simp: barrier_inv_def)
      ultimately show ?thesis using inv True B_start upd(1) [of B_over]
        by (auto simp: barrier_inv_def arrive_and_wait_def )
    next
      case False
      have "(br_pcs s)[t := B_wait (br_phase s)] ! u = B_wait p \<longrightarrow> p \<le> br_phase s" if "u < m" for u p
        using inv that by (cases "u = t") (auto simp: barrier_inv_def)
      then show ?thesis using inv False B_start upd(1) [of "B_wait (br_phase s)"] upd(2) [of "B_wait (br_phase s)"]
        by (auto simp: barrier_inv_def arrive_and_wait_def)
    qed
  next
    case (B_wait p)
    have "(br_pcs s)[t := B_over] ! u = B_wait q \<longrightarrow> q \<le> br_phase s" if "u < m" for u q
      using inv that by (cases "u = t") (auto simp: barrier_inv_def)
    then show ?thesis using inv B_wait upd(1) [of B_over] upd(2) [of B_over]
      by (auto simp: barrier_inv_def arrive_and_wait_def)
  qed (use inv in \<open>simp add: arrive_and_wait_def\<close>)
qed

lemma barrier_inv_reach: "0 < n \<Longrightarrow> (barrier_step n)\<^sup>*\<^sup>* (barrier_start n m) s \<Longrightarrow> barrier_inv n m s"
  by (erule rtranclp_invariant)
    (simp add: barrier_inv_def barrier_start_def sum_list_replicate,
     auto elim!: barrier_step.cases intro: barrier_inv_arrive)

text \<open>
  When the number of threads is a multiple of the size of the barrier (six and two in the program) and all of them have
  arrived, every phase was completed and no thread waits for ever: each waiting thread leaves with its next step.
\<close>

lemma barrier_all_leave:
  assumes reach: "(barrier_step n)\<^sup>*\<^sup>* (barrier_start n m) s" and n: "0 < n" "n dvd m"
    and arrived: "\<forall>t<m. br_pcs s ! t \<noteq> B_start" and t: "t < m"
  shows "br_completions s = m div n \<and> br_pcs (arrive_and_wait n t s) ! t = B_over"
proof -
  have inv: "barrier_inv n m s" by (rule barrier_inv_reach [OF n(1) reach])
  have "(\<Sum>p\<leftarrow>br_pcs s. not_arrived p) = 0" using arrived inv by (fastforce simp: barrier_inv_def  in_set_conv_nth)
  then have eq: "n * br_phase s + n = m + br_pending s" using inv unfolding barrier_inv_def by linarith
  then have "n dvd br_pending s" using n(2) by (metis dvd_add_right_iff dvd_triv_left mult_Suc_right add.commute)
  moreover have bp: "0 < br_pending s" "br_pending s \<le> n" using inv by (auto simp: barrier_inv_def)
  ultimately have pend: "br_pending s = n" by (simp add: dvd_imp_le le_antisym)
  then have "(\<Sum>p\<leftarrow>br_pcs s. waits (br_phase s) p) = 0" using inv by (simp add: barrier_inv_def)
  then have "br_pcs s ! t \<noteq> B_wait (br_phase s)"
    using t inv by (auto simp: barrier_inv_def  in_set_conv_nth)
  then have "br_pcs (arrive_and_wait n t s) ! t = B_over"
    using arrived t inv by (cases "br_pcs s ! t") (auto simp: arrive_and_wait_def barrier_inv_def)
  moreover have "m div n = br_phase s" using eq pend n(1) by (metis add_right_cancel nonzero_mult_div_cancel_left not_gr_zero)
  ultimately show ?thesis using inv by (simp add: barrier_inv_def)
qed

section \<open>A latch\<close>

text \<open>
  \<^verbatim>\<open>latch_6\<close>: one thread counts the latch down and waits, the main thread counts it down \<open>downs\<close> times (twice in the program), and
  other threads only wait. To count down a latch that is at zero is not allowed: None.
\<close>

datatype latch_pc = La_start | La_wait | La_over

datatype latch_act = T1 | Main_down | Waiter nat

record latch =
  la_count :: nat
  la_t1 :: latch_pc
  la_downs :: nat
  la_passed :: "nat set"

definition latch_start :: "nat \<Rightarrow> nat \<Rightarrow> latch" where
  "latch_start n downs = \<lparr>la_count = n, la_t1 = La_start, la_downs = downs, la_passed = {}\<rparr>"

definition latch_count_down :: "latch \<Rightarrow> latch option" where
  "latch_count_down s = (if la_count s = 0 then None else Some (s\<lparr>la_count := la_count s - 1\<rparr>))"

fun latch_next :: "latch_act \<Rightarrow> latch \<Rightarrow> latch option" where
  "latch_next T1 s =
     (case la_t1 s of
        La_start \<Rightarrow> map_option (\<lambda>s. s\<lparr>la_t1 := La_wait\<rparr>) (latch_count_down s)
      | La_wait \<Rightarrow> Some (if la_count s = 0 then s\<lparr>la_t1 := La_over\<rparr> else s)
      | La_over \<Rightarrow> Some s)"
| "latch_next Main_down s =
     (case la_downs s of 0 \<Rightarrow> Some s | Suc d \<Rightarrow> map_option (\<lambda>s. s\<lparr>la_downs := d\<rparr>) (latch_count_down s))"
| "latch_next (Waiter i) s = Some (if la_count s = 0 then s\<lparr>la_passed := insert i (la_passed s)\<rparr> else s)"

definition latch_ok :: "nat \<Rightarrow> nat \<Rightarrow> latch \<Rightarrow> bool" where
  "latch_ok n downs s \<longleftrightarrow> la_downs s \<le> downs \<and> la_count s + of_bool (la_t1 s \<noteq> La_start) + (downs - la_downs s) = n \<and>
     (la_passed s \<noteq> {} \<or> la_t1 s = La_over \<longrightarrow> la_count s = 0)"

definition latch_below :: "latch_act \<Rightarrow> latch \<Rightarrow> bool" where
  "latch_below a s \<longleftrightarrow> la_count s = 0 \<and> (case a of T1 \<Rightarrow> la_t1 s = La_start | Main_down \<Rightarrow> 0 < la_downs s | Waiter _ \<Rightarrow> False)"

interpretation la: machine latch_next "latch_start n downs" "latch_ok n downs" latch_below
proof
  fix s a
  assume "latch_ok n downs s" "\<not> latch_below a s"
  then show "\<exists>s'. latch_next a s = Some s' \<and> latch_ok n downs s'"
    by (cases a; cases "la_t1 s"; cases "la_downs s") (auto simp: latch_ok_def latch_below_def latch_count_down_def)
next
  fix a s
  assume "latch_below a s"
  then show "latch_next a s = None"
    by (cases a; cases "la_downs s") (auto simp: latch_below_def latch_count_down_def)
qed (simp add: latch_ok_def latch_start_def)

text \<open>
  With as many counts as the latch expects no schedule is undefined, nobody passes early, and once all have counted everybody
  passes with the next step. The further count that the comment in the source tries is undefined.
\<close>

lemma latch_opens:
  assumes "n = downs + 1"
  shows "\<exists>s. foldM latch_next acts (latch_start n downs) = Some s \<and>
    (la_passed s \<noteq> {} \<or> la_t1 s = La_over \<longrightarrow> la_count s = 0) \<and>
    (la_t1 s \<noteq> La_start \<and> la_downs s = 0 \<longleftrightarrow> la_count s = 0)"
proof -
  have "\<not> latch_below a s" if "latch_ok n downs s" for a s
    using that assms by (cases "la_t1 s = La_start") (auto simp: latch_ok_def latch_below_def split: latch_act.splits)
  then obtain s where "foldM latch_next acts (latch_start n downs) = Some s" "latch_ok n downs s"
    using la.run_or_bad [of acts n downs] by metis
  then show ?thesis using assms by (intro exI [of _ s]) (cases "la_t1 s = La_start"; auto simp: latch_ok_def)
qed

lemma latch_overrun: "foldM latch_next [T1, Main_down, Main_down, Main_down] (latch_start 3 3) = None"
  by (simp add: latch_start_def latch_count_down_def eval_nat_numeral)

section \<open>Producer and consumer\<close>

text \<open>
  \<^verbatim>\<open>produce\<close> and \<^verbatim>\<open>consume\<close> on a queue with a condition variable, which is the queue of \<^verbatim>\<open>Locked_Containers\<close>:
  the producer pushes under the lock and notifies, the consumer (thread \<open>0\<close>) waits until the queue is not empty and takes the front.
  Both count down; the producer pushes the counter after it was decremented.
\<close>

record transfer =
  tr_que :: "int ts_queue"
  tr_produce :: nat
  tr_consume :: nat

definition transfer_start :: "nat \<Rightarrow> nat \<Rightarrow> transfer" where
  "transfer_start p c = \<lparr>tr_que = ts_queue_new, tr_produce = p, tr_consume = c\<rparr>"

definition produce :: "transfer \<Rightarrow> transfer" where
  "produce s =
     (case tr_produce s of
        0 \<Rightarrow> s
      | Suc cnt \<Rightarrow>
          s\<lparr>tr_produce := cnt, tr_que := tq_push (int cnt) (if 0 \<in> tq_waiting (tr_que s) then Some 0 else None) (tr_que s)\<rparr>)"

definition consume :: "transfer \<Rightarrow> transfer" where
  "consume s =
     (case tr_consume s of
        0 \<Rightarrow> s
      | Suc cnt \<Rightarrow>
          (if 0 \<in> tq_waiting (tr_que s) then s
           else case wait_and_pop 0 (tr_que s) of
                  (None, q) \<Rightarrow> s\<lparr>tr_que := q\<rparr>
                | (Some m, q) \<Rightarrow> s\<lparr>tr_que := q, tr_consume := cnt\<rparr>))"

definition wake_up :: "transfer \<Rightarrow> transfer" where
  "wake_up s = (if 0 \<in> tq_waiting (tr_que s) then s\<lparr>tr_que := notify 0 (tr_que s)\<rparr> else s)"

datatype transfer_act = Produce | Consume | Wake_up

fun transfer_next :: "transfer_act \<Rightarrow> transfer \<Rightarrow> transfer" where
  "transfer_next Produce s = produce s"
| "transfer_next Consume s = consume s"
| "transfer_next Wake_up s = wake_up s"

text \<open>The values that a producer with so many turns pushes before it has \<open>k\<close> left.\<close>

definition countdown :: "nat \<Rightarrow> nat \<Rightarrow> int list" where
  "countdown p k = rev (map int [k..<p])"

definition transfer_inv :: "nat \<Rightarrow> nat \<Rightarrow> transfer \<Rightarrow> bool" where
  "transfer_inv p c s \<longleftrightarrow> tq_inv (tr_que s) \<and> tq_waiting (tr_que s) \<union> tq_woken (tr_que s) \<subseteq> {0} \<and> tr_produce s \<le> p \<and>
     tq_pushed (tr_que s) = countdown p (tr_produce s) \<and> length (tq_popped (tr_que s)) + tr_consume s = c"

lemma countdown_step: "Suc k \<le> p \<Longrightarrow> countdown p k = countdown p (Suc k) @ [int k]"
  by (simp add: countdown_def upt_rec [of k])

lemma length_countdown [simp]: "length (countdown p k) = p - k"
  by (simp add: countdown_def)

lemma produce_inv:
  assumes inv: "transfer_inv p c s"
  shows "transfer_inv p c (produce s)"
proof (cases "tr_produce s")
  case (Suc k)
  let ?w = "if 0 \<in> tq_waiting (tr_que s) then Some 0 else None"
  have "may_notify ?w (tr_que s)" using inv by (auto simp: transfer_inv_def may_notify_def)
  then have "tq_inv (tq_push (int k) ?w (tr_que s))" using inv by (intro tq_inv_push) (auto simp: transfer_inv_def)
  then show ?thesis using inv Suc countdown_step [of k p]
    by (auto simp: transfer_inv_def produce_def tq_push_def notify_def)
qed (use inv in \<open>simp add: produce_def\<close>)

lemma consume_inv:
  assumes inv: "transfer_inv p c s"
  shows "transfer_inv p c (consume s)"
proof (cases "tr_consume s = 0 \<or> 0 \<in> tq_waiting (tr_que s)")
  case False
  then obtain k where k: "tr_consume s = Suc k" by (cases "tr_consume s") auto
  obtain r q where rq: "wait_and_pop 0 (tr_que s) = (r, q)" by force
  have "tq_inv q" using tq_inv_wait [of "tr_que s" 0] inv False rq by (auto simp: transfer_inv_def)
  moreover have "tq_waiting q \<union> tq_woken q \<subseteq> {0} \<and> tq_pushed q = tq_pushed (tr_que s) \<and>
      length (tq_popped q) = length (tq_popped (tr_que s)) + (if r = None then 0 else 1)"
    using rq inv by (auto simp: wait_and_pop_def take_front_def transfer_inv_def Let_def split: if_splits list.splits)
  ultimately show ?thesis using inv False k rq by (auto simp: transfer_inv_def consume_def split: option.splits)
qed (use inv in \<open>auto simp: consume_def split: nat.splits\<close>)

lemma wake_up_inv: "transfer_inv p c s \<Longrightarrow> transfer_inv p c (wake_up s)"
  using tq_inv_notify [of "tr_que s" 0] by (auto simp: transfer_inv_def wake_up_def notify_def)

lemma transfer_next_inv: "transfer_inv p c s \<Longrightarrow> transfer_inv p c (transfer_next a s)"
  by (cases a) (simp_all add: produce_inv consume_inv wake_up_inv)

lemma transfer_run_inv: "transfer_inv p c (fold transfer_next acts (transfer_start p c))"
proof -
  have "transfer_inv p c s \<Longrightarrow> transfer_inv p c (fold transfer_next acts s)" for s
    by (induction acts arbitrary: s) (simp_all add: transfer_next_inv)
  moreover have "transfer_inv p c (transfer_start p c)"
    by (simp add: transfer_inv_def transfer_start_def ts_queue_new_def tq_inv_def countdown_def)
  ultimately show ?thesis by blast
qed

lemma consumer_not_stuck:
  assumes inv: "transfer_inv p c s" and c: "c \<le> p" "0 < tr_consume s" "tr_produce s = 0"
  shows "0 \<notin> tq_waiting (tr_que s) \<and> tr_consume (consume s) < tr_consume s"
proof -
  let ?q = "tr_que s"
  have q: "tq_pushed ?q = map snd (tq_popped ?q) @ tq_que ?q" using inv by (simp add: transfer_inv_def tq_inv_def)
  have "length (tq_popped ?q) < p" "length (tq_pushed ?q) = p" using inv c by (auto simp: transfer_inv_def)
  then have ne: "tq_que ?q \<noteq> []" using q by auto
  have "0 \<notin> tq_waiting ?q"
  proof
    assume w: "0 \<in> tq_waiting ?q"
    then have "tq_woken ?q = {}" using inv by (auto simp: transfer_inv_def tq_inv_def)
    moreover have "length (tq_que ?q) \<le> card (tq_woken ?q)" using inv w by (auto simp: transfer_inv_def tq_inv_def)
    ultimately show False using ne by simp
  qed
  moreover obtain k where "tr_consume s = Suc k" using c by (cases "tr_consume s") auto
  ultimately show ?thesis using ne by (auto simp: consume_def wait_and_pop_def take_front_def Let_def split: list.splits)
qed

text \<open>
  C25. The producer and the consumer. Under every order of their steps and of spurious wake-ups, the consumer takes the
  numbers in the order in which they are produced, none twice and none left out; when it has finished its turns it has
  the first of them. If it has not more turns than the producer it never hangs: once the producer is through, the consumer
  is not waiting and each of its steps takes a number.
\<close>

theorem transfer_complete:
  assumes "s = fold transfer_next acts (transfer_start p c)"
  shows "countdown p (tr_produce s) = map snd (tq_popped (tr_que s)) @ tq_que (tr_que s) \<and>
    (tr_consume s = 0 \<longrightarrow> map snd (tq_popped (tr_que s)) = take c (countdown p (tr_produce s))) \<and>
    (c \<le> p \<and> tr_produce s = 0 \<and> 0 < tr_consume s \<longrightarrow>
       0 \<notin> tq_waiting (tr_que s) \<and> tr_consume (consume s) < tr_consume s)"
proof -
  have inv: "transfer_inv p c s" using transfer_run_inv assms by simp
  then have eq: "countdown p (tr_produce s) = map snd (tq_popped (tr_que s)) @ tq_que (tr_que s)"
    unfolding transfer_inv_def tq_inv_def by metis
  moreover have "length (tq_popped (tr_que s)) = c" if "tr_consume s = 0" using inv that by (simp add: transfer_inv_def)
  ultimately show ?thesis using consumer_not_stuck [OF inv] by (auto simp: eq)
qed

theorem transfer_complete_witness:
  "(let s = fold transfer_next [Consume, Produce, Consume, Produce, Produce] (transfer_start 3 2)
    in tq_popped (tr_que s) = [(0, 2)] \<and> tr_consume s = 1 \<and> tr_consume (consume s) < 1)"
proof -
  define s where "s = fold transfer_next [Consume, Produce, Consume, Produce, Produce] (transfer_start 3 2)"
  have "tr_produce s = 0 \<and> tr_consume s = 1 \<and> tq_popped (tr_que s) = [(0, 2)]"
    by (simp add: s_def transfer_start_def consume_def produce_def wait_and_pop_def ts_queue_new_def tq_push_def notify_def
        take_front_def eval_nat_numeral)
  with transfer_complete [OF s_def] show ?thesis unfolding s_def [symmetric] by simp
qed

section \<open>A search that is stopped\<close>

text \<open>
  \<^verbatim>\<open>f_stop_other\<close>: two threads run \<^verbatim>\<open>find\<close> over the two halves of a vector, and the main thread polls \<^verbatim>\<open>res_idx\<close>
  and then requests both to stop. A finder stands at a position, or has returned.
\<close>

datatype half = Lower | Upper

record search =
  se_res_idx :: int
  se_stop :: bool
  se_pos :: "half \<Rightarrow> nat option"
  se_main_over :: bool

definition range_first :: "'a list \<Rightarrow> half \<Rightarrow> nat" where
  "range_first vi h = (if h = Upper then length vi div 2 else 0)"

definition search_start :: "'a list \<Rightarrow> search" where
  "search_start vi = \<lparr>se_res_idx = -1, se_stop = False, se_pos = (\<lambda>h. Some (range_first vi h)), se_main_over = False\<rparr>"

definition range_last :: "'a list \<Rightarrow> half \<Rightarrow> nat" where
  "range_last vi h = (if h = Upper then length vi else length vi div 2)"

definition finder :: "'a list \<Rightarrow> 'a \<Rightarrow> half \<Rightarrow> search \<Rightarrow> search" where
  "finder vi key h s =
     (case se_pos s h of
        None \<Rightarrow> s
      | Some p \<Rightarrow>
          (if p = range_last vi h \<or> se_stop s then s\<lparr>se_pos := (se_pos s)(h := None)\<rparr>
           else if key = vi ! p then s\<lparr>se_res_idx := int p, se_pos := (se_pos s)(h := None)\<rparr>
           else s\<lparr>se_pos := (se_pos s)(h := Some (Suc p))\<rparr>))"

definition poll_result :: "search \<Rightarrow> search" where
  "poll_result s = (if se_res_idx s = -1 then s else s\<lparr>se_stop := True, se_main_over := True\<rparr>)"

inductive search_step :: "'a list \<Rightarrow> 'a \<Rightarrow> search \<Rightarrow> search \<Rightarrow> bool" for vi key where
  finder: "search_step vi key s (finder vi key h s)"
| main: "search_step vi key s (poll_result s)"

inductive_cases search_stepE: "search_step vi key s s'"

definition finder_ok :: "'a list \<Rightarrow> 'a \<Rightarrow> half \<Rightarrow> nat option \<Rightarrow> int \<Rightarrow> bool" where
  "finder_ok vi key h pos res \<longleftrightarrow>
     (case pos of
        Some p \<Rightarrow> range_first vi h \<le> p \<and> p \<le> range_last vi h \<and> (\<forall>i\<in>{range_first vi h..<p}. vi ! i \<noteq> key)
      | None \<Rightarrow> res \<noteq> -1 \<or> (\<forall>i\<in>{range_first vi h..<range_last vi h}. vi ! i \<noteq> key))"

lemma finder_ok_mono: "finder_ok vi key h pos res \<Longrightarrow> res' = res \<or> res' \<noteq> -1 \<Longrightarrow> finder_ok vi key h pos res'"
  by (auto simp: finder_ok_def split: option.splits)

definition search_inv :: "'a list \<Rightarrow> 'a \<Rightarrow> search \<Rightarrow> bool" where
  "search_inv vi key s \<longleftrightarrow>
     (se_res_idx s = -1 \<or> (\<exists>i<length vi. se_res_idx s = int i \<and> vi ! i = key)) \<and>
     (se_stop s \<or> se_main_over s \<longrightarrow> se_res_idx s \<noteq> -1) \<and> (\<forall>h. finder_ok vi key h (se_pos s h) (se_res_idx s))"

lemma search_inv_finder:
  assumes inv: "search_inv vi key s"
  shows "search_inv vi key (finder vi key h s)"
proof (cases "se_pos s h")
  case (Some p)
  have ok: "finder_ok vi key g (se_pos s g) (se_res_idx s)" for g using inv by (simp add: search_inv_def)
  have p: "range_first vi h \<le> p" "p \<le> range_last vi h" "\<forall>i\<in>{range_first vi h..<p}. vi ! i \<noteq> key"
    using ok [of h] Some by (auto simp: finder_ok_def)
  have last: "range_last vi h \<le> length vi" by (simp add: range_last_def)
  consider "p = range_last vi h \<or> se_stop s" | "p \<noteq> range_last vi h" "\<not> se_stop s" "key = vi ! p"
    | "p \<noteq> range_last vi h" "\<not> se_stop s" "key \<noteq> vi ! p" by blast
  then show ?thesis
  proof cases
    case 1
    have "se_stop s \<longrightarrow> se_res_idx s \<noteq> -1" using inv by (simp add: search_inv_def)
    then have "finder_ok vi key h None (se_res_idx s)" using p 1 by (auto simp: finder_ok_def)
    then show ?thesis using inv Some 1 ok by (simp add: search_inv_def finder_def)
  next
    case 2
    then have "p < length vi" using p last by simp
    moreover have "finder_ok vi key h None (int p)" by (simp add: finder_ok_def)
    moreover have "finder_ok vi key g (se_pos s g) (int p)" for g by (rule finder_ok_mono [OF ok]) simp
    ultimately show ?thesis using inv Some 2 by (auto simp: search_inv_def finder_def)
  next
    case 3
    have "\<forall>i\<in>{range_first vi h..<Suc p}. vi ! i \<noteq> key" using p(3) 3(3) by (auto simp: less_Suc_eq)
    then have "finder_ok vi key h (Some (Suc p)) (se_res_idx s)" using p 3 by (simp add: finder_ok_def)
    then show ?thesis using inv Some 3 ok by (simp add: search_inv_def finder_def)
  qed
qed (use inv in \<open>simp add: finder_def\<close>)

lemma search_inv_poll: "search_inv vi key s \<Longrightarrow> search_inv vi key (poll_result s)"
  by (auto simp: search_inv_def poll_result_def finder_ok_def split: option.splits)

lemma search_inv_reach: "(search_step vi key)\<^sup>*\<^sup>* (search_start vi) s \<Longrightarrow> search_inv vi key s"
  by (erule rtranclp_invariant)
    (simp add: search_inv_def finder_ok_def search_start_def range_first_def range_last_def,
     auto elim!: search_stepE intro: search_inv_finder search_inv_poll)

text \<open>
  The main thread ends only with the index of an occurrence of the key. When the key occurs and both finders have returned, the
  next poll ends the main thread; when the key does not occur, the main thread polls for ever.
\<close>

lemma stop_other_finds:
  assumes "(search_step vi key)\<^sup>*\<^sup>* (search_start vi) s"
  shows "(se_main_over s \<longrightarrow> (\<exists>i<length vi. se_res_idx s = int i \<and> vi ! i = key)) \<and>
    (key \<in> set vi \<and> se_pos s Lower = None \<and> se_pos s Upper = None \<longrightarrow> se_main_over (poll_result s))"
proof -
  have inv: "search_inv vi key s" by (rule search_inv_reach [OF assms])
  have "se_res_idx s \<noteq> -1" if key: "key \<in> set vi" and over: "se_pos s Lower = None" "se_pos s Upper = None"
  proof
    assume n: "se_res_idx s = -1"
    obtain i where i: "i < length vi" "vi ! i = key" using key by (auto simp: in_set_conv_nth)
    have "\<forall>i\<in>{range_first vi h..<range_last vi h}. vi ! i \<noteq> key" for h
    proof -
      have "finder_ok vi key h (se_pos s h) (se_res_idx s)" using inv by (simp add: search_inv_def)
      moreover have "se_pos s h = None" using over by (cases h) simp_all
      ultimately show ?thesis using n by (simp add: finder_ok_def)
    qed
    from this [of "if length vi div 2 \<le> i then Upper else Lower"] show False using i by (auto simp: range_first_def range_last_def split: if_splits)
  qed
  then show ?thesis using inv by (auto simp: search_inv_def poll_result_def)
qed

lemma stop_other_hangs:
  assumes "(search_step vi key)\<^sup>*\<^sup>* (search_start vi) s" "key \<notin> set vi"
  shows "\<not> se_main_over s"
  using search_inv_reach [OF assms(1)] assms(2) by (auto simp: search_inv_def)

section \<open>A published queue\<close>

text \<open>
  \<^verbatim>\<open>test_publish_consume_queue\<close>: the provider fills a vector and stores its last index into \<^verbatim>\<open>cnt\<close>; each consumer takes
  the next index with \<^verbatim>\<open>fetch_sub\<close>, which wraps around, and processes it if it is positive.
\<close>

record published =
  pb_cnt :: int
  pb_processed :: "(nat \<times> int) list"

definition published_start :: published where
  "published_start = \<lparr>pb_cnt = -1, pb_processed = []\<rparr>"

definition publish :: "published \<Rightarrow> published" where
  "publish s = s\<lparr>pb_cnt := 9\<rparr>"

definition take_index :: "nat \<Rightarrow> published \<Rightarrow> published" where
  "take_index t s =
     (let idx = pb_cnt s; s = s\<lparr>pb_cnt := int32 (pb_cnt s - 1)\<rparr>
      in if idx \<le> 0 then s else s\<lparr>pb_processed := pb_processed s @ [(t, idx)]\<rparr>)"

definition publish_run :: "nat list \<Rightarrow> nat list \<Rightarrow> published" where
  "publish_run before after = fold take_index after (publish (fold take_index before published_start))"

lemma before_publish:
  "length ts < 2 ^ 31 \<Longrightarrow> fold take_index ts published_start = \<lparr>pb_cnt = -1 - int (length ts), pb_processed = []\<rparr>"
proof (induction ts rule: rev_induct)
  case (snoc t ts)
  have "int32 (-1 - int (length ts) - 1) = -1 - int (length ts) - 1" using snoc.prems by (intro int32_id) auto
  then show ?case using snoc by (simp add: take_index_def)
qed (simp add: published_start_def)

lemma after_publish:
  assumes "length ts < 2 ^ 31"
  shows "pb_cnt (fold take_index ts \<lparr>pb_cnt = 9, pb_processed = []\<rparr>) = 9 - int (length ts) \<and>
    map snd (pb_processed (fold take_index ts \<lparr>pb_cnt = 9, pb_processed = []\<rparr>)) = map (\<lambda>i. 9 - int i) [0..<min 9 (length ts)]"
  using assms
proof (induction ts rule: rev_induct)
  case (snoc t ts)
  have i: "int32 (9 - int (length ts) - 1) = 9 - int (length ts) - 1" using snoc.prems by (intro int32_id) auto
  show ?case
  proof (cases "length ts < 9")
    case True
    then have "min 9 (length ts) = length ts" "min 9 (length (ts @ [t])) = Suc (length ts)" by simp_all
    then show ?thesis using snoc i True by (simp add: take_index_def del: min.bounded_iff)
  next
    case False
    then show ?thesis using snoc i by (simp add: take_index_def)
  qed
qed simp

text \<open>
  Whoever comes when: in every order, with fewer than \<open>2 ^ 31\<close> attempts, each of the indices 9 to 1 is processed once, in this
  order and at most so far as there were attempts. The first element of the vector, index 0, is never processed.
\<close>

lemma published_indices:
  assumes "length before < 2 ^ 31" "length after < 2 ^ 31"
  shows "map snd (pb_processed (publish_run before after)) = map (\<lambda>i. 9 - int i) [0..<min 9 (length after)]"
  using after_publish [OF assms(2)] by (simp add: publish_run_def before_publish [OF assms(1)] publish_def)

lemma published_skips_first:
  assumes "length before < 2 ^ 31" "length after < 2 ^ 31"
  shows "0 \<notin> snd ` set (pb_processed (publish_run before after))"
proof -
  have "snd ` set (pb_processed (publish_run before after)) = set (map (\<lambda>i. 9 - int i) [0..<min 9 (length after)])"
    by (simp only: published_indices [OF assms, symmetric] set_map)
  then show ?thesis by auto
qed

section \<open>A compare-exchange loop\<close>

text \<open>
  \<^verbatim>\<open>test_atomic_bool\<close>. \<^verbatim>\<open>compare_exchange_weak\<close> writes the value that it found into \<^verbatim>\<open>exp\<close> when it fails, and it may fail
  without a reason (\<open>spurious\<close>). The other thread tries once to change \<^verbatim>\<open>extb\<close> from false to true; the loop goes on until
  it has changed it back.
\<close>

definition compare_exchange :: "bool \<Rightarrow> bool \<Rightarrow> bool \<Rightarrow> bool \<Rightarrow> bool \<times> bool \<times> bool" where
  "compare_exchange spurious expected desired val =
     (if val = expected \<and> \<not> spurious then (True, expected, desired) else (False, val, val))"

record cas_loop =
  cl_extb :: bool
  cl_exp :: bool
  cl_inner_over :: bool
  cl_over :: bool

definition cas_start :: cas_loop where
  "cas_start = \<lparr>cl_extb = False, cl_exp = True, cl_inner_over = False, cl_over = False\<rparr>"

definition inner_thread :: "bool \<Rightarrow> cas_loop \<Rightarrow> cas_loop" where
  "inner_thread spurious s =
     (if cl_inner_over s then s
      else s\<lparr>cl_inner_over := True, cl_extb := snd (snd (compare_exchange spurious False True (cl_extb s)))\<rparr>)"

definition cas_turn :: "bool \<Rightarrow> cas_loop \<Rightarrow> cas_loop" where
  "cas_turn spurious s =
     (if cl_over s then s
      else case compare_exchange spurious (cl_exp s) False (cl_extb s) of
             (ok, exp, val) \<Rightarrow> s\<lparr>cl_exp := exp, cl_extb := val, cl_over := ok \<and> exp\<rparr>)"

datatype cas_act = Inner bool | Turn bool

fun cas_next :: "cas_act \<Rightarrow> cas_loop \<Rightarrow> cas_loop" where
  "cas_next (Inner b) s = inner_thread b s"
| "cas_next (Turn b) s = cas_turn b s"

definition cas_inv :: "cas_loop \<Rightarrow> bool" where
  "cas_inv s \<longleftrightarrow> (cl_extb s \<or> cl_over s \<longrightarrow> cl_inner_over s) \<and> (cl_over s \<longrightarrow> \<not> cl_extb s)"

lemma cas_inv_next: "cas_inv s \<Longrightarrow> cas_inv (cas_next a s)"
  by (cases a) (auto simp: cas_inv_def inner_thread_def cas_turn_def compare_exchange_def)

text \<open>The loop ends only after the other thread has run, and leaves the flag false; two undisturbed turns after the flag was set are enough.\<close>

lemma cas_loop_ends:
  "cl_over (fold cas_next acts cas_start) \<Longrightarrow>
     cl_inner_over (fold cas_next acts cas_start) \<and> \<not> cl_extb (fold cas_next acts cas_start)"
proof -
  have "cas_inv s \<Longrightarrow> cas_inv (fold cas_next acts s)" for s by (induction acts arbitrary: s) (simp_all add: cas_inv_next)
  moreover have "cas_inv cas_start" by (simp add: cas_inv_def cas_start_def)
  ultimately show "cl_over (fold cas_next acts cas_start) \<Longrightarrow>
     cl_inner_over (fold cas_next acts cas_start) \<and> \<not> cl_extb (fold cas_next acts cas_start)" unfolding cas_inv_def by blast
qed

lemma cas_loop_progress: "cl_extb s \<Longrightarrow> \<not> cl_over s \<Longrightarrow> cl_over (cas_turn False (cas_turn False s))"
  by (auto simp: cas_turn_def compare_exchange_def)

text \<open>The other thread does not repeat a failed exchange: if it fails once without a reason, the loop never ends.\<close>

lemma cas_loop_hangs: "\<not> cl_over (fold cas_next (Inner True # acts) cas_start)"
proof -
  have "cl_inner_over s \<and> \<not> cl_extb s \<and> \<not> cl_over s \<Longrightarrow>
    cl_inner_over (fold cas_next acts s) \<and> \<not> cl_extb (fold cas_next acts s) \<and> \<not> cl_over (fold cas_next acts s)" for s
  proof (induction acts arbitrary: s)
    case (Cons a acts)
    have "cl_inner_over (cas_next a s) \<and> \<not> cl_extb (cas_next a s) \<and> \<not> cl_over (cas_next a s)"
      using Cons.prems by (cases a) (auto simp: inner_thread_def cas_turn_def compare_exchange_def)
    then show ?case using Cons.IH by simp
  qed simp
  then show ?thesis by (simp add: cas_start_def inner_thread_def compare_exchange_def)
qed

end
