(* ===== verification/Text_Cipher.thy ===== *)
theory Text_Cipher
  imports Prelude
begin

text \<open>
  The encryption of texts (\<^verbatim>\<open>encrypt_decrypt/main.cpp\<close>, class \<^verbatim>\<open>EnDecrypt\<close>) and the example that it was made from
  (\<^verbatim>\<open>encrypt_decrypt/Evp-symmetric-encrypt.c\<close>). OpenSSL is a parameter: what its calls write and whether they succeed. A call writes its
  output at a position of a buffer; None is a write outside of the buffer or, in the C program, an abort. Texts are shorter than
  \<open>2 ^ 30\<close> bytes, so that the conversions of their doubled sizes to \<^verbatim>\<open>int\<close> change nothing.
\<close>

section \<open>OpenSSL\<close>

datatype evp_call = Enc_init | Enc_update | Enc_final | Dec_init | Dec_update

text \<open>
  \<open>evp_rc\<close>: the call returns 1. The other functions give the bytes that a call writes for a key, an initialisation vector and the
  whole input; the last call of a decryption fails (None) when the padding is wrong.
\<close>

record evp =
  evp_rc :: "evp_call \<Rightarrow> bool"
  enc_update :: "string \<Rightarrow> string \<Rightarrow> string \<Rightarrow> string"
  enc_final :: "string \<Rightarrow> string \<Rightarrow> string \<Rightarrow> string"
  dec_update :: "string \<Rightarrow> string \<Rightarrow> string \<Rightarrow> string"
  dec_final :: "string \<Rightarrow> string \<Rightarrow> string \<Rightarrow> string option"

text \<open>
  What the manual says of AES in CBC mode with padding: the first call of an encryption writes the whole blocks and the last one
  block more; the first call of a decryption writes at most one block more than it read, and the last one at most one block; a
  decryption inverts the encryption with the same key.
\<close>

definition evp_ok :: "evp \<Rightarrow> bool" where
  "evp_ok ev \<longleftrightarrow>
     (\<forall>k v p. length (enc_update ev k v p) = 16 * (length p div 16) \<and> length (enc_final ev k v p) = 16) \<and>
     (\<forall>k v c. length (dec_update ev k v c) \<le> length c + 16) \<and>
     (\<forall>k v c x. dec_final ev k v c = Some x \<longrightarrow> length x \<le> 16) \<and>
     (\<forall>k v p. let c = enc_update ev k v p @ enc_final ev k v p
              in \<exists>x. dec_final ev k v c = Some x \<and> dec_update ev k v c @ x = p)"

section \<open>The class\<close>

definition str_resize :: "nat \<Rightarrow> string \<Rightarrow> string" where
  "str_resize n s = take n s @ replicate (n - length s) (CHR 0x00)"

text \<open>
  The object keeps a pointer to its key. \<open>memory\<close> gives the strings that are alive, by address. The constructor gets its
  parameter by value, at an address \<open>a\<close>; it stores the pointer, and the parameter is destroyed when it returns.
\<close>

type_synonym memory = "nat \<rightharpoonup> string"

record EnDecrypt =
  ed_key :: nat

definition EnDecrypt_new :: "nat \<Rightarrow> string \<Rightarrow> memory \<Rightarrow> EnDecrypt \<times> memory" where
  "EnDecrypt_new a key2 mem =
     (let mem = mem(a \<mapsto> key2);
          ed = \<lparr>ed_key = a\<rparr>
      in (ed, mem(a := None)))"

text \<open>AES-256 reads 32 bytes at the pointer: outside of what is alive there, or of the string with its final null byte, None.\<close>

definition read_key :: "memory \<Rightarrow> nat \<Rightarrow> string option" where
  "read_key mem a =
     (case mem a of
        None \<Rightarrow> None
      | Some k \<Rightarrow> if 32 \<le> length k + 1 then Some (take 32 (k @ [CHR 0x00])) else None)"

definition encrypt :: "evp \<Rightarrow> memory \<Rightarrow> EnDecrypt \<Rightarrow> string \<Rightarrow> string \<Rightarrow> string option" where
  "encrypt ev mem ed iv ptext = do {
     key \<leftarrow> read_key mem (ed_key ed);
     if \<not> evp_rc ev Enc_init then Some ''''
     else let ctext = str_resize (length ptext * 2) '''' in
       if \<not> evp_rc ev Enc_update then Some ''''
       else do {
         let out1 = enc_update ev key iv ptext;
         ctext \<leftarrow> copy_in out1 0 ctext;
         if \<not> evp_rc ev Enc_final then Some ''''
         else do {
           let out2 = enc_final ev key iv ptext;
           ctext \<leftarrow> copy_in out2 (length out1) ctext;
           Some (str_resize (length out1 + length out2) ctext) } } }"

definition decrypt :: "evp \<Rightarrow> memory \<Rightarrow> EnDecrypt \<Rightarrow> string \<Rightarrow> string \<Rightarrow> string option" where
  "decrypt ev mem ed iv ctext = do {
     key \<leftarrow> read_key mem (ed_key ed);
     if \<not> evp_rc ev Dec_init then Some ''''
     else let ptext = str_resize (length ctext * 2) '''' in
       if \<not> evp_rc ev Dec_update then Some ''''
       else do {
         let out1 = dec_update ev key iv ctext;
         ptext \<leftarrow> copy_in out1 0 ptext;
         case dec_final ev key iv ctext of
           None \<Rightarrow> Some ''''
         | Some out2 \<Rightarrow> do {
             ptext \<leftarrow> copy_in out2 (length out1) ptext;
             Some (str_resize (length out1 + length out2) ptext) } } }"

lemma evp_okD:
  assumes "evp_ok ev"
  shows "length (enc_update ev k v p) = 16 * (length p div 16)" "length (enc_final ev k v p) = 16"
    "length (dec_update ev k v c) \<le> length c + 16"
    "dec_final ev k v c = Some x \<Longrightarrow> length x \<le> 16"
    "\<exists>x. dec_final ev k v (enc_update ev k v p @ enc_final ev k v p) = Some x \<and>
       dec_update ev k v (enc_update ev k v p @ enc_final ev k v p) @ x = p"
  using assms by (auto simp: evp_ok_def Let_def)

lemma length_resize [simp]: "length (str_resize n s) = n"
  by (simp add: str_resize_def)

text \<open>Two writes, one after the other, into a buffer that has room for both.\<close>

lemma copy_two:
  "length a + length b \<le> length buf \<Longrightarrow>
     \<exists>b1 b2. copy_in a 0 buf = Some b1 \<and> copy_in b (length a) b1 = Some b2 \<and> str_resize (length a + length b) b2 = a @ b"
  by (auto simp: copy_in_def str_resize_def)

lemma copy_two_overflow:
  "length buf < length a + length b \<Longrightarrow> copy_in a 0 buf = Some b1 \<Longrightarrow> copy_in b (length a) b1 = None"
  by (auto simp: copy_in_def split: if_splits)

lemma block_room: "16 * (n div 16) + 16 \<le> n * 2 \<longleftrightarrow> 8 \<le> n" for n :: nat
proof -
  have "16 * (n div 16) + n mod 16 = n" by simp
  then show ?thesis by (cases "n div 16") linarith+
qed

lemma encrypt_fits:
  assumes ok: "evp_ok ev" and rc: "\<forall>c. evp_rc ev c" and n: "8 \<le> length p" and key: "read_key mem (ed_key ed) = Some k"
  shows "encrypt ev mem ed v p = Some (enc_update ev k v p @ enc_final ev k v p)"
proof -
  have "length (enc_update ev k v p) + length (enc_final ev k v p) \<le> length (str_resize (length p * 2) '''')"
    using evp_okD(1,2) [OF ok, of k v p] n by (simp add: block_room)
  from copy_two [OF this] show ?thesis using rc key by (auto simp: encrypt_def Let_def)
qed

text \<open>
  The buffer of an encryption is twice as long as the text, but the output of a short text is a whole block: exactly the texts of less
  than 8 bytes are written over the end of the buffer.
\<close>

lemma encrypt_overflows_iff:
  assumes ok: "evp_ok ev" and rc: "\<forall>c. evp_rc ev c" and key: "read_key mem (ed_key ed) = Some k"
  shows "encrypt ev mem ed v p = None \<longleftrightarrow> length p < 8"
proof (cases "8 \<le> length p")
  case False
  then have "length (str_resize (length p * 2) '''') < length (enc_update ev k v p) + length (enc_final ev k v p)"
    using evp_okD(1,2) [OF ok, of k v p] block_room [of "length p"] by simp
  then have "copy_in (enc_final ev k v p) (length (enc_update ev k v p)) b1 = None"
    if "copy_in (enc_update ev k v p) 0 (str_resize (length p * 2) '''') = Some b1" for b1
    using that copy_two_overflow by blast
  then show ?thesis using False rc key
    by (cases "copy_in (enc_update ev k v p) 0 (str_resize (length p * 2) '''')") (simp_all add: encrypt_def Let_def)
qed (simp add: encrypt_fits [OF ok rc _ key])

text \<open>An input of two blocks or more leaves the room in the buffer that a decryption may need.\<close>

lemma decrypt_safe:
  assumes ok: "evp_ok ev" and n: "32 \<le> length c" and key: "read_key mem (ed_key ed) = Some k"
  shows "\<exists>p. decrypt ev mem ed v c = Some p"
proof (cases "evp_rc ev Dec_init \<and> evp_rc ev Dec_update")
  case rc: True
  let ?buf = "str_resize (length c * 2) ''''"
  have "length (dec_update ev k v c) \<le> length ?buf" using evp_okD(3) [OF ok, of k v c] n by simp
  then obtain b1 where b1: "copy_in (dec_update ev k v c) 0 ?buf = Some b1" by (auto simp: copy_in_def)
  show ?thesis
  proof (cases "dec_final ev k v c")
    case None
    then show ?thesis using rc b1 key by (simp add: decrypt_def Let_def)
  next
    case (Some x)
    have "length (dec_update ev k v c) + length x \<le> length ?buf"
      using evp_okD(3) [OF ok, of k v c] evp_okD(4) [OF ok Some] n by simp
    from copy_two [OF this] b1 show ?thesis using rc Some key by (auto simp: decrypt_def Let_def)
  qed
qed (use key in \<open>auto simp: decrypt_def Let_def\<close>)

lemma decrypt_encrypted:
  assumes ok: "evp_ok ev" and rc: "\<forall>c. evp_rc ev c" and key: "read_key mem (ed_key ed) = Some k"
  shows "decrypt ev mem ed v (enc_update ev k v p @ enc_final ev k v p) = Some p"
proof -
  let ?c = "enc_update ev k v p @ enc_final ev k v p"
  obtain x where x: "dec_final ev k v ?c = Some x" "dec_update ev k v ?c @ x = p" using evp_okD(5) [OF ok] by blast
  have p: "length (dec_update ev k v ?c) + length x = length p" using x(2) by (metis length_append)
  have "length p = 16 * (length p div 16) + length p mod 16" by simp
  then have "length p \<le> length ?c"
    using evp_okD(1,2) [OF ok, of k v p] mod_less_divisor [of 16 "length p"] by simp
  then have "length (dec_update ev k v ?c) + length x \<le> length (str_resize (length ?c * 2) '''')" using p by simp
  from copy_two [OF this] show ?thesis using rc x key by (auto simp: decrypt_def Let_def)
qed

text \<open>The pointer that the constructor leaves is dangling: no call on the object reads a key that is alive.\<close>

lemma new_key_dangles:
  assumes "EnDecrypt_new a key2 mem = (ed, mem')"
  shows "read_key mem' (ed_key ed) = None"
  using assms by (auto simp: EnDecrypt_new_def read_key_def Let_def)

text \<open>
  C35. The round trip. When the 32 bytes at the object's key pointer can be read, a text of at least 8 bytes is encrypted
  without leaving the buffer, into whole blocks, and decrypting the result gives the text back, again within the buffer; and any
  input of at least 32 bytes can be given to the decryption without leaving its buffer, within the output sizes
  that the manual allows. But an object that the constructor has just built has a dangling pointer: both operations on it,
  whatever the text, read memory that is gone.
\<close>

theorem cipher_roundtrip:
  assumes ok: "evp_ok ev" and rc: "\<forall>c. evp_rc ev c"
  shows "(read_key mem (ed_key ed) \<noteq> None \<longrightarrow>
      (8 \<le> length p \<longrightarrow> (\<exists>c. encrypt ev mem ed iv p = Some c \<and> length c = 16 * (length p div 16 + 1) \<and>
         decrypt ev mem ed iv c = Some p)) \<and>
      (32 \<le> length d \<longrightarrow> (\<exists>q. decrypt ev mem ed iv d = Some q))) \<and>
    (EnDecrypt_new a keytext mem = (ed', mem') \<longrightarrow>
      encrypt ev mem' ed' iv p = None \<and> decrypt ev mem' ed' iv d = None)"
proof (intro conjI impI)
  assume "read_key mem (ed_key ed) \<noteq> None"
  then obtain k where k: "read_key mem (ed_key ed) = Some k" by blast
  show "\<exists>c. encrypt ev mem ed iv p = Some c \<and> length c = 16 * (length p div 16 + 1) \<and> decrypt ev mem ed iv c = Some p"
    if "8 \<le> length p"
    using encrypt_fits [OF ok rc that k] decrypt_encrypted [OF ok rc k] evp_okD(1,2) [OF ok, of k iv p] by auto
  show "\<exists>q. decrypt ev mem ed iv d = Some q" if "32 \<le> length d" using decrypt_safe [OF ok that k] .
next
  assume "EnDecrypt_new a keytext mem = (ed', mem')"
  from new_key_dangles [OF this] show "encrypt ev mem' ed' iv p = None" "decrypt ev mem' ed' iv d = None"
    by (simp_all add: encrypt_def decrypt_def)
qed

text \<open>A cipher that only pads: the last byte of the text is the number of bytes added.\<close>

definition pad_evp :: evp where
  "pad_evp = \<lparr>evp_rc = (\<lambda>_. True),
     enc_update = (\<lambda>_ _ p. take (16 * (length p div 16)) p),
     enc_final = (\<lambda>_ _ p. drop (16 * (length p div 16)) p @ replicate (16 - length p mod 16) (char_of (16 - length p mod 16))),
     dec_update = (\<lambda>_ _ c. take (length c - 16) c),
     dec_final = (\<lambda>_ _ c. if c = [] then None
        else let n = of_char (last c) in
          if 16 \<le> length c \<and> n \<le> 16 then Some (take (16 - n) (drop (length c - 16) c)) else None)\<rparr>"

lemma pad_evp_ok: "evp_ok pad_evp"
proof -
  have inv: "\<exists>x. dec_final pad_evp k v c = Some x \<and> dec_update pad_evp k v c @ x = p"
    if c: "c = enc_update pad_evp k v p @ enc_final pad_evp k v p" for k v p c
  proof -
    let ?m = "length p mod 16" and ?d = "16 * (length p div 16)"
    have dm: "?d + ?m = length p" "?m < 16" by simp_all
    have c': "c = p @ replicate (16 - ?m) (char_of (16 - ?m))" unfolding c pad_evp_def by (simp add: append_assoc [symmetric])
    have "length c = length p + (16 - ?m)" by (simp add: c')
    then have len: "length c = ?d + 16" using dm by linarith
    have "c \<noteq> []" "last c = char_of (16 - ?m)" using dm by (simp_all add: c')
    moreover have "of_char (char_of (16 - ?m) :: char) = 16 - ?m" by simp
    moreover have "length (drop ?d p) = ?m" using dm(1) by (metis add_diff_cancel_left' length_drop)
    then have "take (16 - (16 - ?m)) (drop ?d c) = drop ?d p" using dm by (simp add: c')
    moreover have "take ?d c = take ?d p" using dm by (simp add: c')
    ultimately show ?thesis using len by (simp add: pad_evp_def Let_def)
  qed
  show ?thesis unfolding evp_ok_def Let_def
  proof (intro conjI allI impI)
    fix k v p
    show "length (enc_update pad_evp k v p) = 16 * (length p div 16)" by (simp add: pad_evp_def)
    show "length (enc_final pad_evp k v p) = 16" by (simp add: pad_evp_def minus_mult_div_eq_mod)
  qed (use inv in \<open>auto simp: pad_evp_def Let_def split: if_splits\<close>)
qed

theorem cipher_roundtrip_witness:
  "(\<exists>c. encrypt pad_evp [5 \<mapsto> replicate 32 (CHR ''k'')] \<lparr>ed_key = 5\<rparr> ''iv'' ''qwe#asd^123'' = Some c \<and> length c = 16 \<and>
      decrypt pad_evp [5 \<mapsto> replicate 32 (CHR ''k'')] \<lparr>ed_key = 5\<rparr> ''iv'' c = Some ''qwe#asd^123'') \<and>
   encrypt pad_evp (snd (EnDecrypt_new 5 ''asd123@@3dasd'' Map.empty)) (fst (EnDecrypt_new 5 ''asd123@@3dasd'' Map.empty))
     ''iv'' ''qwe#asd^123'' = None"
proof -
  have rc: "\<forall>c. evp_rc pad_evp c" by (simp add: pad_evp_def)
  have key: "read_key [5 \<mapsto> replicate 32 (CHR ''k'')] (ed_key \<lparr>ed_key = 5\<rparr>) \<noteq> None" by (simp add: read_key_def)
  show ?thesis
    using cipher_roundtrip [OF pad_evp_ok rc, where mem = "[5 \<mapsto> replicate 32 (CHR ''k'')]" and ed = "\<lparr>ed_key = 5\<rparr>"
        and p = "''qwe#asd^123''" and iv = "''iv''" and d = "[]" and a = 5 and keytext = "''asd123@@3dasd''"
        and ed' = "fst (EnDecrypt_new 5 ''asd123@@3dasd'' Map.empty)" and mem' = "snd (EnDecrypt_new 5 ''asd123@@3dasd'' Map.empty)"]
      cipher_roundtrip [OF pad_evp_ok rc, where mem = Map.empty and ed = "\<lparr>ed_key = 5\<rparr>"
        and p = "''qwe#asd^123''" and iv = "''iv''" and d = "[]" and a = 5 and keytext = "''asd123@@3dasd''"
        and ed' = "fst (EnDecrypt_new 5 ''asd123@@3dasd'' Map.empty)" and mem' = "snd (EnDecrypt_new 5 ''asd123@@3dasd'' Map.empty)"]
      key by auto
qed

text \<open>
  Below one block the doubled input is less room than the manual asks for: with a library that uses what it may, a
  decryption of a shorter input leaves the buffer.
\<close>

definition greedy_evp :: evp where
  "greedy_evp = pad_evp\<lparr>dec_update := (\<lambda>k v c. if length c < 16 then replicate (length c + 16) (CHR 0x00) else dec_update pad_evp k v c)\<rparr>"

lemma decrypt_short_unsafe:
  "evp_ok greedy_evp \<and> (\<forall>c. evp_rc greedy_evp c) \<and>
   (length c < 16 \<longrightarrow> decrypt greedy_evp mem ed iv c = None)"
proof (intro conjI allI impI)
  have len: "16 \<le> length (enc_update pad_evp k v p @ enc_final pad_evp k v p)" for k v p
    using evp_okD(2) [OF pad_evp_ok, of k v p] by simp
  show "evp_ok greedy_evp"
    using pad_evp_ok len unfolding evp_ok_def greedy_evp_def Let_def by (auto simp: not_less [symmetric] simp del: length_append)
  show "evp_rc greedy_evp c" for c by (simp add: greedy_evp_def pad_evp_def)
  show "decrypt greedy_evp mem ed iv c = None" if "length c < 16"
    using that by (cases "read_key mem (ed_key ed)") (simp_all add: decrypt_def greedy_evp_def pad_evp_def copy_in_def)
qed

section \<open>The C example\<close>

text \<open>The caller provides the buffer; an error of a call aborts the program.\<close>

definition c_encrypt :: "evp \<Rightarrow> string \<Rightarrow> string \<Rightarrow> string \<Rightarrow> string \<Rightarrow> (string \<times> nat) option" where
  "c_encrypt ev plaintext key iv ciphertext =
     (if \<not> evp_rc ev Enc_init \<or> \<not> evp_rc ev Enc_update then None
      else do {
        let out1 = enc_update ev key iv plaintext;
        ciphertext \<leftarrow> copy_in out1 0 ciphertext;
        if \<not> evp_rc ev Enc_final then None
        else do {
          let out2 = enc_final ev key iv plaintext;
          ciphertext \<leftarrow> copy_in out2 (length out1) ciphertext;
          Some (ciphertext, length out1 + length out2) } })"

definition c_decrypt :: "evp \<Rightarrow> string \<Rightarrow> string \<Rightarrow> string \<Rightarrow> string \<Rightarrow> (string \<times> nat) option" where
  "c_decrypt ev ciphertext key iv plaintext =
     (if \<not> evp_rc ev Dec_init \<or> \<not> evp_rc ev Dec_update then None
      else do {
        let out1 = dec_update ev key iv ciphertext;
        plaintext \<leftarrow> copy_in out1 0 plaintext;
        out2 \<leftarrow> dec_final ev key iv ciphertext;
        plaintext \<leftarrow> copy_in out2 (length out1) plaintext;
        Some (plaintext, length out1 + length out2) })"

text \<open>The main function for any text: the text that it prints. The buffers hold arbitrary bytes before.\<close>

definition c_main :: "evp \<Rightarrow> string \<Rightarrow> string \<Rightarrow> string \<Rightarrow> string \<Rightarrow> string \<Rightarrow> string option" where
  "c_main ev plaintext key iv cbuf pbuf =
     do {
       (cbuf, n) \<leftarrow> c_encrypt ev plaintext key iv cbuf;
       (pbuf, m) \<leftarrow> c_decrypt ev (take n cbuf) key iv pbuf;
       if m < length pbuf then Some (takeWhile (\<lambda>c. c \<noteq> CHR 0x00) (pbuf[m := CHR 0x00])) else None }"

lemma copy_two_take:
  assumes "length a + length b \<le> length buf"
  shows "\<exists>b1 b2. copy_in a 0 buf = Some b1 \<and> copy_in b (length a) b1 = Some b2 \<and> take (length a + length b) b2 = a @ b \<and> length b2 = length buf"
  using assms by (auto simp: copy_in_def)

lemma print_terminated:
  assumes "take m buf = p" "m < length buf" "CHR 0x00 \<notin> set p"
  shows "takeWhile (\<lambda>c. c \<noteq> CHR 0x00) (buf[m := CHR 0x00]) = p"
proof -
  have "buf[m := CHR 0x00] = p @ CHR 0x00 # drop (Suc m) buf" using assms(1,2) by (simp add: upd_conv_take_nth_drop)
  moreover have "\<forall>x\<in>set p. x \<noteq> CHR 0x00" using assms(3) by auto
  ultimately show ?thesis by (simp add: takeWhile_append2)
qed

text \<open>A text without zero bytes that leaves room for its padding in the buffers of 128 bytes is printed as it was.\<close>

lemma c_main_prints:
  assumes ok: "evp_ok ev" and rc: "\<forall>c. evp_rc ev c" and len: "length plaintext < 112" "length cbuf = 128" "length pbuf = 128"
    and nul: "CHR 0x00 \<notin> set plaintext"
  shows "c_main ev plaintext key iv cbuf pbuf = Some plaintext"
proof -
  let ?a = "enc_update ev key iv plaintext" and ?b = "enc_final ev key iv plaintext"
  have l: "length ?a + length ?b \<le> length cbuf" using evp_okD(1,2) [OF ok, of key iv plaintext] len by simp
  from copy_two_take [OF l] obtain cb where cb: "c_encrypt ev plaintext key iv cbuf = Some (cb, length ?a + length ?b)"
    "take (length ?a + length ?b) cb = ?a @ ?b" using rc by (auto simp: c_encrypt_def Let_def)
  obtain x where x: "dec_final ev key iv (?a @ ?b) = Some x" "dec_update ev key iv (?a @ ?b) @ x = plaintext"
    using evp_okD(5) [OF ok] by blast
  let ?u = "dec_update ev key iv (?a @ ?b)"
  have m: "length ?u + length x = length plaintext" using x(2) by (metis length_append)
  then have "length ?u + length x \<le> length pbuf" using len by simp
  from copy_two_take [OF this] obtain pb where pb: "c_decrypt ev (?a @ ?b) key iv pbuf = Some (pb, length plaintext)"
    "take (length plaintext) pb = plaintext" "length pb = 128"
    using rc x m len by (auto simp: c_decrypt_def Let_def)
  show ?thesis using cb pb len print_terminated [OF pb(2)] nul by (simp add: c_main_def)
qed

section \<open>The file\<close>

text \<open>
  \<^verbatim>\<open>test_file\<close>: three texts are written encrypted, each after a line with its name and followed by a line end; byte 5 of the
  second one is overwritten by a carriage return. The file is then read back line by line into a map.
\<close>

definition entry_name :: "nat \<Rightarrow> string" where
  "entry_name i = ''miaoshu'' @ dec_nat i"

definition damage :: "nat \<Rightarrow> string \<Rightarrow> string option" where
  "damage i c = (if i = 1 then if 5 < length c then Some (c[5 := CR]) else None else Some c)"

definition write_entry :: "evp \<Rightarrow> memory \<Rightarrow> EnDecrypt \<Rightarrow> string \<Rightarrow> nat \<times> string \<Rightarrow> string \<Rightarrow> string option" where
  "write_entry ev mem ed iv e file =
     do {
       c \<leftarrow> encrypt ev mem ed iv (snd e);
       c \<leftarrow> damage (fst e) c;
       Some (file @ entry_name (fst e) @ [LF] @ c @ [LF]) }"

definition write_file :: "evp \<Rightarrow> memory \<Rightarrow> EnDecrypt \<Rightarrow> string \<Rightarrow> string list \<Rightarrow> string option" where
  "write_file ev mem ed iv arr = foldM (write_entry ev mem ed iv) (enumerate 0 arr) ''''"

definition get_line :: "string \<Rightarrow> string \<times> string" where
  "get_line f = (takeWhile (\<lambda>c. c \<noteq> LF) f, drop 1 (dropWhile (\<lambda>c. c \<noteq> LF) f))"

fun read_file :: "nat \<Rightarrow> string \<Rightarrow> (string \<rightharpoonup> string) \<Rightarrow> (string \<rightharpoonup> string)" where
  "read_file 0 f m = m"
| "read_file (Suc n) f m = (let (asd, f) = get_line f; (vvv, f) = get_line f in read_file n f (m(asd \<mapsto> vvv)))"

lemma get_line_line [simp]: "LF \<notin> set l \<Longrightarrow> get_line (l @ LF # rest) = (l, rest)"
  by (simp add: get_line_def takeWhile_tail dropWhile_append)

fun render :: "(string \<times> string) list \<Rightarrow> string" where
  "render [] = ''''"
| "render ((a, b) # es) = a @ LF # b @ LF # render es"

text \<open>Reading inverts writing when no name and no encrypted text contains a line end.\<close>

lemma read_render:
  "\<forall>(a, b)\<in>set es. LF \<notin> set a \<and> LF \<notin> set b \<Longrightarrow> read_file (length es) (render es) m = m ++ map_of (rev es)"
proof (induction es arbitrary: m)
  case (Cons e es)
  obtain a b where e: "e = (a, b)" by force
  have "read_file (length (e # es)) (render (e # es)) m = read_file (length es) (render es) (m(a \<mapsto> b))"
    using Cons.prems e by simp
  also have "\<dots> = m(a \<mapsto> b) ++ map_of (rev es)" using Cons by simp
  finally show ?case by (simp add: e map_add_assoc [symmetric] map_add_upd)
qed simp

lemma write_entries:
  "foldM (write_entry ev mem ed iv) es f0 = Some f \<Longrightarrow>
     \<exists>cs. f = f0 @ render (zip (map (entry_name \<circ> fst) es) cs) \<and>
       list_all2 (\<lambda>e c. Option.bind (encrypt ev mem ed iv (snd e)) (damage (fst e)) = Some c) es cs"
proof (induction es arbitrary: f0)
  case (Cons e es)
  from Cons.prems obtain f1 where f1: "write_entry ev mem ed iv e f0 = Some f1" "foldM (write_entry ev mem ed iv) es f1 = Some f"
    by (auto simp: bind_eq_Some_conv)
  then obtain d c where c: "encrypt ev mem ed iv (snd e) = Some d" "damage (fst e) d = Some c"
    and "f1 = f0 @ entry_name (fst e) @ [LF] @ c @ [LF]" by (auto simp: write_entry_def bind_eq_Some_conv)
  with f1 have c3: "foldM (write_entry ev mem ed iv) es (f0 @ entry_name (fst e) @ [LF] @ c @ [LF]) = Some f" by simp
  from Cons.IH [OF c3] obtain cs where
    "f = (f0 @ entry_name (fst e) @ [LF] @ c @ [LF]) @ render (zip (map (entry_name \<circ> fst) es) cs)"
    "list_all2 (\<lambda>e c. Option.bind (encrypt ev mem ed iv (snd e)) (damage (fst e)) = Some c) es cs" by blast
  then show ?case using c by (intro exI [of _ "c # cs"]) (simp add: comp_def)
qed simp

lemma entry_name_no_LF: "LF \<notin> set (entry_name i)"
proof -
  have "c \<noteq> LF" if "c \<in> set (dec_nat i)" for c
  proof -
    from dec_nat_digits [OF that] obtain d where "d < 10" "c = digit d" by blast
    then have "of_char c = 48 + d" by (simp add: digit_def)
    then show ?thesis by (auto simp: LF_def)
  qed
  then show ?thesis by (auto simp: entry_name_def LF_def)
qed

lemma file_roundtrip:
  assumes "write_file ev mem ed iv arr = Some f"
  obtains cs where "list_all2 (\<lambda>e c. Option.bind (encrypt ev mem ed iv (snd e)) (damage (fst e)) = Some c) (enumerate 0 arr) cs"
    and "\<forall>c\<in>set cs. LF \<notin> set c \<Longrightarrow>
      read_file (length arr) f Map.empty = map_of (rev (zip (map (entry_name \<circ> fst) (enumerate 0 arr)) cs))"
proof -
  obtain cs where cs: "f = render (zip (map (entry_name \<circ> fst) (enumerate 0 arr)) cs)"
    "list_all2 (\<lambda>e c. Option.bind (encrypt ev mem ed iv (snd e)) (damage (fst e)) = Some c) (enumerate 0 arr) cs"
    using write_entries assms unfolding write_file_def by fastforce
  let ?es = "zip (map (entry_name \<circ> fst) (enumerate 0 arr)) cs"
  have "length ?es = length arr" using list_all2_lengthD [OF cs(2)] by simp
  moreover have "LF \<notin> set a \<and> LF \<notin> set b" if "\<forall>c\<in>set cs. LF \<notin> set c" "(a, b) \<in> set ?es" for a b
  proof -
    have "a \<in> (entry_name \<circ> fst) ` set (enumerate 0 arr)" "b \<in> set cs"
      using set_zip_leftD [OF that(2)] set_zip_rightD [OF that(2)] by simp_all
    then show ?thesis using that(1) entry_name_no_LF by auto
  qed
  ultimately have "read_file (length arr) f Map.empty = map_of (rev ?es)" if "\<forall>c\<in>set cs. LF \<notin> set c"
    using read_render [of ?es Map.empty] that cs(1) by force
  with cs(2) show thesis using that by blast
qed

text \<open>A line end inside of an encrypted text cuts it short, and the rest is taken for the next name.\<close>

lemma file_cuts_text:
  "read_file 1 (render [(''miaoshu0'', ''ab'' @ LF # ''cd'')]) Map.empty ''miaoshu0'' = Some ''ab''"
  by (simp add: get_line_def LF_def)

end
