(* ===== verification/Spec2Isabelle.thy ===== *)
theory Spec2Isabelle
  imports Http_Server Tcp_Server Timer_Queue Log_Stream Turn_Taking Parallel_Algorithms
    Tomato_Clock Spreadsheet_Heap Prefix_Function Rss_Collector
    Locked_Containers Socket_Servers Lock_Free_Stack Media_Compressor Cell_Grids Process_Sync
    Thread_Pool Shared_Counter Coordination Text_Cipher
begin

text \<open>
  A verification library for the programs of this repository. Its largest program is \<^verbatim>\<open>myserver\<close>, an HTTP server
  on an event loop in the style of muduo; beside it stand an RSS collector (\<^verbatim>\<open>rss_b\<close>), a clock for the status
  bar (\<^verbatim>\<open>waybar_tomato_clock\<close>), a compressor for photos and films (\<^verbatim>\<open>cmd_ffmpeg\<close>), concurrent algorithms and
  containers (\<^verbatim>\<open>cpp_concurrency_2nd\<close>, \<^verbatim>\<open>any/concurrency\<close>), small servers and programs that synchronise processes
  (\<^verbatim>\<open>io_multiplexing\<close>, \<^verbatim>\<open>libev\<close>, \<^verbatim>\<open>socket\<close>, \<^verbatim>\<open>ipc\<close>, \<^verbatim>\<open>linux_program\<close>), and class templates (\<^verbatim>\<open>professional_cpp\<close>). All file names are relative to \<^verbatim>\<open>src/\<close>.

  \<^bold>\<open>How the server works.\<close> \<^verbatim>\<open>main.cpp\<close> starts an \<^verbatim>\<open>HttpServer\<close>, which owns a \<^verbatim>\<open>TcpServer\<close>. Its \<^verbatim>\<open>Acceptor\<close> accepts
  connections on the main loop; each gets a name and one of the loops of the thread pool, in rotation. A
  \<^verbatim>\<open>TcpConnection\<close> reads into an input \<^verbatim>\<open>Buffer\<close> and calls \<^verbatim>\<open>HttpServer::onMessage\<close>, which parses the request and sends
  the rendered response through the output buffer. Every loop polls its channels with epoll, keeps timers on
  a timerfd, and runs functors that other threads queue, which an eventfd announces.

  \<^bold>\<open>Theories of the server.\<close>
  \<^item> \<^theory_text>\<open>Prelude\<close>: machine integers, pieces of the standard library, decimal output, partial iteration; the locale
    \<open>machine\<close> (steps that may fail, an invariant, the one kind of step that does fail) for runs of schedules.
  \<^item> \<^theory_text>\<open>Net_Buffer\<close> (\<^verbatim>\<open>buffer.h\<close>, \<^verbatim>\<open>buffer.cpp\<close>): the vector with two indices. It refines a byte queue; this
    interface is the locale \<open>byte_queue\<close>, interpreted on the buffer as \<open>netbuf\<close>.
  \<^item> \<^theory_text>\<open>Time_Base\<close>, \<^theory_text>\<open>Timer_Queue\<close> (\<^verbatim>\<open>timestamp\<close>, \<^verbatim>\<open>timer\<close>, \<^verbatim>\<open>timer_queue\<close>): the ordered set of timers with the objects
    behind it; what an expiry runs, restarts and frees, and when the descriptor is armed.
  \<^item> \<^theory_text>\<open>Log_Stream\<close> (\<^verbatim>\<open>fixed_buffer.h\<close>, \<^verbatim>\<open>log_stream\<close>, \<^verbatim>\<open>logging\<close>): formatting and the emitted line.
  \<^item> \<^theory_text>\<open>Epoll_Poller\<close> (\<^verbatim>\<open>channel\<close>, \<^verbatim>\<open>poller\<close>, \<^verbatim>\<open>epoll_poller\<close>): registration mirrors the interest list of the kernel.
  \<^item> \<^theory_text>\<open>Event_Loop\<close> (\<^verbatim>\<open>event_loop\<close>, \<^verbatim>\<open>event_loop_thread\<close>, \<^verbatim>\<open>event_loop_threadpool\<close>, \<^verbatim>\<open>mythread\<close>): a step relation over
    the shared state, from the initial callback on; functors run in order and none waits for a wake-up that has been
    lost, but for those that the initial callback queues before \<^verbatim>\<open>loop()\<close>, which write none; the start handshake; rotation.
  \<^item> \<^theory_text>\<open>Tcp_Connection\<close> (\<^verbatim>\<open>tcp_connection\<close>): all handlers over a trace of effects. The kernel has received, in
    order, what was accepted for sending, less what the buffer still holds. What the owner of a connection may
    do in its callbacks is the locale \<open>connection_owner\<close>.
  \<^item> \<^theory_text>\<open>Tcp_Server\<close> (\<^verbatim>\<open>inet_address\<close>, \<^verbatim>\<open>mysocket\<close>, \<^verbatim>\<open>acceptor\<close>, \<^verbatim>\<open>tcp_server\<close>): addresses and the table of connections.
  \<^item> \<^theory_text>\<open>Http_Parser\<close>, \<^theory_text>\<open>Http_Server\<close> (\<^verbatim>\<open>http_request.h\<close>, \<^verbatim>\<open>http_context\<close>, \<^verbatim>\<open>http_response\<close>, \<^verbatim>\<open>http_server\<close>, \<^verbatim>\<open>main.cpp\<close>):
    parsing inverts printing, exactly which inputs make the parser return, and the answer that a complete
    request gets. The application is the locale \<open>http_app\<close>, a sublocale of \<open>connection_owner\<close>, interpreted on the
    handlers of \<^verbatim>\<open>main.cpp\<close> as \<open>myserver\<close>.

  \<^bold>\<open>Theories of the other programs.\<close>
  \<^item> \<^theory_text>\<open>Rss_Collector\<close> (\<^verbatim>\<open>rss_b/src/main.cpp\<close>): decoding, conversion of feeds, scheduling, storing, the main loop.
  \<^item> \<^theory_text>\<open>Tomato_Clock\<close> (\<^verbatim>\<open>waybar_tomato_clock\<close>): the clock, the clicker and the pipe between them.
  \<^item> \<^theory_text>\<open>Turn_Taking\<close> (\<^verbatim>\<open>LT_1195_fizzbuzz.cpp\<close>, \<^verbatim>\<open>LT_1115_foobar.cpp\<close>): five solutions under every schedule, with counters of
    32 bits and the bounds on \<open>n\<close> that they need. The locale \<open>sequenced\<close> (an invariant that fixes the next output and a
    step that is always possible, below the bound) gives their common correctness and is interpreted on each.
  \<^item> \<^theory_text>\<open>Parallel_Algorithms\<close>: parallel reduction, iteration, search and sorting equal the sequential ones; the searches end.
  \<^item> \<^theory_text>\<open>Locked_Containers\<close> (\<^verbatim>\<open>thread_safe_stack_queue.cpp\<close>, \<^verbatim>\<open>atomic_spinlock.cpp\<close>, the work stealing queue of
    \<^verbatim>\<open>thread_pool.cpp\<close>): order and wake-ups of the queue, exclusion of the lock.
  \<^item> \<^theory_text>\<open>Thread_Pool\<close> (\<^verbatim>\<open>thread_pool.cpp\<close>): the pools on these queues. The locales \<open>task_source\<close> (an attempt to get a task),
    \<open>two_sources\<close> (one attempt after the other is a source again, a sublocale) and \<open>complete_source\<close> (nothing is overlooked) are
    interpreted on the queues and on the combined search of each pool; the pool with work stealing, with its constructor, nested
    tasks and destructor, is a \<open>machine\<close> that runs every task at most once and never leaves its memory; its bad step is the
    race of the constructor, which extends the vector of queues while workers read it.
  \<^item> \<^theory_text>\<open>Shared_Counter\<close> (\<^verbatim>\<open>mutex_RAII.cpp\<close>, \<^verbatim>\<open>ch27_concurrency/main.cpp\<close>, \<^verbatim>\<open>ch18_concurrency.cpp\<close>): counters with and without
    a lock as a \<open>machine\<close> whose bad steps are overflows, the exchange of two guarded objects, readers and writers, lazy
    initialisation.
  \<^item> \<^theory_text>\<open>Coordination\<close> (the same files and \<^verbatim>\<open>atomic_spinlock.cpp\<close>): semaphore, barrier, latch, a producer and a consumer on the queue of
    \<^theory_text>\<open>Locked_Containers\<close> (its invariant excludes the deadlock), a search that is stopped, a published queue, a
    compare-exchange loop.
  \<^item> \<^theory_text>\<open>Lock_Free_Stack\<close> (\<^verbatim>\<open>lock_free_stack.cpp\<close>): compare-exchange loops of any number of threads on a heap of nodes. The
    stacks are linearizable, the one with shared pointers up to its data race on \<^verbatim>\<open>next\<close>, and the deferred deletion frees each popped node once and never one that another
    thread may still read; \<open>machine\<close> is interpreted on the three variants.
  \<^item> \<^theory_text>\<open>Socket_Servers\<close> (\<^verbatim>\<open>select_01.cpp\<close>, \<^verbatim>\<open>poll_01.cpp\<close>, \<^verbatim>\<open>epoll_01.cpp\<close>, \<^verbatim>\<open>01_server_epoll.cpp\<close>, \<^verbatim>\<open>02_server_select.c\<close>): the
    rounds of five servers over the answers of the kernel. The locale \<open>fd_server\<close> is what they have in common, that their tables
    are the open connections and every ready descriptor is dealt with exactly once; it is interpreted on each. \<open>exact_server\<close> adds
    that a round beyond the limits of the arrays has no result, interpreted on the first.
  \<^item> \<^theory_text>\<open>Process_Sync\<close> (\<^verbatim>\<open>02_shm_producer.c\<close>, \<^verbatim>\<open>02_shm_consumer.c\<close>, \<^verbatim>\<open>01_semaphore.c\<close>, \<^verbatim>\<open>semaphore_01.c\<close>): transfer of lines through
    shared memory, exclusion by a semaphore, and which semaphores are shared at all; again by \<open>machine\<close>.
  \<^item> \<^theory_text>\<open>Media_Compressor\<close> (\<^verbatim>\<open>ckb_ffmpeg_compress_mp4_and_jpg.m.cpp\<close>): what a scan does to the files.
  \<^item> \<^theory_text>\<open>Text_Cipher\<close> (\<^verbatim>\<open>encrypt_decrypt/main.cpp\<close>, \<^verbatim>\<open>Evp-symmetric-encrypt.c\<close>): buffers and results of an encryption over
    OpenSSL as a parameter, for which texts the buffer is too short, the round trip with a valid key pointer, the pointer that
    dangles after the constructor, and the file that the texts are kept in.
  \<^item> \<^theory_text>\<open>Cell_Grids\<close> (\<^verbatim>\<open>grid_v1.cc\<close>, \<^verbatim>\<open>grid_v2_template_template.cc\<close>, \<^verbatim>\<open>grid_v3_recursion.cc\<close>, \<^verbatim>\<open>GridImplementation.cc\<close>, \<^verbatim>\<open>template_param/grid.cc\<close>, \<^verbatim>\<open>meta_program.cc\<close>):
    type soundness of the grid of any dimension, the contract \<open>checked_grid\<close> of the four flat ones, wrap-around of the
    factorials.
  \<^item> \<^theory_text>\<open>Spreadsheet_Heap\<close> (\<^verbatim>\<open>ch09/Spreadsheet\<close>, \<^verbatim>\<open>ch12_template/grid.cc\<close>): raw ownership on an explicit heap refines plain
    values; the locale \<open>op_simulation\<close> lifts the steps to programs, interpreted as \<open>sheets\<close>.
  \<^item> \<^theory_text>\<open>Prefix_Function\<close> (\<^verbatim>\<open>any/kmp.cpp\<close>): the border table, and the search of the class that misuses it.

  \<^bold>\<open>Conventions.\<close> An object is a record, an enumeration a datatype. A \<^verbatim>\<open>size_t\<close> is a natural number below \<open>2 ^ 64\<close>
  with the wrap-around written out, 64-bit shifts are on words. \<open>None\<close> is a call that does not return normally:
  undefined behaviour, an abort, an uncaught exception or a loop without end; each theory says which. Threads
  are step relations, one step per access to shared state. System calls, the clock, the calendar, the rounding
  of floating-point numbers, the order of an unordered map, databases, the HTTP client and the XML parser are
  parameters; what is assumed of them is a named hypothesis of the theorem that needs it, with a witness.

  \<^bold>\<open>Termination and fuel.\<close> The parse loop and the inner loops of the prefix function are partial functions, and
  the theorems say when they return. The main loop of the collector runs for a number of rounds; it has no end in
  the source. Everything else is total.

  \<^bold>\<open>Not modelled.\<close> Console output and start-up code, destructors of the loop, the uring stub, weak memory (the
  step relations are sequentially consistent, as the mutexes and default atomics of the sources are; where plain accesses race,
  the theory says so), running
  out of memory, and signed overflow outside the places where it is an explicit case. The vendored libraries and
  the exercises that only call the C library, print the behaviour of the language or drive a third-party
  library have no logic of their own. The lock-free stacks with hazard pointers and split counts and the interruptible thread of
  \<^verbatim>\<open>thread_pool.cpp\<close> are sketches that lack the functions they call. The five small servers and the programs with shared
  memory are modelled from the point where their sockets and segments exist; a copy by \<^verbatim>\<open>strncpy\<close> is one step.
\<close>

end
